(* ===== verification/Athena_Prelude.thy ===== *)
theory Athena_Prelude
  imports Main "HOL-Library.Word"
begin

unbundle bit_operations_syntax

text \<open>
  Shared vocabulary of the development: the fixed-width integer types of
  src/core/common/BaseType.h, blocks of memory as byte lists with the two accesses
  that memcpy performs on them, arithmetic of indices modulo a capacity, and the
  theorem collections that the component theories fill and use.
\<close>

section \<open>Types\<close>

type_synonym byte = "8 word"
type_synonym u16 = "16 word"
type_synonym u32 = "32 word"
type_synonym u64 = "64 word"

text \<open>Signed integers have the same representation; they are read with \<open>sint\<close>.\<close>

type_synonym i32 = "32 word"
type_synonym i64 = "64 word"

named_theorems ring_view \<open>word-level ring operations read as natural numbers\<close>
named_theorems chan_simps \<open>what a channel operation leaves unchanged\<close>

section \<open>Blocks of memory\<close>

text \<open>
  A block is the list of its bytes. \<open>poke\<close> is a memcpy into the block at an offset and
  \<open>mem_slice\<close> a memcpy out of it. Both are total: an access that leaves the block shows up
  as a block of another length, or as a slice that is too short, so the length facts proved
  of the operations are their memory safety.
\<close>

definition poke :: "'a list \<Rightarrow> nat \<Rightarrow> 'a list \<Rightarrow> 'a list" where
  "poke buf off bs = take off buf @ bs @ drop (off + length bs) buf"

definition mem_slice :: "'a list \<Rightarrow> nat \<Rightarrow> nat \<Rightarrow> 'a list" where
  "mem_slice buf off n = take n (drop off buf)"

lemma length_poke [simp]:
  "off + length bs \<le> length buf \<Longrightarrow> length (poke buf off bs) = length buf"
  by (simp add: poke_def)

lemma length_slice [simp]: "off + n \<le> length buf \<Longrightarrow> length (mem_slice buf off n) = n"
  by (simp add: mem_slice_def)

lemma nth_slice: "off + n \<le> length buf \<Longrightarrow> i < n \<Longrightarrow> mem_slice buf off n ! i = buf ! (off + i)"
  by (simp add: mem_slice_def)

lemma nth_poke:
  assumes "off + length bs \<le> length buf" and "i < length buf"
  shows "poke buf off bs ! i =
    (if off \<le> i \<and> i < off + length bs then bs ! (i - off) else buf ! i)"
  using assms by (auto simp: poke_def nth_append)

lemma poke_poke:
  "length a + length b \<le> length buf \<Longrightarrow> poke (poke buf 0 a) (length a) b = poke buf 0 (a @ b)"
  by (simp add: poke_def add.commute)

lemma take_poke [simp]: "take (length bs) (poke buf 0 bs) = bs"
  by (simp add: poke_def)

lemma poke_Nil [simp]: "poke buf off [] = buf"
  by (simp add: poke_def)

section \<open>Indices modulo a capacity\<close>

text \<open>The distance from index \<open>h\<close> up to index \<open>t\<close> around a ring of \<open>c\<close> cells.\<close>

definition ring_dist :: "nat \<Rightarrow> nat \<Rightarrow> nat \<Rightarrow> nat" where
  "ring_dist c h t = (t + c - h) mod c"

lemma mod_below_twice: "(a::nat) < 2 * c \<Longrightarrow> a mod c = (if a < c then a else a - c)"
  by (auto simp: mod_if)

lemma ring_dist_less: "0 < c \<Longrightarrow> ring_dist c h t < c"
  by (simp add: ring_dist_def)

lemma ring_dist_same [simp]: "ring_dist c h h = 0"
  by (simp add: ring_dist_def)

lemma ring_dist_cases:
  "h < c \<Longrightarrow> t < c \<Longrightarrow> ring_dist c h t = (if h \<le> t then t - h else t + c - h)"
  by (auto simp: ring_dist_def mod_below_twice)

lemma ring_dist_tail:
  assumes "h < c" "t < c" "ring_dist c h t + n < c"
  shows "ring_dist c h ((t + n) mod c) = ring_dist c h t + n"
proof -
  have n: "n < c" using assms(3) by simp
  have m: "(t + n) mod c = (if t + n < c then t + n else t + n - c)"
    using assms n by (simp add: mod_below_twice)
  show ?thesis
  proof (cases "t + n < c")
    case True
    then show ?thesis using assms m by (auto simp: ring_dist_cases split: if_splits)
  next
    case False
    have "t + n - c < c" using assms(2) n by simp
    moreover have "(t + n) mod c = t + n - c" using m False by simp
    ultimately show ?thesis using assms False n
      by (auto simp: ring_dist_cases split: if_splits)
  qed
qed

lemma ring_dist_head:
  assumes "h < c" "t < c" "n \<le> ring_dist c h t"
  shows "ring_dist c ((h + n) mod c) t = ring_dist c h t - n"
proof -
  have n: "n < c" using assms ring_dist_less [of c h t] by simp
  have m: "(h + n) mod c = (if h + n < c then h + n else h + n - c)"
    using assms n by (simp add: mod_below_twice)
  show ?thesis
  proof (cases "h + n < c")
    case True
    then show ?thesis using assms m by (auto simp: ring_dist_cases split: if_splits)
  next
    case False
    have "h + n - c < c" using assms(1) n by simp
    moreover have "(h + n) mod c = h + n - c" using m False by simp
    ultimately show ?thesis using assms False n
      by (auto simp: ring_dist_cases split: if_splits)
  qed
qed

lemma ring_dist_add: "h < c \<Longrightarrow> t < c \<Longrightarrow> (h + ring_dist c h t) mod c = t"
  by (auto simp: ring_dist_cases)

text \<open>Two offsets from the same index that name the same cell are equal.\<close>

lemma ring_index_inj:
  assumes "(h + i) mod c = (h + j) mod c" "i < c" "j < c"
  shows "i = (j::nat)"
proof -
  have "\<And>i j. (h + i) mod c = (h + j) mod c \<Longrightarrow> i < c \<Longrightarrow> j < c \<Longrightarrow> i \<le> j \<Longrightarrow> i = j"
  proof -
    fix i j
    assume a: "(h + i) mod c = (h + j) mod c" "i < c" "j < c" "i \<le> j"
    then have "c dvd (h + j) - (h + i)" by (metis mod_eq_dvd_iff_nat add_le_cancel_left)
    then have "c dvd j - i" by simp
    then show "i = j" using a by (auto dest: dvd_imp_le)
  qed
  from this [of i j] this [of j i] assms show ?thesis by (cases "i \<le> j") auto
qed

section \<open>The window of a ring\<close>

definition window :: "'a list \<Rightarrow> nat \<Rightarrow> nat \<Rightarrow> 'a list" where
  "window buf h n = map (\<lambda>i. buf ! ((h + i) mod length buf)) [0..<n]"

lemma length_window [simp]: "length (window buf h n) = n"
  by (simp add: window_def)

lemma window_0 [simp]: "window buf h 0 = []"
  by (simp add: window_def)

lemma nth_window: "i < n \<Longrightarrow> window buf h n ! i = buf ! ((h + i) mod length buf)"
  by (simp add: window_def)

lemma window_append:
  "window buf h (m + n) = window buf h m @ window buf ((h + m) mod length buf) n"
proof (rule nth_equalityI)
  fix i
  assume "i < length (window buf h (m + n))"
  then have i: "i < m + n" by simp
  show "window buf h (m + n) ! i = (window buf h m @ window buf ((h + m) mod length buf) n) ! i"
  proof (cases "i < m")
    case True
    then show ?thesis using i by (simp add: nth_append nth_window)
  next
    case False
    then have "((h + m) mod length buf + (i - m)) mod length buf = (h + i) mod length buf"
      by (subst mod_add_left_eq) simp
    then show ?thesis using i False by (simp add: nth_append nth_window)
  qed
qed simp

lemma take_window: "n \<le> m \<Longrightarrow> take n (window buf h m) = window buf h n"
  by (simp add: window_def take_map)

lemma drop_window:
  "n \<le> m \<Longrightarrow> drop n (window buf h m) = window buf ((h + n) mod length buf) (m - n)"
  using window_append [of buf h n "m - n"] by simp

text \<open>A window that does not wrap is a slice; one that does is two.\<close>

lemma window_slice: "h + n \<le> length buf \<Longrightarrow> window buf h n = mem_slice buf h n"
  by (cases "n = 0") (auto intro!: nth_equalityI simp: nth_window nth_slice mem_slice_def)

lemma window_wrap:
  assumes "h < length buf" "n \<le> length buf"
  shows "window buf h n =
    mem_slice buf h (min n (length buf - h)) @ mem_slice buf 0 (n - min n (length buf - h))"
proof (cases "h + n \<le> length buf")
  case True
  then show ?thesis by (simp add: window_slice min_absorb1) (simp add: mem_slice_def)
next
  case False
  let ?m = "length buf - h"
  have "window buf h n = window buf h (?m + (n - ?m))" using False by simp
  also have "\<dots> = window buf h ?m @ window buf 0 (n - ?m)"
    using assms by (subst window_append) simp
  finally show ?thesis using assms False by (simp add: window_slice min_absorb2)
qed

section \<open>Writing around the end of a ring\<close>

lemma ring_dist_shift:
  assumes "h < c" "d < c" "i < c"
  shows "ring_dist c ((h + d) mod c) ((h + i) mod c) = ring_dist c d i"
proof -
  have "(h + d) mod c < c" "(h + i) mod c < c" using assms by simp_all
  moreover have "(h + d) mod c = (if h + d < c then h + d else h + d - c)"
    "(h + i) mod c = (if h + i < c then h + i else h + i - c)"
    using assms by (simp_all add: mod_below_twice)
  ultimately show ?thesis using assms by (auto simp: ring_dist_cases split: if_splits)
qed

definition ring_poke :: "'a list \<Rightarrow> nat \<Rightarrow> 'a list \<Rightarrow> 'a list" where
  "ring_poke buf t bs =
    (let first = min (length bs) (length buf - t)
     in poke (poke buf t (take first bs)) 0 (drop first bs))"

lemma length_ring_poke [simp]:
  "t < length buf \<Longrightarrow> length bs \<le> length buf \<Longrightarrow> length (ring_poke buf t bs) = length buf"
  by (simp add: ring_poke_def Let_def min_def)

lemma nth_ring_poke:
  assumes "t < length buf" "length bs \<le> length buf" "j < length buf"
  shows "ring_poke buf t bs ! j =
    (let k = ring_dist (length buf) t j in if k < length bs then bs ! k else buf ! j)"
proof -
  have 1: "t + length (take (min (length bs) (length buf - t)) bs) \<le> length buf"
    using assms by simp
  have 2: "0 + length (drop (min (length bs) (length buf - t)) bs) \<le> length buf"
    using assms by simp
  show ?thesis
    using assms 1 2 by (auto simp: ring_poke_def Let_def nth_poke ring_dist_cases min_def add.commute)
qed

lemma window_ring_poke:
  assumes "h < length buf" "d + length bs \<le> length buf" "d < length buf"
  shows "window (ring_poke buf ((h + d) mod length buf) bs) h (d + length bs) =
    window buf h d @ bs"
proof (rule nth_equalityI)
  fix i
  let ?c = "length buf"
  assume "i < length (window (ring_poke buf ((h + d) mod ?c) bs) h (d + length bs))"
  then have i: "i < d + length bs" by simp
  then have ic: "i < ?c" using assms by simp
  have "0 < ?c" using assms(1) by linarith
  then have t: "(h + d) mod ?c < ?c" "(h + i) mod ?c < ?c" by (simp_all only: mod_less_divisor)
  have "length (ring_poke buf ((h + d) mod ?c) bs) = ?c" using assms t by simp
  then have "window (ring_poke buf ((h + d) mod ?c) bs) h (d + length bs) ! i =
      ring_poke buf ((h + d) mod ?c) bs ! ((h + i) mod ?c)"
    using i by (simp add: nth_window)
  also have "\<dots> = (if ring_dist ?c d i < length bs then bs ! ring_dist ?c d i
      else buf ! ((h + i) mod ?c))"
    using t assms ic by (simp add: nth_ring_poke ring_dist_shift)
  also have "\<dots> = (window buf h d @ bs) ! i"
    using assms i ic by (auto simp: nth_append nth_window ring_dist_cases)
  finally show "window (ring_poke buf ((h + d) mod ?c) bs) h (d + length bs) ! i =
    (window buf h d @ bs) ! i" .
qed simp

section \<open>Words\<close>

lemma unat_less_2p64: "unat (x::u64) < 2 ^ 64"
  using unsigned_less [of x] by simp

lemma bit_word_nat: "bit (w::'a::len word) j \<longleftrightarrow> odd (unat w div 2 ^ j)"
proof -
  have "bit (unat w) j \<longleftrightarrow> bit w j" by (simp add: bit_unsigned_iff)
  then show ?thesis by (simp add: bit_iff_odd)
qed

lemma unat_min: "unat (min a b) = min (unat a) (unat (b::'a::len word))"
  by (simp add: min_def word_le_nat_alt)

lemma unat_word_of_nat_u64: "n < 2 ^ 64 \<Longrightarrow> unat (word_of_nat n :: u64) = n"
  by (simp add: unat_of_nat take_bit_nat_eq_self)

lemma unat_exp_u64:
  assumes "k < 64"
  shows "unat (2 ^ k :: u64) = 2 ^ k"
proof -
  have "(2::nat) ^ k < 2 ^ 64" using assms by (intro power_strict_increasing) auto
  then have "unat (word_of_nat (2 ^ k) :: u64) = 2 ^ k" by (rule unat_word_of_nat_u64)
  then show ?thesis by simp
qed

text \<open>Masking with \<open>2 ^ k - 1\<close> is reduction modulo \<open>2 ^ k\<close>, also when the sum or the
  difference has wrapped around at 64 bits.\<close>

lemma unat_masked: "k \<le> 64 \<Longrightarrow> unat ((x::u64) AND mask k) = unat x mod 2 ^ k"
  by (simp flip: take_bit_eq_mask take_bit_eq_mod add: unsigned_take_bit_eq)

lemma unat_masked_add:
  assumes "k \<le> 64"
  shows "unat (((x::u64) + y) AND mask k) = (unat x + unat y) mod 2 ^ k"
proof -
  have "(2::nat) ^ k dvd 2 ^ 64" using assms by (rule le_imp_power_dvd)
  then have "(unat x + unat y) mod 2 ^ 64 mod 2 ^ k = (unat x + unat y) mod 2 ^ k"
    by (rule mod_mod_cancel)
  then show ?thesis using assms by (simp add: unat_masked unat_word_ariths)
qed

lemma unat_masked_sub:
  assumes "k \<le> 64" "unat (x::u64) < 2 ^ k" "unat y < 2 ^ k"
  shows "unat ((x - y) AND mask k) = ring_dist (2 ^ k) (unat y) (unat x)"
proof (cases "unat y \<le> unat x")
  case True
  then show ?thesis using assms
    by (simp add: unat_masked unat_sub_if' ring_dist_cases)
next
  case False
  have e: "(2::nat) ^ 64 = 2 ^ (64 - k) * 2 ^ k" using assms(1) by (simp flip: power_add)
  moreover have "(2::nat) ^ (64 - k) = 1 + (2 ^ (64 - k) - 1)" by simp
  ultimately have "(2::nat) ^ 64 = 2 ^ k + (2 ^ (64 - k) - 1) * 2 ^ k"
    by (metis add_mult_distrib mult_1)
  then have "unat x + 2 ^ 64 - unat y = (unat x + 2 ^ k - unat y) + (2 ^ (64 - k) - 1) * 2 ^ k"
    using assms by linarith
  then have "(unat x + 2 ^ 64 - unat y) mod 2 ^ k = (unat x + 2 ^ k - unat y) mod 2 ^ k"
    by (simp only: mod_mult_self1)
  then show ?thesis using assms False
    by (simp add: unat_masked unat_sub_if' ring_dist_def)
qed

lemma unat_ucast_u32: "unat (n::u64) < 2 ^ 32 \<Longrightarrow> unat (ucast n :: u32) = unat n"
  by (simp add: unsigned_ucast_eq take_bit_nat_eq_self)

lemma unat_word_of_nat_u32: "n < 2 ^ 32 \<Longrightarrow> unat (word_of_nat n :: u32) = n"
  by (simp add: unat_of_nat take_bit_nat_eq_self)

lemma sint_small:
  assumes "unat (w::i32) < 2 ^ 31"
  shows "sint w = int (unat w)"
proof -
  have "int (unat w) < int (2 ^ 31)" using assms by (simp only: of_nat_less_iff)
  then have u: "uint w < 2 ^ 31" by simp
  have "sint w = signed_take_bit 31 (uint w)" by (simp add: sint_uint)
  also have "\<dots> = uint w"
    using u by (intro signed_take_bit_int_eq_self) (auto intro: order_trans [of _ 0])
  finally show ?thesis by simp
qed

text \<open>A 32-bit int converted to size_t keeps a non-negative value.\<close>

lemma scast_small:
  assumes "unat (w::i32) < 2 ^ 31"
  shows "(scast w :: u64) = word_of_nat (unat w)"
proof -
  have "(scast w :: u64) = word_of_int (sint w)" by (rule scast_eq)
  also have "\<dots> = word_of_int (int (unat w))" by (simp only: sint_small [OF assms])
  finally show ?thesis by (simp only: of_int_of_nat_eq)
qed

lemma scast_of_nat:
  assumes "n < 2 ^ 31"
  shows "(scast (word_of_nat n :: i32) :: u64) = word_of_nat n"
proof -
  have "n < 2 ^ 32" using assms by simp
  then have u: "unat (word_of_nat n :: i32) = n" by (rule unat_word_of_nat_u32)
  then have "unat (word_of_nat n :: i32) < 2 ^ 31" using assms by (simp only:)
  from scast_small [OF this] show ?thesis by (simp only: u)
qed

end
