(* ===== verification/Bounded_Fifo.thy ===== *)
theory Bounded_Fifo
  imports Athena_Prelude
begin

text \<open>
  The contract of the bounded queues of src/core/common (RingByteBuf, RingBuffer): an
  all-or-nothing \<open>put\<close> against a limit, a \<open>get\<close> that removes from the front, and what
  any client sees of a queue it drives by a sequence of such calls.
\<close>

section \<open>Runs of commands\<close>

datatype 'a fifo_cmd = Put "'a list" | Get nat

text \<open>What was accepted, what was handed out, and the queue afterwards.\<close>

primrec fifo_run ::
  "('a list \<Rightarrow> 'r \<Rightarrow> bool \<times> 'r) \<Rightarrow> (nat \<Rightarrow> 'r \<Rightarrow> 'a list \<times> 'r) \<Rightarrow> 'a fifo_cmd list \<Rightarrow> 'r \<Rightarrow>
    'a list \<times> 'a list \<times> 'r"
where
  "fifo_run put get [] r = ([], [], r)"
| "fifo_run put get (c # cs) r =
    (case c of
       Put xs \<Rightarrow>
         (case put xs r of (ok, r1) \<Rightarrow>
            (case fifo_run put get cs r1 of (acc, out, r2) \<Rightarrow>
               ((if ok then xs else []) @ acc, out, r2)))
     | Get n \<Rightarrow>
         (case get n r of (ys, r1) \<Rightarrow>
            (case fifo_run put get cs r1 of (acc, out, r2) \<Rightarrow> (acc, ys @ out, r2))))"

primrec cmd_size :: "'a fifo_cmd \<Rightarrow> nat" where
  "cmd_size (Put xs) = length xs"
| "cmd_size (Get n) = n"

section \<open>The contract\<close>

locale bounded_fifo =
  fixes inv :: "'r \<Rightarrow> bool"
    and contents :: "'r \<Rightarrow> 'a list"
    and limit :: "'r \<Rightarrow> nat"
    and put :: "'a list \<Rightarrow> 'r \<Rightarrow> bool \<times> 'r"
    and get :: "nat \<Rightarrow> 'r \<Rightarrow> 'a list \<times> 'r"
    and arg_bound :: nat
  assumes contents_limit: "inv r \<Longrightarrow> length (contents r) \<le> limit r"
    and put_inv: "inv r \<Longrightarrow> length xs < arg_bound \<Longrightarrow> inv (snd (put xs r))"
    and put_limit: "inv r \<Longrightarrow> length xs < arg_bound \<Longrightarrow> limit (snd (put xs r)) = limit r"
    and put_accepts: "inv r \<Longrightarrow> length xs < arg_bound \<Longrightarrow>
      fst (put xs r) \<longleftrightarrow> length (contents r) + length xs \<le> limit r"
    and put_contents: "inv r \<Longrightarrow> length xs < arg_bound \<Longrightarrow>
      contents (snd (put xs r)) = contents r @ (if fst (put xs r) then xs else [])"
    and get_inv: "inv r \<Longrightarrow> n < arg_bound \<Longrightarrow> inv (snd (get n r))"
    and get_limit: "inv r \<Longrightarrow> n < arg_bound \<Longrightarrow> limit (snd (get n r)) = limit r"
    and get_contents: "inv r \<Longrightarrow> n < arg_bound \<Longrightarrow>
      fst (get n r) @ contents (snd (get n r)) = contents r"
    and get_length: "inv r \<Longrightarrow> n < arg_bound \<Longrightarrow> length (fst (get n r)) \<le> n"
    and get_full: "inv r \<Longrightarrow> n < arg_bound \<Longrightarrow> n \<le> length (contents r) \<Longrightarrow>
      length (fst (get n r)) = n"
begin

lemma get_take:
  assumes "inv r" "n < arg_bound" "n \<le> length (contents r)"
  shows "fst (get n r) = take n (contents r)" "contents (snd (get n r)) = drop n (contents r)"
proof -
  have e: "contents r = fst (get n r) @ contents (snd (get n r))" "length (fst (get n r)) = n"
    using get_contents [OF assms(1,2)] get_full [OF assms] by simp_all
  show "fst (get n r) = take n (contents r)" by (subst e(1)) (simp add: e(2))
  show "contents (snd (get n r)) = drop n (contents r)" by (subst e(1)) (simp add: e(2))
qed

text \<open>Nothing is lost, duplicated or reordered, and the limit holds throughout.\<close>

lemma run_fifo:
  assumes "inv r" "\<forall>c \<in> set cs. cmd_size c < arg_bound" "fifo_run put get cs r = (acc, out, r')"
  shows "inv r' \<and> limit r' = limit r \<and> contents r @ acc = out @ contents r'"
  using assms
proof (induction cs arbitrary: r acc out r')
  case Nil
  then show ?case by simp
next
  case (Cons c cs)
  show ?case
  proof (cases c)
    case (Put xs)
    obtain ok r1 where p: "put xs r = (ok, r1)" by fastforce
    obtain acc1 out1 r2 where q: "fifo_run put get cs r1 = (acc1, out1, r2)" by (metis prod_cases3)
    have xs: "length xs < arg_bound" using Cons.prems(2) Put by simp
    have "inv r1" "limit r1 = limit r" "contents r1 = contents r @ (if ok then xs else [])"
      using put_inv [OF Cons.prems(1) xs] put_limit [OF Cons.prems(1) xs]
        put_contents [OF Cons.prems(1) xs] p by simp_all
    then show ?thesis using Cons.IH [OF _ _ q] Cons.prems Put p q by auto
  next
    case (Get n)
    obtain ys r1 where p: "get n r = (ys, r1)" by fastforce
    obtain acc1 out1 r2 where q: "fifo_run put get cs r1 = (acc1, out1, r2)" by (metis prod_cases3)
    have n: "n < arg_bound" using Cons.prems(2) Get by simp
    have "inv r1" "limit r1 = limit r" "contents r = ys @ contents r1"
      using get_inv [OF Cons.prems(1) n] get_limit [OF Cons.prems(1) n]
        get_contents [OF Cons.prems(1) n] p by simp_all
    then show ?thesis using Cons.IH [OF _ _ q] Cons.prems Get p q by auto
  qed
qed

lemma run_prefix:
  assumes "inv r" "contents r = []" "\<forall>c \<in> set cs. cmd_size c < arg_bound"
    "fifo_run put get cs r = (acc, out, r')"
  shows "acc = out @ contents r'"
  using run_fifo [OF assms(1,3,4)] assms(2) by simp

text \<open>Asking for everything drains the queue.\<close>

lemma drain:
  assumes "inv r" "length (contents r) < arg_bound"
  shows "fst (get (length (contents r)) r) = contents r"
    "contents (snd (get (length (contents r)) r)) = []"
  using get_take [OF assms] by simp_all

end

end
