(* ===== verification/Ring_Buffer.thy ===== *)
theory Ring_Buffer
  imports Bounded_Fifo
begin

unbundle bit_operations_syntax

text \<open>
  The byte ring of src/core/common/RingByteBuf.h and RingByteBuf.cpp: construction, moves,
  the copying and the zero-copy accesses, and the correspondence of the masked 64-bit
  indices with a queue of bytes. The memory of the ring is the list \<open>rb_buf\<close> (the empty
  list for a null pointer), and \<open>size_t\<close> is a 64-bit word.
\<close>

section \<open>Rounding up to a power of two\<close>

definition ceilToPowerOfTwo :: "u64 \<Rightarrow> u64" where
  "ceilToPowerOfTwo n =
    (if n \<le> 2 then (if n < 1 then 2 else n)
     else
       let n = n - 1;
           n = n OR drop_bit 1 n;
           n = n OR drop_bit 2 n;
           n = n OR drop_bit 4 n;
           n = n OR drop_bit 8 n;
           n = n OR drop_bit 16 n;
           n = n OR drop_bit 32 n
       in n + 1)"

text \<open>After the steps up to shift \<open>w / 2\<close>, bit \<open>i\<close> is set when one of the \<open>w\<close> bits from
  \<open>i\<close> upwards was set at the start.\<close>

definition smeared :: "nat \<Rightarrow> u64 \<Rightarrow> u64 \<Rightarrow> bool" where
  "smeared w m r \<longleftrightarrow> (\<forall>i. bit r i \<longleftrightarrow> (\<exists>j<w. bit m (i + j)))"

lemma smeared_refl: "smeared 1 m m"
  by (simp add: smeared_def)

lemma smeared_step:
  assumes "smeared w m r"
  shows "smeared (2 * w) m (r OR drop_bit w r)"
proof -
  have "bit (r OR drop_bit w r) i \<longleftrightarrow> (\<exists>j<2 * w. bit m (i + j))" for i
  proof
    assume "bit (r OR drop_bit w r) i"
    then have "bit r i \<or> bit r (w + i)" by (simp add: bit_or_iff bit_drop_bit_eq)
    then show "\<exists>j<2 * w. bit m (i + j)"
    proof
      assume "bit r i"
      then obtain j where "j < w" "bit m (i + j)" using assms by (auto simp: smeared_def)
      then show ?thesis by (intro exI [of _ j]) simp
    next
      assume "bit r (w + i)"
      then obtain j where "j < w" "bit m (w + i + j)" using assms by (auto simp: smeared_def)
      then show ?thesis by (intro exI [of _ "w + j"]) (simp add: ac_simps)
    qed
  next
    assume "\<exists>j<2 * w. bit m (i + j)"
    then obtain j where j: "j < 2 * w" "bit m (i + j)" by blast
    show "bit (r OR drop_bit w r) i"
    proof (cases "j < w")
      case True
      then have "bit r i" using j assms by (auto simp: smeared_def)
      then show ?thesis by (simp add: bit_or_iff)
    next
      case False
      then have "j - w < w" "bit m (w + i + (j - w))" using j by (simp_all add: ac_simps)
      then have "bit r (w + i)" using assms unfolding smeared_def by blast
      then show ?thesis by (simp add: bit_or_iff bit_drop_bit_eq)
    qed
  qed
  then show ?thesis by (simp add: smeared_def)
qed

lemma smeared_mask:
  assumes "smeared 64 m r" and top: "2 ^ k \<le> unat m" "unat m < 2 ^ Suc k" and k: "k < 64"
  shows "r = mask (Suc k)"
proof (rule bit_word_eqI)
  fix i
  assume i: "i < LENGTH(64)"
  have high: "\<not> bit m j" if "k < j" for j
  proof -
    have "(2::nat) ^ Suc k \<le> 2 ^ j" using that by (intro power_increasing) auto
    then have "unat m < 2 ^ j" using top(2) by linarith
    then show ?thesis by (simp add: bit_word_nat)
  qed
  have "unat m div 2 ^ k = 1" using top by (intro div_nat_eqI) auto
  then have kbit: "bit m k" by (simp add: bit_word_nat)
  show "bit r i = bit (mask (Suc k) :: u64) i"
  proof (cases "i \<le> k")
    case True
    then have "\<exists>j<64. bit m (i + j)" using kbit k by (intro exI [of _ "k - i"]) simp
    then show ?thesis using True i assms(1) by (simp add: smeared_def bit_mask_iff)
  next
    case False
    then show ?thesis using i assms(1) high by (simp add: smeared_def bit_mask_iff)
  qed
qed

lemma exists_power_bracket:
  assumes "1 \<le> (m::nat)"
  shows "\<exists>k. 2 ^ k \<le> m \<and> m < 2 ^ Suc k"
  using assms
proof (induction m rule: nat_induct_at_least)
  case base
  show ?case by (intro exI [of _ 0]) simp
next
  case (Suc m)
  then obtain k where k: "2 ^ k \<le> m" "m < 2 ^ Suc k" by blast
  show ?case
  proof (cases "Suc m < 2 ^ Suc k")
    case True
    then show ?thesis using k by (intro exI [of _ k]) simp
  next
    case False
    then show ?thesis using k by (intro exI [of _ "Suc k"]) simp
  qed
qed

text \<open>Above 2 and up to \<open>2 ^ 63\<close> the result is the power of two above \<open>n - 1\<close>.\<close>

lemma ceilToPowerOfTwo_big:
  assumes "2 < n" "unat n \<le> 2 ^ 63"
  shows "\<exists>k. 0 < k \<and> k < 64 \<and> unat (ceilToPowerOfTwo n) = 2 ^ k \<and> 2 ^ (k - 1) < unat n \<and> unat n \<le> 2 ^ k"
proof -
  have n: "2 < unat n" using assms(1) by (simp add: word_less_nat_alt)
  define m where "m = n - 1"
  have m: "unat m = unat n - 1" using n by (simp add: m_def unat_sub_if' )
  have "1 \<le> unat m" using n m by simp
  then obtain k where k: "2 ^ k \<le> unat m" "unat m < 2 ^ Suc k"
    using exists_power_bracket by blast
  have "(2::nat) ^ k < 2 ^ 63" using k(1) m n assms(2) by linarith
  then have k63: "k < 63" by (rule power_less_imp_less_exp [rotated]) simp
  let ?r1 = "m OR drop_bit 1 m" let ?r2 = "?r1 OR drop_bit 2 ?r1"
  let ?r4 = "?r2 OR drop_bit 4 ?r2" let ?r8 = "?r4 OR drop_bit 8 ?r4"
  let ?r16 = "?r8 OR drop_bit 16 ?r8" let ?r32 = "?r16 OR drop_bit 32 ?r16"
  have "smeared 2 m ?r1" using smeared_step [OF smeared_refl] by simp
  from smeared_step [OF this] have "smeared 4 m ?r2" by simp
  from smeared_step [OF this] have "smeared 8 m ?r4" by simp
  from smeared_step [OF this] have "smeared 16 m ?r8" by simp
  from smeared_step [OF this] have "smeared 32 m ?r16" by simp
  from smeared_step [OF this] have "smeared 64 m ?r32" by simp
  from smeared_mask [OF this k] k63 have r: "?r32 = mask (Suc k)" by simp
  have "\<not> n \<le> 2" using assms(1) by simp
  then have "ceilToPowerOfTwo n = ?r32 + 1"
    unfolding ceilToPowerOfTwo_def Let_def m_def [symmetric] by simp
  then have "ceilToPowerOfTwo n = 2 ^ Suc k" unfolding r by (simp add: mask_eq_exp_minus_1)
  then have "unat (ceilToPowerOfTwo n) = 2 ^ Suc k"
    using k63 by (simp only: unat_exp_u64)
  then show ?thesis using k m n k63 by (intro exI [of _ "Suc k"]) (simp, linarith)
qed

section \<open>The state and its construction\<close>

record rbb =
  rb_buf :: "byte list"
  rb_cap :: u64
  rb_mask :: u64
  rb_head :: u64
  rb_tail :: u64

text \<open>What construction can throw.\<close>

datatype rb_error = Invalid_argument | Bad_alloc

text \<open>
  The allocator (je_malloc: mimalloc, jemalloc or libc malloc by build option) is the
  argument \<open>alloc\<close>; \<open>None\<close> is the null pointer.
\<close>

definition rb_new :: "(u64 \<Rightarrow> byte list option) \<Rightarrow> u64 \<Rightarrow> rb_error + rbb" where
  "rb_new alloc capacity =
    (if capacity = 0 \<or> capacity > (- 1) div 2 then Inl Invalid_argument
     else
       let cap = ceilToPowerOfTwo (capacity + 1);
           mask = cap - 1
       in case alloc cap of
            None \<Rightarrow> Inl Bad_alloc
          | Some b \<Rightarrow> Inr \<lparr>rb_buf = b, rb_cap = cap, rb_mask = mask, rb_head = 0, rb_tail = 0\<rparr>)"

text \<open>What a move leaves behind.\<close>

definition rb_moved_from :: rbb where
  "rb_moved_from = \<lparr>rb_buf = [], rb_cap = 0, rb_mask = 0, rb_head = 0, rb_tail = 0\<rparr>"

text \<open>Move construction gives the new object and the source; move assignment takes whether
  source and target are the same object, and gives the target and the source.\<close>

definition rb_move :: "rbb \<Rightarrow> rbb \<times> rbb" where
  "rb_move other =
    (\<lparr>rb_buf = rb_buf other, rb_cap = rb_cap other, rb_mask = rb_mask other,
      rb_head = rb_head other, rb_tail = rb_tail other\<rparr>,
     other\<lparr>rb_buf := [], rb_cap := 0, rb_mask := 0, rb_head := 0, rb_tail := 0\<rparr>)"

definition rb_move_assign :: "bool \<Rightarrow> rbb \<Rightarrow> rbb \<Rightarrow> rbb \<times> rbb" where
  "rb_move_assign same this other =
    (if same then (this, this)
     else
       (this\<lparr>rb_buf := rb_buf other, rb_cap := rb_cap other, rb_mask := rb_mask other,
             rb_head := rb_head other, rb_tail := rb_tail other\<rparr>,
        other\<lparr>rb_buf := [], rb_cap := 0, rb_mask := 0, rb_head := 0, rb_tail := 0\<rparr>))"

section \<open>Operations\<close>

definition capacity :: "rbb \<Rightarrow> u64" where
  "capacity r = (if rb_cap r \<noteq> 0 then rb_cap r - 1 else 0)"

definition readableBytes :: "rbb \<Rightarrow> u64" where
  "readableBytes r = (let h = rb_head r; t = rb_tail r in (t - h) AND rb_mask r)"

definition writableBytes :: "rbb \<Rightarrow> u64" where
  "writableBytes r = (if rb_cap r = 0 then 0 else (rb_cap r - 1) - readableBytes r)"

definition tryWrite :: "byte list \<Rightarrow> u64 \<Rightarrow> rbb \<Rightarrow> bool \<times> rbb" where
  "tryWrite src len r =
    (if len = 0 then (True, r)
     else if len > writableBytes r then (False, r)
     else
       let t = rb_tail r;
           first = min len (rb_cap r - t);
           buf = poke (rb_buf r) (unat t) (mem_slice src 0 (unat first));
           buf = (if len > first
                  then poke buf 0 (mem_slice src (unat first) (unat (len - first)))
                  else buf)
       in (True, r\<lparr>rb_buf := buf, rb_tail := (t + len) AND rb_mask r\<rparr>))"

text \<open>The two copies out of the ring that read and peek share: the destination afterwards.\<close>

definition copy_out :: "byte list \<Rightarrow> u64 \<Rightarrow> rbb \<Rightarrow> byte list" where
  "copy_out dst toread r =
    (let h = rb_head r;
         first = min toread (rb_cap r - h);
         dst = poke dst 0 (mem_slice (rb_buf r) (unat h) (unat first))
     in if toread > first
        then poke dst (unat first) (mem_slice (rb_buf r) 0 (unat (toread - first)))
        else dst)"

definition ring_read :: "byte list \<Rightarrow> u64 \<Rightarrow> rbb \<Rightarrow> u64 \<times> byte list \<times> rbb" where
  "ring_read dst len r =
    (if len = 0 then (0, dst, r)
     else let avail = readableBytes r in
       if avail = 0 then (0, dst, r)
       else
         let toread = min len avail;
             dst = copy_out dst toread r
         in (toread, dst, r\<lparr>rb_head := (rb_head r + toread) AND rb_mask r\<rparr>))"

definition ring_peek :: "byte list \<Rightarrow> u64 \<Rightarrow> rbb \<Rightarrow> u64 \<times> byte list" where
  "ring_peek dst len r =
    (if len = 0 then (0, dst)
     else let avail = readableBytes r in
       if avail = 0 then (0, dst)
       else
         let toread = min len avail
         in (toread, copy_out dst toread r))"

text \<open>The zero-copy accesses: the offset of the pointer into the block (\<open>None\<close> for a null
  pointer) and the length of the contiguous region.\<close>

definition linearReadablePtr :: "rbb \<Rightarrow> u64 option \<times> u64" where
  "linearReadablePtr r =
    (let avail = readableBytes r in
     if avail = 0 then (None, 0)
     else let h = rb_head r in (Some h, min avail (rb_cap r - h)))"

definition linearWritablePtr :: "rbb \<Rightarrow> u64 option \<times> u64" where
  "linearWritablePtr r =
    (let writable = writableBytes r in
     if writable = 0 then (None, 0)
     else let t = rb_tail r in (Some t, min writable (rb_cap r - t)))"

definition advanceReadIndex :: "u64 \<Rightarrow> rbb \<Rightarrow> bool \<times> rbb" where
  "advanceReadIndex n r =
    (if n = 0 then (True, r)
     else if n > readableBytes r then (False, r)
     else (True, r\<lparr>rb_head := (rb_head r + n) AND rb_mask r\<rparr>))"

definition advanceWriteIndex :: "u64 \<Rightarrow> rbb \<Rightarrow> bool \<times> rbb" where
  "advanceWriteIndex n r =
    (if n = 0 then (True, r)
     else if n > writableBytes r then (False, r)
     else (True, r\<lparr>rb_tail := (rb_tail r + n) AND rb_mask r\<rparr>))"

definition ring_clear :: "rbb \<Rightarrow> rbb" where
  "ring_clear r = r\<lparr>rb_head := 0, rb_tail := 0\<rparr>"

section \<open>Invariant and contents\<close>

text \<open>An owning ring: the capacity is a power of two, the indices are inside it, and the
  block has exactly that many bytes.\<close>

definition ring_inv :: "rbb \<Rightarrow> bool" where
  "ring_inv r \<longleftrightarrow>
    list_ex (\<lambda>k. rb_cap r = 2 ^ k) [1..<64] \<and>
    rb_mask r = rb_cap r - 1 \<and>
    rb_head r < rb_cap r \<and> rb_tail r < rb_cap r \<and>
    length (rb_buf r) = unat (rb_cap r)"

text \<open>Every reachable ring owns a block or has been moved from.\<close>

definition ring_ok :: "rbb \<Rightarrow> bool" where
  "ring_ok r \<longleftrightarrow> ring_inv r \<or> r = rb_moved_from"

text \<open>The bytes waiting to be read, oldest first.\<close>

definition ring_data :: "rbb \<Rightarrow> byte list" where
  "ring_data r = window (rb_buf r) (unat (rb_head r)) (unat (readableBytes r))"

section \<open>The indices as natural numbers\<close>

lemma ring_inv_power:
  assumes "ring_inv r"
  obtains k where "0 < k" "k < 64" "rb_cap r = 2 ^ k" "unat (rb_cap r) = 2 ^ k"
    "rb_mask r = mask k" "unat (rb_head r) < 2 ^ k" "unat (rb_tail r) < 2 ^ k"
    "length (rb_buf r) = 2 ^ k"
proof -
  obtain k where k: "0 < k" "k < 64" "rb_cap r = 2 ^ k"
    using assms by (auto simp: ring_inv_def list_ex_iff Suc_le_eq)
  moreover have "unat (rb_cap r) = 2 ^ k" using k by (simp add: unat_exp_u64)
  moreover have "rb_mask r = mask k" using assms k by (simp add: ring_inv_def mask_eq_exp_minus_1)
  ultimately show ?thesis using that assms by (simp add: ring_inv_def word_less_nat_alt)
qed

lemma unat_readableBytes [ring_view]:
  assumes "ring_inv r"
  shows "unat (readableBytes r) =
    ring_dist (unat (rb_cap r)) (unat (rb_head r)) (unat (rb_tail r))"
  using assms by (rule ring_inv_power) (simp add: readableBytes_def unat_masked_sub)

lemma readableBytes_less: "ring_inv r \<Longrightarrow> unat (readableBytes r) < unat (rb_cap r)"
  by (erule ring_inv_power) (simp add: unat_readableBytes ring_dist_less ring_inv_def
      readableBytes_def unat_masked)

lemma unat_capacity [ring_view]: "ring_inv r \<Longrightarrow> unat (capacity r) = unat (rb_cap r) - 1"
  by (erule ring_inv_power) (auto simp: capacity_def unat_sub_if')

lemma cap_nonzero: "ring_inv r \<Longrightarrow> rb_cap r \<noteq> 0"
  by (erule ring_inv_power) auto

lemma unat_writableBytes [ring_view]:
  assumes "ring_inv r"
  shows "unat (writableBytes r) = unat (capacity r) - unat (readableBytes r)"
proof -
  have "unat (readableBytes r) \<le> unat (rb_cap r - 1)"
    using readableBytes_less [OF assms] unat_capacity [OF assms] cap_nonzero [OF assms]
    by (simp add: capacity_def)
  then show ?thesis
    using cap_nonzero [OF assms] by (simp add: writableBytes_def capacity_def unat_sub_if')
qed

lemma unat_advance [ring_view]:
  assumes "ring_inv r"
  shows "unat ((x + n) AND rb_mask r) = (unat x + unat n) mod unat (rb_cap r)"
  using assms by (rule ring_inv_power) (simp add: unat_masked_add)

lemma index_below:
  assumes "ring_inv r"
  shows "x AND rb_mask r < rb_cap r"
  using assms by (rule ring_inv_power) (simp add: word_less_nat_alt unat_masked)

lemma ring_inv_head [simp]:
  "ring_inv r \<Longrightarrow> ring_inv (r\<lparr>rb_head := x AND rb_mask r\<rparr>)"
  using index_below [of r x] by (simp add: ring_inv_def)

lemma ring_inv_tail [simp]:
  "ring_inv r \<Longrightarrow> ring_inv (r\<lparr>rb_tail := x AND rb_mask r\<rparr>)"
  using index_below [of r x] by (simp add: ring_inv_def)

lemma ring_inv_buf [simp]:
  "ring_inv r \<Longrightarrow> length b = length (rb_buf r) \<Longrightarrow> ring_inv (r\<lparr>rb_buf := b\<rparr>)"
  by (simp add: ring_inv_def)

lemma length_ring_data [simp]: "length (ring_data r) = unat (readableBytes r)"
  by (simp add: ring_data_def)

section \<open>What the operations do\<close>

text \<open>Length of the first of the two copies, on either side.\<close>

lemma unat_first:
  assumes "ring_inv r" "x < rb_cap r"
  shows "unat (min len (rb_cap r - x)) = min (unat len) (length (rb_buf r) - unat x)"
proof -
  have "unat (rb_cap r - x) = unat (rb_cap r) - unat x"
    using assms by (simp add: unat_sub_if' word_less_nat_alt)
  then show ?thesis using assms by (simp add: unat_min ring_inv_def)
qed

lemma tryWrite_eq:
  assumes inv: "ring_inv r" and fits: "unat len \<le> unat (writableBytes r)"
    and src: "unat len \<le> length src"
  shows "tryWrite src len r =
    (True, if len = 0 then r
           else r\<lparr>rb_buf := ring_poke (rb_buf r) (unat (rb_tail r)) (take (unat len) src),
                  rb_tail := (rb_tail r + len) AND rb_mask r\<rparr>)"
proof (cases "len = 0")
  case True
  then show ?thesis by (simp add: tryWrite_def)
next
  case False
  let ?first = "min len (rb_cap r - rb_tail r)"
  have tail: "rb_tail r < rb_cap r" using inv by (simp add: ring_inv_def)
  have first: "unat ?first = min (unat len) (length (rb_buf r) - unat (rb_tail r))"
    using unat_first [OF inv tail] .
  have le: "?first \<le> len" by simp
  then have rest: "unat (len - ?first) = unat len - unat ?first"
    by (simp add: unat_sub_if' word_le_nat_alt)
  have "\<not> len > writableBytes r" using fits by (simp add: word_less_nat_alt)
  moreover have "(if len > ?first then poke b 0 (mem_slice src (unat ?first) (unat (len - ?first))) else b)
      = poke b 0 (drop (unat ?first) (take (unat len) src))" for b
  proof (cases "len > ?first")
    case True
    then show ?thesis using rest by (simp add: mem_slice_def drop_take)
  next
    case False
    then have "?first = len" using le by simp
    then show ?thesis by simp
  qed
  moreover have "mem_slice src 0 (unat ?first) = take (unat ?first) (take (unat len) src)"
    using le by (simp add: mem_slice_def word_le_nat_alt min_absorb1)
  ultimately show ?thesis using False src first
    by (simp add: tryWrite_def Let_def ring_poke_def min_absorb2)
qed

lemma tryWrite_full:
  "unat (writableBytes r) < unat len \<Longrightarrow> tryWrite src len r = (False, r)"
  by (auto simp: tryWrite_def word_less_nat_alt)

lemma ring_dist_room:
  assumes "ring_inv r" "unat n \<le> unat (writableBytes r)"
  shows "ring_dist (unat (rb_cap r)) (unat (rb_head r)) (unat (rb_tail r)) + unat n < unat (rb_cap r)"
  using assms readableBytes_less [OF assms(1)] by (simp add: ring_view)

lemma readableBytes_tail:
  assumes "ring_inv r" "unat n \<le> unat (writableBytes r)"
  shows "unat (readableBytes (r\<lparr>rb_buf := b, rb_tail := (rb_tail r + n) AND rb_mask r\<rparr>)) =
    unat (readableBytes r) + unat n"
proof -
  let ?r = "r\<lparr>rb_tail := (rb_tail r + n) AND rb_mask r\<rparr>"
  have "unat (readableBytes ?r) = unat (readableBytes r) + unat n"
    using assms ring_dist_room [OF assms] ring_dist_tail [of "unat (rb_head r)" "unat (rb_cap r)"
        "unat (rb_tail r)" "unat n"]
    by (simp add: unat_readableBytes unat_advance) (simp add: ring_inv_def word_less_nat_alt)
  then show ?thesis by (simp add: readableBytes_def)
qed

lemma readableBytes_head:
  assumes "ring_inv r" "unat n \<le> unat (readableBytes r)"
  shows "unat (readableBytes (r\<lparr>rb_head := (rb_head r + n) AND rb_mask r\<rparr>)) =
    unat (readableBytes r) - unat n"
  using assms ring_dist_head [of "unat (rb_head r)" "unat (rb_cap r)"
        "unat (rb_tail r)" "unat n"]
  by (simp add: unat_readableBytes unat_advance) (simp add: ring_inv_def word_less_nat_alt)

lemma tail_of_head:
  assumes "ring_inv r"
  shows "(unat (rb_head r) + unat (readableBytes r)) mod length (rb_buf r) = unat (rb_tail r)"
  using assms ring_dist_add [of "unat (rb_head r)" "unat (rb_cap r)" "unat (rb_tail r)"]
  by (simp add: unat_readableBytes) (simp add: ring_inv_def word_less_nat_alt)

lemma tryWrite_data:
  assumes inv: "ring_inv r" and fits: "unat len \<le> unat (writableBytes r)"
    and src: "unat len \<le> length src"
  shows "ring_data (snd (tryWrite src len r)) = ring_data r @ take (unat len) src"
proof (cases "len = 0")
  case True
  then show ?thesis using tryWrite_eq [OF assms] by simp
next
  case False
  let ?d = "unat (readableBytes r)" and ?h = "unat (rb_head r)"
  let ?bs = "take (unat len) src"
  have room: "?d + length ?bs \<le> length (rb_buf r)" "?d < length (rb_buf r)" "?h < length (rb_buf r)"
    using ring_dist_room [OF inv fits] readableBytes_less [OF inv] inv src
    by (simp_all add: unat_readableBytes) (simp_all add: ring_inv_def word_less_nat_alt)
  have "ring_data (snd (tryWrite src len r)) =
      window (ring_poke (rb_buf r) ((?h + ?d) mod length (rb_buf r)) ?bs) ?h (?d + length ?bs)"
    using False src unfolding tryWrite_eq [OF assms] tail_of_head [OF inv]
    by (simp add: ring_data_def readableBytes_tail [OF inv fits] min_absorb2)
  also have "\<dots> = window (rb_buf r) ?h ?d @ ?bs" by (rule window_ring_poke) (use room in simp_all)
  finally show ?thesis by (simp add: ring_data_def)
qed

lemma tryWrite_inv:
  assumes "ring_inv r" "unat len \<le> length src"
  shows "ring_inv (snd (tryWrite src len r))"
proof (cases "unat len \<le> unat (writableBytes r)")
  case True
  have l: "unat (rb_tail r) < length (rb_buf r)" "unat len \<le> length (rb_buf r)"
    using assms(1) True ring_dist_room [OF assms(1) True] by (simp_all add: ring_inv_def word_less_nat_alt)
  then have "length (ring_poke (rb_buf r) (unat (rb_tail r)) (take (unat len) src)) = length (rb_buf r)"
    by simp
  then show ?thesis using assms True index_below [OF assms(1), of "rb_tail r + len"]
    by (simp add: tryWrite_eq ring_inv_def)
next
  case False
  then show ?thesis using assms by (simp add: tryWrite_full)
qed

lemma copy_out_eq:
  assumes inv: "ring_inv r" and n: "unat n \<le> unat (readableBytes r)" "unat n \<le> length dst"
  shows "copy_out dst n r = poke dst 0 (take (unat n) (ring_data r))"
proof -
  let ?h = "rb_head r" and ?buf = "rb_buf r"
  let ?first = "min n (rb_cap r - ?h)"
  have h: "?h < rb_cap r" using inv by (simp add: ring_inv_def)
  then have hl: "unat ?h < length ?buf" "unat n \<le> length ?buf"
    using inv n(1) readableBytes_less [OF inv] by (simp_all add: ring_inv_def word_less_nat_alt)
  have first: "unat ?first = min (unat n) (length ?buf - unat ?h)" by (rule unat_first [OF inv h])
  have rest: "unat (n - ?first) = unat n - unat ?first"
    using word_le_nat_alt [of ?first n] by (simp add: unat_sub_if')
  let ?a = "mem_slice ?buf (unat ?h) (unat ?first)" and ?b = "mem_slice ?buf 0 (unat n - unat ?first)"
  have la: "length ?a = unat ?first" and lb: "length ?b = unat n - unat ?first"
    using hl first by simp_all
  have "take (unat n) (ring_data r) = ?a @ ?b"
    using n(1) window_wrap [OF hl] first by (simp add: ring_data_def take_window)
  moreover have "copy_out dst n r = poke (poke dst 0 ?a) (length ?a) ?b"
  proof (cases "n > ?first")
    case True
    then show ?thesis using la rest by (simp add: copy_out_def Let_def)
  next
    case False
    then have "?first = n" by (simp add: min_def split: if_splits)
    then have "?b = []" "\<not> n > ?first" by (simp_all add: mem_slice_def)
    then show ?thesis by (simp add: copy_out_def Let_def)
  qed
  moreover have "length ?a + length ?b \<le> length dst" using la lb n(2) first by simp
  ultimately show ?thesis by (simp add: poke_poke)
qed

text \<open>What both reads put in front of the destination.\<close>

definition taken :: "u64 \<Rightarrow> rbb \<Rightarrow> byte list" where
  "taken len r = take (unat len) (ring_data r)"

lemma ring_peek_eq:
  assumes inv: "ring_inv r" and len: "unat len \<le> length dst"
  shows "ring_peek dst len r = (min len (readableBytes r), poke dst 0 (taken len r))"
proof -
  let ?n = "min len (readableBytes r)"
  have n: "unat ?n = min (unat len) (unat (readableBytes r))" by (rule unat_min)
  have "copy_out dst ?n r = poke dst 0 (taken len r)"
    using copy_out_eq [OF inv, of ?n dst] n len by (simp add: taken_def min_def split: if_splits)
  moreover have "taken 0 r = []" "readableBytes r = 0 \<Longrightarrow> taken len r = []"
    by (simp_all add: taken_def ring_data_def)
  ultimately show ?thesis by (simp add: ring_peek_def Let_def)
qed

lemma ring_read_eq:
  assumes inv: "ring_inv r" and len: "unat len \<le> length dst"
  shows "ring_read dst len r =
    (min len (readableBytes r), poke dst 0 (taken len r),
     snd (advanceReadIndex (min len (readableBytes r)) r))"
  using ring_peek_eq [OF assms]
  by (auto simp: ring_read_def ring_peek_def advanceReadIndex_def Let_def min_def split: if_splits)

lemma advanceReadIndex_data:
  assumes "ring_inv r" "unat n \<le> unat (readableBytes r)"
  shows "fst (advanceReadIndex n r)" "ring_inv (snd (advanceReadIndex n r))"
    "ring_data (snd (advanceReadIndex n r)) = drop (unat n) (ring_data r)"
proof -
  have ok: "\<not> n > readableBytes r" using assms(2) by (simp add: word_less_nat_alt)
  show "fst (advanceReadIndex n r)" "ring_inv (snd (advanceReadIndex n r))"
    using ok assms(1) by (simp_all add: advanceReadIndex_def)
  have "ring_data (r\<lparr>rb_head := (rb_head r + n) AND rb_mask r\<rparr>) = drop (unat n) (ring_data r)"
    unfolding ring_data_def readableBytes_head [OF assms]
    using assms by (simp add: drop_window unat_advance) (simp add: ring_inv_def)
  then show "ring_data (snd (advanceReadIndex n r)) = drop (unat n) (ring_data r)"
    using ok by (simp add: advanceReadIndex_def)
qed

lemma advanceReadIndex_head:
  assumes "ring_inv r" "unat n \<le> unat (readableBytes r)"
  shows "unat (rb_head (snd (advanceReadIndex n r))) =
      (unat (rb_head r) + unat n) mod length (rb_buf r)"
    "rb_buf (snd (advanceReadIndex n r)) = rb_buf r"
proof -
  have len: "length (rb_buf r) = unat (rb_cap r)" "unat (rb_head r) < unat (rb_cap r)"
    using assms(1) by (simp_all add: ring_inv_def word_less_nat_alt)
  have "\<not> n > readableBytes r" using assms(2) by (simp add: word_less_nat_alt)
  then show "unat (rb_head (snd (advanceReadIndex n r))) =
      (unat (rb_head r) + unat n) mod length (rb_buf r)"
    using len by (simp add: advanceReadIndex_def unat_advance [OF assms(1)])
  show "rb_buf (snd (advanceReadIndex n r)) = rb_buf r" by (simp add: advanceReadIndex_def)
qed

lemma advanceReadIndex_refused:
  "unat (readableBytes r) < unat n \<Longrightarrow> advanceReadIndex n r = (False, r)"
  by (auto simp: advanceReadIndex_def word_less_nat_alt)

text \<open>The zero-copy write path: the region handed out is free, and advancing over what was
  stored there appends it.\<close>

lemma advanceWriteIndex_refused:
  "unat (writableBytes r) < unat n \<Longrightarrow> advanceWriteIndex n r = (False, r)"
  by (auto simp: advanceWriteIndex_def word_less_nat_alt)

lemma advanceWriteIndex_inv:
  "ring_inv r \<Longrightarrow> ring_inv (snd (advanceWriteIndex n r))"
  by (simp add: advanceWriteIndex_def)

lemma advanceWriteIndex_data:
  assumes inv: "ring_inv r" and fits: "unat n \<le> unat (writableBytes r)"
  shows "fst (advanceWriteIndex n r)"
    "ring_data (snd (advanceWriteIndex n r)) =
      ring_data r @ window (rb_buf r) (unat (rb_tail r)) (unat n)"
proof -
  have ok: "\<not> n > writableBytes r" using fits by (simp add: word_less_nat_alt)
  then show "fst (advanceWriteIndex n r)" by (simp add: advanceWriteIndex_def)
  have "unat (readableBytes (r\<lparr>rb_tail := (rb_tail r + n) AND rb_mask r\<rparr>)) =
      unat (readableBytes r) + unat n"
    using readableBytes_tail [OF assms, of "rb_buf r"] by simp
  then have "ring_data (r\<lparr>rb_tail := (rb_tail r + n) AND rb_mask r\<rparr>) =
      ring_data r @ window (rb_buf r) (unat (rb_tail r)) (unat n)"
    by (simp add: ring_data_def window_append tail_of_head [OF inv])
  then show "ring_data (snd (advanceWriteIndex n r)) =
      ring_data r @ window (rb_buf r) (unat (rb_tail r)) (unat n)"
    using ok by (auto simp: advanceWriteIndex_def)
qed

section \<open>The zero-copy path\<close>

text \<open>A store through the pointer that linearWritablePtr returned (the kernel's read).\<close>

definition store_at :: "u64 \<Rightarrow> byte list \<Rightarrow> rbb \<Rightarrow> rbb" where
  "store_at off bs r = r\<lparr>rb_buf := poke (rb_buf r) (unat off) bs\<rparr>"

lemma writableBytes_buf [simp]: "writableBytes (r\<lparr>rb_buf := b\<rparr>) = writableBytes r"
  by (simp add: writableBytes_def readableBytes_def)

lemma linearWritable_view:
  assumes "ring_inv r" "linearWritablePtr r = (Some p, n)"
  shows "p = rb_tail r" "0 < unat n" "unat n \<le> unat (writableBytes r)"
    "unat p + unat n \<le> length (rb_buf r)"
proof -
  have t: "rb_tail r < rb_cap r" using assms(1) by (simp add: ring_inv_def)
  then have "unat (rb_tail r) < length (rb_buf r)"
    using assms(1) by (simp add: ring_inv_def word_less_nat_alt)
  moreover have n: "p = rb_tail r" "writableBytes r \<noteq> 0" "n = min (writableBytes r) (rb_cap r - rb_tail r)"
    using assms(2) by (auto simp: linearWritablePtr_def Let_def split: if_splits)
  then have "unat n = min (unat (writableBytes r)) (length (rb_buf r) - unat (rb_tail r))"
    using unat_first [OF assms(1) t] by simp
  moreover have "0 < unat (writableBytes r)" using n(2) by (simp add: unat_gt_0)
  ultimately show "p = rb_tail r" "0 < unat n" "unat n \<le> unat (writableBytes r)"
    "unat p + unat n \<le> length (rb_buf r)"
    using n(1) by simp_all
qed

lemma zero_copy_write:
  assumes inv: "ring_inv r" and ptr: "linearWritablePtr r = (Some p, n)"
    and bs: "length bs \<le> unat n"
  shows "ring_inv (store_at p bs r)" "ring_data (store_at p bs r) = ring_data r"
    "advanceWriteIndex (word_of_nat (length bs)) (store_at p bs r) = tryWrite bs (word_of_nat (length bs)) r"
proof -
  note v = linearWritable_view [OF inv ptr]
  let ?n = "word_of_nat (length bs) :: u64" and ?t = "unat (rb_tail r)"
  have len: "unat ?n = length bs"
    using bs unat_less_2p64 [of n] by (intro unat_word_of_nat_u64) linarith
  have inb: "?t + length bs \<le> length (rb_buf r)" using v bs by simp
  then show inv': "ring_inv (store_at p bs r)" using inv v by (simp add: store_at_def)
  have same: "ring_poke (rb_buf r) ?t bs = poke (rb_buf r) ?t bs"
    using inb by (simp add: ring_poke_def Let_def min_absorb1)
  have fits: "unat ?n \<le> unat (writableBytes r)" using v bs len by simp
  have room: "unat (readableBytes r) + length bs \<le> length (rb_buf r)"
    "unat (readableBytes r) < length (rb_buf r)" "unat (rb_head r) < length (rb_buf r)"
    using ring_dist_room [OF inv fits] readableBytes_less [OF inv] inv len
    by (simp_all add: unat_readableBytes) (simp_all add: ring_inv_def word_less_nat_alt)
  have rd: "readableBytes (store_at p bs r) = readableBytes r" "writableBytes (store_at p bs r) = writableBytes r"
    by (simp_all add: store_at_def readableBytes_def writableBytes_def)
  have "take (unat (readableBytes r)) (window (poke (rb_buf r) ?t bs) (unat (rb_head r))
      (unat (readableBytes r) + length bs)) = ring_data r"
    using window_ring_poke [of "unat (rb_head r)" "rb_buf r" "unat (readableBytes r)" bs] room
    by (simp add: tail_of_head [OF inv] same ring_data_def)
  then show "ring_data (store_at p bs r) = ring_data r"
    by (simp add: take_window ring_data_def rd) (simp add: store_at_def v)
  show "advanceWriteIndex ?n (store_at p bs r) = tryWrite bs ?n r"
  proof (cases "bs = []")
    case True
    then show ?thesis by (simp add: advanceWriteIndex_def tryWrite_def store_at_def)
  next
    case False
    then have "?n \<noteq> 0" using len by (metis length_0_conv unat_0)
    moreover have "\<not> ?n > writableBytes r" using fits by (simp add: word_less_nat_alt)
    ultimately show ?thesis using tryWrite_eq [OF inv fits, of bs] len v(1)
      by (simp add: advanceWriteIndex_def rd same)
        (simp add: store_at_def writableBytes_buf)
  qed
qed

lemma linearReadable_view:
  assumes "ring_inv r"
  shows "case linearReadablePtr r of
      (None, n) \<Rightarrow> n = 0 \<and> ring_data r = []
    | (Some p, n) \<Rightarrow> 0 < unat n \<and> mem_slice (rb_buf r) (unat p) (unat n) = take (unat n) (ring_data r) \<and>
        unat n \<le> length (ring_data r) \<and> unat p + unat n \<le> length (rb_buf r)"
proof (cases "readableBytes r = 0")
  case True
  then show ?thesis by (simp add: linearReadablePtr_def ring_data_def)
next
  case False
  let ?h = "rb_head r" and ?n = "min (readableBytes r) (rb_cap r - rb_head r)"
  have h: "?h < rb_cap r" using assms by (simp add: ring_inv_def)
  then have "unat ?h < length (rb_buf r)" using assms by (simp add: ring_inv_def word_less_nat_alt)
  moreover have "unat ?n = min (unat (readableBytes r)) (length (rb_buf r) - unat ?h)"
    by (rule unat_first [OF assms h])
  moreover have "0 < unat (readableBytes r)" using False by (simp add: unat_gt_0)
  ultimately have "0 < unat ?n" "unat ?n \<le> unat (readableBytes r)" "unat ?h + unat ?n \<le> length (rb_buf r)"
    by simp_all
  moreover from this have "mem_slice (rb_buf r) (unat ?h) (unat ?n) = take (unat ?n) (ring_data r)"
    by (simp add: ring_data_def take_window window_slice)
  ultimately show ?thesis using False by (simp add: linearReadablePtr_def Let_def)
qed

lemma linearReadable_len:
  assumes "ring_inv r" "linearReadablePtr r = (Some p, n)"
  shows "p = rb_head r" "unat n = min (length (ring_data r)) (length (rb_buf r) - unat (rb_head r))"
proof -
  have h: "rb_head r < rb_cap r" using assms(1) by (simp add: ring_inv_def)
  have "p = rb_head r" "n = min (readableBytes r) (rb_cap r - rb_head r)"
    using assms(2) by (auto simp: linearReadablePtr_def Let_def split: if_splits)
  then show "p = rb_head r" "unat n = min (length (ring_data r)) (length (rb_buf r) - unat (rb_head r))"
    using unat_first [OF assms(1) h] by simp_all
qed

section \<open>Construction and moves\<close>

lemma rb_new_ok:
  assumes "0 < want" "unat want < 2 ^ 63"
    and alloc: "\<And>n b. alloc n = Some b \<Longrightarrow> length b = unat n"
    and new: "rb_new alloc want = Inr r"
  shows "ring_inv r" "ring_data r = []" "unat want \<le> unat (capacity r)"
    "unat (capacity r) < 2 * unat want"
proof -
  let ?cap = "ceilToPowerOfTwo (want + 1)"
  have c1: "unat (want + 1) = unat want + 1"
    using assms(2) by (simp add: unat_word_ariths)
  have cpos: "0 < unat want" using assms(1) by (simp add: word_less_nat_alt)
  have "\<exists>k. 0 < k \<and> k < 64 \<and> unat ?cap = 2 ^ k \<and> 2 ^ (k - 1) < unat (want + 1) \<and> unat (want + 1) \<le> 2 ^ k"
  proof (cases "2 < want + 1")
    case True
    have "unat (want + 1) \<le> 2 ^ 63" using c1 assms(2) by linarith
    then show ?thesis by (rule ceilToPowerOfTwo_big [OF True])
  next
    case False
    then have "unat (want + 1) \<le> 2" by (simp add: word_less_nat_alt)
    then have "unat (want + 1) = unat (2 :: u64)" using c1 cpos by simp
    then have two: "want + 1 = 2" by (simp only: word_unat_eq_iff)
    show ?thesis unfolding two by (intro exI [of _ 1]) (simp add: ceilToPowerOfTwo_def)
  qed
  then obtain k where k: "0 < k" "k < 64" "unat ?cap = 2 ^ k" "2 ^ (k - 1) < unat want + 1"
    "unat want + 1 \<le> 2 ^ k"
    unfolding c1 by blast
  obtain b where b: "alloc ?cap = Some b"
    "r = \<lparr>rb_buf = b, rb_cap = ?cap, rb_mask = ?cap - 1, rb_head = 0, rb_tail = 0\<rparr>"
    using new by (auto simp: rb_new_def Let_def split: if_splits option.splits)
  have cap: "?cap = 2 ^ k" using k by (simp only: word_unat_eq_iff unat_exp_u64)
  then show inv: "ring_inv r"
    using b(2) alloc [OF b(1)] k
    by (simp add: ring_inv_def list_ex_iff word_less_nat_alt unat_exp_u64) (intro bexI [of _ k], simp_all)
  show "ring_data r = []" using b by (simp add: ring_data_def readableBytes_def)
  have "(2::nat) ^ k = 2 * 2 ^ (k - 1)" using k(1) by (simp flip: power_Suc)
  then show "unat want \<le> unat (capacity r)"
    "unat (capacity r) < 2 * unat want"
    using unat_capacity [OF inv] b(2) k(3-5) by simp_all
qed

lemma rb_new_cases:
  "(want = 0 \<or> want > (- 1) div 2 \<longrightarrow> rb_new alloc want = Inl Invalid_argument)"
  "want \<noteq> 0 \<Longrightarrow> \<not> want > (- 1) div 2 \<Longrightarrow> alloc (ceilToPowerOfTwo (want + 1)) = None \<Longrightarrow>
    rb_new alloc want = Inl Bad_alloc"
  by (auto simp: rb_new_def Let_def)

lemma rb_move_parts: "rb_move r = (r, rb_moved_from)"
  by (simp add: rb_move_def rb_moved_from_def)

lemma rb_move_assign_parts:
  "rb_move_assign same this other = (if same then (this, this) else (other, rb_moved_from))"
  by (simp add: rb_move_assign_def rb_moved_from_def)

text \<open>A moved-from ring is empty and accepts nothing.\<close>

lemma moved_from_view:
  "readableBytes rb_moved_from = 0" "writableBytes rb_moved_from = 0" "capacity rb_moved_from = 0"
  "ring_data rb_moved_from = []"
  by (simp_all add: rb_moved_from_def readableBytes_def writableBytes_def capacity_def ring_data_def)

lemma moved_from_ops:
  "snd (tryWrite src len rb_moved_from) = rb_moved_from"
  "snd (snd (ring_read dst len rb_moved_from)) = rb_moved_from"
  "snd (advanceReadIndex len rb_moved_from) = rb_moved_from"
  "snd (advanceWriteIndex len rb_moved_from) = rb_moved_from"
  "ring_clear rb_moved_from = rb_moved_from"
  by (simp_all add: tryWrite_def ring_read_def advanceReadIndex_def advanceWriteIndex_def
      moved_from_view word_gt_0 ring_clear_def) (simp add: rb_moved_from_def)

lemma moved_from_not_inv: "\<not> ring_inv rb_moved_from"
  by (simp add: ring_inv_def rb_moved_from_def)

lemma advanceReadIndex_inv: "ring_inv r \<Longrightarrow> ring_inv (snd (advanceReadIndex n r))"
  by (simp add: advanceReadIndex_def)

lemma ring_read_inv: "ring_inv r \<Longrightarrow> ring_inv (snd (snd (ring_read dst n r)))"
  by (simp add: ring_read_def Let_def)

lemma ring_clear_inv: "ring_inv r \<Longrightarrow> ring_inv (ring_clear r)"
  using word_gt_0 cap_nonzero by (auto simp: ring_clear_def ring_inv_def)

lemma ring_clear_data: "ring_data (ring_clear r) = []"
  by (simp add: ring_clear_def ring_data_def readableBytes_def)

section \<open>The ring as a bounded queue\<close>

text \<open>The copying interface, called with the length of the argument, and a destination of
  exactly the requested size.\<close>

definition ring_put :: "byte list \<Rightarrow> rbb \<Rightarrow> bool \<times> rbb" where
  "ring_put bs r = tryWrite bs (word_of_nat (length bs)) r"

definition ring_get :: "nat \<Rightarrow> rbb \<Rightarrow> byte list \<times> rbb" where
  "ring_get n r =
    (case ring_read (replicate n 0) (word_of_nat n) r of
       (m, dst, r') \<Rightarrow> (take (unat m) dst, r'))"

definition ring_limit :: "rbb \<Rightarrow> nat" where
  "ring_limit r = unat (capacity r)"

lemma capacity_updates [simp]:
  "capacity (r\<lparr>rb_buf := b\<rparr>) = capacity r" "capacity (r\<lparr>rb_head := h\<rparr>) = capacity r"
  "capacity (r\<lparr>rb_tail := t\<rparr>) = capacity r"
  by (simp_all add: capacity_def)

lemma tryWrite_capacity [simp]: "capacity (snd (tryWrite src len r)) = capacity r"
  by (simp add: tryWrite_def Let_def)

lemma advance_capacity [simp]:
  "capacity (snd (advanceReadIndex n r)) = capacity r"
  "capacity (snd (advanceWriteIndex n r)) = capacity r"
  by (simp_all add: advanceReadIndex_def advanceWriteIndex_def)

lemma readable_le_capacity: "ring_inv r \<Longrightarrow> unat (readableBytes r) \<le> unat (capacity r)"
  using readableBytes_less [of r] by (simp add: unat_capacity)

lemma ring_get_eq:
  assumes "ring_inv r" "n < 2 ^ 64"
  shows "ring_get n r =
    (take n (ring_data r), snd (advanceReadIndex (min (word_of_nat n) (readableBytes r)) r))"
proof -
  have n: "unat (word_of_nat n :: u64) = n" using assms(2) by (rule unat_word_of_nat_u64)
  let ?t = "take n (ring_data r)"
  have len: "unat (min (word_of_nat n) (readableBytes r)) = length ?t"
    using n by (simp add: unat_min min.commute)
  show ?thesis
    using ring_read_eq [OF assms(1), of "word_of_nat n" "replicate n 0"] n
    by (simp add: ring_get_def taken_def del: length_take) (simp only: len take_poke)
qed

lemma ring_get_rest:
  assumes "ring_inv r" "n < 2 ^ 64"
  shows "ring_inv (snd (ring_get n r))" "ring_data (snd (ring_get n r)) = drop n (ring_data r)"
proof -
  let ?m = "min (word_of_nat n) (readableBytes r)"
  have m: "unat ?m = min n (unat (readableBytes r))"
    using assms(2) by (simp add: unat_min unat_word_of_nat_u64)
  then have le: "unat ?m \<le> unat (readableBytes r)" by simp
  have "drop (unat ?m) (ring_data r) = drop n (ring_data r)" using m by (simp add: min_def)
  then show "ring_inv (snd (ring_get n r))" "ring_data (snd (ring_get n r)) = drop n (ring_data r)"
    using advanceReadIndex_data [OF assms(1) le] by (simp_all add: ring_get_eq [OF assms])
qed

lemma ring_put_accepts:
  assumes "ring_inv r" "length bs < 2 ^ 64"
  shows "fst (ring_put bs r) \<longleftrightarrow> length (ring_data r) + length bs \<le> ring_limit r"
    "ring_data (snd (ring_put bs r)) = ring_data r @ (if fst (ring_put bs r) then bs else [])"
proof -
  have n: "unat (word_of_nat (length bs) :: u64) = length bs"
    using assms(2) by (rule unat_word_of_nat_u64)
  have room: "length (ring_data r) + length bs \<le> ring_limit r \<longleftrightarrow> length bs \<le> unat (writableBytes r)"
    using unat_writableBytes [OF assms(1)] readable_le_capacity [OF assms(1)]
    by (auto simp: ring_limit_def)
  show "fst (ring_put bs r) \<longleftrightarrow> length (ring_data r) + length bs \<le> ring_limit r"
    "ring_data (snd (ring_put bs r)) = ring_data r @ (if fst (ring_put bs r) then bs else [])"
    using tryWrite_eq [OF assms(1), of "word_of_nat (length bs)" bs]
      tryWrite_data [OF assms(1), of "word_of_nat (length bs)" bs]
      tryWrite_full [of r "word_of_nat (length bs)" bs] n room
    by (auto simp: ring_put_def not_le)
qed

interpretation byte_ring:
  bounded_fifo ring_inv ring_data ring_limit ring_put ring_get "2 ^ 64"
proof unfold_locales
  fix r :: rbb and bs :: "byte list" and n :: nat
  assume inv: "ring_inv r"
  show "length (ring_data r) \<le> ring_limit r"
    using readable_le_capacity [OF inv] by (simp add: ring_limit_def)
  {
    assume bs: "length bs < 2 ^ 64"
    then have "unat (word_of_nat (length bs) :: u64) = length bs" by (rule unat_word_of_nat_u64)
    then show "ring_inv (snd (ring_put bs r))"
      using tryWrite_inv [OF inv, of "word_of_nat (length bs)" bs] by (simp add: ring_put_def)
    show "ring_limit (snd (ring_put bs r)) = ring_limit r"
      by (simp add: ring_limit_def ring_put_def)
    show "fst (ring_put bs r) \<longleftrightarrow> length (ring_data r) + length bs \<le> ring_limit r"
      "ring_data (snd (ring_put bs r)) = ring_data r @ (if fst (ring_put bs r) then bs else [])"
      using ring_put_accepts [OF inv bs] by simp_all
  next
    assume n: "n < 2 ^ 64"
    show "ring_inv (snd (ring_get n r))" using ring_get_rest [OF inv n] by simp
    show "ring_limit (snd (ring_get n r)) = ring_limit r"
      using ring_get_eq [OF inv n] by (simp add: ring_limit_def)
    show "fst (ring_get n r) @ ring_data (snd (ring_get n r)) = ring_data r"
      using ring_get_eq [OF inv n] ring_get_rest [OF inv n] by simp
    show "length (fst (ring_get n r)) \<le> n" using ring_get_eq [OF inv n] by simp
    show "n \<le> length (ring_data r) \<Longrightarrow> length (fst (ring_get n r)) = n"
      using ring_get_eq [OF inv n] by simp
  }
qed

section \<open>Properties\<close>

lemma half_max: "unat ((- 1 :: u64) div 2) = 2 ^ 63 - 1"
  by (simp add: unat_div unsigned_minus_1_eq_mask mask_eq_exp_minus_1)

lemma rb_cap_least:
  assumes "ring_inv r" "unat (capacity r) < 2 * w" "w < 2 ^ j"
  shows "unat (rb_cap r) \<le> 2 ^ j"
proof -
  obtain k where k: "unat (rb_cap r) = 2 ^ k" "0 < k" using assms(1) by (rule ring_inv_power)
  have "(2::nat) ^ k \<le> 2 * w" using assms(2) k unat_capacity [OF assms(1)] by simp
  then have "(2::nat) ^ k < 2 ^ Suc j" using assms(3) by simp
  then have "k < Suc j" by (rule power_less_imp_less_exp [rotated]) simp
  then show ?thesis using k by simp
qed

text \<open>Constructing a ring of a requested capacity throws on 0 and from \<open>2 ^ 63\<close> on,
  passes an allocation failure on, and otherwise gives an empty well-formed ring that holds at
  least the requested number of bytes, in the smallest power of two that does.\<close>

theorem rb_new_spec:
  assumes alloc: "\<And>n b. alloc n = Some b \<Longrightarrow> length b = unat n"
  shows "case rb_new alloc want of
      Inl Invalid_argument \<Rightarrow> want = 0 \<or> 2 ^ 63 \<le> unat want
    | Inl Bad_alloc \<Rightarrow> 0 < want \<and> unat want < 2 ^ 63 \<and> alloc (ceilToPowerOfTwo (want + 1)) = None
    | Inr r \<Rightarrow> 0 < want \<and> unat want < 2 ^ 63 \<and> ring_inv r \<and> ring_data r = [] \<and>
        unat want \<le> ring_limit r \<and> (\<forall>j. unat want < 2 ^ j \<longrightarrow> unat (rb_cap r) \<le> 2 ^ j)"
proof (cases "want = 0 \<or> want > (- 1) div 2")
  case True
  then show ?thesis using half_max by (auto simp: rb_new_def word_less_nat_alt)
next
  case False
  then have w: "0 < want" "unat want < 2 ^ 63"
    using half_max by (auto simp: word_gt_0) (simp add: word_less_nat_alt)
  show ?thesis
  proof (cases "rb_new alloc want")
    case (Inl e)
    then show ?thesis using False w by (auto simp: rb_new_def Let_def split: option.splits)
  next
    case (Inr r)
    note n = rb_new_ok [OF w alloc Inr]
    show ?thesis using Inr w n rb_cap_least [OF n(1) n(4)] by (simp add: ring_limit_def)
  qed
qed

theorem rb_new_spec_witness:
  "let r = projr (rb_new (\<lambda>n. Some (replicate (unat n) 0)) 5)
   in ring_inv r \<and> ring_data r = [] \<and> ring_limit r = 7"
  using rb_new_spec [of "\<lambda>n. Some (replicate (unat n) 0)" 5]
  by (simp_all add: rb_new_def ceilToPowerOfTwo_def ring_limit_def capacity_def)

text \<open>Every operation keeps a ring well-formed, whatever its arguments, including on an
  object that a move has emptied; what a move leaves behind is well-formed too.\<close>

theorem ring_ok_preserved:
  assumes "ring_ok r" "unat len \<le> length src" "ring_ok other"
  shows "ring_ok (snd (tryWrite src len r)) \<and> ring_ok (snd (snd (ring_read dst n r))) \<and>
    ring_ok (snd (advanceReadIndex n r)) \<and> ring_ok (snd (advanceWriteIndex n r)) \<and>
    ring_ok (ring_clear r) \<and> ring_ok (fst (rb_move r)) \<and> ring_ok (snd (rb_move r)) \<and>
    ring_ok (fst (rb_move_assign same r other)) \<and> ring_ok (snd (rb_move_assign same r other))"
  using assms
  by (auto simp: ring_ok_def tryWrite_inv ring_read_inv advanceReadIndex_inv advanceWriteIndex_inv
      ring_clear_inv rb_move_parts rb_move_assign_parts moved_from_ops)


text \<open>A ring of eight bytes whose four bytes of content wrap around the end.\<close>

definition ring_wrapped :: rbb where
  "ring_wrapped = \<lparr>rb_buf = [12, 13, 0, 0, 0, 0, 10, 11], rb_cap = 8, rb_mask = 7, rb_head = 6, rb_tail = 2\<rparr>"

lemma ring_wrapped_inv: "ring_inv ring_wrapped"
  by (simp add: ring_wrapped_def ring_inv_def upt_rec)

lemma ring_wrapped_data: "ring_data ring_wrapped = [10, 11, 12, 13]"
  by (simp add: ring_wrapped_def ring_data_def readableBytes_def window_def upt_rec)

lemma ring_wrapped_readable: "readableBytes ring_wrapped = 4"
  by (simp add: ring_wrapped_def readableBytes_def)

lemma ring_wrapped_room: "unat (writableBytes ring_wrapped) = 3"
  by (simp add: ring_wrapped_def writableBytes_def readableBytes_def)

theorem ring_ok_preserved_witness:
  "ring_ok (snd (tryWrite [1, 2, 3] 3 ring_wrapped)) \<and>
   ring_ok (fst (rb_move_assign False ring_wrapped rb_moved_from))"
  using ring_ok_preserved [of ring_wrapped 3 "[1, 2, 3]" rb_moved_from "[]" 0 False]
  by (simp add: ring_ok_def ring_wrapped_inv)

text \<open>A write either finds room for all of its bytes and appends them to the contents, or is
  refused and leaves the ring as it was; it is refused exactly when the bytes do not fit.\<close>

theorem tryWrite_spec:
  assumes "ring_inv r" "unat len \<le> length src"
  shows "tryWrite src len r =
      (if length (ring_data r) + unat len \<le> ring_limit r then (True, snd (tryWrite src len r))
       else (False, r)) \<and>
    (length (ring_data r) + unat len \<le> ring_limit r \<longrightarrow>
      ring_data (snd (tryWrite src len r)) = ring_data r @ take (unat len) src \<and>
      length (rb_buf (snd (tryWrite src len r))) = length (rb_buf r))"
proof -
  have room: "length (ring_data r) + unat len \<le> ring_limit r \<longleftrightarrow> unat len \<le> unat (writableBytes r)"
    using unat_writableBytes [OF assms(1)] readable_le_capacity [OF assms(1)]
    by (auto simp: ring_limit_def)
  have "length (rb_buf (snd (tryWrite src len r))) = length (rb_buf r)"
    using tryWrite_inv [OF assms] assms(1) by (simp add: ring_inv_def tryWrite_def Let_def)
  then show ?thesis
    using tryWrite_eq [OF assms(1) _ assms(2)] tryWrite_data [OF assms(1) _ assms(2)]
      tryWrite_full [of r len src] room
    by (auto simp: not_le)
qed

theorem tryWrite_spec_witness:
  "ring_data (snd (tryWrite [1, 2, 3] 3 ring_wrapped)) = [10, 11, 12, 13, 1, 2, 3] \<and>
   tryWrite [1, 2, 3, 4] 4 ring_wrapped = (False, ring_wrapped)"
  using tryWrite_spec [OF ring_wrapped_inv, of 3 "[1, 2, 3]"]
    tryWrite_spec [OF ring_wrapped_inv, of 4 "[1, 2, 3, 4]"]
  by (simp add: ring_wrapped_data ring_limit_def) (simp add: ring_wrapped_def capacity_def)

text \<open>Reading and peeking put the same bytes into the destination, the oldest ones, as many
  as were asked for and are there; only the read consumes them.\<close>

theorem read_peek_spec:
  assumes "ring_inv r" "unat len \<le> length dst"
  shows "ring_peek dst len r = (min len (readableBytes r), poke dst 0 (take (unat len) (ring_data r))) \<and>
    (case ring_read dst len r of (n, dst', r') \<Rightarrow>
      (n, dst') = ring_peek dst len r \<and> ring_inv r' \<and> ring_data r' = drop (unat len) (ring_data r) \<and>
      rb_buf r' = rb_buf r)"
proof -
  let ?m = "min len (readableBytes r)"
  have m: "unat ?m = min (unat len) (unat (readableBytes r))" by (rule unat_min)
  then have le: "unat ?m \<le> unat (readableBytes r)" by simp
  have "drop (unat ?m) (ring_data r) = drop (unat len) (ring_data r)" using m by (simp add: min_def)
  then show ?thesis
    using ring_peek_eq [OF assms] ring_read_eq [OF assms] advanceReadIndex_data [OF assms(1) le]
    by (simp add: taken_def) (simp add: advanceReadIndex_def)
qed

theorem read_peek_spec_witness:
  "ring_peek [0, 0, 0] 3 ring_wrapped = (3, [10, 11, 12]) \<and>
   ring_data (snd (snd (ring_read [0, 0, 0] 3 ring_wrapped))) = [13]"
  using read_peek_spec [OF ring_wrapped_inv, of 3 "[0, 0, 0]"]
  by (simp add: ring_wrapped_data ring_wrapped_readable poke_def split: prod.splits)

text \<open>The zero-copy write: what is stored in the region that linearWritablePtr hands out
  does not disturb the contents, and advancing over it has the effect of writing it.\<close>

theorem zero_copy_spec:
  assumes "ring_inv r" "linearWritablePtr r = (Some p, n)" "length bs \<le> unat n"
  shows "ring_data (store_at p bs r) = ring_data r \<and>
    advanceWriteIndex (word_of_nat (length bs)) (store_at p bs r) = tryWrite bs (word_of_nat (length bs)) r \<and>
    ring_data (snd (advanceWriteIndex (word_of_nat (length bs)) (store_at p bs r))) = ring_data r @ bs"
proof -
  have len: "unat (word_of_nat (length bs) :: u64) = length bs"
    using assms(3) unat_less_2p64 [of n] by (intro unat_word_of_nat_u64) linarith
  then have "unat (word_of_nat (length bs) :: u64) \<le> unat (writableBytes r)"
    using linearWritable_view [OF assms(1,2)] assms(3) by simp
  then show ?thesis
    using zero_copy_write [OF assms] tryWrite_data [OF assms(1), of "word_of_nat (length bs)" bs] len
    by simp
qed

theorem zero_copy_spec_witness:
  "linearWritablePtr ring_wrapped = (Some 2, 3) \<and>
   ring_data (snd (advanceWriteIndex 2 (store_at 2 [8, 9] ring_wrapped))) = [10, 11, 12, 13, 8, 9]"
proof -
  have p: "linearWritablePtr ring_wrapped = (Some 2, 3)"
    by (simp add: ring_wrapped_def linearWritablePtr_def writableBytes_def readableBytes_def)
  then show ?thesis
    using zero_copy_spec [OF ring_wrapped_inv p, of "[8, 9]", THEN conjunct2, THEN conjunct2]
    by (simp add: ring_wrapped_data)
qed

text \<open>C20. Whatever sequence of writes and reads is driven through a ring, the bytes accepted
  come out unchanged and in order: what was there and what was accepted is what was handed out
  and what is left, and never more than the capacity is held.\<close>

theorem ring_fifo:
  assumes "ring_inv r" "\<forall>c \<in> set cs. cmd_size c < 2 ^ 64"
    "fifo_run ring_put ring_get cs r = (accepted, delivered, r')"
  shows "ring_data r @ accepted = delivered @ ring_data r' \<and> ring_inv r' \<and>
    length (ring_data r') \<le> ring_limit r"
  using byte_ring.run_fifo [OF assms] byte_ring.contents_limit [of r'] by simp

theorem ring_fifo_witness:
  "\<exists>r'. fifo_run ring_put ring_get [Get 3, Put [1, 2], Put [0, 0, 0, 0, 0], Get 2] ring_wrapped =
      ([1, 2], [10, 11, 12, 13, 1], r') \<and>
    ring_data ring_wrapped @ [1, 2] = [10, 11, 12, 13, 1] @ ring_data r'"
proof -
  let ?run = "fifo_run ring_put ring_get [Get 3, Put [1, 2], Put [0, 0, 0, 0, 0], Get 2] ring_wrapped"
  have "fst ?run = [1, 2]" "fst (snd ?run) = [10, 11, 12, 13, 1]" by code_simp+
  then have e: "?run = ([1, 2], [10, 11, 12, 13, 1], snd (snd ?run))" by (metis prod.collapse)
  show ?thesis using ring_fifo [OF ring_wrapped_inv _ e] e by (intro exI [of _ "snd (snd ?run)"]) simp
qed

end
