(* ===== verification/Byte_Order.thy ===== *)
theory Byte_Order
  imports Athena_Prelude
begin

unbundle bit_operations_syntax

text \<open>
  Integers on the wire: src/core/common/ByteConverter.h (byte swaps and the host/network
  conversions of a little-endian host) and src/transport/ByteUtils.cpp (integers copied in and
  out of memory in network order). An integer in memory is the list of its bytes in the host's
  order, least significant first; the reads and writes are shown to be big-endian.
\<close>

section \<open>Bytes of a word\<close>

definition byte_of :: "nat \<Rightarrow> 'a::len word \<Rightarrow> byte" where
  "byte_of q v = ucast (drop_bit (8 * q) v)"

lemma bit_byte_of: "n < 8 \<Longrightarrow> bit (byte_of q v) n = bit v (8 * q + n)"
  by (simp add: byte_of_def bit_simps)

lemma byte_eqI:
  assumes "bit a 0 = bit b 0" "bit a 1 = bit b 1" "bit a 2 = bit b 2" "bit a 3 = bit b 3"
    "bit a 4 = bit b 4" "bit a 5 = bit b 5" "bit a 6 = bit b 6" "bit a 7 = bit b 7"
  shows "a = (b :: byte)"
proof (rule bit_word_eqI)
  fix n
  assume "n < LENGTH(8)"
  then have "n < 8" by simp
  then have "n = 0 \<or> n = 1 \<or> n = 2 \<or> n = 3 \<or> n = 4 \<or> n = 5 \<or> n = 6 \<or> n = 7" by arith
  then show "bit a n = bit b n" using assms by auto
qed

lemma word_eq_bytesI:
  fixes a b :: "'a::len word"
  assumes "\<And>q. 8 * q < LENGTH('a) \<Longrightarrow> byte_of q a = byte_of q b"
  shows "a = b"
proof (rule bit_word_eqI)
  fix n
  assume n: "n < LENGTH('a)"
  have "8 * (n div 8) + n mod 8 = n" by simp
  moreover have "byte_of (n div 8) a = byte_of (n div 8) b"
    using n by (intro assms) (meson le_less_trans times_div_less_eq_dividend)
  ultimately show "bit a n = bit b n"
    by (metis bit_byte_of mod_less_divisor zero_less_numeral)
qed

section \<open>Byte swaps\<close>

definition swap16 :: "u16 \<Rightarrow> u16" where
  "swap16 v = push_bit 8 v OR drop_bit 8 v"

definition swap32 :: "u32 \<Rightarrow> u32" where
  "swap32 v =
    push_bit 24 (v AND 0x000000FF) OR
    push_bit 8 (v AND 0x0000FF00) OR
    drop_bit 8 (v AND 0x00FF0000) OR
    drop_bit 24 (v AND 0xFF000000)"

definition swap64 :: "u64 \<Rightarrow> u64" where
  "swap64 v =
    push_bit 56 (v AND 0x00000000000000FF) OR
    push_bit 40 (v AND 0x000000000000FF00) OR
    push_bit 24 (v AND 0x0000000000FF0000) OR
    push_bit 8 (v AND 0x00000000FF000000) OR
    drop_bit 8 (v AND 0x000000FF00000000) OR
    drop_bit 24 (v AND 0x0000FF0000000000) OR
    drop_bit 40 (v AND 0x00FF000000000000) OR
    drop_bit 56 (v AND 0xFF00000000000000)"

lemma byte_of_swap16: "byte_of 0 (swap16 v) = byte_of 1 v" "byte_of 1 (swap16 v) = byte_of 0 v"
  by (rule byte_eqI; simp add: swap16_def byte_of_def bit_simps)+

lemma byte_of_swap32:
  "byte_of 0 (swap32 v) = byte_of 3 v" "byte_of 1 (swap32 v) = byte_of 2 v"
  "byte_of 2 (swap32 v) = byte_of 1 v" "byte_of 3 (swap32 v) = byte_of 0 v"
  by (rule byte_eqI; simp add: swap32_def byte_of_def bit_simps)+

lemma byte_of_swap64:
  "byte_of 0 (swap64 v) = byte_of 7 v" "byte_of 1 (swap64 v) = byte_of 6 v"
  "byte_of 2 (swap64 v) = byte_of 5 v" "byte_of 3 (swap64 v) = byte_of 4 v"
  "byte_of 4 (swap64 v) = byte_of 3 v" "byte_of 5 (swap64 v) = byte_of 2 v"
  "byte_of 6 (swap64 v) = byte_of 1 v" "byte_of 7 (swap64 v) = byte_of 0 v"
  by (rule byte_eqI; simp add: swap64_def byte_of_def bit_simps)+

section \<open>Host and network order\<close>

definition toNetwork16 :: "u16 \<Rightarrow> u16" where "toNetwork16 v = swap16 v"
definition toNetwork32 :: "u32 \<Rightarrow> u32" where "toNetwork32 v = swap32 v"
definition toNetwork64 :: "u64 \<Rightarrow> u64" where "toNetwork64 v = swap64 v"
definition fromNetwork16 :: "u16 \<Rightarrow> u16" where "fromNetwork16 v = swap16 v"
definition fromNetwork32 :: "u32 \<Rightarrow> u32" where "fromNetwork32 v = swap32 v"
definition fromNetwork64 :: "u64 \<Rightarrow> u64" where "fromNetwork64 v = swap64 v"

lemmas network_order =
  toNetwork16_def toNetwork32_def toNetwork64_def fromNetwork16_def fromNetwork32_def fromNetwork64_def

section \<open>Integers in memory\<close>

definition mem16 :: "u16 \<Rightarrow> byte list" where "mem16 v = map (\<lambda>q. byte_of q v) [0, 1]"
definition mem32 :: "u32 \<Rightarrow> byte list" where "mem32 v = map (\<lambda>q. byte_of q v) [0, 1, 2, 3]"
definition mem64 :: "u64 \<Rightarrow> byte list" where
  "mem64 v = map (\<lambda>q. byte_of q v) [0, 1, 2, 3, 4, 5, 6, 7]"

text \<open>memcpy from memory into an integer.\<close>

fun load :: "byte list \<Rightarrow> 'a::len word" where
  "load [] = 0"
| "load (b # bs) = ucast b OR push_bit 8 (load bs)"

definition load16 :: "byte list \<Rightarrow> u16" where "load16 m = load (take 2 m)"
definition load32 :: "byte list \<Rightarrow> u32" where "load32 m = load (take 4 m)"
definition load64 :: "byte list \<Rightarrow> u64" where "load64 m = load (take 8 m)"

lemma byte_of_load:
  "q < length bs \<Longrightarrow> 8 * q + 8 \<le> LENGTH('a) \<Longrightarrow> byte_of q (load bs :: 'a::len word) = bs ! q"
proof (induction bs arbitrary: q)
  case Nil
  then show ?case by simp
next
  case (Cons b bs)
  show ?case
  proof (cases q)
    case 0
    then show ?thesis using Cons.prems by (intro bit_word_eqI) (auto simp: byte_of_def bit_simps)
  next
    case (Suc p)
    have "byte_of (Suc p) (ucast b OR push_bit 8 (load bs) :: 'a word) = byte_of p (load bs :: 'a word)"
      using Cons.prems Suc
      by (intro bit_word_eqI) (auto simp: byte_of_def bit_simps dest: bit_imp_le_length)
    then show ?thesis using Cons Suc by simp
  qed
qed

section \<open>Network order is big-endian\<close>

definition be16 :: "u16 \<Rightarrow> byte list" where "be16 v = map (\<lambda>q. byte_of q v) [1, 0]"
definition be32 :: "u32 \<Rightarrow> byte list" where "be32 v = map (\<lambda>q. byte_of q v) [3, 2, 1, 0]"
definition be64 :: "u64 \<Rightarrow> byte list" where
  "be64 v = map (\<lambda>q. byte_of q v) [7, 6, 5, 4, 3, 2, 1, 0]"

lemma mem_toNetwork:
  "mem16 (toNetwork16 v) = be16 v" "mem32 (toNetwork32 w) = be32 w" "mem64 (toNetwork64 x) = be64 x"
  by (simp_all add: mem16_def mem32_def mem64_def be16_def be32_def be64_def network_order
      byte_of_swap16 byte_of_swap32 byte_of_swap64 del: One_nat_def)

lemma length_be [simp]: "length (be16 v) = 2" "length (be32 w) = 4" "length (be64 x) = 8"
  by (simp_all add: be16_def be32_def be64_def)

lemma u16_eq_bytesI:
  assumes "byte_of 0 a = byte_of 0 b" "byte_of 1 a = byte_of 1 b"
  shows "a = (b :: u16)"
proof (rule word_eq_bytesI)
  fix q
  assume "8 * q < LENGTH(16)"
  then have "q < 2" by simp
  then have "q = 0 \<or> q = 1" by arith
  then show "byte_of q a = byte_of q b" using assms by auto
qed

lemma u32_eq_bytesI:
  assumes "byte_of 0 a = byte_of 0 b" "byte_of 1 a = byte_of 1 b"
    "byte_of 2 a = byte_of 2 b" "byte_of 3 a = byte_of 3 b"
  shows "a = (b :: u32)"
proof (rule word_eq_bytesI)
  fix q
  assume "8 * q < LENGTH(32)"
  then have "q < 4" by simp
  then have "q = 0 \<or> q = 1 \<or> q = 2 \<or> q = 3" by arith
  then show "byte_of q a = byte_of q b" using assms by auto
qed

lemma u64_eq_bytesI:
  assumes "byte_of 0 a = byte_of 0 b" "byte_of 1 a = byte_of 1 b"
    "byte_of 2 a = byte_of 2 b" "byte_of 3 a = byte_of 3 b"
    "byte_of 4 a = byte_of 4 b" "byte_of 5 a = byte_of 5 b"
    "byte_of 6 a = byte_of 6 b" "byte_of 7 a = byte_of 7 b"
  shows "a = (b :: u64)"
proof (rule word_eq_bytesI)
  fix q
  assume "8 * q < LENGTH(64)"
  then have "q < 8" by simp
  then have "q = 0 \<or> q = 1 \<or> q = 2 \<or> q = 3 \<or> q = 4 \<or> q = 5 \<or> q = 6 \<or> q = 7" by arith
  then show "byte_of q a = byte_of q b" using assms by auto
qed

lemma swap_swap: "swap16 (swap16 v) = v" "swap32 (swap32 w) = w" "swap64 (swap64 x) = x"
  by (rule u16_eq_bytesI u32_eq_bytesI u64_eq_bytesI;
      simp only: byte_of_swap16 byte_of_swap32 byte_of_swap64)+

section \<open>Integers copied in and out of memory\<close>

text \<open>\<open>body\<close> is the memory from the pointer on.\<close>

definition readInt32 :: "byte list \<Rightarrow> u32" where
  "readInt32 body = (let value = load32 body in fromNetwork32 value)"

definition writeInt32 :: "byte list \<Rightarrow> u32 \<Rightarrow> byte list" where
  "writeInt32 body value = (let nValue = toNetwork32 value in poke body 0 (mem32 nValue))"

definition readInt16 :: "byte list \<Rightarrow> u16" where
  "readInt16 body = (let value = load16 body in fromNetwork16 value)"

definition writeInt16 :: "byte list \<Rightarrow> u16 \<Rightarrow> byte list" where
  "writeInt16 body value = (let nValue = toNetwork16 value in poke body 0 (mem16 nValue))"

text \<open>The 64-bit load of src/core/common/ByteBuffer.h, written the same way.\<close>

definition readInt64 :: "byte list \<Rightarrow> u64" where
  "readInt64 body = fromNetwork64 (load64 body)"

lemma load_mem: "load16 (mem16 v @ m) = v" "load32 (mem32 w @ m) = w" "load64 (mem64 x @ m) = x"
  by (rule u16_eq_bytesI u32_eq_bytesI u64_eq_bytesI;
      simp add: load16_def load32_def load64_def mem16_def mem32_def mem64_def byte_of_load
      del: load.simps)+

lemma read_be: "readInt16 (be16 v @ m) = v" "readInt32 (be32 w @ m) = w" "readInt64 (be64 x @ m) = x"
  by (simp_all add: readInt16_def readInt32_def readInt64_def load_mem flip: mem_toNetwork)
    (simp_all add: network_order swap_swap)

lemma length_2: "length bs = 2 \<Longrightarrow> \<exists>a b. bs = [a, b]"
  by (auto simp: numeral_eq_Suc length_Suc_conv)

lemma length_4: "length bs = 4 \<Longrightarrow> \<exists>a b c d. bs = [a, b, c, d]"
  by (auto simp: numeral_eq_Suc length_Suc_conv)

lemma length_8: "length bs = 8 \<Longrightarrow> \<exists>a b c d e f g h. bs = [a, b, c, d, e, f, g, h]"
  by (auto simp: numeral_eq_Suc length_Suc_conv)

lemma be_read:
  "length bs = 2 \<Longrightarrow> be16 (readInt16 bs) = bs"
  "length bs = 4 \<Longrightarrow> be32 (readInt32 bs) = bs"
  "length bs = 8 \<Longrightarrow> be64 (readInt64 bs) = bs"
  by (auto dest!: length_2 length_4 length_8 simp: be16_def be32_def be64_def readInt16_def
      readInt32_def readInt64_def network_order byte_of_swap16 byte_of_swap32 byte_of_swap64
      load16_def load32_def load64_def byte_of_load simp del: load.simps One_nat_def)

section \<open>Fixed-width fields\<close>

text \<open>What the framing code uses of an integer on the wire: a fixed width, and that reading
  undoes writing whatever follows.\<close>

locale int_codec =
  fixes width :: nat
    and enc :: "'v \<Rightarrow> byte list"
    and dec :: "byte list \<Rightarrow> 'v"
  assumes enc_length: "length (enc v) = width"
    and dec_enc: "dec (enc v @ rest) = v"
    and enc_dec: "length bs = width \<Longrightarrow> enc (dec bs) = bs"
begin

lemma dec_take: "width \<le> length bs \<Longrightarrow> dec (take width bs) = dec bs"
  using dec_enc [of "dec (take width bs)" "drop width bs"] by (simp add: enc_dec)

lemma enc_prefix: "enc a @ x = enc b @ y \<Longrightarrow> a = b \<and> x = y"
  by (metis append_eq_append_conv dec_enc enc_length)

lemma enc_take: "width \<le> length bs \<Longrightarrow> enc (dec bs) = take width bs"
  using enc_dec [of "take width bs"] by (simp add: dec_take)

lemma length_fields: "length (concat (map enc vs)) = width * length vs"
  by (induction vs) (simp_all add: enc_length)

text \<open>The field at index \<open>i\<close> of a header of equal fields.\<close>

lemma dec_field:
  "i < length vs \<Longrightarrow> dec (drop (width * i) (concat (map enc vs) @ rest)) = vs ! i"
proof (induction vs arbitrary: i)
  case Nil
  then show ?case by simp
next
  case (Cons v vs)
  then show ?case by (cases i) (simp_all add: dec_enc enc_length)
qed

end

interpretation codec16: int_codec 2 be16 readInt16
  by unfold_locales (simp_all add: read_be be_read)

interpretation codec32: int_codec 4 be32 readInt32
  by unfold_locales (simp_all add: read_be be_read)

interpretation codec64: int_codec 8 be64 readInt64
  by unfold_locales (simp_all add: read_be be_read)

section \<open>Properties\<close>

text \<open>An integer written to memory is stored big-endian in exactly its own bytes, and reading
  it back gives the integer, for both widths; reading any four or two bytes and writing them again
  changes nothing.\<close>

theorem wire_int_roundtrip:
  "readInt32 (writeInt32 body v) = v \<and> drop 4 (writeInt32 body v) = drop 4 body \<and>
   take 4 (writeInt32 body v) = map (\<lambda>i. ucast (drop_bit (8 * i) v)) [3, 2, 1, 0] \<and>
   readInt16 (writeInt16 body w) = w \<and> drop 2 (writeInt16 body w) = drop 2 body \<and>
   take 2 (writeInt16 body w) = map (\<lambda>i. ucast (drop_bit (8 * i) w)) [1, 0] \<and>
   (4 \<le> length body \<longrightarrow> writeInt32 body (readInt32 body) = body) \<and>
   (2 \<le> length body \<longrightarrow> writeInt16 body (readInt16 body) = body)"
  by (simp add: writeInt32_def writeInt16_def Let_def mem_toNetwork poke_def read_be
      codec32.enc_take codec16.enc_take)
    (simp add: be32_def be16_def byte_of_def)

theorem wire_int_roundtrip_witness:
  "readInt32 (writeInt32 [9, 9, 9, 9, 9] 0x41544841) = 0x41544841 \<and>
   drop 4 (writeInt32 [9, 9, 9, 9, 9] 0x41544841) = [9] \<and>
   writeInt32 [9, 9, 9, 9, 9] (readInt32 [9, 9, 9, 9, 9]) = [9, 9, 9, 9, 9]"
  using wire_int_roundtrip [where body = "[9, 9, 9, 9, 9]" and v = "0x41544841" and w = 0] by simp

end
