(* ===== verification/Byte_Buffer.thy ===== *)
theory Byte_Buffer
  imports Ring_Buffer Byte_Order
begin

unbundle bit_operations_syntax

text \<open>
  The typed view of a byte ring, src/core/common/ByteBuffer.h: integers appended in network
  order and peeked at the read position, and byte blocks written and read. A ByteBuffer owns
  exactly one RingByteBuf, so its state is that ring.
\<close>

type_synonym byte_buffer = rbb

section \<open>Operations\<close>

definition bb_new :: "(u64 \<Rightarrow> byte list option) \<Rightarrow> u64 \<Rightarrow> rb_error + byte_buffer" where
  "bb_new alloc reserve = rb_new alloc reserve"

definition bb_writeInt8 :: "byte \<Rightarrow> byte_buffer \<Rightarrow> byte_buffer" where
  "bb_writeInt8 value b = snd (tryWrite [value] 1 b)"

definition bb_peekInt8 :: "byte_buffer \<Rightarrow> byte" where
  "bb_peekInt8 b =
    (case ring_peek [0] 1 b of (n, value) \<Rightarrow> if n \<noteq> 1 then 0 else value ! 0)"

definition bb_writeInt16 :: "u16 \<Rightarrow> byte_buffer \<Rightarrow> byte_buffer" where
  "bb_writeInt16 value b =
    (let value = toNetwork16 value in snd (tryWrite (mem16 value) 2 b))"

definition bb_peekInt16 :: "byte_buffer \<Rightarrow> u16" where
  "bb_peekInt16 b =
    (case ring_peek (mem16 0) 2 b of
       (n, value) \<Rightarrow> if n \<noteq> 2 then 0 else fromNetwork16 (load16 value))"

definition bb_writeInt32 :: "u32 \<Rightarrow> byte_buffer \<Rightarrow> byte_buffer" where
  "bb_writeInt32 value b =
    (let value = toNetwork32 value in snd (tryWrite (mem32 value) 4 b))"

definition bb_peekInt32 :: "byte_buffer \<Rightarrow> u32" where
  "bb_peekInt32 b =
    (case ring_peek (mem32 0) 4 b of
       (n, value) \<Rightarrow> if n \<noteq> 4 then 0 else fromNetwork32 (load32 value))"

definition bb_writeInt64 :: "u64 \<Rightarrow> byte_buffer \<Rightarrow> byte_buffer" where
  "bb_writeInt64 value b =
    (let value = toNetwork64 value in snd (tryWrite (mem64 value) 8 b))"

definition bb_peekInt64 :: "byte_buffer \<Rightarrow> u64" where
  "bb_peekInt64 b =
    (case ring_peek (mem64 0) 8 b of
       (n, value) \<Rightarrow> if n \<noteq> 8 then 0 else fromNetwork64 (load64 value))"

definition bb_writeBytes :: "byte list \<Rightarrow> u64 \<Rightarrow> byte_buffer \<Rightarrow> bool \<times> byte_buffer" where
  "bb_writeBytes body len b = tryWrite body len b"

definition bb_readBytes :: "byte list \<Rightarrow> u64 \<Rightarrow> byte_buffer \<Rightarrow> u64 \<times> byte list \<times> byte_buffer" where
  "bb_readBytes body len b = ring_read body len b"

definition bb_advanceWriteIndex :: "u64 \<Rightarrow> byte_buffer \<Rightarrow> bool \<times> byte_buffer" where
  "bb_advanceWriteIndex amount b = advanceWriteIndex amount b"

section \<open>Integer writes are queue writes\<close>

lemma bb_write_put:
  "bb_writeInt8 x b = snd (ring_put [x] b)"
  "bb_writeInt16 v b = snd (ring_put (be16 v) b)"
  "bb_writeInt32 w b = snd (ring_put (be32 w) b)"
  "bb_writeInt64 z b = snd (ring_put (be64 z) b)"
  by (simp_all add: bb_writeInt8_def bb_writeInt16_def bb_writeInt32_def bb_writeInt64_def
      ring_put_def mem_toNetwork)

lemma bb_writeBytes_put: "bb_writeBytes bs (word_of_nat (length bs)) b = ring_put bs b"
  by (simp add: bb_writeBytes_def ring_put_def)

text \<open>One step of a multi-field append: with room for the field it is appended.\<close>

definition room :: "rbb \<Rightarrow> nat" where
  "room r = ring_limit r - length (ring_data r)"

lemma put_step:
  assumes "ring_inv b" "length bs \<le> room b" "length bs < 2 ^ 64"
  shows "fst (ring_put bs b)" "ring_inv (snd (ring_put bs b))"
    "ring_data (snd (ring_put bs b)) = ring_data b @ bs"
    "ring_limit (snd (ring_put bs b)) = ring_limit b"
    "room (snd (ring_put bs b)) = room b - length bs"
proof -
  have "length (ring_data b) + length bs \<le> ring_limit b"
    using assms(2) byte_ring.contents_limit [OF assms(1)] by (simp add: room_def)
  then show *: "fst (ring_put bs b)"
    using byte_ring.put_accepts [OF assms(1,3)] by simp
  show "ring_inv (snd (ring_put bs b))" by (rule byte_ring.put_inv [OF assms(1,3)])
  show **: "ring_data (snd (ring_put bs b)) = ring_data b @ bs"
    using byte_ring.put_contents [OF assms(1,3)] * by simp
  show ***: "ring_limit (snd (ring_put bs b)) = ring_limit b" by (rule byte_ring.put_limit [OF assms(1,3)])
  show "room (snd (ring_put bs b)) = room b - length bs" by (simp add: room_def ** ***)
qed

lemma unat_writable_room: "ring_inv b \<Longrightarrow> unat (writableBytes b) = room b"
  by (simp add: unat_writableBytes room_def ring_limit_def)

section \<open>Peeks are decodings of the contents\<close>

lemma peek_exact:
  assumes "ring_inv b" "length dst = unat n"
  shows "ring_peek dst n b = (min n (readableBytes b),
      take (unat n) (ring_data b) @ drop (length (ring_data b)) dst)"
    "fst (ring_peek dst n b) = n \<longleftrightarrow> unat n \<le> length (ring_data b)"
proof -
  have e: "ring_peek dst n b = (min n (readableBytes b), poke dst 0 (taken n b))"
    using ring_peek_eq [OF assms(1)] assms(2) by simp
  moreover have "poke dst 0 (taken n b) = take (unat n) (ring_data b) @ drop (length (ring_data b)) dst"
    using assms(2) by (auto simp: poke_def taken_def min_def)
  ultimately show "ring_peek dst n b = (min n (readableBytes b),
      take (unat n) (ring_data b) @ drop (length (ring_data b)) dst)" by simp
  have "min n (readableBytes b) = n \<longleftrightarrow> unat n \<le> unat (readableBytes b)"
    by (auto simp: min_def word_le_nat_alt)
  then show "fst (ring_peek dst n b) = n \<longleftrightarrow> unat n \<le> length (ring_data b)" using e by simp
qed

lemma bb_peek_eq:
  assumes "ring_inv b"
  shows "bb_peekInt8 b = (if length (ring_data b) < 1 then 0 else ring_data b ! 0)"
    "bb_peekInt16 b = (if length (ring_data b) < 2 then 0 else readInt16 (ring_data b))"
    "bb_peekInt32 b = (if length (ring_data b) < 4 then 0 else readInt32 (ring_data b))"
    "bb_peekInt64 b = (if length (ring_data b) < 8 then 0 else readInt64 (ring_data b))"
  using peek_exact [OF assms, of "[0]" 1] peek_exact [OF assms, of "mem16 0" 2]
    peek_exact [OF assms, of "mem32 0" 4] peek_exact [OF assms, of "mem64 0" 8]
  by (auto simp: bb_peekInt8_def bb_peekInt16_def bb_peekInt32_def bb_peekInt64_def
      mem16_def mem32_def mem64_def readInt16_def readInt32_def readInt64_def
      load16_def load32_def load64_def split: prod.splits)

lemma put_refused:
  assumes "ring_inv b" "room b < length bs" "length bs < 2 ^ 64"
  shows "ring_put bs b = (False, b)"
proof -
  have "unat (word_of_nat (length bs) :: u64) = length bs" using assms(3) by (rule unat_word_of_nat_u64)
  then show ?thesis
    using assms(2) tryWrite_full [of b "word_of_nat (length bs)" bs] unat_writable_room [OF assms(1)]
    by (simp add: ring_put_def)
qed

text \<open>A sequence of fields that fits as a whole is appended as a whole.\<close>

definition put_all :: "byte list list \<Rightarrow> rbb \<Rightarrow> rbb" where
  "put_all bss b = fold (\<lambda>bs b. snd (ring_put bs b)) bss b"

lemma put_all_simps [simp]:
  "put_all [] b = b" "put_all (bs # bss) b = put_all bss (snd (ring_put bs b))"
  by (simp_all add: put_all_def)

lemma put_all_fits:
  assumes "ring_inv b" "length (concat bss) \<le> room b" "length (concat bss) < 2 ^ 64"
  shows "ring_inv (put_all bss b) \<and> ring_data (put_all bss b) = ring_data b @ concat bss \<and>
    ring_limit (put_all bss b) = ring_limit b"
  using assms
proof (induction bss arbitrary: b)
  case Nil
  then show ?case by simp
next
  case (Cons bs bss)
  have bs: "length bs \<le> room b" "length bs < 2 ^ 64" using Cons.prems by simp_all
  show ?case using put_step [OF Cons.prems(1) bs] Cons.prems Cons.IH [of "snd (ring_put bs b)"] by simp
qed

section \<open>Properties\<close>

text \<open>A typed write appends the big-endian bytes of the integer when there is room for all of
  them and otherwise writes nothing; a typed peek decodes the oldest bytes, and is 0 when there are
  too few of them.\<close>

theorem byte_buffer_spec:
  assumes "ring_inv b"
  shows "ring_data (bb_writeInt32 v b) = ring_data b @ (if 4 \<le> room b then be32 v else []) \<and>
    ring_data (bb_writeInt16 w b) = ring_data b @ (if 2 \<le> room b then be16 w else []) \<and>
    ring_data (bb_writeInt64 x b) = ring_data b @ (if 8 \<le> room b then be64 x else []) \<and>
    ring_data (bb_writeInt8 y b) = ring_data b @ (if 1 \<le> room b then [y] else []) \<and>
    bb_peekInt32 b = (if length (ring_data b) < 4 then 0 else readInt32 (ring_data b)) \<and>
    bb_peekInt16 b = (if length (ring_data b) < 2 then 0 else readInt16 (ring_data b)) \<and>
    bb_peekInt64 b = (if length (ring_data b) < 8 then 0 else readInt64 (ring_data b)) \<and>
    bb_peekInt8 b = (if length (ring_data b) < 1 then 0 else ring_data b ! 0)"
  using put_step(3) [OF assms, of "be32 v"] put_step(3) [OF assms, of "be16 w"]
    put_step(3) [OF assms, of "be64 x"] put_step(3) [OF assms, of "[y]"]
    put_refused [OF assms, of "be32 v"] put_refused [OF assms, of "be16 w"]
    put_refused [OF assms, of "be64 x"] put_refused [OF assms, of "[y]"]
  by (simp add: bb_write_put bb_peek_eq [OF assms])

theorem byte_buffer_spec_witness:
  "ring_data (bb_writeInt16 0x4154 ring_wrapped) = [10, 11, 12, 13, 0x41, 0x54] \<and>
   ring_data (bb_writeInt32 1 ring_wrapped) = [10, 11, 12, 13] \<and>
   bb_peekInt32 ring_wrapped = 0x0A0B0C0D"
proof -
  have r: "room ring_wrapped = 3" using unat_writable_room [OF ring_wrapped_inv] ring_wrapped_room by simp
  have b: "be16 0x4154 = [0x41, 0x54]" "readInt32 [10, 11, 12, 13] = 0x0A0B0C0D" by code_simp+
  show ?thesis using byte_buffer_spec [OF ring_wrapped_inv, where v = 1 and w = "0x4154"]
    by (simp add: ring_wrapped_data r b)
qed

end
