(* ===== verification/Frame.thy ===== *)
theory Frame
  imports Byte_Buffer
begin

unbundle bit_operations_syntax

text \<open>
  The frame format of the links, as the constants of src/transport/Channel.h state it, and
  the language of byte streams made of such frames: what a stream of frames is, what its first
  frame is, and how it splits. The channel theories show that the code writes and reads exactly
  this language.
\<close>

section \<open>Constants\<close>

datatype proto = INNER | CLIENT

definition INNER_HEADER_LEN :: int where "INNER_HEADER_LEN = 4 * 4"
definition INNER_LEN_OVERHEAD :: int where "INNER_LEN_OVERHEAD = INNER_HEADER_LEN - 4"
definition CLIENT_HEADER_LEN :: int where "CLIENT_HEADER_LEN = 3 * 4"
definition CLIENT_LEN_OVERHEAD :: int where "CLIENT_LEN_OVERHEAD = CLIENT_HEADER_LEN - 4"
definition MAGIC_NUM :: u32 where "MAGIC_NUM = 0x41544841"
definition MAX_PACKET_SIZE :: int where "MAX_PACKET_SIZE = 4 * 1024 * 1024"
definition DEFAULT_BUFF_SIZE :: u64 where "DEFAULT_BUFF_SIZE = 64 * 1024"

lemmas frame_constants = INNER_HEADER_LEN_def INNER_LEN_OVERHEAD_def CLIENT_HEADER_LEN_def
  CLIENT_LEN_OVERHEAD_def MAX_PACKET_SIZE_def

text \<open>The header length and the part of it that the length field counts.\<close>

definition header_len :: "proto \<Rightarrow> nat" where
  "header_len m = (case m of INNER \<Rightarrow> 16 | CLIENT \<Rightarrow> 12)"

definition magic_off :: "proto \<Rightarrow> nat" where
  "magic_off m = (case m of INNER \<Rightarrow> 12 | CLIENT \<Rightarrow> 8)"

definition max_frame :: nat where "max_frame = 4 * 1024 * 1024"

lemma magic_off_header: "magic_off m + 4 = header_len m" "8 \<le> magic_off m" "12 \<le> header_len m"
  "header_len m \<le> 16"
  by (cases m; simp add: magic_off_def header_len_def)+

section \<open>Frames\<close>

record frame =
  fr_id :: u32
  fr_player :: u32
  fr_body :: "byte list"

text \<open>The fields of the header in wire order; the length field counts everything after itself.\<close>

definition len_field :: "proto \<Rightarrow> frame \<Rightarrow> u32" where
  "len_field m f = word_of_nat (header_len m - 4 + length (fr_body f))"

definition frame_fields :: "proto \<Rightarrow> frame \<Rightarrow> u32 list" where
  "frame_fields m f =
    [len_field m f, fr_id f] @
    (case m of INNER \<Rightarrow> [fr_player f] | CLIENT \<Rightarrow> []) @ [MAGIC_NUM]"

definition frame_bytes :: "proto \<Rightarrow> frame \<Rightarrow> byte list" where
  "frame_bytes m f = concat (map be32 (frame_fields m f)) @ fr_body f"

definition frame_size :: "proto \<Rightarrow> frame \<Rightarrow> nat" where
  "frame_size m f = header_len m + length (fr_body f)"

text \<open>The frames that the protocol admits.\<close>

definition frame_ok :: "proto \<Rightarrow> frame \<Rightarrow> bool" where
  "frame_ok m f \<longleftrightarrow> frame_size m f \<le> max_frame"

lemma length_frame_fields: "4 * length (frame_fields m f) = header_len m"
  by (cases m) (simp_all add: frame_fields_def header_len_def)

lemma length_frame_bytes [simp]: "length (frame_bytes m f) = frame_size m f"
  using codec32.length_fields [of "frame_fields m f"]
  by (simp add: frame_bytes_def frame_size_def length_frame_fields)

lemma frame_field:
  assumes "i < length (frame_fields m f)"
  shows "readInt32 (drop (4 * i) (frame_bytes m f @ rest)) = frame_fields m f ! i"
  unfolding frame_bytes_def append_assoc by (rule codec32.dec_field [OF assms])

lemma frame_len_field: "readInt32 (frame_bytes m f @ rest) = len_field m f"
  using frame_field [of 0 m f rest] by (simp add: frame_fields_def)

lemma unat_len_field:
  assumes "frame_ok m f"
  shows "unat (len_field m f) + 4 = frame_size m f"
proof -
  have "header_len m - 4 + length (fr_body f) < 2 ^ 32"
    using assms by (simp add: frame_ok_def max_frame_def frame_size_def)
  then have "unat (len_field m f) = header_len m - 4 + length (fr_body f)"
    unfolding len_field_def unat_of_nat by (simp add: take_bit_nat_eq_self)
  then show ?thesis using magic_off_header [of m] by (simp add: frame_size_def)
qed

lemma frame_id_field: "readInt32 (drop 4 (frame_bytes m f @ rest)) = fr_id f"
  using frame_field [of 1 m f rest] by (simp add: frame_fields_def)

lemma frame_magic_field: "readInt32 (drop (magic_off m) (frame_bytes m f @ rest)) = MAGIC_NUM"
  using frame_field [of "magic_off m div 4" m f rest]
  by (cases m) (simp_all add: frame_fields_def magic_off_def)

lemma frame_player_field: "readInt32 (drop 8 (frame_bytes INNER f @ rest)) = fr_player f"
  using frame_field [of 2 INNER f rest] by (simp add: frame_fields_def)

lemma frame_body_part: "drop (header_len m) (frame_bytes m f) = fr_body f"
  using codec32.length_fields [of "frame_fields m f"]
  by (simp add: frame_bytes_def length_frame_fields)

section \<open>The head of a stream\<close>

text \<open>What a reader can conclude from the bytes received so far.\<close>

datatype head = Incomplete | Illegal | Complete nat

definition stream_head :: "proto \<Rightarrow> byte list \<Rightarrow> head" where
  "stream_head m bs =
    (if length bs < header_len m then Incomplete
     else if max_frame < unat (readInt32 bs) + 4 then Illegal
     else if readInt32 (drop (magic_off m) bs) \<noteq> MAGIC_NUM then Illegal
     else if length bs < unat (readInt32 bs) + 4 then Incomplete
     else Complete (unat (readInt32 bs) + 4))"

lemma stream_head_frame:
  assumes "frame_ok m f"
  shows "stream_head m (frame_bytes m f @ rest) = Complete (frame_size m f)"
proof -
  have "header_len m \<le> frame_size m f" by (simp add: frame_size_def)
  then show ?thesis using assms
    by (simp add: stream_head_def frame_len_field frame_magic_field frame_ok_def unat_len_field
        del: drop_append)
qed

lemma dec32_take: "4 \<le> n \<Longrightarrow> n \<le> length bs \<Longrightarrow> readInt32 (take n bs) = readInt32 bs"
  using codec32.dec_take [of bs] codec32.dec_take [of "take n bs"] by (simp add: min_absorb1)

lemma dec32_field_take:
  "k + 4 \<le> n \<Longrightarrow> n \<le> length bs \<Longrightarrow> readInt32 (drop k (take n bs)) = readInt32 (drop k bs)"
  using dec32_take [of "n - k" "drop k bs"] by (simp add: drop_take)

text \<open>Nothing shorter than the whole frame is complete, and no prefix of it is illegal.\<close>

lemma stream_head_prefix:
  assumes "frame_ok m f" "n < frame_size m f"
  shows "stream_head m (take n (frame_bytes m f)) = Incomplete"
proof (cases "n < header_len m")
  case True
  then show ?thesis using assms by (simp add: stream_head_def)
next
  case False
  let ?bs = "take n (frame_bytes m f)"
  have n: "header_len m \<le> n" "n \<le> length (frame_bytes m f)" using False assms(2) by simp_all
  have "readInt32 ?bs = len_field m f"
    using dec32_take [of n "frame_bytes m f"] n magic_off_header [of m]
      frame_len_field [of m f "[]"] by simp
  moreover have "readInt32 (drop (magic_off m) ?bs) = MAGIC_NUM"
    using dec32_field_take [of "magic_off m" n "frame_bytes m f"] n magic_off_header [of m]
      frame_magic_field [of m f "[]"] by simp
  ultimately show ?thesis
    using n assms by (simp add: stream_head_def frame_ok_def unat_len_field)
qed

section \<open>Streams of frames\<close>

definition stream_bytes :: "proto \<Rightarrow> frame list \<Rightarrow> byte list" where
  "stream_bytes m fs = concat (map (frame_bytes m) fs)"

lemma stream_bytes_simps [simp]:
  "stream_bytes m [] = []"
  "stream_bytes m (f # fs) = frame_bytes m f @ stream_bytes m fs"
  "stream_bytes m (fs @ gs) = stream_bytes m fs @ stream_bytes m gs"
  by (simp_all add: stream_bytes_def)

end
