(* ===== verification/Channel.thy ===== *)
theory Channel
  imports Frame
begin

unbundle bit_operations_syntax

text \<open>
  One connection, src/transport/Channel.h and Channel.cpp: construction with clamped buffers,
  the frame writer and the asynchronous sender with its write callback, the reader's view of the
  next frame, and the close sequence. The channel's own fields are the record \<open>channel\<close>; the
  record \<open>conn\<close> adds what the event loop and libuv keep for it: whether the registry still
  holds it, the tasks queued for it, the writes libuv has accepted, and the bytes the kernel has
  taken (the wire).
\<close>

section \<open>State\<close>

record channel =
  recv_buffer :: byte_buffer
  send_buff :: byte_buffer
  proto_mode :: proto
  chan_id :: u32
  closed :: bool
  tcp_closed :: bool
  timer_closed :: bool
  last_recv_time :: u64
  last_send_time :: u64

text \<open>A protobuf message as the channel uses it: its ByteSizeLong, and what SerializeToArray
  gives (\<open>None\<close> when it fails).\<close>

record pmsg =
  pm_size :: int
  pm_bytes :: "byte list option"

datatype task =
    Write_task u32 pmsg i64
  | Raw_write_task u32 "byte list" i64
  | Close_task

text \<open>A write accepted by libuv: the buffer it was given (offset into the send block, length),
  the size that the callback will consume, and how many bytes the kernel has taken so far.\<close>

record write_pack =
  wp_ptr :: u64
  wp_len :: u32
  wp_sendSize :: i32
  wp_taken :: nat

record conn = channel +
  registered :: bool
  tasks :: "task list"
  uv_writes :: "write_pack list"
  uv_closing :: bool
  on_closed_calls :: nat
  wire :: "byte list"

section \<open>Construction\<close>

definition clampBuffSize :: "u64 \<Rightarrow> u64" where
  "clampBuffSize size' =
    (if size' = 0 then DEFAULT_BUFF_SIZE
     else let maxFrame = word_of_int MAX_PACKET_SIZE + word_of_int INNER_HEADER_LEN
       in if size' > maxFrame then maxFrame else size')"

text \<open>The counter behind the ids: the id handed out and the counter afterwards.\<close>

definition generateId :: "u32 \<Rightarrow> u32 \<times> u32" where
  "generateId next_id = (next_id + 1, next_id + 1)"

text \<open>\<open>alloc\<close> allocates the two rings; a ring that cannot be built throws.\<close>

definition channel_new ::
  "(u64 \<Rightarrow> byte list option) \<Rightarrow> u64 \<Rightarrow> u64 \<Rightarrow> proto \<Rightarrow> u32 \<Rightarrow> rb_error + channel" where
  "channel_new alloc recvBuffSize sendBuffSize protoMode id' =
    (case bb_new alloc (clampBuffSize recvBuffSize) of
       Inl e \<Rightarrow> Inl e
     | Inr recv \<Rightarrow>
        (case bb_new alloc (clampBuffSize sendBuffSize) of
           Inl e \<Rightarrow> Inl e
         | Inr send \<Rightarrow>
             Inr \<lparr>recv_buffer = recv, send_buff = send, proto_mode = protoMode, chan_id = id',
               closed = False, tcp_closed = False, timer_closed = False,
               last_recv_time = 0, last_send_time = 0\<rparr>))"

text \<open>Registered with a loop, nothing queued and nothing in flight.\<close>

definition conn_of :: "channel \<Rightarrow> conn" where
  "conn_of ch = channel.extend ch
    \<lparr>registered = True, tasks = [], uv_writes = [], uv_closing = False, on_closed_calls = 0, wire = []\<rparr>"

section \<open>Closing\<close>

definition chan_close :: "conn \<Rightarrow> conn" where
  "chan_close c =
    (if closed c then c
     else let c = c\<lparr>closed := True\<rparr> in
       if \<not> registered c then c
       else c\<lparr>tasks := tasks c @ [Close_task]\<rparr>)"

lemma chan_close_closed [simp]: "closed (chan_close c)"
  by (simp add: chan_close_def Let_def)

definition closeInLoop :: "conn \<Rightarrow> conn" where
  "closeInLoop c = c\<lparr>uv_closing := True, on_closed_calls := on_closed_calls c + 1\<rparr>"

text \<open>EventLoop::releaseChannel: the registry drops its reference.\<close>

definition releaseChannel :: "conn \<Rightarrow> conn" where
  "releaseChannel c = c\<lparr>registered := False\<rparr>"

datatype handle = Tcp_handle | Timer_handle

definition onHandleClosed :: "handle \<Rightarrow> conn \<Rightarrow> conn" where
  "onHandleClosed handle c =
    (let c = (case handle of Tcp_handle \<Rightarrow> c\<lparr>tcp_closed := True\<rparr>
                           | Timer_handle \<Rightarrow> c\<lparr>timer_closed := True\<rparr>)
     in if tcp_closed c \<and> timer_closed c then releaseChannel c else c)"

section \<open>Sending\<close>

text \<open>\<open>ret\<close> is what uv_write returns.\<close>

definition doUvSend :: "int \<Rightarrow> conn \<Rightarrow> conn" where
  "doUvSend ret c =
    (if closed c then c
     else case linearReadablePtr (send_buff c) of
       (sendPtr, needSendLen) \<Rightarrow>
         if needSendLen = 0 then c
         else
           let write_pack = \<lparr>wp_ptr = the sendPtr, wp_len = ucast needSendLen,
                 wp_sendSize = ucast needSendLen, wp_taken = 0\<rparr>
           in if ret \<noteq> 0 then chan_close c
              else c\<lparr>uv_writes := uv_writes c @ [write_pack]\<rparr>)"

text \<open>The write callback of doUvSend; the pack and the request are released in every case.\<close>

definition UV_ECANCELED :: int where "UV_ECANCELED = -125"

definition write_cb :: "write_pack \<Rightarrow> int \<Rightarrow> int \<Rightarrow> conn \<Rightarrow> conn" where
  "write_cb write_pack status ret c =
    (if status < 0 then
       (if status \<noteq> UV_ECANCELED then chan_close c else c)
     else
       case advanceReadIndex (scast (wp_sendSize write_pack)) (send_buff c) of
         (ok, b) \<Rightarrow>
           (let c = c\<lparr>send_buff := b\<rparr> in
            if \<not> ok then chan_close c else doUvSend ret c))"

text \<open>The header and the body of a frame, field by field, as both writers emit them.\<close>

definition emit_frame :: "u32 \<Rightarrow> byte list \<Rightarrow> i64 \<Rightarrow> conn \<Rightarrow> conn" where
  "emit_frame msgId body playerId c =
    (let lenOverhead = (if proto_mode c = INNER then INNER_LEN_OVERHEAD else CLIENT_LEN_OVERHEAD);
         len = word_of_nat (length body) :: i32;
         b = bb_writeInt32 (len + word_of_int lenOverhead) (send_buff c);
         b = bb_writeInt32 msgId b;
         b = (if proto_mode c = INNER then bb_writeInt32 (ucast playerId) b else b);
         b = bb_writeInt32 MAGIC_NUM b;
         b = snd (bb_writeBytes body (scast len) b)
     in c\<lparr>send_buff := b\<rparr>)"

text \<open>\<open>packBuf\<close> is what getEventPackBuff answers (whether the scratch buffer could grow),
  \<open>now\<close> the loop's clock.\<close>

definition eventLoopWrite ::
  "bool \<Rightarrow> u64 \<Rightarrow> int \<Rightarrow> u32 \<Rightarrow> pmsg \<Rightarrow> i64 \<Rightarrow> conn \<Rightarrow> conn" where
  "eventLoopWrite packBuf now ret msgId msg playerId c =
    (if closed c then c
     else
       let needCallSend = (readableBytes (send_buff c) = 0);
           bodyLen = pm_size msg;
           headerLen = (if proto_mode c = INNER then INNER_HEADER_LEN else CLIENT_HEADER_LEN);
           frameLen = bodyLen + headerLen
       in if frameLen > MAX_PACKET_SIZE then c
          else if writableBytes (send_buff c) < word_of_int frameLen then c
          else if \<not> packBuf then c
          else case pm_bytes msg of
              None \<Rightarrow> c
            | Some body \<Rightarrow>
                let c = emit_frame msgId body playerId c;
                    c = c\<lparr>last_send_time := now\<rparr>
                in if needCallSend then doUvSend ret c else c)"

definition eventLoopRawWrite :: "u64 \<Rightarrow> int \<Rightarrow> u32 \<Rightarrow> byte list \<Rightarrow> i64 \<Rightarrow> conn \<Rightarrow> conn" where
  "eventLoopRawWrite now ret msgId body playerId c =
    (if closed c then c
     else
       let needCallSend = (readableBytes (send_buff c) = 0);
           bodyLen = int (length body);
           headerLen = (if proto_mode c = INNER then INNER_HEADER_LEN else CLIENT_HEADER_LEN);
           frameLen = bodyLen + headerLen
       in if frameLen > MAX_PACKET_SIZE then c
          else if writableBytes (send_buff c) < word_of_int frameLen then c
          else
            let c = emit_frame msgId body playerId c;
                c = c\<lparr>last_send_time := now\<rparr>
            in if needCallSend then doUvSend ret c else c)"

text \<open>The entry points of any thread: a task for the loop, unless the channel is gone.\<close>

definition sendMsg :: "u32 \<Rightarrow> pmsg \<Rightarrow> i64 \<Rightarrow> conn \<Rightarrow> conn" where
  "sendMsg msgId msg playerId c =
    (if \<not> registered c \<or> closed c then c
     else c\<lparr>tasks := tasks c @ [Write_task msgId msg playerId]\<rparr>)"

definition sendRawMsg :: "u32 \<Rightarrow> byte list \<Rightarrow> i64 \<Rightarrow> conn \<Rightarrow> conn" where
  "sendRawMsg msgId body playerId c =
    (if \<not> registered c \<or> closed c then c
     else c\<lparr>tasks := tasks c @ [Raw_write_task msgId body playerId]\<rparr>)"

text \<open>The overload on a pointer and a signed length (\<open>None\<close> for a null pointer).\<close>

definition sendRawMsg_ptr :: "u32 \<Rightarrow> byte list option \<Rightarrow> int \<Rightarrow> i64 \<Rightarrow> conn \<Rightarrow> conn" where
  "sendRawMsg_ptr msgId data len playerId c =
    (case data of
       None \<Rightarrow> c
     | Some mem \<Rightarrow> if len \<le> 0 then c else sendRawMsg msgId (take (nat len) mem) playerId c)"

section \<open>Receiving\<close>

text \<open>A size_t cast to int.\<close>

definition int_of_size :: "u64 \<Rightarrow> int" where
  "int_of_size n = sint (ucast n :: i32)"

definition peekNextPackLen :: "('a) channel_scheme \<Rightarrow> int" where
  "peekNextPackLen c =
    (let headerLen = (if proto_mode c = INNER then INNER_HEADER_LEN else CLIENT_HEADER_LEN);
         readable = int_of_size (readableBytes (recv_buffer c))
     in if readable < headerLen then -1
        else
          let hdr = snd (ring_peek (replicate 16 0) (word_of_int headerLen) (recv_buffer c));
              msgLen = readInt32 hdr
          in if msgLen > word_of_int (MAX_PACKET_SIZE - 4) then -2
             else
               let magicOff = (if proto_mode c = INNER then 12 else 8)
               in if readInt32 (drop magicOff hdr) \<noteq> MAGIC_NUM then -2
                  else if msgLen > word_of_int (readable - 4) then -1
                  else sint msgLen + 4)"

definition getPack :: "byte list \<Rightarrow> int \<Rightarrow> 'a channel_scheme \<Rightarrow> int \<times> byte list \<times> 'a channel_scheme" where
  "getPack outPacket packLen c =
    (case bb_readBytes outPacket (word_of_int packLen) (recv_buffer c) of
       (n, out, b) \<Rightarrow> (int_of_size n, out, c\<lparr>recv_buffer := b\<rparr>))"

definition onRead :: "int \<Rightarrow> u64 \<Rightarrow> conn \<Rightarrow> conn" where
  "onRead nread now c =
    (if nread > 0 then
       (if closed c then c
        else case bb_advanceWriteIndex (word_of_int nread) (recv_buffer c) of
            (ok, b) \<Rightarrow>
              (if \<not> ok then chan_close c
               else c\<lparr>recv_buffer := b, last_recv_time := now\<rparr>))
     else if nread < 0 then chan_close c
     else c)"

definition initPackTime :: "u64 \<Rightarrow> 'a channel_scheme \<Rightarrow> 'a channel_scheme" where
  "initPackTime now c = c\<lparr>last_recv_time := now, last_send_time := now\<rparr>"

section \<open>Sizes\<close>

lemma int_of_size_small: "unat n < 2 ^ 31 \<Longrightarrow> int_of_size n = int (unat n)"
  by (simp add: int_of_size_def sint_small unat_ucast_u32)

lemma header_len_int:
  "(if m = INNER then INNER_HEADER_LEN else CLIENT_HEADER_LEN) = int (header_len m)"
  "(if m = INNER then 12 else 8) = magic_off m"
  by (cases m; simp add: header_len_def magic_off_def frame_constants)+

lemma unat_header_len: "unat (word_of_nat (header_len m) :: u64) = header_len m"
  by (cases m) (simp_all add: header_len_def)

section \<open>The reader sees the head of the stream\<close>

definition recv_ok :: "'a channel_scheme \<Rightarrow> bool" where
  "recv_ok c \<longleftrightarrow> ring_inv (recv_buffer c) \<and> ring_limit (recv_buffer c) < 2 ^ 31"

definition head_code :: "head \<Rightarrow> int" where
  "head_code h = (case h of Incomplete \<Rightarrow> -1 | Illegal \<Rightarrow> -2 | Complete n \<Rightarrow> int n)"

lemma readInt32_header:
  assumes "k + 4 \<le> n" "n \<le> length bs"
  shows "readInt32 (drop k (take n bs @ x)) = readInt32 (drop k bs)"
proof -
  have "readInt32 (drop k (take n bs @ x)) = readInt32 (take 4 (drop k (take n bs @ x)))"
    using assms codec32.dec_take [of "drop k (take n bs @ x)"] by simp
  also have "take 4 (drop k (take n bs @ x)) = take 4 (drop k bs)"
    using assms by (auto simp: drop_take min_def)
  also have "readInt32 (take 4 (drop k bs)) = readInt32 (drop k bs)"
    using assms codec32.dec_take [of "drop k bs"] by simp
  finally show ?thesis .
qed

lemma peekNextPackLen_eq:
  assumes "recv_ok c"
  shows "peekNextPackLen c = head_code (stream_head (proto_mode c) (ring_data (recv_buffer c)))"
proof -
  let ?m = "proto_mode c" and ?r = "recv_buffer c"
  let ?bs = "ring_data ?r" and ?h = "header_len (proto_mode c)"
  have inv: "ring_inv ?r" and lim: "length ?bs < 2 ^ 31"
    using assms byte_ring.contents_limit [of ?r] by (auto simp: recv_ok_def)
  then have rd: "int_of_size (readableBytes ?r) = int (length ?bs)"
    by (simp add: int_of_size_small)
  let ?hdr = "snd (ring_peek (replicate 16 0) (word_of_int (int ?h)) ?r)"
  show ?thesis
  proof (cases "length ?bs < ?h")
    case True
    then show ?thesis
      by (simp add: peekNextPackLen_def Let_def header_len_int rd stream_head_def head_code_def
          del: length_ring_data)
  next
    case False
    then have hb: "?h \<le> length ?bs" by simp
    have "?hdr = poke (replicate 16 0) 0 (take ?h ?bs)"
      using ring_peek_eq [OF inv, of "word_of_int (int ?h)" "replicate 16 0"] magic_off_header [of ?m]
      by (simp add: taken_def unat_header_len)
    then have hdr: "?hdr = take ?h ?bs @ drop ?h (replicate 16 0)"
      using hb by (simp add: poke_def min_def del: length_ring_data)
    have len: "readInt32 ?hdr = readInt32 ?bs"
      using readInt32_header [of 0 ?h ?bs] hb magic_off_header [of ?m] unfolding hdr by simp
    have magic: "readInt32 (drop (magic_off ?m) ?hdr) = readInt32 (drop (magic_off ?m) ?bs)"
      unfolding hdr by (rule readInt32_header) (use hb magic_off_header [of ?m] in simp_all)
    let ?n = "readInt32 ?bs"
    have gt: "?n > word_of_int (MAX_PACKET_SIZE - 4) \<longleftrightarrow> max_frame < unat ?n + 4"
      by (simp add: frame_constants max_frame_def word_less_nat_alt)
    have "unat (word_of_int (int (length ?bs) - 4) :: u32) = length ?bs - 4"
    proof -
      have "int (length ?bs) - 4 = int (length ?bs - 4)"
        using hb magic_off_header [of ?m] by simp
      then have "(word_of_int (int (length ?bs) - 4) :: u32) = word_of_nat (length ?bs - 4)"
        by simp
      moreover have "length ?bs - 4 < 2 ^ 32" using lim by simp
      ultimately show ?thesis by (simp only: unat_of_nat) (simp add: take_bit_nat_eq_self)
    qed
    then have more: "?n > word_of_int (int (length ?bs) - 4) \<longleftrightarrow> length ?bs < unat ?n + 4"
      using hb magic_off_header [of ?m] unfolding word_less_nat_alt by linarith
    have small: "sint ?n = int (unat ?n)" if "\<not> max_frame < unat ?n + 4"
    proof -
      have "unat ?n < 2 ^ 31" using that by (simp add: max_frame_def)
      then show ?thesis by (rule sint_small)
    qed
    show ?thesis
      unfolding peekNextPackLen_def Let_def header_len_int rd len magic gt more
        stream_head_def head_code_def
      using False small by (simp del: length_ring_data)
  qed
qed

section \<open>The writer emits whole frames\<close>

definition send_ok :: "'a channel_scheme \<Rightarrow> bool" where
  "send_ok c \<longleftrightarrow> ring_inv (send_buff c) \<and> ring_limit (send_buff c) < 2 ^ 31"

definition frame_of :: "u32 \<Rightarrow> byte list \<Rightarrow> i64 \<Rightarrow> frame" where
  "frame_of msgId body playerId = \<lparr>fr_id = msgId, fr_player = ucast playerId, fr_body = body\<rparr>"

lemma lenOverhead_int:
  "(if m = INNER then INNER_LEN_OVERHEAD else CLIENT_LEN_OVERHEAD) = int (header_len m - 4)"
  by (cases m; simp add: header_len_def frame_constants)

lemma emit_frame_put:
  assumes "length body < 2 ^ 31"
  shows "emit_frame msgId body playerId c =
    c\<lparr>send_buff := put_all (map be32 (frame_fields (proto_mode c) (frame_of msgId body playerId)) @ [body])
        (send_buff c)\<rparr>"
proof -
  have "(word_of_nat (length body) + word_of_int (int (header_len m - 4)) :: u32) =
      len_field m (frame_of msgId body playerId)" for m
    by (simp add: len_field_def frame_of_def add.commute)
  then show ?thesis
    unfolding emit_frame_def Let_def lenOverhead_int scast_of_nat [OF assms] bb_writeBytes_put
      bb_write_put
    by (cases "proto_mode c") (simp_all add: frame_fields_def frame_of_def)
qed

lemma emit_frame_data:
  assumes "send_ok c" "frame_size (proto_mode c) (frame_of msgId body playerId) \<le> room (send_buff c)"
  shows "send_ok (emit_frame msgId body playerId c)"
    "ring_data (send_buff (emit_frame msgId body playerId c)) =
      ring_data (send_buff c) @ frame_bytes (proto_mode c) (frame_of msgId body playerId)"
    "ring_limit (send_buff (emit_frame msgId body playerId c)) = ring_limit (send_buff c)"
proof -
  let ?f = "frame_of msgId body playerId" and ?m = "proto_mode c"
  let ?bss = "map be32 (frame_fields ?m ?f) @ [body]"
  have e: "concat ?bss = frame_bytes ?m ?f" by (simp add: frame_bytes_def frame_of_def)
  have "room (send_buff c) < 2 ^ 31" using assms(1) unfolding send_ok_def room_def by linarith
  then have l: "length body < 2 ^ 31" "length (concat ?bss) < 2 ^ 64"
    using assms(2) unfolding e by (simp_all add: frame_size_def frame_of_def)
  have "length (concat ?bss) \<le> room (send_buff c)" using assms(2) unfolding e by simp
  then show "send_ok (emit_frame msgId body playerId c)"
    "ring_data (send_buff (emit_frame msgId body playerId c)) = ring_data (send_buff c) @ frame_bytes ?m ?f"
    "ring_limit (send_buff (emit_frame msgId body playerId c)) = ring_limit (send_buff c)"
    using put_all_fits [OF _ _ l(2), of "send_buff c"] assms(1)
    unfolding emit_frame_put [OF l(1)] e by (simp_all add: send_ok_def)
qed

text \<open>When a frame is taken: the channel is open, the frame is within the protocol's bound and
  the send buffer has room for all of it.\<close>

definition accepts :: "'a channel_scheme \<Rightarrow> frame \<Rightarrow> bool" where
  "accepts c f \<longleftrightarrow> \<not> closed c \<and> frame_ok (proto_mode c) f \<and>
    frame_size (proto_mode c) f \<le> room (send_buff c)"

definition emitted :: "u64 \<Rightarrow> int \<Rightarrow> u32 \<Rightarrow> byte list \<Rightarrow> i64 \<Rightarrow> conn \<Rightarrow> conn" where
  "emitted now ret msgId body playerId c =
    (let c' = (emit_frame msgId body playerId c)\<lparr>last_send_time := now\<rparr>
     in if ring_data (send_buff c) = [] then doUvSend ret c' else c')"

lemma ring_data_Nil: "readableBytes r = 0 \<longleftrightarrow> ring_data r = []"
proof -
  have "ring_data r = [] \<longleftrightarrow> length (ring_data r) = 0" by (simp only: length_0_conv)
  then show ?thesis by (simp add: unat_eq_0 unat_0_iff)
qed

lemma writable_less_frame:
  assumes "ring_inv b" "n < 2 ^ 63"
  shows "writableBytes b < word_of_int (int n) \<longleftrightarrow> room b < n"
proof -
  have "n < 2 ^ 64" using assms(2) by simp
  then have "unat (word_of_nat n :: u64) = n" by (rule unat_word_of_nat_u64)
  then show ?thesis using unat_writable_room [OF assms(1)] by (simp add: word_less_nat_alt)
qed

lemma eventLoopRawWrite_eq:
  assumes "send_ok c"
  shows "eventLoopRawWrite now ret msgId body playerId c =
    (if accepts c (frame_of msgId body playerId) then emitted now ret msgId body playerId c else c)"
proof -
  let ?n = "frame_size (proto_mode c) (frame_of msgId body playerId)"
  have n: "int (length body) + int (header_len (proto_mode c)) = int ?n"
    by (simp add: frame_size_def frame_of_def)
  have big: "int ?n > MAX_PACKET_SIZE \<longleftrightarrow> \<not> ?n \<le> max_frame"
    by (simp add: max_frame_def frame_constants not_le)
  show ?thesis
  proof (cases "?n \<le> max_frame")
    case True
    then have "?n < 2 ^ 63" by (simp add: max_frame_def)
    with assms True show ?thesis
      unfolding eventLoopRawWrite_def Let_def header_len_int n big
      by (auto simp: writable_less_frame send_ok_def accepts_def frame_ok_def emitted_def Let_def
          ring_data_Nil simp del: of_int_of_nat_eq)
  next
    case False
    then show ?thesis
      unfolding eventLoopRawWrite_def Let_def header_len_int n big
      by (simp add: accepts_def frame_ok_def)
  qed
qed

text \<open>The library's documented behaviour: what is serialized has the announced size.\<close>

definition pmsg_ok :: "pmsg \<Rightarrow> bool" where
  "pmsg_ok msg \<longleftrightarrow> (\<forall>b. pm_bytes msg = Some b \<longrightarrow> int (length b) = pm_size msg)"

lemma eventLoopWrite_eq:
  assumes "send_ok c" "pmsg_ok msg"
  shows "eventLoopWrite packBuf now ret msgId msg playerId c =
    (case pm_bytes msg of
       None \<Rightarrow> c
     | Some body \<Rightarrow> if packBuf then eventLoopRawWrite now ret msgId body playerId c else c)"
  using assms(2)
  by (auto simp: eventLoopWrite_def eventLoopRawWrite_def pmsg_ok_def Let_def split: option.splits)

section \<open>A concrete connection\<close>

definition ex_ring :: rbb where
  "ex_ring = \<lparr>rb_buf = replicate 32 0, rb_cap = 32, rb_mask = 31, rb_head = 0, rb_tail = 0\<rparr>"

definition ex_conn :: "proto \<Rightarrow> conn" where
  "ex_conn m = conn_of
    \<lparr>recv_buffer = ex_ring, send_buff = ex_ring, proto_mode = m, chan_id = 1, closed = False,
     tcp_closed = False, timer_closed = False, last_recv_time = 0, last_send_time = 0\<rparr>"

definition ex_frame :: frame where
  "ex_frame = \<lparr>fr_id = 7, fr_player = 9, fr_body = [1, 2]\<rparr>"

lemma ex_ring_inv: "ring_inv ex_ring" "ring_limit ex_ring = 31" "ring_data ex_ring = []"
  by (simp_all add: ex_ring_def ring_inv_def ring_limit_def capacity_def ring_data_def
      readableBytes_def upt_rec)

section \<open>Properties\<close>

text \<open>The reader's verdict on what has been received: too short for a header or for the frame
  its length field announces, illegal when the length exceeds the protocol's bound or the magic
  number is not in its place, and otherwise the size of a frame that is completely there.\<close>

theorem peekNextPackLen_spec:
  assumes "ring_inv (recv_buffer c)" "ring_limit (recv_buffer c) < 2 ^ 31"
  shows "peekNextPackLen c =
    (let bs = ring_data (recv_buffer c); m = proto_mode c; len = unat (readInt32 bs) in
     if length bs < header_len m then -1
     else if 4 * 1024 * 1024 < len + 4 \<or> readInt32 (drop (magic_off m) bs) \<noteq> MAGIC_NUM then -2
     else if length bs < len + 4 then -1
     else int (len + 4))"
  using assms
  by (simp add: peekNextPackLen_eq recv_ok_def head_code_def stream_head_def Let_def max_frame_def
      del: length_ring_data)

theorem peekNextPackLen_spec_witness:
  "peekNextPackLen ((ex_conn CLIENT)\<lparr>recv_buffer := snd (ring_put (frame_bytes CLIENT ex_frame) ex_ring)\<rparr>) = 14"
proof -
  let ?r = "snd (ring_put (frame_bytes CLIENT ex_frame) ex_ring)"
  have "length (frame_bytes CLIENT ex_frame) = 14" by code_simp
  then have r: "ring_inv ?r" "ring_limit ?r = 31" "ring_data ?r = frame_bytes CLIENT ex_frame"
    using put_step [OF ex_ring_inv(1), of "frame_bytes CLIENT ex_frame"]
    by (simp_all add: ex_ring_inv room_def del: length_ring_data length_frame_bytes)
  have f: "unat (readInt32 (frame_bytes CLIENT ex_frame)) = 10"
    "readInt32 (drop 8 (frame_bytes CLIENT ex_frame)) = MAGIC_NUM"
    "proto_mode (ex_conn CLIENT) = CLIENT" "frame_size CLIENT ex_frame = 14"
    by code_simp+
  show ?thesis
    using peekNextPackLen_spec [of "(ex_conn CLIENT)\<lparr>recv_buffer := ?r\<rparr>"] r f
    by (simp add: Let_def magic_off_def header_len_def del: length_ring_data)
qed

text \<open>A frame is either written whole behind the bytes already queued or not at all: it is
  taken exactly when the channel is open, the frame is within the protocol's bound and the send
  buffer has room for header and body.\<close>

theorem raw_write_atomic:
  assumes "ring_inv (send_buff c)" "ring_limit (send_buff c) < 2 ^ 31"
  shows "ring_data (send_buff (eventLoopRawWrite now ret msgId body playerId c)) =
      ring_data (send_buff c) @
      (if \<not> closed c \<and> header_len (proto_mode c) + length body \<le> 4 * 1024 * 1024 \<and>
          length (ring_data (send_buff c)) + header_len (proto_mode c) + length body \<le> ring_limit (send_buff c)
       then frame_bytes (proto_mode c) \<lparr>fr_id = msgId, fr_player = ucast playerId, fr_body = body\<rparr>
       else [])"
proof -
  let ?f = "frame_of msgId body playerId"
  have ok: "send_ok c" using assms by (simp add: send_ok_def)
  have size: "frame_size (proto_mode c) ?f = header_len (proto_mode c) + length body"
    by (simp add: frame_size_def frame_of_def)
  have acc: "accepts c ?f \<longleftrightarrow> \<not> closed c \<and> header_len (proto_mode c) + length body \<le> 4 * 1024 * 1024 \<and>
      length (ring_data (send_buff c)) + header_len (proto_mode c) + length body \<le> ring_limit (send_buff c)"
    using byte_ring.contents_limit [OF assms(1)]
    by (auto simp: accepts_def frame_ok_def size room_def max_frame_def simp del: length_ring_data)
  have keep: "send_buff (doUvSend ret d) = send_buff d" for d
    by (simp add: doUvSend_def chan_close_def Let_def split: prod.splits)
  show ?thesis
    unfolding eventLoopRawWrite_eq [OF ok] acc [symmetric]
    using emit_frame_data(2) [OF ok, of msgId body playerId]
    by (auto simp: emitted_def Let_def keep accepts_def frame_of_def)
qed

theorem raw_write_atomic_witness:
  "ring_data (send_buff (eventLoopRawWrite 5 0 7 [1, 2] 9 (ex_conn CLIENT))) =
    [0, 0, 0, 10, 0, 0, 0, 7, 0x41, 0x54, 0x48, 0x41, 1, 2] \<and>
   ring_data (send_buff (eventLoopRawWrite 5 0 7 (replicate 20 0) 9 (ex_conn CLIENT))) = []"
proof -
  have s: "send_buff (ex_conn CLIENT) = ex_ring" "proto_mode (ex_conn CLIENT) = CLIENT"
    "\<not> closed (ex_conn CLIENT)"
    by (simp_all add: ex_conn_def conn_of_def channel.extend_def)
  have f: "frame_bytes CLIENT \<lparr>fr_id = 7, fr_player = ucast (9 :: i64), fr_body = [1, 2]\<rparr> =
      [0, 0, 0, 10, 0, 0, 0, 7, 0x41, 0x54, 0x48, 0x41, 1, 2]"
    by code_simp
  show ?thesis
    using raw_write_atomic [of "ex_conn CLIENT" 5 0 7 "[1, 2]" 9]
      raw_write_atomic [of "ex_conn CLIENT" 5 0 7 "replicate 20 0" 9] f
    by (simp add: s ex_ring_inv header_len_def del: length_ring_data)
qed

end
