(* ===== verification/Send_Protocol.thy ===== *)
theory Send_Protocol
  imports Channel
begin

text \<open>
  The sending side of a connection as a state machine: tasks posted by any thread and run by the
  loop, the one write in flight that libuv reads out of the ring while new frames are appended
  behind it, its callback, and closing at any moment. The steps are the operations of the channel
  theory; the kernel and libuv contribute only what they document: a write callback arrives once
  per accepted write, successful only when all of its bytes were taken, cancelled only after
  uv_close, and the tcp handle is closed after its writes have been called back.
\<close>

section \<open>Steps\<close>

text \<open>The frame a run of the task adds to the stream, if the channel takes it.\<close>

definition taken_frames :: "conn \<Rightarrow> u32 \<Rightarrow> byte list \<Rightarrow> i64 \<Rightarrow> frame list" where
  "taken_frames c msgId body playerId =
    (if accepts c (frame_of msgId body playerId) then [frame_of msgId body playerId] else [])"

inductive send_step :: "conn \<Rightarrow> frame list \<Rightarrow> conn \<Rightarrow> bool" where
  Post_raw: "send_step c [] (sendRawMsg msgId body playerId c)"
| Post_msg: "pmsg_ok msg \<Longrightarrow> send_step c [] (sendMsg msgId msg playerId c)"
| Close: "send_step c [] (chan_close c)"
| Run_raw: "tasks c = Raw_write_task msgId body playerId # ts \<Longrightarrow>
    send_step c (taken_frames c msgId body playerId)
      (eventLoopRawWrite now ret msgId body playerId (c\<lparr>tasks := ts\<rparr>))"
| Run_msg: "tasks c = Write_task msgId msg playerId # ts \<Longrightarrow> pmsg_ok msg \<Longrightarrow>
    send_step c
      (case pm_bytes msg of Some body \<Rightarrow> if packBuf then taken_frames c msgId body playerId else []
       | None \<Rightarrow> [])
      (eventLoopWrite packBuf now ret msgId msg playerId (c\<lparr>tasks := ts\<rparr>))"
| Run_close: "tasks c = Close_task # ts \<Longrightarrow> send_step c [] (closeInLoop (c\<lparr>tasks := ts\<rparr>))"
| Kernel: "uv_writes c = w # ws \<Longrightarrow> wp_taken w + n \<le> unat (wp_len w) \<Longrightarrow>
    send_step c []
      (c\<lparr>wire := wire c @ mem_slice (rb_buf (send_buff c)) (unat (wp_ptr w) + wp_taken w) n,
         uv_writes := w\<lparr>wp_taken := wp_taken w + n\<rparr> # ws\<rparr>)"
| Written: "uv_writes c = w # ws \<Longrightarrow> wp_taken w = unat (wp_len w) \<Longrightarrow> 0 \<le> status \<Longrightarrow>
    send_step c [] (write_cb w status ret (c\<lparr>uv_writes := ws\<rparr>))"
| Write_failed: "uv_writes c = w # ws \<Longrightarrow> status < 0 \<Longrightarrow>
    (status = UV_ECANCELED \<Longrightarrow> uv_closing c) \<Longrightarrow>
    send_step c [] (write_cb w status ret (c\<lparr>uv_writes := ws\<rparr>))"
| Tcp_closed: "uv_closing c \<Longrightarrow> uv_writes c = [] \<Longrightarrow> \<not> tcp_closed c \<Longrightarrow>
    send_step c [] (onHandleClosed Tcp_handle c)"
| Timer_closed: "uv_closing c \<Longrightarrow> \<not> timer_closed c \<Longrightarrow>
    send_step c [] (onHandleClosed Timer_handle c)"

text \<open>A run, with the frames taken during it in order.\<close>

inductive send_run :: "conn \<Rightarrow> frame list \<Rightarrow> conn \<Rightarrow> bool" where
  Start: "send_run c [] c"
| Step: "send_run c fs c' \<Longrightarrow> send_step c' gs c'' \<Longrightarrow> send_run c (fs @ gs) c''"

section \<open>The invariant\<close>

text \<open>A write in flight covers the oldest bytes of the ring, contiguously in its block.\<close>

definition write_ok :: "write_pack \<Rightarrow> rbb \<Rightarrow> bool" where
  "write_ok w b \<longleftrightarrow>
    wp_ptr w = rb_head b \<and> 0 < unat (wp_len w) \<and> unat (wp_len w) \<le> length (ring_data b) \<and>
    unat (wp_sendSize w) = unat (wp_len w) \<and> wp_taken w \<le> unat (wp_len w) \<and>
    unat (rb_head b) + unat (wp_len w) \<le> length (rb_buf b)"

definition send_inv :: "proto \<Rightarrow> frame list \<Rightarrow> conn \<Rightarrow> bool" where
  "send_inv m fs c \<longleftrightarrow>
    send_ok c \<and> proto_mode c = m \<and> (uv_closing c \<longrightarrow> closed c) \<and>
    (Close_task \<in> set (tasks c) \<longrightarrow> closed c) \<and>
    (case uv_writes c of
       [] \<Rightarrow> if closed c then \<exists>rest. stream_bytes m fs = wire c @ rest
             else ring_data (send_buff c) = [] \<and> stream_bytes m fs = wire c
     | w # ws \<Rightarrow> ws = [] \<and> write_ok w (send_buff c) \<and>
             stream_bytes m fs = wire c @ drop (wp_taken w) (ring_data (send_buff c)))"

lemma inflight_bytes:
  assumes "ring_inv b" "write_ok w b" "wp_taken w + n \<le> unat (wp_len w)"
  shows "mem_slice (rb_buf b) (unat (wp_ptr w) + wp_taken w) n = take n (drop (wp_taken w) (ring_data b))"
proof -
  let ?h = "unat (rb_head b)" and ?l = "unat (wp_len w)"
  have "take ?l (ring_data b) = mem_slice (rb_buf b) ?h ?l"
    using assms(2) by (simp add: write_ok_def ring_data_def take_window window_slice)
  then have "take n (drop (wp_taken w) (take ?l (ring_data b))) =
      take n (drop (wp_taken w) (mem_slice (rb_buf b) ?h ?l))" by simp
  moreover have "take n (drop (wp_taken w) (take ?l (ring_data b))) = take n (drop (wp_taken w) (ring_data b))"
    using assms(3) by (simp add: drop_take min_def)
  moreover have "take n (drop (wp_taken w) (mem_slice (rb_buf b) ?h ?l)) =
      mem_slice (rb_buf b) (?h + wp_taken w) n"
    using assms(3) by (simp add: mem_slice_def drop_take min_def add.commute)
  ultimately show ?thesis using assms(2) by (simp add: write_ok_def)
qed

section \<open>Closing keeps the invariant\<close>

lemma chan_close_simps [chan_simps]:
  "send_buff (chan_close c) = send_buff c" "recv_buffer (chan_close c) = recv_buffer c"
  "proto_mode (chan_close c) = proto_mode c" "uv_writes (chan_close c) = uv_writes c"
  "wire (chan_close c) = wire c" "closed (chan_close c)" "uv_closing (chan_close c) = uv_closing c"
  "registered (chan_close c) = registered c" "chan_id (chan_close c) = chan_id c"
  "send_ok (chan_close c) = send_ok c"
  by (simp_all add: chan_close_def Let_def send_ok_def)

lemma send_inv_close: "send_inv m fs c \<Longrightarrow> send_inv m fs (chan_close c)"
  by (auto simp: send_inv_def chan_simps split: list.splits if_splits)

lemma send_inv_post:
  "send_inv m fs c \<Longrightarrow> send_inv m fs (sendRawMsg msgId body playerId c)"
  "send_inv m fs c \<Longrightarrow> send_inv m fs (sendMsg msgId msg playerId c)"
  by (auto simp: send_inv_def sendRawMsg_def sendMsg_def send_ok_def split: list.splits if_splits)

lemma send_inv_closeInLoop:
  "send_inv m fs c \<Longrightarrow> tasks c = Close_task # ts \<Longrightarrow> send_inv m fs (closeInLoop (c\<lparr>tasks := ts\<rparr>))"
  by (auto simp: send_inv_def closeInLoop_def send_ok_def split: list.splits if_splits)

lemma send_inv_handle: "send_inv m fs c \<Longrightarrow> send_inv m fs (onHandleClosed h c)"
  by (auto simp: send_inv_def onHandleClosed_def releaseChannel_def send_ok_def Let_def split: list.splits if_splits handle.splits)

lemma send_inv_tasks: "send_inv m fs c \<Longrightarrow> tasks c = t # ts \<Longrightarrow> send_inv m fs (c\<lparr>tasks := ts\<rparr>)"
  by (auto simp: send_inv_def send_ok_def split: list.splits if_splits)

section \<open>The kernel takes bytes\<close>

lemma send_inv_kernel:
  assumes inv: "send_inv m fs c" and w: "uv_writes c = w # ws" "wp_taken w + n \<le> unat (wp_len w)"
  shows "send_inv m fs
    (c\<lparr>wire := wire c @ mem_slice (rb_buf (send_buff c)) (unat (wp_ptr w) + wp_taken w) n,
       uv_writes := w\<lparr>wp_taken := wp_taken w + n\<rparr> # ws\<rparr>)"
proof -
  have ok: "ring_inv (send_buff c)" "write_ok w (send_buff c)" "ws = []"
    using inv w by (auto simp: send_inv_def send_ok_def)
  have "drop (wp_taken w) (ring_data (send_buff c)) =
      take n (drop (wp_taken w) (ring_data (send_buff c))) @ drop (wp_taken w + n) (ring_data (send_buff c))"
    by (metis append_take_drop_id drop_drop add.commute)
  then show ?thesis
    using inv w ok inflight_bytes [OF ok(1,2) w(2)]
    by (simp add: send_inv_def send_ok_def write_ok_def)
qed

section \<open>Starting a write\<close>

text \<open>With contents and nothing in flight, doUvSend puts the contiguous part in flight, or closes
  when uv_write refuses it.\<close>

lemma doUvSend_cases:
  assumes "send_ok c"
  shows "closed c \<or> ring_data (send_buff c) = [] \<Longrightarrow> doUvSend ret c = c"
    "\<not> closed c \<Longrightarrow> ring_data (send_buff c) \<noteq> [] \<Longrightarrow> ret \<noteq> 0 \<Longrightarrow> doUvSend ret c = chan_close c"
    "\<not> closed c \<Longrightarrow> ring_data (send_buff c) \<noteq> [] \<Longrightarrow> ret = 0 \<Longrightarrow>
      \<exists>w. doUvSend ret c = c\<lparr>uv_writes := uv_writes c @ [w]\<rparr> \<and> write_ok w (send_buff c) \<and> wp_taken w = 0 \<and>
        unat (wp_len w) = min (length (ring_data (send_buff c)))
          (length (rb_buf (send_buff c)) - unat (rb_head (send_buff c)))"
proof -
  let ?b = "send_buff c"
  have inv: "ring_inv ?b" and lim: "length (ring_data ?b) < 2 ^ 31"
    using assms byte_ring.contents_limit [of ?b] by (auto simp: send_ok_def)
  have empty: "ring_data ?b = [] \<longleftrightarrow> readableBytes ?b = 0" by (simp add: ring_data_Nil)
  then show "closed c \<or> ring_data ?b = [] \<Longrightarrow> doUvSend ret c = c"
    by (auto simp: doUvSend_def linearReadablePtr_def)
  assume ne: "\<not> closed c" "ring_data ?b \<noteq> []"
  then obtain p n where pn: "linearReadablePtr ?b = (Some p, n)" "p = rb_head ?b"
    using empty by (cases "linearReadablePtr ?b") (auto simp: linearReadablePtr_def Let_def)
  then have v: "0 < unat n" "unat n \<le> length (ring_data ?b)" "unat p + unat n \<le> length (rb_buf ?b)"
    using linearReadable_view [OF inv] by auto
  then have n0: "n \<noteq> 0" by auto
  show "ret \<noteq> 0 \<Longrightarrow> doUvSend ret c = chan_close c"
    using ne pn n0 by (simp add: doUvSend_def Let_def)
  have u: "unat (ucast n :: u32) = unat n" using v(2) lim by (intro unat_ucast_u32) simp
  have "write_ok \<lparr>wp_ptr = p, wp_len = ucast n, wp_sendSize = ucast n, wp_taken = 0\<rparr> ?b"
    using v u pn(2) by (simp add: write_ok_def)
  then show "ret = 0 \<Longrightarrow>
      \<exists>w. doUvSend ret c = c\<lparr>uv_writes := uv_writes c @ [w]\<rparr> \<and> write_ok w ?b \<and> wp_taken w = 0 \<and>
        unat (wp_len w) = min (length (ring_data ?b)) (length (rb_buf ?b) - unat (rb_head ?b))"
    using ne pn n0 u linearReadable_len(2) [OF inv pn(1)]
    by (intro exI [of _ "\<lparr>wp_ptr = p, wp_len = ucast n, wp_sendSize = ucast n, wp_taken = 0\<rparr>"])
      (simp add: doUvSend_def Let_def)
qed

lemma send_inv_start:
  assumes "send_ok c" "proto_mode c = m" "uv_writes c = []" "\<not> closed c" "\<not> uv_closing c"
    "Close_task \<notin> set (tasks c)" "stream_bytes m fs = wire c @ ring_data (send_buff c)"
  shows "send_inv m fs (doUvSend ret c)"
proof (cases "ring_data (send_buff c) = []")
  case True
  then show ?thesis using assms doUvSend_cases(1) [OF assms(1)] by (simp add: send_inv_def)
next
  case False
  show ?thesis
  proof (cases "ret = 0")
    case True
    then show ?thesis
      using assms False doUvSend_cases(3) [OF assms(1,4) False True] by (auto simp: send_inv_def send_ok_def)
  next
    case ret: False
    have "send_inv m fs (chan_close c)"
      using assms by (auto simp: send_inv_def chan_simps)
    then show ?thesis using doUvSend_cases(2) [OF assms(1,4) False ret] by simp
  qed
qed

section \<open>Appending behind a write in flight\<close>

lemma tryWrite_head [simp]: "rb_head (snd (tryWrite src n b)) = rb_head b" "rb_cap (snd (tryWrite src n b)) = rb_cap b"
  by (simp_all add: tryWrite_def Let_def)

lemma put_all_head: "rb_head (put_all bss b) = rb_head b" "rb_cap (put_all bss b) = rb_cap b"
  by (induction bss arbitrary: b) (simp_all add: ring_put_def)

lemma emit_frame_fields [chan_simps]:
  "proto_mode (emit_frame i b p c) = proto_mode c" "closed (emit_frame i b p c) = closed c"
  "uv_writes (emit_frame i b p c) = uv_writes c" "wire (emit_frame i b p c) = wire c"
  "uv_closing (emit_frame i b p c) = uv_closing c" "tasks (emit_frame i b p c) = tasks c"
  "registered (emit_frame i b p c) = registered c"
  by (simp_all add: emit_frame_def Let_def)

lemma accepts_room:
  "send_ok c \<Longrightarrow> accepts c f \<Longrightarrow> frame_size (proto_mode c) f \<le> room (send_buff c)"
  by (simp add: accepts_def)

lemma emit_keeps_write:
  assumes "send_ok c" "accepts c (frame_of i body p)" "write_ok w (send_buff c)"
  shows "write_ok w (send_buff (emit_frame i body p c))"
proof -
  have f: "frame_size (proto_mode c) (frame_of i body p) \<le> room (send_buff c)"
    using assms(2) by (simp add: accepts_def)
  note e = emit_frame_data [OF assms(1) f]
  have "length body < 2 ^ 31"
    using assms(2) by (simp add: accepts_def frame_ok_def frame_size_def max_frame_def frame_of_def)
  then have "rb_head (send_buff (emit_frame i body p c)) = rb_head (send_buff c)"
    "rb_cap (send_buff (emit_frame i body p c)) = rb_cap (send_buff c)"
    by (simp_all add: emit_frame_put put_all_head)
  moreover from this have "length (rb_buf (send_buff (emit_frame i body p c))) = length (rb_buf (send_buff c))"
    using e(1) assms(1) by (simp add: send_ok_def ring_inv_def)
  moreover have "length (ring_data (send_buff c)) \<le> length (ring_data (send_buff (emit_frame i body p c)))"
    unfolding e(2) by simp
  ultimately show ?thesis using assms(3) unfolding write_ok_def by (metis le_trans)
qed

lemma send_inv_emitted:
  assumes inv: "send_inv m fs c" and acc: "accepts c (frame_of i body p)"
  shows "send_inv m (fs @ [frame_of i body p]) (emitted now ret i body p c)"
proof -
  let ?f = "frame_of i body p"
  let ?c = "(emit_frame i body p c)\<lparr>last_send_time := now\<rparr>"
  have ok: "send_ok c" and m: "proto_mode c = m" using inv by (auto simp: send_inv_def)
  have op: "\<not> closed c" "\<not> uv_closing c" "Close_task \<notin> set (tasks c)"
    using inv acc by (auto simp: send_inv_def accepts_def)
  have fits: "frame_size (proto_mode c) ?f \<le> room (send_buff c)" using acc by (simp add: accepts_def)
  note e = emit_frame_data [OF ok fits]
  have ok': "send_ok ?c" using e(1) by (simp add: send_ok_def)
  show ?thesis
  proof (cases "uv_writes c")
    case Nil
    then have d: "ring_data (send_buff c) = []" "stream_bytes m fs = wire c"
      using inv op by (auto simp: send_inv_def)
    have "send_inv m (fs @ [?f]) (doUvSend ret ?c)"
      by (rule send_inv_start) (use ok' op Nil d e(2) m in \<open>simp_all add: chan_simps\<close>)
    then show ?thesis using d by (simp add: emitted_def)
  next
    case (Cons w ws)
    then have w: "ws = []" "write_ok w (send_buff c)"
      "stream_bytes m fs = wire c @ drop (wp_taken w) (ring_data (send_buff c))"
      using inv by (auto simp: send_inv_def)
    then have ne: "ring_data (send_buff c) \<noteq> []" "wp_taken w \<le> length (ring_data (send_buff c))"
      by (auto simp: write_ok_def simp del: length_ring_data)
    have "write_ok w (send_buff ?c)" using emit_keeps_write [OF ok acc w(2)] by simp
    then have "send_inv m (fs @ [?f]) ?c"
      using ok' op Cons w(1,3) e(2) m ne(2) by (simp add: send_inv_def chan_simps)
    then show ?thesis using ne by (simp add: emitted_def)
  qed
qed

section \<open>The callback\<close>

lemma send_inv_written:
  assumes inv: "send_inv m fs c" and w: "uv_writes c = w # ws" "wp_taken w = unat (wp_len w)"
    and status: "0 \<le> status"
  shows "send_inv m fs (write_cb w status ret (c\<lparr>uv_writes := ws\<rparr>))"
proof -
  let ?b = "send_buff c"
  have ok: "send_ok c" "ring_inv ?b" "ring_limit ?b < 2 ^ 31" "write_ok w ?b" "ws = []"
    and str: "stream_bytes m fs = wire c @ drop (wp_taken w) (ring_data ?b)"
    and m: "proto_mode c = m"
    using inv w(1) by (auto simp: send_inv_def send_ok_def)
  have len: "unat (wp_len w) \<le> length (ring_data ?b)" using ok(4) by (simp add: write_ok_def)
  then have small: "unat (wp_sendSize w) < 2 ^ 31"
    using ok(3,4) byte_ring.contents_limit [OF ok(2)] unfolding write_ok_def by linarith
  define n where "n = (scast (wp_sendSize w) :: u64)"
  have n: "unat n = unat (wp_len w)"
  proof -
    have "unat (wp_sendSize w) < 2 ^ 64" using small by simp
    then have "unat n = unat (wp_sendSize w)"
      unfolding n_def scast_small [OF small] by (rule unat_word_of_nat_u64)
    then show ?thesis using ok(4) by (simp add: write_ok_def)
  qed
  have le: "unat n \<le> unat (readableBytes ?b)" using n len by simp
  note a = advanceReadIndex_data [OF ok(2) le]
  let ?b' = "snd (advanceReadIndex n ?b)"
  let ?c = "c\<lparr>uv_writes := [], send_buff := ?b'\<rparr>"
  have r: "write_cb w status ret (c\<lparr>uv_writes := ws\<rparr>) = doUvSend ret ?c"
    using status a(1) ok(5) by (simp add: write_cb_def n_def [symmetric] case_prod_beta Let_def)
  have lim: "ring_limit ?b' = ring_limit ?b" by (simp add: ring_limit_def)
  have ok': "send_ok ?c" using a(2) ok(3) lim by (simp add: send_ok_def)
  have str': "stream_bytes m fs = wire c @ ring_data ?b'" using str a(3) n w(2) by simp
  show ?thesis
  proof (cases "closed c")
    case True
    then have "doUvSend ret ?c = ?c" by (simp add: doUvSend_def)
    then show ?thesis unfolding r using True ok' str' m by (simp add: send_inv_def)
  next
    case False
    then have "\<not> uv_closing c" "Close_task \<notin> set (tasks c)" using inv by (auto simp: send_inv_def)
    then show ?thesis unfolding r
      by (intro send_inv_start) (use ok' str' m False in simp_all)
  qed
qed

lemma send_inv_failed:
  assumes inv: "send_inv m fs c" and w: "uv_writes c = w # ws"
    and status: "status < 0" "status = UV_ECANCELED \<Longrightarrow> uv_closing c"
  shows "send_inv m fs (write_cb w status ret (c\<lparr>uv_writes := ws\<rparr>))"
proof -
  let ?c = "c\<lparr>uv_writes := ws\<rparr>"
  have base: "send_inv m fs (d\<lparr>uv_writes := ws\<rparr>)" if "closed d" "send_inv m fs d" "uv_writes d = w # ws" for d
    using that by (auto simp: send_inv_def send_ok_def)
  show ?thesis
  proof (cases "status = UV_ECANCELED")
    case True
    then have "closed c" using inv status(2) by (auto simp: send_inv_def)
    then show ?thesis using base [of c] inv w True status by (simp add: write_cb_def)
  next
    case False
    have "chan_close ?c = (chan_close c)\<lparr>uv_writes := ws\<rparr>" by (simp add: chan_close_def Let_def)
    then show ?thesis
      using base [of "chan_close c"] send_inv_close [OF inv] w False status(1)
      by (simp add: write_cb_def chan_simps)
  qed
qed

section \<open>Every run\<close>

lemma send_inv_run_raw:
  assumes "send_inv m fs c"
  shows "send_inv m (fs @ taken_frames c i body p) (eventLoopRawWrite now ret i body p c)"
proof -
  have "send_ok c" using assms by (simp add: send_inv_def)
  then show ?thesis
    using assms send_inv_emitted [OF assms] by (simp add: eventLoopRawWrite_eq taken_frames_def)
qed

lemma taken_frames_tasks [simp]: "taken_frames (c\<lparr>tasks := ts\<rparr>) i body p = taken_frames c i body p"
  by (simp add: taken_frames_def accepts_def)

lemma send_inv_step:
  assumes "send_step c gs c'" "send_inv m fs c"
  shows "send_inv m (fs @ gs) c'"
  using assms
proof (cases rule: send_step.cases)
  case (Run_raw i body p ts now ret)
  then show ?thesis
    using send_inv_run_raw [OF send_inv_tasks [OF assms(2) Run_raw(3)], of i body p now ret] by simp
next
  case (Run_msg i msg p ts packBuf now ret)
  have inv: "send_inv m fs (c\<lparr>tasks := ts\<rparr>)" by (rule send_inv_tasks [OF assms(2) Run_msg(3)])
  then have "send_ok (c\<lparr>tasks := ts\<rparr>)" by (simp add: send_inv_def)
  from eventLoopWrite_eq [OF this Run_msg(4)] show ?thesis
    using Run_msg(1,2) inv send_inv_run_raw [OF inv, of i _ p now ret]
    by (auto split: option.splits)
next
  case (Kernel w ws n)
  then show ?thesis using send_inv_kernel [OF assms(2)] by simp
next
  case (Written w ws status ret)
  then show ?thesis using send_inv_written [OF assms(2)] by simp
next
  case (Write_failed w ws status ret)
  then show ?thesis using send_inv_failed [OF assms(2)] by simp
qed (simp_all add: send_inv_close send_inv_post send_inv_closeInLoop send_inv_handle)

lemma send_inv_send_run:
  assumes "send_run c gs c'" "send_inv m fs c"
  shows "send_inv m (fs @ gs) c'"
  using assms by (induction rule: send_run.induct) (auto dest: send_inv_step simp flip: append_assoc)

text \<open>A channel as construction leaves it.\<close>

definition fresh_conn :: "proto \<Rightarrow> conn \<Rightarrow> bool" where
  "fresh_conn m c \<longleftrightarrow>
    send_ok c \<and> proto_mode c = m \<and> ring_data (send_buff c) = [] \<and> \<not> closed c \<and> \<not> uv_closing c \<and>
    registered c \<and> tasks c = [] \<and> uv_writes c = [] \<and> wire c = [] \<and> on_closed_calls c = 0 \<and>
    \<not> tcp_closed c \<and> \<not> timer_closed c"

lemma fresh_send_inv: "fresh_conn m c \<Longrightarrow> send_inv m [] c"
  by (simp add: fresh_conn_def send_inv_def)

section \<open>Flushing\<close>

text \<open>The write in flight completes: the kernel takes what is left of it, the callback reports
  success, and a further uv_write, if any, is accepted.\<close>

definition take_rest :: "conn \<Rightarrow> conn" where
  "take_rest c =
    (case uv_writes c of
       [] \<Rightarrow> c
     | w # ws \<Rightarrow>
         let n = unat (wp_len w) - wp_taken w
         in c\<lparr>wire := wire c @ mem_slice (rb_buf (send_buff c)) (unat (wp_ptr w) + wp_taken w) n,
              uv_writes := w\<lparr>wp_taken := wp_taken w + n\<rparr> # ws\<rparr>)"

definition flush :: "conn \<Rightarrow> conn" where
  "flush c =
    (let c = take_rest c
     in case uv_writes c of [] \<Rightarrow> c | w # ws \<Rightarrow> write_cb w 0 0 (c\<lparr>uv_writes := ws\<rparr>))"

lemma send_inv_write_ok: "send_inv m fs c \<Longrightarrow> uv_writes c = w # ws \<Longrightarrow> write_ok w (send_buff c) \<and> ws = []"
  by (simp add: send_inv_def)

lemma take_rest_step:
  assumes "send_inv m fs c" "uv_writes c = w # ws"
  shows "send_step c [] (take_rest c)"
    "uv_writes (take_rest c) = [w\<lparr>wp_taken := unat (wp_len w)\<rparr>]"
    "send_buff (take_rest c) = send_buff c" "closed (take_rest c) = closed c"
proof -
  have w: "wp_taken w \<le> unat (wp_len w)" "ws = []"
    using send_inv_write_ok [OF assms] by (simp_all add: write_ok_def)
  then show "send_step c [] (take_rest c)"
    using send_step.Kernel [OF assms(2), of "unat (wp_len w) - wp_taken w"] assms(2)
    by (simp add: take_rest_def Let_def)
  show "uv_writes (take_rest c) = [w\<lparr>wp_taken := unat (wp_len w)\<rparr>]"
    "send_buff (take_rest c) = send_buff c" "closed (take_rest c) = closed c"
    using w assms(2) by (simp_all add: take_rest_def Let_def)
qed

lemma flush_step:
  assumes "send_inv m fs c" "uv_writes c = w # ws"
  shows "send_step (take_rest c) [] (flush c)"
  using send_step.Written [OF take_rest_step(2) [OF assms], of 0 0] take_rest_step(2) [OF assms]
  by (simp add: flush_def Let_def)

lemma send_run_one: "send_step c gs c' \<Longrightarrow> send_run c gs c'"
  using send_run.Step [OF send_run.Start] by simp

lemma send_run_trans: "send_run b gs c \<Longrightarrow> send_run a fs b \<Longrightarrow> send_run a (fs @ gs) c"
  by (induction rule: send_run.induct) (auto intro: send_run.Step simp flip: append_assoc)

lemma flush_run:
  assumes "send_inv m fs c"
  shows "send_run c [] (flush c)"
proof (cases "uv_writes c")
  case Nil
  then have "flush c = c" by (simp add: flush_def take_rest_def)
  then show ?thesis by (simp add: send_run.Start)
next
  case (Cons w ws)
  show ?thesis
    using send_run_trans [OF send_run_one [OF flush_step [OF assms Cons]]
        send_run_one [OF take_rest_step(1) [OF assms Cons]]] by simp
qed

lemma flush_inv: "send_inv m fs c \<Longrightarrow> send_inv m fs (flush c)"
  using send_inv_send_run [OF flush_run] by fastforce

text \<open>A flush of an open channel consumes what was in flight and puts the next contiguous part in
  flight.\<close>

lemma flush_open:
  assumes inv: "send_inv m fs c" and w: "uv_writes c = [w]" and op: "\<not> closed c"
  shows "\<not> closed (flush c)"
    "ring_data (send_buff (flush c)) = drop (unat (wp_len w)) (ring_data (send_buff c))"
    "unat (rb_head (send_buff (flush c))) =
      (unat (rb_head (send_buff c)) + unat (wp_len w)) mod length (rb_buf (send_buff c))"
    "length (rb_buf (send_buff (flush c))) = length (rb_buf (send_buff c))"
    "ring_data (send_buff (flush c)) \<noteq> [] \<Longrightarrow> \<exists>w'. uv_writes (flush c) = [w'] \<and>
      unat (wp_len w') = min (length (ring_data (send_buff (flush c))))
        (length (rb_buf (send_buff (flush c))) - unat (rb_head (send_buff (flush c))))"
proof -
  let ?b = "send_buff c"
  have ok: "ring_inv ?b" "ring_limit ?b < 2 ^ 31" "write_ok w ?b"
    using inv w by (auto simp: send_inv_def send_ok_def)
  have len: "unat (wp_len w) \<le> length (ring_data ?b)" "unat (wp_sendSize w) = unat (wp_len w)"
    using ok(3) by (simp_all add: write_ok_def)
  have small: "unat (wp_sendSize w) < 2 ^ 31"
    using ok(2) len byte_ring.contents_limit [OF ok(1)] by linarith
  define n where "n = (scast (wp_sendSize w) :: u64)"
  have n: "unat n = unat (wp_len w)"
  proof -
    have "unat (wp_sendSize w) < 2 ^ 64" using small by simp
    then have "unat n = unat (wp_sendSize w)"
      unfolding n_def scast_small [OF small] by (rule unat_word_of_nat_u64)
    then show ?thesis using len by simp
  qed
  have le: "unat n \<le> unat (readableBytes ?b)" using n len by simp
  note a = advanceReadIndex_data [OF ok(1) le]
  let ?b' = "snd (advanceReadIndex n ?b)"
  let ?c = "(take_rest c)\<lparr>uv_writes := [], send_buff := ?b'\<rparr>"
  note t = take_rest_step [OF inv w]
  have f: "flush c = doUvSend 0 ?c"
    using a(1) t by (simp add: flush_def Let_def write_cb_def n_def [symmetric] case_prod_beta)
  have ok': "send_ok ?c" using a(2) ok(2) by (simp add: send_ok_def ring_limit_def)
  have c': "\<not> closed ?c" using op t(4) by simp
  have "send_buff (flush c) = ?b'" "\<not> closed (flush c)"
    using doUvSend_cases(1,3) [OF ok', of 0] c' unfolding f by (cases "ring_data ?b' = []"; auto)+
  then show "\<not> closed (flush c)"
    "ring_data (send_buff (flush c)) = drop (unat (wp_len w)) (ring_data ?b)"
    "unat (rb_head (send_buff (flush c))) = (unat (rb_head ?b) + unat (wp_len w)) mod length (rb_buf ?b)"
    "length (rb_buf (send_buff (flush c))) = length (rb_buf ?b)"
    using a(3) n advanceReadIndex_head [OF ok(1) le] by simp_all
  show "ring_data (send_buff (flush c)) \<noteq> [] \<Longrightarrow> \<exists>w'. uv_writes (flush c) = [w'] \<and>
      unat (wp_len w') = min (length (ring_data (send_buff (flush c))))
        (length (rb_buf (send_buff (flush c))) - unat (rb_head (send_buff (flush c))))"
    using doUvSend_cases(3) [OF ok' c', of 0] \<open>send_buff (flush c) = ?b'\<close> unfolding f by auto
qed

lemma flush_Nil: "uv_writes c = [] \<Longrightarrow> flush c = c"
  by (simp add: flush_def take_rest_def)

lemma open_writes:
  assumes "send_inv m fs c" "\<not> closed c"
  shows "(uv_writes c = [] \<and> ring_data (send_buff c) = [] \<and> wire c = stream_bytes m fs) \<or>
    (\<exists>w. uv_writes c = [w] \<and> write_ok w (send_buff c) \<and> ring_data (send_buff c) \<noteq> [])"
  using assms
  by (cases "uv_writes c") (auto simp: send_inv_def write_ok_def simp del: length_ring_data)

text \<open>A write that reaches the end of the block is followed by one that covers the rest.\<close>

lemma flush_wrapped:
  assumes inv: "send_inv m fs c" and w: "uv_writes c = [w]" and op: "\<not> closed c"
    and all: "unat (wp_len w) = min (length (ring_data (send_buff c)))
      (length (rb_buf (send_buff c)) - unat (rb_head (send_buff c)))"
  shows "ring_data (send_buff (flush (flush c))) = []"
proof -
  let ?b = "send_buff c" and ?c1 = "flush c"
  note f = flush_open [OF inv w op]
  have inv1: "send_inv m fs ?c1" by (rule flush_inv [OF inv])
  have b: "ring_inv ?b" "unat (rb_head ?b) < length (rb_buf ?b)" "length (ring_data ?b) \<le> length (rb_buf ?b)"
    using inv byte_ring.contents_limit [of ?b] unat_capacity [of ?b]
    by (auto simp: send_inv_def send_ok_def ring_inv_def word_less_nat_alt ring_limit_def
        simp del: length_ring_data)
  show ?thesis
  proof (cases "ring_data (send_buff ?c1) = []")
    case True
    then have "uv_writes ?c1 = []" using open_writes [OF inv1 f(1)] by auto
    then show ?thesis using True by (simp add: flush_Nil)
  next
    case False
    then have "unat (wp_len w) = length (rb_buf ?b) - unat (rb_head ?b)"
      using f(2) all by (auto simp: min_def simp del: length_ring_data split: if_splits)
    then have h0: "unat (rb_head (send_buff ?c1)) = 0" using f(3) b(2) by simp
    obtain w' where w': "uv_writes ?c1 = [w']"
      "unat (wp_len w') = min (length (ring_data (send_buff ?c1)))
        (length (rb_buf (send_buff ?c1)) - unat (rb_head (send_buff ?c1)))"
      using f(5) [OF False] by blast
    moreover have "length (ring_data (send_buff ?c1)) \<le> length (rb_buf (send_buff ?c1))"
      using f(2,4) b(3) by simp
    ultimately have "unat (wp_len w') = length (ring_data (send_buff ?c1))"
      using h0 by (simp del: length_ring_data)
    then show ?thesis using flush_open(2) [OF inv1 w'(1) f(1)] by (simp del: length_ring_data)
  qed
qed

lemma flush_three:
  assumes inv: "send_inv m fs c" and op: "\<not> closed c"
  shows "\<not> closed (flush (flush (flush c)))" "ring_data (send_buff (flush (flush (flush c)))) = []"
proof -
  have keep: "\<not> closed (flush d) \<and> (ring_data (send_buff d) = [] \<longrightarrow> ring_data (send_buff (flush d)) = [])"
    if "send_inv m fs d" "\<not> closed d" for d
    using open_writes [OF that] flush_Nil [of d] flush_open(1) [OF that(1) _ that(2)] that(2) by auto
  have i: "send_inv m fs (flush c)" "send_inv m fs (flush (flush c))"
    using flush_inv inv by blast+
  have o: "\<not> closed (flush c)" "\<not> closed (flush (flush c))"
    using keep [OF inv op] keep [OF i(1)] by simp_all
  then show "\<not> closed (flush (flush (flush c)))" using keep [OF i(2)] by simp
  show "ring_data (send_buff (flush (flush (flush c)))) = []"
  proof (cases "ring_data (send_buff (flush c)) = []")
    case True
    then show ?thesis using keep [OF i(1) o(1)] keep [OF i(2) o(2)] by simp
  next
    case False
    then have "ring_data (send_buff c) \<noteq> []" using keep [OF inv op] by auto
    then obtain w where w: "uv_writes c = [w]" using open_writes [OF inv op] by auto
    then obtain w' where w': "uv_writes (flush c) = [w']"
      "unat (wp_len w') = min (length (ring_data (send_buff (flush c))))
        (length (rb_buf (send_buff (flush c))) - unat (rb_head (send_buff (flush c))))"
      using flush_open(5) [OF inv w op False] by blast
    show ?thesis by (rule flush_wrapped [OF i(1) w'(1) o(1) w'(2)])
  qed
qed

section \<open>Closing runs once\<close>

definition close_inv :: "conn \<Rightarrow> bool" where
  "close_inv c \<longleftrightarrow>
    count_list (tasks c) Close_task + on_closed_calls c = (if closed c then 1 else 0) \<and>
    (uv_closing c \<longleftrightarrow> on_closed_calls c = 1) \<and>
    (tcp_closed c \<longrightarrow> uv_closing c \<and> uv_writes c = []) \<and>
    (timer_closed c \<longrightarrow> uv_closing c) \<and>
    (registered c \<longleftrightarrow> \<not> (tcp_closed c \<and> timer_closed c))"

lemma close_inv_fields [simp]:
  "close_inv (c\<lparr>send_buff := b\<rparr>) = close_inv c"
  "close_inv (c\<lparr>last_send_time := t\<rparr>) = close_inv c"
  "close_inv (c\<lparr>wire := ws\<rparr>) = close_inv c"
  "close_inv (emit_frame i body p c) = close_inv c"
  by (simp_all add: close_inv_def emit_frame_def Let_def)

lemma close_inv_close: "close_inv c \<Longrightarrow> close_inv (chan_close c)"
  by (auto simp: close_inv_def chan_close_def Let_def split: if_splits)

lemma close_inv_doUvSend: "close_inv c \<Longrightarrow> close_inv (doUvSend ret c)"
proof -
  assume c: "close_inv c"
  have "close_inv (c\<lparr>uv_writes := ws\<rparr>)" if "\<not> closed c" for ws
    using that c by (auto simp: close_inv_def)
  then show ?thesis using c by (auto simp: doUvSend_def close_inv_close Let_def split: prod.splits)
qed

lemma close_inv_raw: "close_inv c \<Longrightarrow> close_inv (eventLoopRawWrite now ret i b p c)"
  by (simp add: eventLoopRawWrite_def Let_def close_inv_doUvSend)

lemma close_inv_msg: "close_inv c \<Longrightarrow> close_inv (eventLoopWrite k now ret i msg p c)"
  by (simp add: eventLoopWrite_def Let_def close_inv_doUvSend split: option.splits)

lemma close_inv_write_cb: "close_inv c \<Longrightarrow> close_inv (write_cb w status ret c)"
  by (auto simp: write_cb_def Let_def close_inv_close close_inv_doUvSend split: prod.splits)

lemma close_inv_tasks: "close_inv c \<Longrightarrow> tasks c = t # ts \<Longrightarrow> t \<noteq> Close_task \<Longrightarrow> close_inv (c\<lparr>tasks := ts\<rparr>)"
  by (auto simp: close_inv_def)

lemma close_inv_writes: "close_inv c \<Longrightarrow> uv_writes c = w # ws \<Longrightarrow> close_inv (c\<lparr>uv_writes := ws'\<rparr>)"
  by (auto simp: close_inv_def)

lemma close_inv_post:
  "close_inv c \<Longrightarrow> close_inv (sendRawMsg i b p c)" "close_inv c \<Longrightarrow> close_inv (sendMsg i msg p c)"
  by (auto simp: close_inv_def sendRawMsg_def sendMsg_def)

lemma close_inv_closeInLoop:
  "close_inv c \<Longrightarrow> tasks c = Close_task # ts \<Longrightarrow> close_inv (closeInLoop (c\<lparr>tasks := ts\<rparr>))"
  by (auto simp: close_inv_def closeInLoop_def split: if_splits)

lemma close_inv_handle:
  "close_inv c \<Longrightarrow> uv_closing c \<Longrightarrow> uv_writes c = [] \<Longrightarrow> close_inv (onHandleClosed Tcp_handle c)"
  "close_inv c \<Longrightarrow> uv_closing c \<Longrightarrow> close_inv (onHandleClosed Timer_handle c)"
  by (auto simp: close_inv_def onHandleClosed_def releaseChannel_def Let_def split: if_splits)

lemma close_inv_step:
  assumes "send_step c gs c'" "close_inv c"
  shows "close_inv c'"
  using assms(1)
proof (cases rule: send_step.cases)
  case (Run_raw i b p ts now ret)
  then show ?thesis using close_inv_tasks [OF assms(2)] by (simp add: close_inv_raw)
next
  case (Run_msg i msg p ts k now ret)
  then show ?thesis using close_inv_tasks [OF assms(2)] by (simp add: close_inv_msg)
next
  case (Kernel w ws n)
  have "close_inv (c\<lparr>wire := x\<rparr>)" "uv_writes (c\<lparr>wire := x\<rparr>) = w # ws" for x
    using assms(2) Kernel(3) by simp_all
  then show ?thesis using Kernel(2) close_inv_writes by blast
next
  case (Written w ws status ret)
  then show ?thesis using close_inv_writes [OF assms(2)] by (simp add: close_inv_write_cb)
next
  case (Write_failed w ws status ret)
  then show ?thesis using close_inv_writes [OF assms(2)] by (simp add: close_inv_write_cb)
next
  case (Run_close ts)
  then show ?thesis using close_inv_closeInLoop [OF assms(2)] by simp
qed (simp_all add: assms(2) close_inv_close close_inv_post close_inv_handle)

lemma close_inv_run: "send_run c fs c' \<Longrightarrow> close_inv c \<Longrightarrow> close_inv c'"
  by (induction rule: send_run.induct) (auto dest: close_inv_step)

lemma fresh_close_inv: "fresh_conn m c \<Longrightarrow> close_inv c"
  by (simp add: fresh_conn_def close_inv_def)

section \<open>A concrete run\<close>

text \<open>One message written, and its write in flight.\<close>

definition ex_sent :: "proto \<Rightarrow> conn" where
  "ex_sent m = eventLoopRawWrite 5 0 7 [1, 2] 9 (ex_conn m)"

lemma ex_conn_fresh: "fresh_conn m (ex_conn m)"
  by (simp add: fresh_conn_def ex_conn_def conn_of_def channel.extend_def send_ok_def ex_ring_inv)

lemma ex_conn_accepts: "taken_frames (ex_conn m) 7 [1, 2] 9 = [ex_frame]"
  by (cases m) (simp_all add: taken_frames_def accepts_def frame_of_def ex_frame_def frame_ok_def
      frame_size_def header_len_def max_frame_def room_def ex_ring_inv ex_conn_def conn_of_def
      channel.extend_def del: length_ring_data)

lemma ex_sent_run: "send_run (ex_conn m) [ex_frame] (ex_sent m)"
proof -
  let ?c = "sendRawMsg 7 [1, 2] 9 (ex_conn m)"
  have c: "tasks ?c = [Raw_write_task 7 [1, 2] 9]" "?c\<lparr>tasks := []\<rparr> = ex_conn m"
    by (simp_all add: sendRawMsg_def ex_conn_def conn_of_def channel.extend_def)
  have "taken_frames ?c 7 [1, 2] 9 = [ex_frame]"
    using taken_frames_tasks [where c = ?c and ts = "[]", symmetric] ex_conn_accepts
    by (simp only: c(2))
  then have "send_step ?c [ex_frame] (ex_sent m)"
    using send_step.Run_raw [OF c(1), of 5 0] by (simp add: c(2) ex_sent_def)
  then show ?thesis
    using send_run.Step [OF send_run.Step [OF send_run.Start send_step.Post_raw]] by fastforce
qed

lemma ex_sent_open: "\<not> closed (ex_sent CLIENT)" by code_simp

section \<open>Properties\<close>

text \<open>C3. Whatever the interleaving of senders, loop, kernel, callbacks and closing: what has
  reached the wire is a prefix of the accepted frames laid out in order, without gap, repetition or
  overlap; at most one write is in flight; and an idle open channel has sent everything.\<close>

theorem send_stream:
  assumes "fresh_conn m c" "send_run c fs c'"
  shows "(\<exists>rest. stream_bytes m fs = wire c' @ rest) \<and> length (uv_writes c') \<le> 1 \<and>
    (\<not> closed c' \<and> uv_writes c' = [] \<longrightarrow> wire c' = stream_bytes m fs)"
proof -
  have "send_inv m fs c'"
    using send_inv_send_run [OF assms(2) fresh_send_inv [OF assms(1)]] by simp
  then show ?thesis by (auto simp: send_inv_def split: list.splits if_splits)
qed

theorem send_stream_witness:
  "\<exists>rest. stream_bytes INNER [ex_frame] = wire (ex_sent INNER) @ rest"
  using send_stream [OF ex_conn_fresh ex_sent_run, of INNER] by blast

text \<open>C5. An open channel never stalls: as long as something is unsent a write is in flight for
  the oldest bytes, and three completed writes put every accepted frame on the wire.\<close>

theorem send_progress:
  assumes "fresh_conn m c" "send_run c fs c'" "\<not> closed c'"
  shows "(wire c' \<noteq> stream_bytes m fs \<longrightarrow>
      (\<exists>w. uv_writes c' = [w] \<and> wp_ptr w = rb_head (send_buff c') \<and> 0 < unat (wp_len w))) \<and>
    send_run c' [] (flush (flush (flush c'))) \<and>
    \<not> closed (flush (flush (flush c'))) \<and> wire (flush (flush (flush c'))) = stream_bytes m fs"
proof -
  let ?d = "flush (flush (flush c'))"
  have inv: "send_inv m fs c'"
    using send_inv_send_run [OF assms(2) fresh_send_inv [OF assms(1)]] by simp
  have run: "send_run c' [] ?d"
    using send_run_trans [OF flush_run [OF flush_inv [OF flush_inv [OF inv]]]
        send_run_trans [OF flush_run [OF flush_inv [OF inv]] flush_run [OF inv]]] by simp
  have d: "\<not> closed ?d" "ring_data (send_buff ?d) = []" by (rule flush_three [OF inv assms(3)])+
  have "send_inv m fs ?d" by (intro flush_inv inv)
  then have "wire ?d = stream_bytes m fs" using open_writes [of m fs ?d] d by auto
  then show ?thesis using run d open_writes [OF inv assms(3)] by (auto simp: write_ok_def)
qed

theorem send_progress_witness:
  "wire (flush (flush (flush (ex_sent CLIENT)))) =
    [0, 0, 0, 10, 0, 0, 0, 7, 0x41, 0x54, 0x48, 0x41, 1, 2]"
proof -
  have "stream_bytes CLIENT [ex_frame] = [0, 0, 0, 10, 0, 0, 0, 7, 0x41, 0x54, 0x48, 0x41, 1, 2]"
    by code_simp
  then show ?thesis
    using send_progress [OF ex_conn_fresh ex_sent_run ex_sent_open] by simp
qed

text \<open>C12. Closing is idempotent and complete: however often and from wherever a channel is closed,
  the close task is queued at most once and on_closed is notified at most once; the registry lets
  the channel go only after the notification and both handle callbacks, when no write refers to it
  any more.\<close>

theorem close_once:
  assumes "fresh_conn m c" "send_run c fs c'"
  shows "count_list (tasks c') Close_task + on_closed_calls c' = (if closed c' then 1 else 0) \<and>
    (\<not> registered c' \<longrightarrow>
      on_closed_calls c' = 1 \<and> tcp_closed c' \<and> timer_closed c' \<and> uv_writes c' = [])"
  using close_inv_run [OF assms(2) fresh_close_inv [OF assms(1)]] by (auto simp: close_inv_def)

theorem close_once_witness:
  "count_list (tasks (chan_close (chan_close (ex_conn INNER)))) Close_task = 1"
proof -
  let ?c = "ex_conn INNER"
  have "send_run ?c [] (chan_close (chan_close ?c))"
    using send_run.Step [OF send_run.Step [OF send_run.Start send_step.Close] send_step.Close] by simp
  moreover have "closed (chan_close (chan_close ?c)) \<and> on_closed_calls (chan_close (chan_close ?c)) = 0"
    by code_simp
  ultimately show ?thesis using close_once [OF ex_conn_fresh, of INNER "[]"] by fastforce
qed

end
