(* ===== verification/Receive_Protocol.thy ===== *)
theory Receive_Protocol
  imports Channel
begin

text \<open>
  The receiving side, src/transport/EventLoop.cpp: the allocation callback that hands libuv the
  free part of the ring, the read callback that cuts the received stream into frames, and the
  scratch buffer the frames are copied to. The business handler (NetInterface::on_read), the
  growth of the scratch buffer (realloc) and the sizes in which the kernel delivers the stream are
  arguments. The loop is shown to end, and to cut the stream into exactly the frames that were
  sent, however it is chunked.
\<close>

section \<open>Callbacks\<close>

text \<open>The buffer offered to libuv (\<open>None\<close> for the dummy byte) and its length.\<close>

definition uv_alloc_cb :: "conn \<Rightarrow> u64 option \<times> u64 \<times> conn" where
  "uv_alloc_cb c =
    (case linearWritablePtr (recv_buffer c) of
       (writePtr, lineWritAbleLen) \<Rightarrow>
         if lineWritAbleLen = 0 then (None, 1, chan_close c)
         else (writePtr, lineWritAbleLen, c))"

text \<open>The scratch buffer is represented by its length; \<open>grow\<close> tells whether realloc succeeds.
  The result is the length of the buffer returned (\<open>None\<close> for null) and the length kept.\<close>

definition getPacketBuff :: "(int \<Rightarrow> bool) \<Rightarrow> int \<Rightarrow> int \<Rightarrow> int option \<times> int" where
  "getPacketBuff grow needLen maxPackBodyLen =
    (if needLen > maxPackBodyLen then
       (if \<not> grow needLen then (None, maxPackBodyLen)
        else (Some needLen, needLen))
     else (Some maxPackBodyLen, maxPackBodyLen))"

text \<open>The loop of uv_read_cb; the result lists the packets given to the handler.\<close>

partial_function (option) read_loop ::
  "(int \<Rightarrow> bool) \<Rightarrow> (byte list \<Rightarrow> conn \<Rightarrow> conn) \<Rightarrow> int \<Rightarrow> conn \<Rightarrow> (byte list list \<times> int \<times> conn) option"
where
  "read_loop grow on_read scratch c =
    (if closed c then Some ([], scratch, c)
     else
       let packageLen = peekNextPackLen c in
       if packageLen < 0 then
         Some ([], scratch, if packageLen = -2 then chan_close c else c)
       else
         let packBuf = fst (getPacketBuff grow packageLen scratch);
             scratch = snd (getPacketBuff grow packageLen scratch) in
         if packBuf = None then Some ([], scratch, chan_close c)
         else
           let got = getPack (replicate (nat (the packBuf)) 0) packageLen c;
               packet = take (nat packageLen) (fst (snd got));
               c = on_read packet (snd (snd got))
           in Option.bind (read_loop grow on_read scratch c)
                (\<lambda>r. Some (packet # fst r, snd r)))"

definition uv_read_cb ::
  "(int \<Rightarrow> bool) \<Rightarrow> (byte list \<Rightarrow> conn \<Rightarrow> conn) \<Rightarrow> int \<Rightarrow> u64 \<Rightarrow> int \<Rightarrow> conn \<Rightarrow>
    (byte list list \<times> int \<times> conn) option" where
  "uv_read_cb grow on_read nread now scratch c =
    (let c = onRead nread now c in
     if nread \<le> 0 \<or> closed c then Some ([], scratch, c)
     else read_loop grow on_read scratch c)"

section \<open>Cutting a stream\<close>

lemma stream_head_Complete:
  "stream_head m bs = Complete n \<Longrightarrow> 4 \<le> n \<and> n \<le> length bs \<and> n \<le> max_frame"
  by (auto simp: stream_head_def split: if_splits)

text \<open>The packets at the head of a stream, what is left, and whether it is still legal.\<close>

function cut_stream :: "proto \<Rightarrow> byte list \<Rightarrow> byte list list \<times> byte list \<times> bool" where
  "cut_stream m bs =
    (case stream_head m bs of
       Incomplete \<Rightarrow> ([], bs, True)
     | Illegal \<Rightarrow> ([], bs, False)
     | Complete n \<Rightarrow> (case cut_stream m (drop n bs) of (ps, r) \<Rightarrow> (take n bs # ps, r)))"
  by pat_completeness auto
termination
  by (relation "measure (\<lambda>(m, bs). length bs)") (auto dest!: stream_head_Complete)

declare cut_stream.simps [simp del]

text \<open>A stream of admissible frames, received up to any byte, is cut into the frames that are
  complete; the rest is the incomplete head of the next one.\<close>

lemma cut_stream_frames:
  assumes "\<forall>f \<in> set fs. frame_ok m f" "bs @ rest = stream_bytes m fs"
  shows "\<exists>gs r hs. fs = gs @ hs \<and> cut_stream m bs = (map (frame_bytes m) gs, r, True) \<and>
    r @ rest = stream_bytes m hs \<and> (hs = [] \<or> length r < frame_size m (hd hs))"
  using assms
proof (induction fs arbitrary: bs)
  case Nil
  have "cut_stream m [] = ([], [], True)"
    using magic_off_header [of m] by (subst cut_stream.simps) (simp add: stream_head_def)
  then show ?case using Nil by simp
next
  case (Cons f fs)
  have f: "frame_ok m f" using Cons.prems by simp
  have str: "bs @ rest = frame_bytes m f @ stream_bytes m fs" using Cons.prems by simp
  show ?case
  proof (cases "frame_size m f \<le> length bs")
    case True
    define bs' where "bs' = drop (frame_size m f) bs"
    have "take (frame_size m f) (bs @ rest) = frame_bytes m f"
      unfolding str by simp
    then have "take (frame_size m f) bs = frame_bytes m f" using True by simp
    then have bs: "bs = frame_bytes m f @ bs'" unfolding bs'_def by (metis append_take_drop_id)
    then have rest: "bs' @ rest = stream_bytes m fs" using str by simp
    obtain gs r hs where IH: "fs = gs @ hs"
      "cut_stream m bs' = (map (frame_bytes m) gs, r, True)"
      "r @ rest = stream_bytes m hs" "hs = [] \<or> length r < frame_size m (hd hs)"
      using Cons.IH [OF _ rest] Cons.prems(1) by auto
    have "cut_stream m bs = (frame_bytes m f # map (frame_bytes m) gs, r, True)"
      using stream_head_frame [OF f, of bs'] IH(2) unfolding bs
      by (subst cut_stream.simps) simp
    then show ?thesis using IH by (intro exI [of _ "f # gs"] exI [of _ r] exI [of _ hs]) simp
  next
    case False
    then have "bs = take (length bs) (frame_bytes m f)"
      using arg_cong [OF str, of "take (length bs)"] by simp
    then have "stream_head m bs = Incomplete"
      using stream_head_prefix [OF f, of "length bs"] False by simp
    then have "cut_stream m bs = ([], bs, True)" by (subst cut_stream.simps) simp
    then show ?thesis using Cons.prems False by (intro exI [of _ "[]"] exI [of _ bs] exI [of _ "f # fs"]) simp
  qed
qed

section \<open>The loop cuts the stream\<close>

text \<open>What the loop relies on of the business handler: it works on the channel through the
  thread-safe interface, so it neither touches the receive ring nor reopens the channel.\<close>

definition handler_ok :: "(byte list \<Rightarrow> conn \<Rightarrow> conn) \<Rightarrow> bool" where
  "handler_ok on_read \<longleftrightarrow>
    (\<forall>b c. recv_buffer (on_read b c) = recv_buffer c \<and> proto_mode (on_read b c) = proto_mode c \<and>
      (closed c \<longrightarrow> closed (on_read b c)))"

lemma getPack_eq:
  assumes "recv_ok c" "int n = packLen" "n \<le> length (ring_data (recv_buffer c))" "n \<le> length out"
  shows "take n (fst (snd (getPack out packLen c))) = take n (ring_data (recv_buffer c))"
    "ring_data (recv_buffer (snd (snd (getPack out packLen c)))) = drop n (ring_data (recv_buffer c))"
    "recv_ok (snd (snd (getPack out packLen c)))"
    "proto_mode (snd (snd (getPack out packLen c))) = proto_mode c"
    "ring_limit (recv_buffer (snd (snd (getPack out packLen c)))) = ring_limit (recv_buffer c)"
proof -
  let ?r = "recv_buffer c" and ?n = "word_of_int packLen :: u64"
  have inv: "ring_inv ?r" and lim: "ring_limit ?r < 2 ^ 31"
    using assms(1) by (auto simp: recv_ok_def)
  have "n < 2 ^ 64"
    using lim assms(3) byte_ring.contents_limit [OF inv] by simp
  then have n: "unat ?n = n" using unat_word_of_nat_u64 [of n] assms(2) by (auto simp flip: assms(2))
  have le: "unat (min ?n (readableBytes ?r)) \<le> unat (readableBytes ?r)"
    "unat (min ?n (readableBytes ?r)) = n"
    using assms(3) n by (simp_all add: unat_min)
  have e: "ring_read out ?n ?r = (min ?n (readableBytes ?r), poke out 0 (take n (ring_data ?r)),
      snd (advanceReadIndex (min ?n (readableBytes ?r)) ?r))"
    using ring_read_eq [OF inv, of ?n out] assms(4) n by (simp add: taken_def)
  have "length (take n (ring_data ?r)) = n" using assms(3) by simp
  then show "take n (fst (snd (getPack out packLen c))) = take n (ring_data ?r)"
    using take_poke [of "take n (ring_data ?r)" out]
    by (simp add: getPack_def bb_readBytes_def e del: length_take length_ring_data)
  note a = advanceReadIndex_data [OF inv le(1)]
  show "ring_data (recv_buffer (snd (snd (getPack out packLen c)))) = drop n (ring_data ?r)"
    "recv_ok (snd (snd (getPack out packLen c)))"
    "proto_mode (snd (snd (getPack out packLen c))) = proto_mode c"
    "ring_limit (recv_buffer (snd (snd (getPack out packLen c)))) = ring_limit ?r"
    using a le(2) lim
    by (simp_all add: getPack_def bb_readBytes_def e recv_ok_def ring_limit_def)
qed

lemma chan_close_recv [chan_simps]: "recv_ok (chan_close c) = recv_ok c"
  by (simp add: chan_close_def recv_ok_def Let_def)

lemma chan_close_view [chan_simps]:
  "recv_buffer (chan_close c) = recv_buffer c" "proto_mode (chan_close c) = proto_mode c"
  "closed (chan_close c)"
  by (simp_all add: chan_close_def Let_def)

text \<open>What one pass through the loop does, by the head of the stream.\<close>

lemma read_loop_closed: "closed c \<Longrightarrow> read_loop grow h s c = Some ([], s, c)"
  by (subst read_loop.simps) simp

lemma read_loop_stop:
  assumes "recv_ok c" "\<not> closed c"
  shows "stream_head (proto_mode c) (ring_data (recv_buffer c)) = Incomplete \<Longrightarrow>
      read_loop grow h s c = Some ([], s, c)"
    "stream_head (proto_mode c) (ring_data (recv_buffer c)) = Illegal \<Longrightarrow>
      read_loop grow h s c = Some ([], s, chan_close c)"
  using assms by (subst read_loop.simps, simp add: peekNextPackLen_eq head_code_def)+

text \<open>The packet is copied out of the ring into a scratch buffer that is long enough for it.\<close>

lemma read_loop_packet:
  assumes ok: "recv_ok c" and op: "\<not> closed c"
    and head: "stream_head (proto_mode c) (ring_data (recv_buffer c)) = Complete n"
  obtains (no_memory) s' where "\<not> grow (int n)" "read_loop grow h s c = Some ([], s', chan_close c)"
  | (packet) s' c' where
      "recv_ok c'" "proto_mode c' = proto_mode c" "closed c' = closed c"
      "ring_limit (recv_buffer c') = ring_limit (recv_buffer c)"
      "ring_data (recv_buffer c') = drop n (ring_data (recv_buffer c))"
      "read_loop grow h s c =
        Option.bind (read_loop grow h s' (h (take n (ring_data (recv_buffer c))) c'))
          (\<lambda>r. Some (take n (ring_data (recv_buffer c)) # fst r, snd r))"
proof -
  let ?D = "ring_data (recv_buffer c)"
  have n: "4 \<le> n" "n \<le> length ?D" using stream_head_Complete [OF head] by simp_all
  have peek: "peekNextPackLen c = int n" using head by (simp add: peekNextPackLen_eq [OF ok] head_code_def)
  let ?g = "getPacketBuff grow (int n) s"
  show ?thesis
  proof (cases "fst ?g")
    case None
    then have "\<not> grow (int n)" by (auto simp: getPacketBuff_def split: if_splits)
    moreover have "read_loop grow h s c = Some ([], snd ?g, chan_close c)"
      using op None by (subst read_loop.simps) (simp add: peek Let_def)
    ultimately show ?thesis by (rule no_memory)
  next
    case (Some cap)
    then have cap: "n \<le> length (replicate (nat cap) (0 :: byte))"
      by (auto simp: getPacketBuff_def split: if_splits)
    let ?got = "getPack (replicate (nat cap) 0) (int n) c"
    note g = getPack_eq [OF ok refl n(2) cap]
    have "closed (snd (snd ?got)) = closed c" by (simp add: getPack_def split: prod.splits)
    moreover have "read_loop grow h s c =
        Option.bind (read_loop grow h (snd ?g) (h (take n ?D) (snd (snd ?got))))
          (\<lambda>r. Some (take n ?D # fst r, snd r))"
      using op Some g(1) by (subst read_loop.simps) (simp add: peek Let_def)
    ultimately show ?thesis using packet [of "snd (snd ?got)" "snd ?g"] g by blast
  qed
qed

lemma read_loop_cut:
  assumes "recv_ok c" "handler_ok h"
  shows "\<exists>ds s' c'. read_loop grow h s c = Some (ds, s', c') \<and> recv_ok c' \<and>
    proto_mode c' = proto_mode c \<and> ring_limit (recv_buffer c') = ring_limit (recv_buffer c) \<and>
    concat ds @ ring_data (recv_buffer c') = ring_data (recv_buffer c) \<and>
    (\<exists>xs. fst (cut_stream (proto_mode c) (ring_data (recv_buffer c))) = ds @ xs) \<and>
    (\<not> closed c' \<longrightarrow>
      cut_stream (proto_mode c) (ring_data (recv_buffer c)) = (ds, ring_data (recv_buffer c'), True))"
  using assms
proof (induction "length (ring_data (recv_buffer c))" arbitrary: c s rule: less_induct)
  case less
  let ?m = "proto_mode c" and ?D = "ring_data (recv_buffer c)"
  show ?case
  proof (cases "closed c")
    case True
    then show ?thesis using less.prems by (simp add: read_loop_closed)
  next
    case op: False
    show ?thesis
    proof (cases "stream_head ?m ?D")
      case Incomplete
      then have "cut_stream ?m ?D = ([], ?D, True)" by (subst cut_stream.simps) simp
      then show ?thesis using read_loop_stop(1) [OF less.prems(1) op Incomplete] less.prems by simp
    next
      case Illegal
      then show ?thesis using read_loop_stop(2) [OF less.prems(1) op Illegal] less.prems
        by (simp add: chan_simps)
    next
      case (Complete n)
      note n = stream_head_Complete [OF Complete]
      have cut: "cut_stream ?m ?D = (take n ?D # fst (cut_stream ?m (drop n ?D)),
          snd (cut_stream ?m (drop n ?D)))"
        by (subst cut_stream.simps) (simp add: Complete split: prod.splits)
      from less.prems(1) op Complete show ?thesis
      proof (cases rule: read_loop_packet [where grow = grow and h = h and s = s])
        case (no_memory s')
        then show ?thesis using less.prems by (simp add: chan_simps)
      next
        case (packet s' c1)
        let ?c = "h (take n ?D) c1"
        have c: "recv_ok ?c" "proto_mode ?c = ?m" "ring_data (recv_buffer ?c) = drop n ?D"
          "ring_limit (recv_buffer ?c) = ring_limit (recv_buffer c)"
          using packet less.prems(2) by (simp_all add: handler_ok_def recv_ok_def)
        have "length (ring_data (recv_buffer ?c)) < length ?D" using c(3) n by simp
        from less.hyps [OF this c(1) less.prems(2), of s'] obtain ds s2 c2 where
          IH: "read_loop grow h s' ?c = Some (ds, s2, c2)" "recv_ok c2" "proto_mode c2 = ?m"
          "ring_limit (recv_buffer c2) = ring_limit (recv_buffer c)"
          "concat ds @ ring_data (recv_buffer c2) = drop n ?D"
          "\<exists>xs. fst (cut_stream ?m (drop n ?D)) = ds @ xs"
          "\<not> closed c2 \<longrightarrow> cut_stream ?m (drop n ?D) = (ds, ring_data (recv_buffer c2), True)"
          unfolding c by auto
        have "concat (take n ?D # ds) @ ring_data (recv_buffer c2) = ?D" using IH(5) by simp
        then show ?thesis using packet IH by (simp add: cut)
      qed
    qed
  qed
qed

text \<open>It stays open when the stream is legal, memory suffices and the handler does not close.\<close>

lemma read_loop_open:
  assumes "recv_ok c" "handler_ok h" "\<And>b d. closed (h b d) = closed d" "\<forall>n. grow n"
    "\<not> closed c" "snd (snd (cut_stream (proto_mode c) (ring_data (recv_buffer c))))"
    "read_loop grow h s c = Some (ds, s', c')"
  shows "\<not> closed c'"
  using assms
proof (induction "length (ring_data (recv_buffer c))" arbitrary: c s ds s' c' rule: less_induct)
  case less
  let ?m = "proto_mode c" and ?D = "ring_data (recv_buffer c)"
  show ?case
  proof (cases "stream_head ?m ?D")
    case Incomplete
    then show ?thesis using read_loop_stop(1) [OF less.prems(1,5) Incomplete] less.prems by simp
  next
    case Illegal
    then have "\<not> snd (snd (cut_stream ?m ?D))" by (subst cut_stream.simps) simp
    then show ?thesis using less.prems(6) by simp
  next
    case (Complete n)
    note n = stream_head_Complete [OF Complete]
    have legal: "snd (snd (cut_stream ?m (drop n ?D)))"
      using less.prems(6) by (subst (asm) cut_stream.simps) (simp add: Complete split: prod.splits)
    from less.prems(1,5) Complete show ?thesis
    proof (cases rule: read_loop_packet [where grow = grow and h = h and s = s])
      case (no_memory s2)
      then show ?thesis using less.prems(4) by simp
    next
      case (packet s2 c1)
      let ?c = "h (take n ?D) c1"
      have c: "recv_ok ?c" "proto_mode ?c = ?m" "ring_data (recv_buffer ?c) = drop n ?D"
        "\<not> closed ?c"
        using packet less.prems(2,3,5) by (simp_all add: handler_ok_def recv_ok_def)
      have "length (ring_data (recv_buffer ?c)) < length ?D" using c(3) n by simp
      moreover obtain ds1 where "read_loop grow h s2 ?c = Some (ds1, s', c')"
        using packet(6) less.prems(7) by (cases "read_loop grow h s2 ?c") auto
      ultimately show ?thesis
        using less.hyps [of ?c s2 ds1 s' c'] c legal less.prems(2-4) by simp
    qed
  qed
qed

section \<open>A whole stream\<close>

text \<open>The kernel delivers \<open>pending\<close> in reads of the sizes \<open>ks\<close>, each limited by the buffer it is
  offered and by what has arrived; a read into the dummy byte leaves the ring alone.\<close>

primrec rx_feed ::
  "(int \<Rightarrow> bool) \<Rightarrow> (byte list \<Rightarrow> conn \<Rightarrow> conn) \<Rightarrow> u64 \<Rightarrow> nat list \<Rightarrow> byte list \<Rightarrow> int \<Rightarrow> conn \<Rightarrow>
    (byte list list \<times> byte list \<times> int \<times> conn) option"
where
  "rx_feed grow h now [] pending s c = Some ([], pending, s, c)"
| "rx_feed grow h now (k # ks) pending s c =
    (case uv_alloc_cb c of (base, len, c) \<Rightarrow>
      let n = min k (min (unat len) (length pending));
          c = (case base of None \<Rightarrow> c
               | Some p \<Rightarrow> c\<lparr>recv_buffer := store_at p (take n pending) (recv_buffer c)\<rparr>)
      in Option.bind (uv_read_cb grow h (int n) now s c)
           (\<lambda>(ds, s, c). Option.bind (rx_feed grow h now ks (drop n pending) s c)
             (\<lambda>(es, r). Some (ds @ es, r))))"

text \<open>An open receiver between two reads, with \<open>fs\<close> still to be delivered.\<close>

definition rx_state :: "proto \<Rightarrow> nat \<Rightarrow> frame list \<Rightarrow> byte list \<Rightarrow> conn \<Rightarrow> bool" where
  "rx_state m lim fs pending c \<longleftrightarrow>
    recv_ok c \<and> \<not> closed c \<and> proto_mode c = m \<and> ring_limit (recv_buffer c) = lim \<and>
    (\<forall>f \<in> set fs. frame_ok m f \<and> frame_size m f \<le> lim) \<and>
    ring_data (recv_buffer c) @ pending = stream_bytes m fs \<and>
    (fs = [] \<or> length (ring_data (recv_buffer c)) < frame_size m (hd fs))"

lemma ring_limit_pos: "ring_inv r \<Longrightarrow> 0 < ring_limit r"
proof -
  assume inv: "ring_inv r"
  then obtain k where k: "0 < k" "unat (rb_cap r) = 2 ^ k" by (rule ring_inv_power)
  then have "(2::nat) ^ 1 \<le> 2 ^ k" by (intro power_increasing) auto
  then show ?thesis using k unat_capacity [OF inv] by (simp add: ring_limit_def)
qed

lemma rx_room:
  assumes "rx_state m lim fs pending c"
  shows "\<exists>p len. linearWritablePtr (recv_buffer c) = (Some p, len) \<and> 0 < unat len"
proof -
  let ?r = "recv_buffer c"
  have inv: "ring_inv ?r" using assms by (simp add: rx_state_def recv_ok_def)
  have "0 < room ?r"
  proof (cases fs)
    case Nil
    then show ?thesis using assms ring_limit_pos [OF inv] by (simp add: rx_state_def room_def)
  next
    case (Cons f gs)
    then show ?thesis using assms by (auto simp: rx_state_def room_def simp del: length_ring_data)
  qed
  then have "writableBytes ?r \<noteq> 0" using unat_writable_room [OF inv] by auto
  then obtain p len where "linearWritablePtr ?r = (Some p, len)"
    by (simp add: linearWritablePtr_def Let_def)
  then show ?thesis using linearWritable_view(2) [OF inv] by blast
qed

lemma rx_store:
  assumes st: "rx_state m lim fs pending c" and ptr: "linearWritablePtr (recv_buffer c) = (Some p, len)"
    and n: "n \<le> unat len" "n \<le> length pending" "0 < n"
  shows "\<exists>c1. onRead (int n) now (c\<lparr>recv_buffer := store_at p (take n pending) (recv_buffer c)\<rparr>) = c1 \<and>
    recv_ok c1 \<and> \<not> closed c1 \<and> proto_mode c1 = m \<and> ring_limit (recv_buffer c1) = lim \<and>
    ring_data (recv_buffer c1) = ring_data (recv_buffer c) @ take n pending"
proof -
  let ?r = "recv_buffer c" and ?bs = "take n pending"
  let ?r1 = "store_at p ?bs ?r"
  have inv: "ring_inv ?r" and c: "\<not> closed c" "proto_mode c = m" "ring_limit ?r = lim" "lim < 2 ^ 31"
    using st by (auto simp: rx_state_def recv_ok_def)
  have bs: "length ?bs \<le> unat len" "length ?bs = n" using n by simp_all
  note z = zero_copy_write [OF inv ptr bs(1)]
  have len: "unat (word_of_nat (length ?bs) :: u64) = length ?bs"
    using bs unat_less_2p64 [of len] by (intro unat_word_of_nat_u64) linarith
  then have fits: "unat (word_of_nat (length ?bs) :: u64) \<le> unat (writableBytes ?r)"
    using linearWritable_view [OF inv ptr] bs by simp
  note w = tryWrite_data [OF inv fits, of ?bs] tryWrite_inv [OF inv, of "word_of_nat (length ?bs)" ?bs]
    tryWrite_eq [OF inv fits, of ?bs]
  have adv: "advanceWriteIndex (word_of_nat n) ?r1 = (True, snd (tryWrite ?bs (word_of_nat n) ?r))"
    using z(3) w(3) len bs by simp
  have "ring_limit (snd (tryWrite ?bs (word_of_nat n) ?r)) = lim" using c(3) by (simp add: ring_limit_def)
  then show ?thesis
    using c n(3) adv w(1,2) len bs
    by (simp add: onRead_def bb_advanceWriteIndex_def recv_ok_def)
qed

lemma rx_feed_one:
  assumes st: "rx_state m lim fs pending c" and h: "handler_ok h" "\<And>b d. closed (h b d) = closed d"
    and grow: "\<forall>n. grow n"
  obtains n ds s' c' gs hs where
    "\<And>ks. rx_feed grow h now (k # ks) pending s c =
      Option.bind (rx_feed grow h now ks (drop n pending) s' c') (\<lambda>(es, r). Some (ds @ es, r))"
    "fs = gs @ hs" "ds = map (frame_bytes m) gs" "rx_state m lim hs (drop n pending) c'"
    "0 < k \<Longrightarrow> pending \<noteq> [] \<Longrightarrow> 0 < n"
proof -
  let ?r = "recv_buffer c"
  obtain p len where ptr: "linearWritablePtr ?r = (Some p, len)" "0 < unat len"
    using rx_room [OF st] by blast
  have len0: "len \<noteq> 0" using ptr(2) by auto
  define n where "n = min k (min (unat len) (length pending))"
  let ?c = "c\<lparr>recv_buffer := store_at p (take n pending) ?r\<rparr>"
  have feed: "rx_feed grow h now (k # ks) pending s c =
      Option.bind (uv_read_cb grow h (int n) now s ?c)
        (\<lambda>(ds, s, c). Option.bind (rx_feed grow h now ks (drop n pending) s c) (\<lambda>(es, r). Some (ds @ es, r)))"
    for ks using ptr(1) len0 by (simp add: uv_alloc_cb_def n_def Let_def)
  have pos: "0 < k \<Longrightarrow> pending \<noteq> [] \<Longrightarrow> 0 < n" using ptr(2) by (simp add: n_def)
  show ?thesis
  proof (cases "n = 0")
    case True
    then have "?c = c" by (simp add: store_at_def)
    then have "uv_read_cb grow h (int n) now s ?c = Some ([], s, c)"
      using True by (simp add: uv_read_cb_def onRead_def)
    then have "rx_feed grow h now (k # ks) pending s c =
        Option.bind (rx_feed grow h now ks (drop n pending) s c) (\<lambda>(es, r). Some ([] @ es, r))" for ks
      using feed [of ks] by simp
    from this show ?thesis
      by (rule that [of n s c "[]" "[]" fs]) (use st True pos in simp_all)
  next
    case False
    then have n: "n \<le> unat len" "n \<le> length pending" "0 < n" by (auto simp: n_def)
    obtain c1 where c1: "onRead (int n) now ?c = c1" "recv_ok c1" "\<not> closed c1" "proto_mode c1 = m"
      "ring_limit (recv_buffer c1) = lim" "ring_data (recv_buffer c1) = ring_data ?r @ take n pending"
      using rx_store [OF st ptr(1) n] by blast
    obtain ds s' c' where L: "read_loop grow h s c1 = Some (ds, s', c')" "recv_ok c'" "proto_mode c' = m"
      "ring_limit (recv_buffer c') = lim"
      "\<not> closed c' \<longrightarrow> cut_stream m (ring_data (recv_buffer c1)) = (ds, ring_data (recv_buffer c'), True)"
      using read_loop_cut [OF c1(2) h(1), of grow s] c1(4,5) by auto
    have str: "\<forall>f \<in> set fs. frame_ok m f" "ring_data (recv_buffer c1) @ drop n pending = stream_bytes m fs"
      using st c1(6) by (simp_all add: rx_state_def)
    obtain gs r hs where C: "fs = gs @ hs"
      "cut_stream m (ring_data (recv_buffer c1)) = (map (frame_bytes m) gs, r, True)"
      "r @ drop n pending = stream_bytes m hs" "hs = [] \<or> length r < frame_size m (hd hs)"
      using cut_stream_frames [OF str] by (elim exE conjE) (rule that)
    have op: "\<not> closed c'"
      by (rule read_loop_open [OF c1(2) h grow c1(3) _ L(1)]) (simp add: c1(4) C(2))
    then have e: "ds = map (frame_bytes m) gs" "ring_data (recv_buffer c') = r"
      using L(5) C(2) by simp_all
    have "rx_state m lim hs (drop n pending) c'"
      using st L(2-4) op e C by (auto simp: rx_state_def)
    moreover have "uv_read_cb grow h (int n) now s ?c = Some (ds, s', c')"
      using c1(1,3) L(1) n(3) by (simp add: uv_read_cb_def)
    ultimately show ?thesis using that [of n s' c' ds gs hs] feed C(1) e(1) pos
      by (simp del: rx_feed.simps)
  qed
qed

lemma rx_feed_frames:
  assumes "rx_state m lim fs pending c" "handler_ok h" "\<And>b d. closed (h b d) = closed d" "\<forall>n. grow n"
  shows "\<exists>gs hs pending' s' c'. rx_feed grow h now ks pending s c =
      Some (map (frame_bytes m) gs, pending', s', c') \<and> fs = gs @ hs \<and> rx_state m lim hs pending' c' \<and>
    ((\<forall>k \<in> set ks. 0 < k) \<longrightarrow> length pending' \<le> length pending - length ks)"
  using assms(1)
proof (induction ks arbitrary: fs pending s c)
  case Nil
  then show ?case by simp
next
  case (Cons k ks)
  obtain n ds s1 c1 gs hs where one:
    "\<And>ks. rx_feed grow h now (k # ks) pending s c =
      Option.bind (rx_feed grow h now ks (drop n pending) s1 c1) (\<lambda>(es, r). Some (ds @ es, r))"
    "fs = gs @ hs" "ds = map (frame_bytes m) gs" "rx_state m lim hs (drop n pending) c1"
    "0 < k \<Longrightarrow> pending \<noteq> [] \<Longrightarrow> 0 < n"
    by (rule rx_feed_one [OF Cons.prems assms(2-4), where now = now and k = k and s = s]) (rule that)
  obtain gs' hs' pending' s' c' where IH:
    "rx_feed grow h now ks (drop n pending) s1 c1 = Some (map (frame_bytes m) gs', pending', s', c')"
    "hs = gs' @ hs'" "rx_state m lim hs' pending' c'"
    "(\<forall>k \<in> set ks. 0 < k) \<longrightarrow> length pending' \<le> length (drop n pending) - length ks"
    using Cons.IH [OF one(4), of s1] by (elim exE conjE) (rule that)
  have "(\<forall>k \<in> set (k # ks). 0 < k) \<longrightarrow> length pending' \<le> length pending - length (k # ks)"
    using IH(4) one(5) by (cases "pending = []") auto
  then show ?case
    using one(1-3) IH(1-3)
    by (intro exI [of _ "gs @ gs'"] exI [of _ hs'] exI [of _ pending'] exI [of _ s'] exI [of _ c']) simp
qed

section \<open>Properties\<close>

text \<open>The read callback returns on whatever bytes the peer sends, whatever the handler does
  with the packets: every packet it hands over is the next piece of the received stream, nothing of
  the stream is lost or read twice, and the callback leaves the channel open only when what remains
  is an incomplete frame.\<close>

theorem read_loop_total:
  assumes "recv_ok c" "handler_ok h"
  shows "\<exists>ds s' c'. read_loop grow h s c = Some (ds, s', c') \<and> recv_ok c' \<and>
    concat ds @ ring_data (recv_buffer c') = ring_data (recv_buffer c) \<and>
    (\<not> closed c' \<longrightarrow> stream_head (proto_mode c) (ring_data (recv_buffer c')) = Incomplete)"
proof -
  have legal_rest: "snd (snd (cut_stream m bs)) \<Longrightarrow> stream_head m (fst (snd (cut_stream m bs))) = Incomplete"
    for m bs
  proof (induction m bs rule: cut_stream.induct)
    case (1 m bs)
    show ?case
    proof (cases "stream_head m bs")
      case (Complete n)
      then have "cut_stream m bs = (take n bs # fst (cut_stream m (drop n bs)), snd (cut_stream m (drop n bs)))"
        by (subst cut_stream.simps) (simp split: prod.splits)
      then show ?thesis using 1 Complete by simp
    qed (use 1 in \<open>auto simp: cut_stream.simps [of m bs]\<close>)
  qed
  obtain ds s' c' where L: "read_loop grow h s c = Some (ds, s', c')" "recv_ok c'"
    "concat ds @ ring_data (recv_buffer c') = ring_data (recv_buffer c)"
    "\<not> closed c' \<longrightarrow>
      cut_stream (proto_mode c) (ring_data (recv_buffer c)) = (ds, ring_data (recv_buffer c'), True)"
    using read_loop_cut [OF assms, of grow s] by blast
  then show ?thesis
    using legal_rest [of "proto_mode c" "ring_data (recv_buffer c)"] by auto
qed

theorem read_loop_total_witness:
  "\<exists>ds s' c'. read_loop (\<lambda>n. False) (\<lambda>b. chan_close) 8192 (ex_conn INNER) = Some (ds, s', c')"
  using read_loop_total [of "ex_conn INNER" "\<lambda>b. chan_close" "\<lambda>n. False" 8192]
  by (auto simp: recv_ok_def handler_ok_def chan_simps ex_conn_def conn_of_def channel.extend_def ex_ring_inv)

text \<open>C4. A stream of frames that fit the receive ring is cut into exactly those frames, in order,
  however the kernel chunks it: at any moment the frames handed over are the complete ones among
  the bytes read, the channel stays open, and once as many non-empty reads were offered as there are
  bytes, everything has been delivered.\<close>

theorem receive_stream:
  assumes "ring_inv (recv_buffer c)" "ring_limit (recv_buffer c) < 2 ^ 31" "\<not> closed c"
    "ring_data (recv_buffer c) = []"
    "\<forall>f \<in> set fs. frame_ok (proto_mode c) f \<and> frame_size (proto_mode c) f \<le> ring_limit (recv_buffer c)"
    "handler_ok h" "\<And>b d. closed (h b d) = closed d" "\<forall>n. grow n"
  shows "\<exists>gs hs pending s' c'.
    rx_feed grow h now ks (stream_bytes (proto_mode c) fs) s c =
      Some (map (frame_bytes (proto_mode c)) gs, pending, s', c') \<and>
    fs = gs @ hs \<and> \<not> closed c' \<and>
    ring_data (recv_buffer c') @ pending = stream_bytes (proto_mode c) hs \<and>
    (hs = [] \<or> length (ring_data (recv_buffer c')) < frame_size (proto_mode c) (hd hs)) \<and>
    ((\<forall>k \<in> set ks. 0 < k) \<and> length (stream_bytes (proto_mode c) fs) \<le> length ks \<longrightarrow> gs = fs)"
proof -
  let ?m = "proto_mode c" and ?lim = "ring_limit (recv_buffer c)"
  have pos: "0 < frame_size ?m f" for f
    using magic_off_header [of ?m] by (simp add: frame_size_def)
  have st: "rx_state ?m ?lim fs (stream_bytes ?m fs) c"
    using assms(1-5) pos by (simp add: rx_state_def recv_ok_def del: length_ring_data)
  obtain gs hs pending s' c' where F: "rx_feed grow h now ks (stream_bytes ?m fs) s c =
      Some (map (frame_bytes ?m) gs, pending, s', c')" "fs = gs @ hs" "rx_state ?m ?lim hs pending c'"
    "(\<forall>k \<in> set ks. 0 < k) \<longrightarrow> length pending \<le> length (stream_bytes ?m fs) - length ks"
    using rx_feed_frames [OF st assms(6-8), of now ks s] by (elim exE conjE) (rule that)
  have "gs = fs" if "pending = []"
  proof (cases hs)
    case (Cons f hs')
    then have "length (ring_data (recv_buffer c')) = frame_size ?m f + length (stream_bytes ?m hs')"
      using F(3) that by (auto simp: rx_state_def simp del: length_ring_data)
    then show ?thesis using F(3) Cons by (simp add: rx_state_def del: length_ring_data)
  qed (use F(2) in simp)
  then show ?thesis using F
    by (intro exI [of _ gs] exI [of _ hs] exI [of _ pending] exI [of _ s'] exI [of _ c'])
      (auto simp: rx_state_def simp del: length_ring_data)
qed

theorem receive_stream_witness:
  "\<exists>pending s' c'.
    rx_feed (\<lambda>n. True) (\<lambda>b c. c) 0 (replicate 28 1) (stream_bytes CLIENT [ex_frame, ex_frame]) 8192 (ex_conn CLIENT) =
      Some ([frame_bytes CLIENT ex_frame, frame_bytes CLIENT ex_frame], pending, s', c')"
proof -
  have c: "recv_buffer (ex_conn CLIENT) = ex_ring" "proto_mode (ex_conn CLIENT) = CLIENT"
    "\<not> closed (ex_conn CLIENT)"
    by (simp_all add: ex_conn_def conn_of_def channel.extend_def)
  have f: "frame_size CLIENT ex_frame = 14" by code_simp
  show ?thesis
    using receive_stream [of "ex_conn CLIENT" "[ex_frame, ex_frame]" "\<lambda>b c. c" "\<lambda>n. True" 0 "replicate 28 1" 8192]
    by (auto simp: c ex_ring_inv handler_ok_def frame_ok_def f max_frame_def simp del: length_ring_data)
qed

end
