(* ===== verification/Event_Loop.thy ===== *)
theory Event_Loop
  imports Send_Protocol
begin

text \<open>
  The reactor, src/transport/EventLoop.cpp and EventLoop.h: the registry of channels, the task
  queue and its execution on the loop thread, connecting, adopting connections, timers, and the
  stop sequence. A loop keeps every channel object that is still referenced, by its id; the registry
  holds those that are \<open>registered\<close>. The queue interleaves the tasks of all channels in the order
  they were posted.
\<close>

section \<open>State\<close>

datatype loop_task =
    Chan_task u32 task
  | Connect_task string int
  | Ipc_connect_task string

datatype net_event = Connected u32 int | New_connection u32 | On_closed u32

record event_loop =
  chans :: "u32 \<Rightarrow> conn option"
  waitTasks :: "loop_task list"
  next_id :: u32
  running :: bool
  stopping :: bool
  asyncs_inited :: bool
  asyncs_closing :: bool
  wake_sends :: nat
  stop_sends :: nat
  ipc_inited :: bool
  ipc_closing :: bool
  ipc_reading :: bool
  loop_recv_size :: u64
  loop_send_size :: u64
  loop_proto :: proto
  has_trigger :: bool
  timer_inited :: "u32 \<Rightarrow> bool"
  notified :: "net_event list"

text \<open>What libuv, the clock and the allocator answer during a call.\<close>

record uv_env =
  ip4_ret :: int
  tcp_init_ret :: int
  tcp_connect_ret :: int
  timer_init_ret :: int
  pipe_init_ret :: int
  write_ret :: int
  uv_time :: u64
  pack_ok :: bool
  ring_alloc :: "u64 \<Rightarrow> byte list option"

definition event_loop_new :: "u32 \<Rightarrow> bool \<Rightarrow> event_loop" where
  "event_loop_new next trigger =
    \<lparr>chans = (\<lambda>i. None), waitTasks = [], next_id = next, running = False, stopping = False,
     asyncs_inited = False, asyncs_closing = False, wake_sends = 0, stop_sends = 0,
     ipc_inited = False, ipc_closing = False, ipc_reading = False, loop_recv_size = 0, loop_send_size = 0,
     loop_proto = INNER, has_trigger = trigger, timer_inited = (\<lambda>i. False), notified = []\<rparr>"

definition setBuffSize :: "u64 \<Rightarrow> u64 \<Rightarrow> event_loop \<Rightarrow> event_loop" where
  "setBuffSize r s L = L\<lparr>loop_recv_size := r, loop_send_size := s\<rparr>"

definition setProtoMode :: "proto \<Rightarrow> event_loop \<Rightarrow> event_loop" where
  "setProtoMode m L = L\<lparr>loop_proto := m\<rparr>"

section \<open>Posting\<close>

definition wakeAsync :: "event_loop \<Rightarrow> event_loop" where
  "wakeAsync L =
    (if \<not> stopping L \<and> asyncs_inited L then L\<lparr>wake_sends := wake_sends L + 1\<rparr> else L)"

definition executeOnEventLoop :: "loop_task \<Rightarrow> event_loop \<Rightarrow> event_loop" where
  "executeOnEventLoop t L = wakeAsync (L\<lparr>waitTasks := waitTasks L @ [t]\<rparr>)"

text \<open>An operation of a channel inside the loop: what it posts goes to the loop's queue.\<close>

definition on_chan :: "u32 \<Rightarrow> (conn \<Rightarrow> conn) \<Rightarrow> event_loop \<Rightarrow> event_loop" where
  "on_chan i f L =
    (case chans L i of
       None \<Rightarrow> L
     | Some c \<Rightarrow>
         let c' = f c
         in fold (\<lambda>t. executeOnEventLoop (Chan_task i t)) (tasks c')
              (L\<lparr>chans := (chans L)(i \<mapsto> c'\<lparr>tasks := []\<rparr>)\<rparr>))"

section \<open>Registry\<close>

definition registerChannel :: "conn \<Rightarrow> event_loop \<Rightarrow> event_loop" where
  "registerChannel c L = L\<lparr>chans := (chans L)(chan_id c \<mapsto> c)\<rparr>"

definition channelById :: "u32 \<Rightarrow> event_loop \<Rightarrow> conn option" where
  "channelById i L =
    (case chans L i of None \<Rightarrow> None | Some c \<Rightarrow> if registered c then Some c else None)"

definition isLive :: "u32 \<Rightarrow> event_loop \<Rightarrow> bool" where
  "isLive i L \<longleftrightarrow> channelById i L \<noteq> None"

section \<open>Connections\<close>

definition startHeartbeatTimer :: "uv_env \<Rightarrow> u32 \<Rightarrow> event_loop \<Rightarrow> event_loop" where
  "startHeartbeatTimer uv i L =
    (if timer_init_ret uv \<noteq> 0 then L
     else on_chan i (initPackTime (uv_time uv)) (L\<lparr>timer_inited := (timer_inited L)(i := True)\<rparr>))"

definition onNewConnection :: "uv_env \<Rightarrow> u32 \<Rightarrow> event_loop \<Rightarrow> event_loop" where
  "onNewConnection uv i L =
    (let L = L\<lparr>notified := notified L @ [New_connection i]\<rparr>
     in if has_trigger L then startHeartbeatTimer uv i L else L)"

text \<open>A new channel object under the next id (\<open>None\<close> when its rings cannot be allocated: the
  constructor throws after the id was drawn).\<close>

definition make_channel :: "uv_env \<Rightarrow> event_loop \<Rightarrow> conn option \<times> event_loop" where
  "make_channel uv L =
    (case generateId (next_id L) of (i, n) \<Rightarrow>
      let L = L\<lparr>next_id := n\<rparr> in
      case channel_new (ring_alloc uv) (loop_recv_size L) (loop_send_size L) (loop_proto L) i of
        Inl e \<Rightarrow> (None, L)
      | Inr ch \<Rightarrow> (Some (conn_of ch), L))"

definition adoptConnection :: "uv_env \<Rightarrow> event_loop \<Rightarrow> event_loop" where
  "adoptConnection uv L =
    (case make_channel uv L of
       (None, L) \<Rightarrow> L
     | (Some c, L) \<Rightarrow> onNewConnection uv (chan_id c) (registerChannel c L))"

definition asyncConnect :: "string \<Rightarrow> int \<Rightarrow> event_loop \<Rightarrow> event_loop" where
  "asyncConnect ip port L = executeOnEventLoop (Connect_task ip port) L"

definition do_connect :: "uv_env \<Rightarrow> event_loop \<Rightarrow> event_loop" where
  "do_connect uv L =
    (if ip4_ret uv \<noteq> 0 then L
     else if tcp_init_ret uv \<noteq> 0 then L
     else case make_channel uv L of
         (None, L) \<Rightarrow> L
       | (Some c, L) \<Rightarrow>
           let L = registerChannel c L in
           if tcp_connect_ret uv \<noteq> 0 then
             on_chan (chan_id c) chan_close
               (L\<lparr>notified := notified L @ [Connected (chan_id c) (tcp_connect_ret uv)]\<rparr>)
           else L)"

definition uv_on_connect :: "uv_env \<Rightarrow> u32 \<Rightarrow> int \<Rightarrow> event_loop \<Rightarrow> event_loop" where
  "uv_on_connect uv i status L =
    (if status < 0 then
       on_chan i chan_close (L\<lparr>notified := notified L @ [Connected i status]\<rparr>)
     else onNewConnection uv i (L\<lparr>notified := notified L @ [Connected i 0]\<rparr>))"

definition connectIpc :: "string \<Rightarrow> event_loop \<Rightarrow> event_loop" where
  "connectIpc pipe_name L = executeOnEventLoop (Ipc_connect_task pipe_name) L"

definition closeIpcPipe :: "event_loop \<Rightarrow> event_loop" where
  "closeIpcPipe L =
    (if \<not> ipc_inited L \<or> ipc_closing L then L else L\<lparr>ipc_closing := True\<rparr>)"

definition uv_ipc_connect_cb :: "int \<Rightarrow> event_loop \<Rightarrow> event_loop" where
  "uv_ipc_connect_cb status L = (if status < 0 then L else L\<lparr>ipc_reading := True\<rparr>)"

text \<open>The worker's read callback: on an error the pipe is closed; otherwise each pending handle
  is adopted, given by what uv_tcp_init and uv_accept answer for it.\<close>

primrec adopt_pending :: "(uv_env \<times> int) list \<Rightarrow> event_loop \<Rightarrow> event_loop" where
  "adopt_pending [] L = L"
| "adopt_pending (p # ps) L =
    (case p of (uv, accept_ret) \<Rightarrow>
      if tcp_init_ret uv \<noteq> 0 then L
      else if accept_ret \<noteq> 0 then adopt_pending ps L
      else adopt_pending ps (adoptConnection uv L))"

definition uv_ipc_read_cb :: "int \<Rightarrow> (uv_env \<times> int) list \<Rightarrow> event_loop \<Rightarrow> event_loop" where
  "uv_ipc_read_cb nread pending L =
    (if nread < 0 then closeIpcPipe L else adopt_pending pending L)"

section \<open>Executing tasks\<close>

definition run_task :: "uv_env \<Rightarrow> loop_task \<Rightarrow> event_loop \<Rightarrow> event_loop" where
  "run_task uv t L =
    (case t of
       Chan_task i tk \<Rightarrow>
         (case tk of
            Write_task msgId msg playerId \<Rightarrow>
              on_chan i (eventLoopWrite (pack_ok uv) (uv_time uv) (write_ret uv) msgId msg playerId) L
          | Raw_write_task msgId body playerId \<Rightarrow>
              on_chan i (eventLoopRawWrite (uv_time uv) (write_ret uv) msgId body playerId) L
          | Close_task \<Rightarrow>
              (let L = on_chan i closeInLoop L in L\<lparr>notified := notified L @ [On_closed i]\<rparr>))
     | Connect_task ip port \<Rightarrow> do_connect uv L
     | Ipc_connect_task pipe_name \<Rightarrow>
         if pipe_init_ret uv \<noteq> 0 then L else L\<lparr>ipc_inited := True\<rparr>)"

text \<open>\<open>uv\<close> gives libuv's answers in each state the loop passes through.\<close>

partial_function (option) execute :: "(event_loop \<Rightarrow> uv_env) \<Rightarrow> event_loop \<Rightarrow> event_loop option" where
  "execute uv L =
    (case waitTasks L of
       [] \<Rightarrow> Some L
     | t # ts \<Rightarrow> execute uv (run_task (uv L) t (L\<lparr>waitTasks := ts\<rparr>)))"

section \<open>Starting and stopping\<close>

text \<open>\<open>rets\<close> are the results of uv_loop_init and of the four uv_async_init, in order.\<close>

definition initAsynEvent :: "int list \<Rightarrow> event_loop \<Rightarrow> int \<times> event_loop" where
  "initAsynEvent rets L =
    (case filter (\<lambda>r. r \<noteq> 0) rets of
       r # rs \<Rightarrow> (r, L)
     | [] \<Rightarrow> (0, L\<lparr>asyncs_inited := True\<rparr>))"

text \<open>The thread's start: on failure the starter is released and the loop is not run. The result
  says whether uv_run is entered.\<close>

definition loop_run :: "int list \<Rightarrow> event_loop \<Rightarrow> bool \<times> event_loop" where
  "loop_run rets L =
    (case initAsynEvent rets L of (r, L) \<Rightarrow> (r = 0, L\<lparr>running := True\<rparr>))"

definition loop_stop :: "event_loop \<Rightarrow> event_loop" where
  "loop_stop L =
    (if stopping L then L
     else let L = L\<lparr>stopping := True\<rparr> in
       if \<not> asyncs_inited L then L else L\<lparr>stop_sends := stop_sends L + 1\<rparr>)"

text \<open>\<open>snapshot\<close> lists the registered channels in the order the hash map yields them.\<close>

definition onStopTriggered ::
  "(event_loop \<Rightarrow> uv_env) \<Rightarrow> u32 list \<Rightarrow> event_loop \<Rightarrow> event_loop option" where
  "onStopTriggered uv snapshot L =
    (let L = closeIpcPipe L;
         L = fold (\<lambda>i. on_chan i chan_close) snapshot L
     in Option.bind (execute uv L) (\<lambda>L. Some (L\<lparr>asyncs_closing := True\<rparr>)))"

text \<open>When uv_run has returned: what is not closed yet is closed, and the queue is drained.\<close>

definition doRun_end :: "(event_loop \<Rightarrow> uv_env) \<Rightarrow> event_loop \<Rightarrow> event_loop option" where
  "doRun_end uv L =
    execute uv (L\<lparr>asyncs_closing := True, ipc_closing := ipc_closing L \<or> ipc_inited L\<rparr>)"

section \<open>Operations as the queue sees them\<close>

text \<open>An operation of a channel either posts nothing and leaves its open state alone, or closes an
  open channel and posts its one close task.\<close>

definition op_ok :: "(conn \<Rightarrow> conn) \<Rightarrow> bool" where
  "op_ok f \<longleftrightarrow> (\<forall>c. tasks c = [] \<and> (registered c \<or> closed c) \<longrightarrow>
    chan_id (f c) = chan_id c \<and> on_closed_calls (f c) = on_closed_calls c \<and>
    registered (f c) = registered c \<and>
    ((closed (f c) = closed c \<and> tasks (f c) = []) \<or>
     (\<not> closed c \<and> closed (f c) \<and> tasks (f c) = [Close_task])))"

lemma op_ok_close: "op_ok chan_close"
  by (auto simp: op_ok_def chan_close_def Let_def)

lemma op_ok_doUvSend: "op_ok (doUvSend ret)"
  by (auto simp: op_ok_def doUvSend_def chan_close_def Let_def split: prod.splits)

lemma op_ok_initPackTime: "op_ok (initPackTime now)"
  by (simp add: op_ok_def initPackTime_def)

lemma op_ok_emitted:
  assumes "op_ok f"
  shows "op_ok (\<lambda>c. f ((emit_frame i b p c)\<lparr>last_send_time := now\<rparr>))"
proof -
  let ?g = "\<lambda>c. (emit_frame i b p c)\<lparr>last_send_time := now\<rparr>"
  have "chan_id (?g c) = chan_id c" "on_closed_calls (?g c) = on_closed_calls c"
    "registered (?g c) = registered c" "closed (?g c) = closed c" "tasks (?g c) = tasks c" for c
    by (simp_all add: emit_frame_def Let_def)
  then show ?thesis using assms unfolding op_ok_def by metis
qed

lemma op_ok_id: "op_ok (\<lambda>c. c)"
  by (simp add: op_ok_def)

lemma op_ok_if: "op_ok f \<Longrightarrow> op_ok g \<Longrightarrow> op_ok (\<lambda>c. if P c then f c else g c)"
  by (simp add: op_ok_def)

lemma op_ok_raw: "op_ok (eventLoopRawWrite now ret i b p)"
  unfolding eventLoopRawWrite_def Let_def
  by (intro op_ok_if op_ok_id op_ok_emitted op_ok_doUvSend)

lemma op_ok_msg: "op_ok (eventLoopWrite k now ret i msg p)"
proof (cases "pm_bytes msg")
  case None
  then show ?thesis
    unfolding eventLoopWrite_def Let_def None option.case
    by (intro op_ok_if op_ok_id)
next
  case (Some b)
  show ?thesis
    unfolding eventLoopWrite_def Let_def Some option.case
    by (intro op_ok_if op_ok_id op_ok_emitted op_ok_doUvSend)
qed

section \<open>The loop's invariant\<close>

text \<open>Per channel: a close task is queued or was run exactly when it is closed, and each run was
  notified.\<close>

definition close_balance :: "event_loop \<Rightarrow> u32 \<Rightarrow> conn \<Rightarrow> bool" where
  "close_balance L i c \<longleftrightarrow>
    chan_id c = i \<and> tasks c = [] \<and> (registered c \<or> closed c) \<and>
    count_list (waitTasks L) (Chan_task i Close_task) + on_closed_calls c = (if closed c then 1 else 0) \<and>
    count_list (notified L) (On_closed i) = on_closed_calls c"

definition loop_inv :: "event_loop \<Rightarrow> bool" where
  "loop_inv L \<longleftrightarrow>
    (\<forall>i c. chans L i = Some c \<longrightarrow> close_balance L i c) \<and>
    (\<forall>i. chans L i = None \<longrightarrow>
      Chan_task i Close_task \<notin> set (waitTasks L) \<and> On_closed i \<notin> set (notified L))"

lemma wakeAsync_fields [simp]:
  "chans (wakeAsync L) = chans L" "waitTasks (wakeAsync L) = waitTasks L"
  "notified (wakeAsync L) = notified L" "next_id (wakeAsync L) = next_id L"
  by (simp_all add: wakeAsync_def)

lemma post_fields [simp]:
  "chans (executeOnEventLoop t L) = chans L"
  "waitTasks (executeOnEventLoop t L) = waitTasks L @ [t]"
  "notified (executeOnEventLoop t L) = notified L"
  by (simp_all add: executeOnEventLoop_def)

lemma post_all_fields:
  "chans (fold (\<lambda>t. executeOnEventLoop (g t)) ts L) = chans L"
  "waitTasks (fold (\<lambda>t. executeOnEventLoop (g t)) ts L) = waitTasks L @ map g ts"
  "notified (fold (\<lambda>t. executeOnEventLoop (g t)) ts L) = notified L"
  by (induction ts arbitrary: L) simp_all

lemma on_chan_fields:
  "chans L i = Some c \<Longrightarrow> chans (on_chan i f L) = (chans L)(i \<mapsto> (f c)\<lparr>tasks := []\<rparr>)"
  "chans L i = Some c \<Longrightarrow> waitTasks (on_chan i f L) = waitTasks L @ map (Chan_task i) (tasks (f c))"
  "notified (on_chan i f L) = notified L"
  "chans L i = None \<Longrightarrow> on_chan i f L = L"
  by (auto simp: on_chan_def Let_def post_all_fields split: option.splits)

lemma loop_inv_Some: "loop_inv L \<Longrightarrow> chans L i = Some c \<Longrightarrow> close_balance L i c"
  by (simp add: loop_inv_def)

lemma loop_inv_None: "loop_inv L \<Longrightarrow> chans L i = None \<Longrightarrow>
    Chan_task i Close_task \<notin> set (waitTasks L) \<and> On_closed i \<notin> set (notified L)"
  by (simp add: loop_inv_def)

lemma on_chan_inv:
  assumes "op_ok f" "loop_inv L"
  shows "loop_inv (on_chan i f L)"
proof (cases "chans L i")
  case None
  then show ?thesis using assms(2) by (simp add: on_chan_fields)
next
  case (Some c)
  let ?L = "on_chan i f L"
  have bal: "close_balance L i c" by (rule loop_inv_Some [OF assms(2) Some])
  then have f: "chan_id (f c) = i" "on_closed_calls (f c) = on_closed_calls c"
    "registered (f c) = registered c"
    "(closed (f c) = closed c \<and> tasks (f c) = []) \<or> (\<not> closed c \<and> closed (f c) \<and> tasks (f c) = [Close_task])"
    using assms(1) by (auto simp: op_ok_def close_balance_def)
  have "close_balance ?L i ((f c)\<lparr>tasks := []\<rparr>)"
    using bal f Some by (auto simp: close_balance_def on_chan_fields)
  moreover have "close_balance ?L j d" if "j \<noteq> i" "chans L j = Some d" for j d
    using loop_inv_Some [OF assms(2) that(2)] that(1) f(4) Some
    by (auto simp: close_balance_def on_chan_fields)
  moreover have "Chan_task j Close_task \<notin> set (waitTasks ?L) \<and> On_closed j \<notin> set (notified ?L)"
    if "chans L j = None" for j
    using loop_inv_None [OF assms(2) that] that f(4) Some by (auto simp: on_chan_fields)
  ultimately show ?thesis unfolding loop_inv_def using Some by (simp add: on_chan_fields)
qed

section \<open>Draining the queue\<close>

primrec task_weight :: "loop_task \<Rightarrow> nat" where
  "task_weight (Chan_task i t) = (if t = Close_task then 1 else 2)"
| "task_weight (Connect_task ip port) = 2"
| "task_weight (Ipc_connect_task p) = 1"

definition queue_weight :: "event_loop \<Rightarrow> nat" where
  "queue_weight L = sum_list (map task_weight (waitTasks L))"

text \<open>Nothing in the queue creates a channel.\<close>

definition no_connects :: "event_loop \<Rightarrow> bool" where
  "no_connects L \<longleftrightarrow> (\<forall>ip port. Connect_task ip port \<notin> set (waitTasks L))"

lemma op_ok_posts:
  "op_ok f \<Longrightarrow> close_balance L i c \<Longrightarrow> tasks (f c) = [] \<or> tasks (f c) = [Close_task]"
  by (auto simp: op_ok_def close_balance_def)

lemma on_chan_weight:
  assumes "op_ok f" "loop_inv L"
  shows "queue_weight (on_chan i f L) \<le> queue_weight L + 1" "no_connects L \<Longrightarrow> no_connects (on_chan i f L)"
proof -
  have "queue_weight (on_chan i f L) \<le> queue_weight L + 1 \<and> (no_connects L \<longrightarrow> no_connects (on_chan i f L))"
  proof (cases "chans L i")
    case None
    then show ?thesis by (simp add: on_chan_fields)
  next
    case (Some c)
    then show ?thesis using op_ok_posts [OF assms(1) loop_inv_Some [OF assms(2) Some]]
      by (auto simp: on_chan_fields queue_weight_def no_connects_def)
  qed
  then show "queue_weight (on_chan i f L) \<le> queue_weight L + 1"
    "no_connects L \<Longrightarrow> no_connects (on_chan i f L)" by auto
qed

lemma pop_inv:
  assumes "loop_inv L" "waitTasks L = t # ts" "\<And>i. t \<noteq> Chan_task i Close_task"
  shows "loop_inv (L\<lparr>waitTasks := ts\<rparr>)"
  using assms by (auto simp: loop_inv_def close_balance_def )

lemma closeInLoop_inv:
  assumes inv: "loop_inv L" and pop: "waitTasks L = Chan_task i Close_task # ts"
  shows "loop_inv (run_task uv (Chan_task i Close_task) (L\<lparr>waitTasks := ts\<rparr>))"
    "waitTasks (run_task uv (Chan_task i Close_task) (L\<lparr>waitTasks := ts\<rparr>)) = ts"
proof -
  obtain c where c: "chans L i = Some c"
    using loop_inv_None [OF inv, of i] pop by (cases "chans L i") auto
  have bal: "close_balance L i c" by (rule loop_inv_Some [OF inv c])
  let ?L = "run_task uv (Chan_task i Close_task) (L\<lparr>waitTasks := ts\<rparr>)"
  have L: "chans ?L = (chans L)(i \<mapsto> (closeInLoop c)\<lparr>tasks := []\<rparr>)" "waitTasks ?L = ts"
    "notified ?L = notified L @ [On_closed i]"
    using c bal by (simp_all add: run_task_def Let_def on_chan_fields closeInLoop_def close_balance_def)
  then show "waitTasks ?L = ts" by simp
  have "close_balance ?L i ((closeInLoop c)\<lparr>tasks := []\<rparr>)"
    using bal pop by (auto simp: close_balance_def L closeInLoop_def split: if_splits)
  moreover have "close_balance ?L j d" if "j \<noteq> i" "chans L j = Some d" for j d
    using loop_inv_Some [OF inv that(2)] that(1) pop by (auto simp: close_balance_def L)
  moreover have "Chan_task j Close_task \<notin> set (waitTasks ?L) \<and> On_closed j \<notin> set (notified ?L)"
    if "chans L j = None" for j
    using loop_inv_None [OF inv that] that pop c by (auto simp: L)
  ultimately show "loop_inv ?L" unfolding loop_inv_def by (simp add: L)
qed

lemma run_task_inv:
  assumes inv: "loop_inv L" and pop: "waitTasks L = t # ts" and nc: "no_connects L"
  shows "loop_inv (run_task uv t (L\<lparr>waitTasks := ts\<rparr>)) \<and>
    no_connects (run_task uv t (L\<lparr>waitTasks := ts\<rparr>)) \<and>
    queue_weight (run_task uv t (L\<lparr>waitTasks := ts\<rparr>)) < queue_weight L"
proof -
  let ?L = "L\<lparr>waitTasks := ts\<rparr>"
  have nc': "no_connects ?L" using nc pop by (simp add: no_connects_def)
  have w: "queue_weight L = task_weight t + queue_weight ?L" using pop by (simp add: queue_weight_def)
  show ?thesis
  proof (cases "\<exists>i. t = Chan_task i Close_task")
    case True
    then obtain i where t: "t = Chan_task i Close_task" by blast
    show ?thesis
      using closeInLoop_inv [OF inv, of i ts uv] pop nc' w unfolding t
      by (simp add: queue_weight_def no_connects_def)
  next
    case False
    then have inv': "loop_inv ?L" by (intro pop_inv [OF inv pop]) blast
    show ?thesis
    proof (cases t)
      case (Chan_task i tk)
      then have two: "task_weight t = 2" using False by auto
      obtain f where f: "run_task uv t ?L = on_chan i f ?L" "op_ok f"
        using Chan_task False op_ok_raw op_ok_msg by (cases tk) (auto simp: run_task_def)
      show ?thesis using on_chan_inv [OF f(2) inv'] on_chan_weight [OF f(2) inv', of i] nc' two w f(1) by simp
    next
      case (Connect_task ip port)
      then show ?thesis using nc pop by (auto simp: no_connects_def)
    next
      case (Ipc_connect_task p)
      then show ?thesis using inv' nc' w
        by (auto simp: run_task_def queue_weight_def no_connects_def loop_inv_def close_balance_def)
    qed
  qed
qed

text \<open>Every channel is closed.\<close>

definition all_closed :: "event_loop \<Rightarrow> bool" where
  "all_closed L \<longleftrightarrow> (\<forall>i c. chans L i = Some c \<longrightarrow> closed c)"

lemma on_chan_all_closed:
  assumes "op_ok f \<or> f = closeInLoop" "loop_inv L" "all_closed L" "chans L' = chans L"
  shows "all_closed (on_chan i f L')"
proof (cases "chans L i")
  case None
  then show ?thesis using assms by (simp add: on_chan_fields all_closed_def)
next
  case (Some c)
  then have "closed (f c)"
    using assms(1,3) loop_inv_Some [OF assms(2) Some]
    by (auto simp: all_closed_def op_ok_def close_balance_def closeInLoop_def)
  then show ?thesis using assms(3,4) Some by (simp add: on_chan_fields all_closed_def)
qed

lemma run_task_all_closed:
  assumes inv: "loop_inv L" and pop: "waitTasks L = t # ts" and nc: "no_connects L"
    and cl: "all_closed L"
  shows "all_closed (run_task uv t (L\<lparr>waitTasks := ts\<rparr>))"
proof (cases t)
  case (Chan_task i tk)
  show ?thesis
  proof (cases tk)
    case Close_task
    then show ?thesis using Chan_task on_chan_all_closed [OF _ inv cl, of closeInLoop "L\<lparr>waitTasks := ts\<rparr>" i]
      by (simp add: run_task_def Let_def all_closed_def)
  qed (use Chan_task on_chan_all_closed [OF _ inv cl, of _ "L\<lparr>waitTasks := ts\<rparr>" i] op_ok_raw op_ok_msg
      in \<open>auto simp: run_task_def\<close>)
next
  case (Connect_task ip port)
  then show ?thesis using nc pop by (auto simp: no_connects_def)
next
  case (Ipc_connect_task p)
  then show ?thesis using cl by (auto simp: run_task_def all_closed_def)
qed

lemma execute_drains:
  assumes "loop_inv L" "no_connects L"
  shows "\<exists>L'. execute uv L = Some L' \<and> loop_inv L' \<and> waitTasks L' = [] \<and>
    (all_closed L \<longrightarrow> all_closed L')"
  using assms
proof (induction "queue_weight L" arbitrary: L rule: less_induct)
  case less
  show ?case
  proof (cases "waitTasks L")
    case Nil
    then show ?thesis using less.prems by (subst execute.simps) simp
  next
    case (Cons t ts)
    let ?L = "run_task (uv L) t (L\<lparr>waitTasks := ts\<rparr>)"
    have "execute uv L = execute uv ?L" using Cons by (subst execute.simps) simp
    then show ?thesis
      using less.hyps [of ?L] run_task_inv [OF less.prems(1) Cons less.prems(2), of "uv L"]
        run_task_all_closed [OF less.prems(1) Cons less.prems(2), of "uv L"] by auto
  qed
qed

section \<open>Stopping\<close>

lemma close_all:
  assumes "loop_inv L" "no_connects L"
  shows "loop_inv (fold (\<lambda>i. on_chan i chan_close) js L) \<and>
    no_connects (fold (\<lambda>i. on_chan i chan_close) js L) \<and>
    (\<forall>i c. chans (fold (\<lambda>i. on_chan i chan_close) js L) i = Some c \<longrightarrow>
      (\<exists>c0. chans L i = Some c0 \<and> (closed c0 \<or> i \<in> set js \<longrightarrow> closed c)))"
  using assms
proof (induction js arbitrary: L)
  case Nil
  then show ?case by auto
next
  case (Cons i js)
  let ?L = "on_chan i chan_close L"
  have inv: "loop_inv ?L" "no_connects ?L"
    using on_chan_inv [OF op_ok_close Cons.prems(1)] on_chan_weight(2) [OF op_ok_close Cons.prems(1)]
      Cons.prems(2) by auto
  have "\<forall>j c. chans ?L j = Some c \<longrightarrow> (\<exists>c0. chans L j = Some c0 \<and> (closed c0 \<or> j = i \<longrightarrow> closed c))"
    by (cases "chans L i") (auto simp: on_chan_fields chan_simps split: if_splits)
  then show ?case using Cons.IH [OF inv] by fastforce
qed

definition registry_listed :: "u32 list \<Rightarrow> event_loop \<Rightarrow> bool" where
  "registry_listed snapshot L \<longleftrightarrow> (\<forall>i. channelById i L \<noteq> None \<longrightarrow> i \<in> set snapshot)"

lemma closeIpcPipe_fields [simp]:
  "chans (closeIpcPipe L) = chans L" "waitTasks (closeIpcPipe L) = waitTasks L"
  "notified (closeIpcPipe L) = notified L"
  by (simp_all add: closeIpcPipe_def)

lemma stop_result:
  assumes "loop_inv L" "no_connects L" "registry_listed snapshot L"
  shows "\<exists>L'. onStopTriggered uv snapshot L = Some L' \<and> loop_inv L' \<and> waitTasks L' = [] \<and>
    all_closed L' \<and> asyncs_closing L'"
proof -
  let ?P = "closeIpcPipe L"
  let ?L = "fold (\<lambda>i. on_chan i chan_close) snapshot ?P"
  have 0: "loop_inv ?P" "no_connects ?P"
    using assms(1,2) by (auto simp: loop_inv_def close_balance_def no_connects_def)
  note cl = close_all [OF 0, of snapshot]
  have "all_closed ?L"
    unfolding all_closed_def
  proof (intro allI impI)
    fix i c
    assume "chans ?L i = Some c"
    then obtain c0 where c0: "chans L i = Some c0" "closed c0 \<or> i \<in> set snapshot \<longrightarrow> closed c"
      using cl by auto
    then have "registered c0 \<or> closed c0" using loop_inv_Some [OF assms(1)] by (auto simp: close_balance_def)
    then have "closed c0 \<or> i \<in> set snapshot"
      using assms(3) c0(1) by (auto simp: registry_listed_def channelById_def)
    then show "closed c" using c0(2) by blast
  qed
  moreover obtain L' where L': "execute uv ?L = Some L'" "loop_inv L'" "waitTasks L' = []"
    "all_closed ?L \<longrightarrow> all_closed L'"
    using execute_drains [of ?L uv] cl by blast
  ultimately have r: "onStopTriggered uv snapshot L = Some (L'\<lparr>asyncs_closing := True\<rparr>)" "all_closed L'"
    by (simp_all add: onStopTriggered_def Let_def)
  have "loop_inv (L'\<lparr>asyncs_closing := True\<rparr>)" "all_closed (L'\<lparr>asyncs_closing := True\<rparr>)"
    using L'(2) r(2) by (auto simp: loop_inv_def close_balance_def all_closed_def)
  then show ?thesis using r(1) L'(3) by simp
qed

lemma end_drains:
  assumes "loop_inv L" "no_connects L"
  shows "\<exists>L'. doRun_end uv L = Some L' \<and> waitTasks L' = [] \<and> (all_closed L \<longrightarrow> all_closed L')"
proof -
  let ?L = "L\<lparr>asyncs_closing := True, ipc_closing := ipc_closing L \<or> ipc_inited L\<rparr>"
  have "loop_inv ?L" "no_connects ?L" "all_closed L \<longrightarrow> all_closed ?L"
    using assms by (auto simp: loop_inv_def close_balance_def no_connects_def all_closed_def)
  then show ?thesis using execute_drains [of ?L uv] by (auto simp: doRun_end_def)
qed

section \<open>The queue always drains\<close>

definition quiet :: "event_loop \<Rightarrow> bool" where
  "quiet L \<longleftrightarrow> (\<forall>i c. chans L i = Some c \<longrightarrow> tasks c = [] \<and> (registered c \<or> closed c))"

lemma quiet_on_chan:
  assumes "op_ok f" "quiet L"
  shows "quiet (on_chan i f L) \<and> queue_weight (on_chan i f L) \<le> queue_weight L + 1"
proof (cases "chans L i")
  case None
  then show ?thesis using assms(2) by (simp add: on_chan_fields)
next
  case (Some c)
  then have c: "tasks c = []" "registered c \<or> closed c" using assms(2) by (auto simp: quiet_def)
  then have "(tasks (f c) = [] \<or> tasks (f c) = [Close_task]) \<and> (registered (f c) \<or> closed (f c))"
    using assms(1) by (auto simp: op_ok_def)
  then show ?thesis using assms(2) Some by (auto simp: on_chan_fields quiet_def queue_weight_def)
qed

lemma quiet_closeInLoop:
  assumes "quiet L"
  shows "quiet (on_chan i closeInLoop L)" "queue_weight (on_chan i closeInLoop L) = queue_weight L"
proof -
  have "quiet (on_chan i closeInLoop L) \<and> queue_weight (on_chan i closeInLoop L) = queue_weight L"
  proof (cases "chans L i")
    case (Some c)
    then have "tasks c = []" using assms by (simp add: quiet_def)
    then show ?thesis using assms Some
      by (auto simp: on_chan_fields quiet_def queue_weight_def closeInLoop_def)
  qed (use assms in \<open>simp add: on_chan_fields\<close>)
  then show "quiet (on_chan i closeInLoop L)" "queue_weight (on_chan i closeInLoop L) = queue_weight L"
    by simp_all
qed

lemma make_channel_view:
  assumes "make_channel uv L = (co, L')"
  shows "chans L' = chans L" "waitTasks L' = waitTasks L" "notified L' = notified L"
    "timer_inited L' = timer_inited L"
    "co = Some c \<Longrightarrow> tasks c = [] \<and> registered c \<and> \<not> closed c \<and> chan_id c = next_id L + 1"
  using assms
  by (auto simp: make_channel_def generateId_def Let_def channel_new_def conn_of_def channel.extend_def
      split: sum.splits)

lemma quiet_connect:
  assumes "quiet L"
  shows "quiet (do_connect uv L) \<and> queue_weight (do_connect uv L) \<le> queue_weight L + 1"
proof (cases "make_channel uv L")
  case (Pair co L1)
  note v = make_channel_view [OF Pair]
  show ?thesis
  proof (cases co)
    case None
    then show ?thesis using Pair assms v by (simp add: do_connect_def quiet_def queue_weight_def)
  next
    case (Some c)
    have q: "quiet (registerChannel c L1)" "queue_weight (registerChannel c L1) = queue_weight L"
      using assms v Some by (auto simp: quiet_def registerChannel_def queue_weight_def)
    let ?L2 = "(registerChannel c L1)\<lparr>notified := notified (registerChannel c L1) @ [Connected (chan_id c) (tcp_connect_ret uv)]\<rparr>"
    have "quiet ?L2" "queue_weight ?L2 = queue_weight L" using q by (simp_all add: quiet_def queue_weight_def)
    then show ?thesis
      using Pair Some q assms quiet_on_chan [OF op_ok_close, of ?L2 "chan_id c"]
      by (simp add: do_connect_def Let_def)
  qed
qed

lemma quiet_run_task:
  assumes q: "quiet L" and pop: "waitTasks L = t # ts"
  shows "quiet (run_task uv t (L\<lparr>waitTasks := ts\<rparr>)) \<and>
    queue_weight (run_task uv t (L\<lparr>waitTasks := ts\<rparr>)) < queue_weight L"
proof -
  let ?L = "L\<lparr>waitTasks := ts\<rparr>"
  have q': "quiet ?L" using q by (simp add: quiet_def)
  have w: "queue_weight L = task_weight t + queue_weight ?L" using pop by (simp add: queue_weight_def)
  show ?thesis
  proof (cases t)
    case (Chan_task i tk)
    show ?thesis
    proof (cases tk)
      case Close_task
      then show ?thesis using Chan_task w quiet_closeInLoop [OF q', of i]
        by (simp add: run_task_def Let_def quiet_def queue_weight_def)
    next
      case (Write_task m msg p)
      then show ?thesis using Chan_task w
          quiet_on_chan [OF op_ok_msg q', of i "pack_ok uv" "uv_time uv" "write_ret uv" m msg p]
        by (simp add: run_task_def)
    next
      case (Raw_write_task m b p)
      then show ?thesis using Chan_task w
          quiet_on_chan [OF op_ok_raw q', of i "uv_time uv" "write_ret uv" m b p]
        by (simp add: run_task_def)
    qed
  next
    case (Connect_task ip port)
    then show ?thesis using w quiet_connect [OF q', of uv] by (simp add: run_task_def)
  next
    case (Ipc_connect_task p)
    then show ?thesis using w q' by (simp add: run_task_def quiet_def queue_weight_def)
  qed
qed

section \<open>Adopting connections\<close>

definition new_connections :: "event_loop \<Rightarrow> u32 list" where
  "new_connections L = concat (map (\<lambda>e. case e of New_connection i \<Rightarrow> [i] | _ \<Rightarrow> []) (notified L))"

text \<open>libuv and the allocator can adopt a connection on this loop.\<close>

definition adoptable :: "event_loop \<Rightarrow> uv_env \<times> int \<Rightarrow> bool" where
  "adoptable L p \<longleftrightarrow> (case p of (uv, accept_ret) \<Rightarrow> tcp_init_ret uv = 0 \<and> accept_ret = 0 \<and>
    (\<exists>r s. bb_new (ring_alloc uv) (clampBuffSize (loop_recv_size L)) = Inr r \<and>
      bb_new (ring_alloc uv) (clampBuffSize (loop_send_size L)) = Inr s))"

definition open_channel :: "event_loop \<Rightarrow> u32 \<Rightarrow> bool" where
  "open_channel L i \<longleftrightarrow> (\<exists>c. chans L i = Some c \<and> registered c \<and> \<not> closed c)"

lemma post_all_config:
  "next_id (fold (\<lambda>t. executeOnEventLoop (g t)) ts L) = next_id L"
  "loop_recv_size (fold (\<lambda>t. executeOnEventLoop (g t)) ts L) = loop_recv_size L"
  "loop_send_size (fold (\<lambda>t. executeOnEventLoop (g t)) ts L) = loop_send_size L"
  by (induction ts arbitrary: L) (simp_all add: executeOnEventLoop_def wakeAsync_def)

lemma on_chan_config:
  "next_id (on_chan i f L) = next_id L" "loop_recv_size (on_chan i f L) = loop_recv_size L"
  "loop_send_size (on_chan i f L) = loop_send_size L"
  by (auto simp: on_chan_def Let_def post_all_config split: option.splits)

lemma onNewConnection_fields:
  "notified (onNewConnection uv i L) = notified L @ [New_connection i]"
  "next_id (onNewConnection uv i L) = next_id L"
  "loop_recv_size (onNewConnection uv i L) = loop_recv_size L"
  "loop_send_size (onNewConnection uv i L) = loop_send_size L"
  by (auto simp: onNewConnection_def startHeartbeatTimer_def Let_def on_chan_fields on_chan_config)

lemma onNewConnection_open:
  "open_channel (onNewConnection uv i L) j = open_channel L j"
  by (cases "chans L i")
    (auto simp: onNewConnection_def startHeartbeatTimer_def Let_def on_chan_fields open_channel_def initPackTime_def)

lemma registerChannel_open:
  "\<not> closed c \<Longrightarrow> open_channel (registerChannel (conn_of c) (L\<lparr>next_id := n\<rparr>)) j \<longleftrightarrow> j = chan_id c \<or> open_channel L j"
  by (auto simp: open_channel_def registerChannel_def conn_of_def channel.extend_def)

lemma adoptConnection_ok:
  assumes "adoptable L (uv, 0)"
  shows "new_connections (adoptConnection uv L) = new_connections L @ [next_id L + 1] \<and>
    next_id (adoptConnection uv L) = next_id L + 1 \<and>
    loop_recv_size (adoptConnection uv L) = loop_recv_size L \<and> loop_send_size (adoptConnection uv L) = loop_send_size L \<and>
    (\<forall>j. open_channel (adoptConnection uv L) j \<longleftrightarrow> j = next_id L + 1 \<or> open_channel L j)"
proof -
  obtain c where c: "channel_new (ring_alloc uv) (loop_recv_size L) (loop_send_size L) (loop_proto L) (next_id L + 1) = Inr c"
    "chan_id c = next_id L + 1" "\<not> closed c"
    using assms by (auto simp: adoptable_def channel_new_def)
  then have "adoptConnection uv L = onNewConnection uv (next_id L + 1)
      (registerChannel (conn_of c) (L\<lparr>next_id := next_id L + 1\<rparr>))"
    by (simp add: adoptConnection_def make_channel_def generateId_def Let_def conn_of_def channel.extend_def)
  then show ?thesis using c
    by (simp add: onNewConnection_fields onNewConnection_open registerChannel_open new_connections_def)
      (simp add: registerChannel_def)
qed

definition fresh_ids :: "event_loop \<Rightarrow> nat \<Rightarrow> u32 list" where
  "fresh_ids L k = map (\<lambda>j. next_id L + 1 + of_nat j) [0..<k]"

lemma fresh_ids_Suc: "next_id L' = next_id L + 1 \<Longrightarrow> fresh_ids L (Suc k) = (next_id L + 1) # fresh_ids L' k"
  by (simp add: fresh_ids_def upt_conv_Cons map_Suc_upt [symmetric] algebra_simps del: upt_Suc)

lemma adopt_pending_ok:
  assumes "list_all (adoptable L) ps"
  shows "new_connections (adopt_pending ps L) = new_connections L @ fresh_ids L (length ps) \<and>
    (\<forall>j. open_channel (adopt_pending ps L) j \<longleftrightarrow> j \<in> set (fresh_ids L (length ps)) \<or> open_channel L j)"
  using assms
proof (induction ps arbitrary: L)
  case Nil
  then show ?case by (simp add: fresh_ids_def)
next
  case (Cons p ps)
  obtain uv where p: "p = (uv, 0)" "tcp_init_ret uv = 0" "adoptable L (uv, 0)"
    using Cons.prems by (cases p) (auto simp: adoptable_def)
  let ?L = "adoptConnection uv L"
  note a = adoptConnection_ok [OF p(3)]
  have "list_all (adoptable ?L) ps" using Cons.prems a by (auto simp: list_all_iff adoptable_def)
  moreover have "fresh_ids L (length (p # ps)) = (next_id L + 1) # fresh_ids ?L (length ps)"
    using a by (simp add: fresh_ids_Suc)
  moreover have "adopt_pending (p # ps) L = adopt_pending ps ?L" using p by simp
  ultimately show ?case using Cons.IH [of ?L] a by auto
qed

section \<open>A concrete loop\<close>

definition ex_uv :: uv_env where
  "ex_uv = \<lparr>ip4_ret = 0, tcp_init_ret = 0, tcp_connect_ret = 0, timer_init_ret = 0, pipe_init_ret = 0,
     write_ret = 0, uv_time = 5, pack_ok = True, ring_alloc = (\<lambda>n. Some (replicate (unat n) 0))\<rparr>"

text \<open>A started loop with one registered channel, small rings and two queued messages.\<close>

definition ex_loop :: event_loop where
  "ex_loop =
    executeOnEventLoop (Chan_task 1 (Raw_write_task 8 [3] 0))
      (executeOnEventLoop (Chan_task 1 (Raw_write_task 7 [1, 2] 0))
        (registerChannel (ex_conn CLIENT)
          ((event_loop_new 1 True)\<lparr>asyncs_inited := True, loop_recv_size := 16, loop_send_size := 16\<rparr>)))"

lemma ex_loop_view:
  "chans ex_loop = (\<lambda>i. None)(1 \<mapsto> ex_conn CLIENT)" "notified ex_loop = []"
  "waitTasks ex_loop = [Chan_task 1 (Raw_write_task 7 [1, 2] 0), Chan_task 1 (Raw_write_task 8 [3] 0)]"
  by (simp_all add: ex_loop_def registerChannel_def event_loop_new_def ex_conn_def conn_of_def channel.extend_def)

lemma ex_conn_view:
  "chan_id (ex_conn m) = 1" "tasks (ex_conn m) = []" "registered (ex_conn m)" "\<not> closed (ex_conn m)"
  "on_closed_calls (ex_conn m) = 0"
  by (simp_all add: ex_conn_def conn_of_def channel.extend_def)

lemma ex_loop_inv: "loop_inv ex_loop" "no_connects ex_loop" "quiet ex_loop" "registry_listed [1] ex_loop"
  by (auto simp: loop_inv_def close_balance_def no_connects_def quiet_def registry_listed_def
      channelById_def ex_loop_view ex_conn_view)

section \<open>Properties\<close>

text \<open>Running the queued tasks always comes to an end with an empty queue, although a task may
  queue further tasks while the queue is drained.\<close>

theorem execute_total:
  assumes "quiet L"
  shows "\<exists>L'. execute uv L = Some L' \<and> waitTasks L' = []"
  using assms
proof (induction "queue_weight L" arbitrary: L rule: less_induct)
  case less
  show ?case
  proof (cases "waitTasks L")
    case Nil
    then show ?thesis by (subst execute.simps) simp
  next
    case (Cons t ts)
    let ?L = "run_task (uv L) t (L\<lparr>waitTasks := ts\<rparr>)"
    have "execute uv L = execute uv ?L" using Cons by (subst execute.simps) simp
    then show ?thesis
      using less.hyps [of ?L] quiet_run_task [OF less.prems Cons, of "uv L"] by auto
  qed
qed

theorem execute_total_witness:
  "\<exists>L'. execute (\<lambda>L. ex_uv) ex_loop = Some L' \<and> waitTasks L' = []"
  using execute_total [OF ex_loop_inv(3)] .

text \<open>C11. Stopping a loop on which no outgoing connection is pending closes everything: after the
  stop callback every channel is closed, its close was started exactly once and notified exactly
  once, whatever was queued for it, and no task is left.\<close>

theorem stop_closes_all:
  assumes "loop_inv L" "no_connects L" "registry_listed snapshot L"
  shows "\<exists>L'. onStopTriggered uv snapshot L = Some L' \<and> waitTasks L' = [] \<and> asyncs_closing L' \<and>
    (\<forall>i c. chans L' i = Some c \<longrightarrow>
      closed c \<and> on_closed_calls c = 1 \<and> count_list (notified L') (On_closed i) = 1)"
proof -
  obtain L' where L': "onStopTriggered uv snapshot L = Some L'" "loop_inv L'" "waitTasks L' = []"
    "all_closed L'" "asyncs_closing L'"
    using stop_result [OF assms] by blast
  have "closed c \<and> on_closed_calls c = 1 \<and> count_list (notified L') (On_closed i) = 1"
    if "chans L' i = Some c" for i c
    using loop_inv_Some [OF L'(2) that] L'(3,4) that by (auto simp: close_balance_def all_closed_def)
  then show ?thesis using L' by blast
qed

theorem stop_closes_all_witness:
  "\<exists>L'. onStopTriggered (\<lambda>L. ex_uv) [1] ex_loop = Some L' \<and> waitTasks L' = [] \<and>
    (\<forall>i c. chans L' i = Some c \<longrightarrow> closed c \<and> on_closed_calls c = 1)"
  using stop_closes_all [OF ex_loop_inv(1,2,4), of "\<lambda>L. ex_uv"] by blast

text \<open>An outgoing connection that is still queued when the stop callback runs escapes it: the
  channels to close are listed before the queue is drained, so the drain creates a channel that is
  registered, open and unknown to the stop sequence, which has then closed its wake-up handles.\<close>

theorem stop_misses_pending_connect:
  assumes "waitTasks L = [Connect_task ip port]" "\<And>i. channelById i L = None"
    and "ip4_ret u = 0" "tcp_init_ret u = 0" "tcp_connect_ret u = 0" "fst (make_channel u L) \<noteq> None"
  shows "\<exists>L' c. onStopTriggered (\<lambda>L. u) [] L = Some L' \<and> asyncs_closing L' \<and> waitTasks L' = [] \<and>
    channelById (next_id L + 1) L' = Some c \<and> \<not> closed c \<and>
    (\<forall>i. channelById i L = None)"
proof -
  let ?P = "(closeIpcPipe L)\<lparr>waitTasks := []\<rparr>"
  have same: "fst (make_channel u ?P) = fst (make_channel u L)" "next_id ?P = next_id L"
    by (auto simp: make_channel_def generateId_def Let_def closeIpcPipe_def split: sum.splits)
  then obtain c L1 where mk: "make_channel u ?P = (Some c, L1)"
    using assms(6) by (cases "make_channel u ?P") auto
  note v = make_channel_view [OF mk]
  let ?Q = "registerChannel c L1"
  have run: "run_task u (Connect_task ip port) ?P = ?Q"
    using assms(3-5) mk by (simp add: run_task_def do_connect_def Let_def)
  have "waitTasks ?Q = []" using v(2) by (simp add: registerChannel_def)
  then have "execute (\<lambda>L. u) (closeIpcPipe L) = Some ?Q"
    using assms(1) run by (subst execute.simps, simp) (subst execute.simps, simp)
  then have "onStopTriggered (\<lambda>L. u) [] L = Some (?Q\<lparr>asyncs_closing := True\<rparr>)"
    by (simp add: onStopTriggered_def)
  moreover have "channelById (next_id L + 1) (?Q\<lparr>asyncs_closing := True\<rparr>) = Some c" "\<not> closed c"
    using v(5) same(2) by (simp_all add: channelById_def registerChannel_def)
  ultimately show ?thesis using \<open>waitTasks ?Q = []\<close> assms(2)
    by (intro exI [of _ "?Q\<lparr>asyncs_closing := True\<rparr>"] exI [of _ c]) simp
qed

theorem stop_misses_pending_connect_witness:
  "\<exists>L' c. onStopTriggered (\<lambda>L. ex_uv) []
      (asyncConnect ''127.0.0.1'' 9000 ((event_loop_new 6 True)\<lparr>loop_recv_size := 16, loop_send_size := 16\<rparr>)) = Some L' \<and>
    channelById 7 L' = Some c \<and> \<not> closed c"
proof -
  let ?L = "asyncConnect ''127.0.0.1'' 9000 ((event_loop_new 6 True)\<lparr>loop_recv_size := 16, loop_send_size := 16\<rparr>)"
  have L: "waitTasks ?L = [Connect_task ''127.0.0.1'' 9000]" "\<And>i. channelById i ?L = None" "next_id ?L = 6"
    by (simp_all add: asyncConnect_def executeOnEventLoop_def wakeAsync_def event_loop_new_def channelById_def)
  have "clampBuffSize 16 = 16" by code_simp
  moreover have "ceilToPowerOfTwo 17 = 32" by code_simp
  ultimately have "fst (make_channel ex_uv ?L) \<noteq> None"
    by (simp add: make_channel_def generateId_def channel_new_def bb_new_def rb_new_def ex_uv_def Let_def
        asyncConnect_def executeOnEventLoop_def wakeAsync_def event_loop_new_def)
  then show ?thesis
    using stop_misses_pending_connect [OF L(1,2), of ex_uv] L(3) by (simp add: ex_uv_def) blast
qed

text \<open>A connect that fails at once still runs the whole close sequence: the business layer is
  told of the failure and of the close once each, and the heartbeat timer of the channel is closed
  without ever having been initialised.\<close>

theorem connect_failure:
  assumes "chans L (next_id L + 1) = None" "loop_inv L" "waitTasks L = [Connect_task ip port]"
    and "ip4_ret u = 0" "tcp_init_ret u = 0" "tcp_connect_ret u \<noteq> 0" "fst (make_channel u L) \<noteq> None"
  shows "\<exists>L' c. execute (\<lambda>L. u) L = Some L' \<and> chans L' (next_id L + 1) = Some c \<and>
    uv_closing c \<and> on_closed_calls c = 1 \<and>
    notified L' = notified L @ [Connected (next_id L + 1) (tcp_connect_ret u), On_closed (next_id L + 1)] \<and>
    timer_inited L' = timer_inited L"
proof -
  let ?P = "L\<lparr>waitTasks := []\<rparr>" and ?i = "next_id L + 1"
  have same: "fst (make_channel u ?P) = fst (make_channel u L)"
    by (auto simp: make_channel_def generateId_def Let_def split: sum.splits)
  then obtain c L1 where mk: "make_channel u ?P = (Some c, L1)"
    using assms(7) by (cases "make_channel u ?P") auto
  have fresh: "tasks c = []" "registered c" "\<not> closed c" "chan_id c = ?i" "on_closed_calls c = 0"
    and L1: "chans L1 = chans L" "waitTasks L1 = []" "notified L1 = notified L" "timer_inited L1 = timer_inited L"
    using mk by (auto simp: make_channel_def generateId_def Let_def channel_new_def conn_of_def
        channel.extend_def split: sum.splits)
  let ?Q = "run_task u (Connect_task ip port) ?P"
  let ?c = "(chan_close c)\<lparr>tasks := []\<rparr>"
  have Q: "chans ?Q = (chans L)(?i \<mapsto> ?c)" "waitTasks ?Q = [Chan_task ?i Close_task]"
    "notified ?Q = notified L @ [Connected ?i (tcp_connect_ret u)]" "timer_inited ?Q = timer_inited L"
    using assms(4-6) mk fresh L1
    by (simp_all add: run_task_def do_connect_def Let_def registerChannel_def on_chan_def chan_close_def
        executeOnEventLoop_def wakeAsync_def)
  let ?R = "run_task u (Chan_task ?i Close_task) (?Q\<lparr>waitTasks := []\<rparr>)"
  have R: "chans ?R ?i = Some ((closeInLoop ?c)\<lparr>tasks := []\<rparr>)" "waitTasks ?R = []"
    "notified ?R = notified ?Q @ [On_closed ?i]" "timer_inited ?R = timer_inited ?Q"
    using Q by (simp_all add: run_task_def on_chan_def Let_def closeInLoop_def)
  have "execute (\<lambda>L. u) L = execute (\<lambda>L. u) ?Q"
    using assms(3) by (subst execute.simps) simp
  also have "\<dots> = execute (\<lambda>L. u) ?R"
    by (subst execute.simps) (simp add: Q(2))
  also have "\<dots> = Some ?R"
    by (subst execute.simps) (simp add: R(2))
  finally show ?thesis
    using R Q fresh by (intro exI [of _ ?R] exI [of _ "(closeInLoop ?c)\<lparr>tasks := []\<rparr>"])
      (simp add: closeInLoop_def chan_close_def Let_def)
qed

definition ex_refused :: uv_env where
  "ex_refused = ex_uv\<lparr>tcp_connect_ret := -111\<rparr>"

theorem connect_failure_witness:
  "\<exists>L' c. execute (\<lambda>L. ex_refused)
      (asyncConnect ''127.0.0.1'' 9000 ((event_loop_new 6 True)\<lparr>loop_recv_size := 16, loop_send_size := 16\<rparr>)) = Some L' \<and>
    chans L' 7 = Some c \<and> uv_closing c \<and> \<not> timer_inited L' 7"
proof -
  let ?L = "asyncConnect ''127.0.0.1'' 9000 ((event_loop_new 6 True)\<lparr>loop_recv_size := 16, loop_send_size := 16\<rparr>)"
  have L: "waitTasks ?L = [Connect_task ''127.0.0.1'' 9000]" "chans ?L = (\<lambda>i. None)" "next_id ?L = 6"
    "notified ?L = []" "timer_inited ?L = (\<lambda>i. False)"
    by (simp_all add: asyncConnect_def executeOnEventLoop_def wakeAsync_def event_loop_new_def)
  then have inv: "loop_inv ?L" by (simp add: loop_inv_def)
  have "clampBuffSize 16 = 16" by code_simp
  moreover have "ceilToPowerOfTwo 17 = 32" by code_simp
  ultimately have "fst (make_channel ex_refused ?L) \<noteq> None"
    by (simp add: make_channel_def generateId_def channel_new_def bb_new_def rb_new_def ex_refused_def
        ex_uv_def Let_def asyncConnect_def executeOnEventLoop_def wakeAsync_def event_loop_new_def)
  then show ?thesis
    using connect_failure [OF _ inv L(1), of ex_refused] L(2,3,5)
    by (simp add: ex_refused_def ex_uv_def) fastforce
qed

end
