(* ===== verification/Dispatch.thy ===== *)
theory Dispatch
  imports Channel
begin

unbundle bit_operations_syntax

text \<open>
  From a frame to a handler: src/transport/Decoder.cpp (splitting the header, looking the message up,
  parsing it), Dispatcher.h (the table of handlers, parsing into and releasing pooled objects) and
  IdleStateHandler.cpp (idle detection). A parsed message has the type \<open>'m\<close>; the protobuf parser of a
  message type is an argument, and the object pool is represented by the number of objects that are
  out.
\<close>

section \<open>The header\<close>

text \<open>A pointer to bytes is the list of the bytes from it on, \<open>None\<close> for null.\<close>

record decoded =
  dm_msgId :: i32
  dm_body :: "byte list option"
  dm_bodyLen :: int
  dm_playerId :: i64

definition decoded_init :: decoded where
  "decoded_init = \<lparr>dm_msgId = 0, dm_body = None, dm_bodyLen = 0, dm_playerId = 0\<rparr>"

definition parseHeader :: "proto \<Rightarrow> byte list option \<Rightarrow> int \<Rightarrow> decoded \<Rightarrow> decoded" where
  "parseHeader mode buff len out =
    (let inner = (mode = INNER);
         headerLen = (if inner then INNER_HEADER_LEN else CLIENT_HEADER_LEN)
     in if buff = None \<or> len < headerLen then
          out\<lparr>dm_msgId := 0, dm_body := None, dm_bodyLen := 0\<rparr>
        else
          let frame = the buff;
              magicOff = (if inner then 12 else 8)
          in if readInt32 (drop magicOff frame) \<noteq> MAGIC_NUM then
               out\<lparr>dm_msgId := 0, dm_body := None, dm_bodyLen := 0\<rparr>
             else
               let out = (if inner then out\<lparr>dm_playerId := scast (readInt32 (drop 8 frame) :: i32)\<rparr> else out)
               in out\<lparr>dm_msgId := readInt32 (drop 4 frame),
                      dm_body := Some (drop (nat headerLen) frame),
                      dm_bodyLen := len - headerLen\<rparr>)"

section \<open>The dispatcher\<close>

text \<open>A registered function: the parser of its message type and the business callback, which takes
  the player id, the channel and the message and acts on the business state \<open>'s\<close>.\<close>

record ('m, 's) msg_function =
  mf_parse :: "byte list \<Rightarrow> 'm option"
  mf_call :: "i64 \<Rightarrow> u32 \<Rightarrow> 'm \<Rightarrow> 's \<Rightarrow> 's"

type_synonym ('m, 's) msg_map = "i32 \<Rightarrow> ('m, 's) msg_function option"

definition findMsgFunction :: "i32 \<Rightarrow> ('m, 's) msg_map \<Rightarrow> ('m, 's) msg_function option" where
  "findMsgFunction msgId msgMap = msgMap msgId"

text \<open>Both overloads: a callback on the player id or on the channel.\<close>

definition registerMsgHandler_player ::
  "i32 \<Rightarrow> (byte list \<Rightarrow> 'm option) \<Rightarrow> (i64 \<Rightarrow> 'm \<Rightarrow> 's \<Rightarrow> 's) \<Rightarrow> ('m, 's) msg_map \<Rightarrow> ('m, 's) msg_map" where
  "registerMsgHandler_player msgId parse msgFuc msgMap =
    msgMap(msgId \<mapsto> \<lparr>mf_parse = parse, mf_call = (\<lambda>playerId chan msg. msgFuc playerId msg)\<rparr>)"

definition registerMsgHandler_channel ::
  "i32 \<Rightarrow> (byte list \<Rightarrow> 'm option) \<Rightarrow> (u32 \<Rightarrow> 'm \<Rightarrow> 's \<Rightarrow> 's) \<Rightarrow> ('m, 's) msg_map \<Rightarrow> ('m, 's) msg_map" where
  "registerMsgHandler_channel msgId parse msgFuc msgMap =
    msgMap(msgId \<mapsto> \<lparr>mf_parse = parse, mf_call = (\<lambda>playerId chan msg. msgFuc chan msg)\<rparr>)"

text \<open>Parsing takes an object out of the pool and puts it back when it fails.\<close>

definition parseParam ::
  "('m, 's) msg_function \<Rightarrow> byte list option \<Rightarrow> int \<Rightarrow> nat \<Rightarrow> 'm option \<times> nat" where
  "parseParam mf body len out =
    (case body of
       None \<Rightarrow> (None, out)
     | Some b \<Rightarrow>
         if len \<le> 0 then (None, out)
         else let out = out + 1 in
           case mf_parse mf (take (nat len) b) of
             None \<Rightarrow> (None, out - 1)
           | Some msg \<Rightarrow> (Some msg, out))"

definition invoke :: "('m, 's) msg_function \<Rightarrow> i64 \<Rightarrow> u32 \<Rightarrow> 'm \<Rightarrow> nat \<times> 's \<Rightarrow> nat \<times> 's" where
  "invoke mf playerId chan msg st = (case st of (out, s) \<Rightarrow> (out - 1, mf_call mf playerId chan msg s))"

section \<open>Decoding\<close>

datatype decode_result = OK | BAD_HEADER | NOT_REGISTERED | PARSE_FAILED | CHANNEL_GONE

text \<open>\<open>live\<close> tells whether the registry still holds the channel. The result carries the function
  and the parsed message when there is one, and the pool.\<close>

definition decodeMsg ::
  "('m, 's) msg_map \<Rightarrow> bool \<Rightarrow> decoded \<Rightarrow> nat \<Rightarrow>
    decode_result \<times> (('m, 's) msg_function \<times> 'm) option \<times> nat" where
  "decodeMsg msgMap live d out =
    (if dm_body d = None then (BAD_HEADER, None, out)
     else case findMsgFunction (dm_msgId d) msgMap of
         None \<Rightarrow> (NOT_REGISTERED, None, out)
       | Some mf \<Rightarrow>
           if \<not> live then (CHANNEL_GONE, None, out)
           else case parseParam mf (dm_body d) (dm_bodyLen d) out of
               (None, out) \<Rightarrow> (PARSE_FAILED, None, out)
             | (Some msg, out) \<Rightarrow> (OK, Some (mf, msg), out))"

section \<open>Idle detection\<close>

datatype trigger_event = READ_IDLE | WRITE_IDLE

record idle_handler =
  max_write_idle_time :: u64
  max_read_idle_time :: u64

definition timerIntervalMs :: "idle_handler \<Rightarrow> u64" where
  "timerIntervalMs h =
    (let interval = 2000;
         interval = (if max_write_idle_time h > 0 then min interval (max_write_idle_time h) else interval);
         interval = (if max_read_idle_time h > 0 then min interval (max_read_idle_time h) else interval)
     in interval)"

text \<open>\<open>trigger\<close> is the business layer's triggerEvent.\<close>

definition onTimer ::
  "idle_handler \<Rightarrow> (trigger_event \<Rightarrow> conn \<Rightarrow> conn) \<Rightarrow> u64 \<Rightarrow> conn \<Rightarrow> conn" where
  "onTimer h trigger now c =
    (let c = (if max_write_idle_time h > 0 then
                (if last_send_time c + max_write_idle_time h < now
                 then trigger WRITE_IDLE (c\<lparr>last_send_time := now\<rparr>) else c)
              else c)
     in if max_read_idle_time h > 0 then
          (if last_recv_time c + max_read_idle_time h < now
           then trigger READ_IDLE (c\<lparr>last_recv_time := now\<rparr>) else c)
        else c)"

text \<open>EventLoop::uv_on_timer.\<close>

definition uv_on_timer ::
  "idle_handler \<Rightarrow> (trigger_event \<Rightarrow> conn \<Rightarrow> conn) \<Rightarrow> u64 \<Rightarrow> conn \<Rightarrow> conn" where
  "uv_on_timer h trigger now c = (if closed c then c else onTimer h trigger now c)"

section \<open>Lemmas\<close>

lemma parse_frame_header:
  "parseHeader m (Some (frame_bytes m f)) (int (frame_size m f)) out =
    out\<lparr>dm_msgId := fr_id f, dm_body := Some (fr_body f), dm_bodyLen := int (length (fr_body f)),
        dm_playerId := (case m of INNER \<Rightarrow> scast (fr_player f) | CLIENT \<Rightarrow> dm_playerId out)\<rparr>"
  using frame_magic_field [of m f "[]"] frame_id_field [of m f "[]"] frame_player_field [of f "[]"]
    frame_body_part [of m f]
  by (cases m) (simp_all add: parseHeader_def Let_def frame_size_def header_len_def magic_off_def
      INNER_HEADER_LEN_def CLIENT_HEADER_LEN_def)

lemma scast_ucast_i64:
  "(scast (ucast (p :: i64) :: i32) :: i64) = p \<longleftrightarrow> - (2 ^ 31) \<le> sint p \<and> sint p < 2 ^ 31"
proof -
  have e: "sint (ucast p :: i32) = signed_take_bit 31 (sint p)"
  proof -
    have "sint (ucast p :: i32) = signed_take_bit 31 (uint p)" by (subst signed_ucast_eq) simp
    moreover have "sint p = signed_take_bit 63 (uint p)" by (simp add: sint_uint)
    ultimately show ?thesis by (simp add: Bit_Operations.signed_take_bit_signed_take_bit)
  qed
  have "sint (scast (ucast p :: i32) :: i64) = sint (ucast p :: i32)"
    by (simp add: sint_up_scast is_up)
  then have "(scast (ucast p :: i32) :: i64) = p \<longleftrightarrow> signed_take_bit 31 (sint p) = sint p"
    using e by (metis signed_word_eqI)
  also have "\<dots> \<longleftrightarrow> - (2 ^ 31) \<le> sint p \<and> sint p < 2 ^ 31"
    by (simp add: signed_take_bit_int_eq_self_iff)
  finally show ?thesis .
qed

section \<open>Properties\<close>

text \<open>Decoding a frame that the other end wrote recovers its message id and its body, and on an
  inner link the player id as far as it fits a signed 32-bit integer, the width of its header field;
  on a client link no player id is carried.\<close>

theorem frame_decode_roundtrip:
  "parseHeader m (Some (frame_bytes m (frame_of msgId body playerId)))
      (int (header_len m + length body)) decoded_init =
    \<lparr>dm_msgId = msgId, dm_body = Some body, dm_bodyLen = int (length body),
     dm_playerId = (case m of INNER \<Rightarrow> scast (ucast playerId :: i32) | CLIENT \<Rightarrow> 0)\<rparr> \<and>
   ((scast (ucast playerId :: i32) :: i64) = playerId \<longleftrightarrow> - (2 ^ 31) \<le> sint playerId \<and> sint playerId < 2 ^ 31)"
  using parse_frame_header [of m "frame_of msgId body playerId" decoded_init]
  by (cases m) (simp_all add: frame_of_def frame_size_def decoded_init_def scast_ucast_i64)

text \<open>No pooled object leaks: a decode that does not succeed gives back whatever it took, and a
  successful one holds exactly one object, which the invocation returns. A message is only ever
  parsed for a registered id on a channel that is still held.\<close>

theorem decode_pool_balance:
  "case decodeMsg msgMap live d out of
     (res, found, out') \<Rightarrow>
       (res = OK \<longleftrightarrow> found \<noteq> None) \<and>
       (found = None \<longrightarrow> out' = out) \<and>
       (\<forall>mf msg. found = Some (mf, msg) \<longrightarrow>
          live \<and> msgMap (dm_msgId d) = Some mf \<and>
          mf_parse mf (take (nat (dm_bodyLen d)) (the (dm_body d))) = Some msg \<and>
          out' = out + 1 \<and> fst (invoke mf (dm_playerId d) chan msg (out', s)) = out)"
  by (auto simp: decodeMsg_def findMsgFunction_def parseParam_def invoke_def Let_def
      split: option.splits prod.splits if_splits)

theorem decode_pool_balance_witness:
  "decodeMsg (registerMsgHandler_player 7 (\<lambda>b. Some (length b)) (\<lambda>p m s. s) (\<lambda>i. None)) True
      \<lparr>dm_msgId = 7, dm_body = Some [1, 2], dm_bodyLen = 2, dm_playerId = 0\<rparr> 3 =
    (OK, Some (\<lparr>mf_parse = (\<lambda>b. Some (length b)), mf_call = (\<lambda>p c m s. s)\<rparr>, 2), 4 :: nat)"
  using decode_pool_balance [where msgMap = "registerMsgHandler_player 7 (\<lambda>b. Some (length b)) (\<lambda>p m s. s) (\<lambda>i. None)" and live = True and out = 3
      and d = "\<lparr>dm_msgId = 7, dm_body = Some [1, 2], dm_bodyLen = 2, dm_playerId = 0\<rparr>" and chan = 0 and s = "()"]
  by (simp add: decodeMsg_def findMsgFunction_def registerMsgHandler_player_def parseParam_def)

text \<open>A message with an empty body, which is how protobuf encodes a message all of whose fields
  have their default values, never reaches its handler: it fails to parse for every registered
  function, on every link.\<close>

theorem empty_body_never_delivered:
  assumes "msgMap msgId = Some mf"
  shows "fst (decodeMsg msgMap True
      (parseHeader m (Some (frame_bytes m (frame_of msgId [] playerId))) (int (header_len m)) decoded_init) out)
    = PARSE_FAILED"
  using assms parse_frame_header [of m "frame_of msgId [] playerId" decoded_init]
  by (cases m) (simp_all add: frame_of_def frame_size_def decodeMsg_def findMsgFunction_def parseParam_def)

theorem empty_body_never_delivered_witness:
  "fst (decodeMsg (registerMsgHandler_channel 5 (\<lambda>b. Some b) (\<lambda>c m s. s) (\<lambda>i. None)) True
      (parseHeader INNER (Some (frame_bytes INNER (frame_of 5 [] 0))) 16 decoded_init) 0) = PARSE_FAILED"
  using empty_body_never_delivered [where msgMap = "registerMsgHandler_channel 5 (\<lambda>b. Some b) (\<lambda>c m s. s) (\<lambda>i. None)"
      and msgId = 5 and m = INNER and playerId = 0 and out = 0]
  by (simp add: registerMsgHandler_channel_def header_len_def)

text \<open>An idle channel is reported once per idle period: a timer tick that reports both
  directions idle re-arms both baselines, so that no later tick within the periods reports anything,
  provided the business layer only sends or closes from its callback.\<close>

theorem idle_fires_once:
  assumes "\<And>r d. last_send_time (trigger r d) = last_send_time d \<and> last_recv_time (trigger r d) = last_recv_time d"
    and "0 < max_write_idle_time h" "0 < max_read_idle_time h"
    and "last_send_time c + max_write_idle_time h < now" "last_recv_time c + max_read_idle_time h < now"
    and "later \<le> now + max_write_idle_time h" "later \<le> now + max_read_idle_time h"
  shows "onTimer h trigger now c = trigger READ_IDLE
      ((trigger WRITE_IDLE (c\<lparr>last_send_time := now\<rparr>))\<lparr>last_recv_time := now\<rparr>) \<and>
    uv_on_timer h trigger later (onTimer h trigger now c) = onTimer h trigger now c"
proof -
  let ?d = "trigger READ_IDLE ((trigger WRITE_IDLE (c\<lparr>last_send_time := now\<rparr>))\<lparr>last_recv_time := now\<rparr>)"
  have d: "onTimer h trigger now c = ?d" using assms(1-5) by (simp add: onTimer_def)
  have "last_send_time ?d = now" "last_recv_time ?d = now" using assms(1) by simp_all
  then have "onTimer h trigger later ?d = ?d"
    using assms(6,7) by (simp add: onTimer_def Let_def not_less [symmetric])
  then show ?thesis using d by (simp add: uv_on_timer_def)
qed

theorem idle_fires_once_witness:
  "let h = \<lparr>max_write_idle_time = 1000, max_read_idle_time = 3000\<rparr>;
       c = onTimer h (\<lambda>r. chan_close) 5000 (ex_conn INNER)
   in closed c \<and> uv_on_timer h (\<lambda>r. chan_close) 5900 c = c"
proof -
  let ?h = "\<lparr>max_write_idle_time = 1000, max_read_idle_time = 3000\<rparr>"
  have "last_send_time (chan_close d) = last_send_time d \<and> last_recv_time (chan_close d) = last_recv_time d" for d
    by (simp add: chan_close_def Let_def)
  moreover have "last_send_time (ex_conn INNER) = 0" "last_recv_time (ex_conn INNER) = 0"
    by (simp_all add: ex_conn_def conn_of_def channel.extend_def)
  ultimately show ?thesis
    using idle_fires_once [of "\<lambda>r. chan_close" ?h "ex_conn INNER" 5000 5900]
    by (auto simp: Let_def)
qed

end
