(* ===== verification/Peer_Conn.thy ===== *)
theory Peer_Conn
  imports Channel "HOL-Library.AList"
begin

text \<open>
  The directory of peer servers, src/athena-discovery/discovery/PeerConn.cpp: nodes known by their
  service id and by their type, each with its connections. Both tables share the node objects, so
  the objects live in a store and the tables hold addresses. The hash maps are association lists
  with distinct keys, whose order stands for the unspecified iteration order. A connection is known
  by its channel id; whether the event loop still holds it and whether it is closed are arguments.
\<close>

section \<open>State\<close>

record node_info =
  ni_service_id :: string
  ni_service_name :: string
  ni_ip :: string
  ni_type :: i32
  ni_port :: i32
  ni_net_port :: i32
  ni_id :: i32
  ni_group_id :: i32
  ni_meta_data :: "(string \<times> string) list"
  ni_keep_alive_lease_id :: i64

record node_channel_info =
  nci_node :: node_info
  nci_channels :: "u32 list"

record peers =
  node_heap :: "nat \<Rightarrow> node_channel_info option"
  node_next :: nat
  node_id_nodes :: "(string \<times> nat) list"
  node_type_nodes :: "(i32 \<times> nat list) list"

definition peers_empty :: peers where
  "peers_empty = \<lparr>node_heap = (\<lambda>a. None), node_next = 0, node_id_nodes = [], node_type_nodes = []\<rparr>"

section \<open>Operations\<close>

definition saveNode :: "node_info \<Rightarrow> peers \<Rightarrow> peers" where
  "saveNode nodeInfo P =
    (let serviceId = ni_service_id nodeInfo;
         nodeType = ni_type nodeInfo
     in case map_of (node_id_nodes P) serviceId of
          Some a \<Rightarrow> P
        | None \<Rightarrow>
            let uNode = node_next P;
                vec = (case map_of (node_type_nodes P) nodeType of None \<Rightarrow> [] | Some v \<Rightarrow> v)
            in P\<lparr>node_heap := (node_heap P)(uNode \<mapsto> \<lparr>nci_node = nodeInfo, nci_channels = []\<rparr>),
                 node_next := node_next P + 1,
                 node_id_nodes := AList.update serviceId uNode (node_id_nodes P),
                 node_type_nodes := AList.update nodeType (vec @ [uNode]) (node_type_nodes P)\<rparr>)"

definition removeNode :: "string \<Rightarrow> peers \<Rightarrow> peers" where
  "removeNode nodeKey P =
    (case map_of (node_id_nodes P) nodeKey of
       None \<Rightarrow> P
     | Some targetNode \<Rightarrow>
         let nodeType = (case node_heap P targetNode of Some n \<Rightarrow> ni_type (nci_node n) | None \<Rightarrow> 0);
             types = (case map_of (node_type_nodes P) nodeType of
                 None \<Rightarrow> node_type_nodes P
               | Some vec \<Rightarrow>
                   let vec = filter (\<lambda>n. n \<noteq> targetNode) vec in
                   if vec = [] then AList.delete nodeType (node_type_nodes P)
                   else AList.update nodeType vec (node_type_nodes P))
         in P\<lparr>node_type_nodes := types, node_id_nodes := AList.delete nodeKey (node_id_nodes P)\<rparr>)"

text \<open>\<open>live\<close>: the loop's registry still holds the channel.\<close>

definition saveNodeChannel :: "(u32 \<Rightarrow> bool) \<Rightarrow> string \<Rightarrow> u32 \<Rightarrow> peers \<Rightarrow> peers" where
  "saveNodeChannel live serviceId channel P =
    (if serviceId = [] then P
     else if \<not> live channel then P
     else case map_of (node_id_nodes P) serviceId of
         None \<Rightarrow> P
       | Some a \<Rightarrow>
           (case node_heap P a of
              None \<Rightarrow> P
            | Some n \<Rightarrow>
                if channel \<in> set (nci_channels n) then P
                else P\<lparr>node_heap := (node_heap P)(a \<mapsto> n\<lparr>nci_channels := nci_channels n @ [channel]\<rparr>)\<rparr>))"

text \<open>Erasing the channel from the node at one address.\<close>

definition drop_channel :: "u32 \<Rightarrow> nat \<Rightarrow> (nat \<Rightarrow> node_channel_info option) \<Rightarrow> nat \<Rightarrow> node_channel_info option" where
  "drop_channel channel a h =
    (case h a of
       None \<Rightarrow> h
     | Some n \<Rightarrow> h(a \<mapsto> n\<lparr>nci_channels := filter (\<lambda>c. c \<noteq> channel) (nci_channels n)\<rparr>))"

definition removeNodeChannel :: "u32 \<Rightarrow> peers \<Rightarrow> peers" where
  "removeNodeChannel channel P =
    P\<lparr>node_heap := fold (\<lambda>kv. drop_channel channel (snd kv)) (node_id_nodes P) (node_heap P)\<rparr>"

definition node_of :: "peers \<Rightarrow> string \<Rightarrow> node_channel_info option" where
  "node_of P serviceId = Option.bind (map_of (node_id_nodes P) serviceId) (node_heap P)"

text \<open>\<open>getInt\<close> is the random number generator.\<close>

definition getRandomChannel :: "(int \<Rightarrow> int \<Rightarrow> int) \<Rightarrow> string \<Rightarrow> peers \<Rightarrow> u32 option" where
  "getRandomChannel getInt serviceId P =
    (case node_of P serviceId of
       None \<Rightarrow> None
     | Some n \<Rightarrow>
         let channels = nci_channels n in
         if channels = [] then None
         else if length channels = 1 then Some (channels ! 0)
         else
           let randomIndex = getInt 0 (int (length channels) - 1)
           in Some (channels ! nat randomIndex))"

definition getChannelByServiceId :: "(u32 \<Rightarrow> bool) \<Rightarrow> string \<Rightarrow> peers \<Rightarrow> u32 option" where
  "getChannelByServiceId is_closed serviceId P =
    (case node_of P serviceId of
       None \<Rightarrow> None
     | Some n \<Rightarrow> List.find (\<lambda>c. \<not> is_closed c) (rev (nci_channels n)))"

definition getChannelsByType :: "(u32 \<Rightarrow> bool) \<Rightarrow> i32 \<Rightarrow> peers \<Rightarrow> u32 list" where
  "getChannelsByType is_closed serverType P =
    (case map_of (node_type_nodes P) serverType of
       None \<Rightarrow> []
     | Some nodes \<Rightarrow>
         concat (map (\<lambda>a. case node_heap P a of
                        None \<Rightarrow> []
                      | Some n \<Rightarrow> filter (\<lambda>c. \<not> is_closed c) (nci_channels n)) nodes))"

text \<open>The channel that a send by type uses (\<open>None\<close>: it reports failure).\<close>

definition sendMsg_type :: "i32 \<Rightarrow> peers \<Rightarrow> u32 option" where
  "sendMsg_type serverType P =
    (case map_of (node_type_nodes P) serverType of
       None \<Rightarrow> None
     | Some [] \<Rightarrow> None
     | Some (a # as) \<Rightarrow>
         (case node_heap P a of
            None \<Rightarrow> None
          | Some n \<Rightarrow> (case nci_channels n of [] \<Rightarrow> None | c # cs \<Rightarrow> Some c)))"

section \<open>Invariant\<close>

text \<open>Both tables have distinct keys and list the same nodes, each under its own service id and
  under its own type, once; every entry is an object of the store with distinct channels.\<close>

definition node_listed :: "peers \<Rightarrow> string \<Rightarrow> nat \<Rightarrow> bool" where
  "node_listed P k a \<longleftrightarrow>
    (case node_heap P a of
       None \<Rightarrow> False
     | Some n \<Rightarrow> ni_service_id (nci_node n) = k \<and> distinct (nci_channels n) \<and>
         (case map_of (node_type_nodes P) (ni_type (nci_node n)) of
            None \<Rightarrow> False | Some as \<Rightarrow> a \<in> set as))"

definition type_listed :: "peers \<Rightarrow> i32 \<Rightarrow> nat list \<Rightarrow> bool" where
  "type_listed P t as \<longleftrightarrow> as \<noteq> [] \<and> distinct as \<and>
    (\<forall>a \<in> set as. case node_heap P a of
       None \<Rightarrow> False
     | Some n \<Rightarrow> ni_type (nci_node n) = t \<and> map_of (node_id_nodes P) (ni_service_id (nci_node n)) = Some a)"

definition peers_inv :: "peers \<Rightarrow> bool" where
  "peers_inv P \<longleftrightarrow>
    distinct (map fst (node_id_nodes P)) \<and> distinct (map fst (node_type_nodes P)) \<and>
    (\<forall>k a. map_of (node_id_nodes P) k = Some a \<longrightarrow> a < node_next P \<and> node_listed P k a) \<and>
    (\<forall>t as. map_of (node_type_nodes P) t = Some as \<longrightarrow> type_listed P t as)"

lemma peers_inv_id:
  assumes "peers_inv P" "map_of (node_id_nodes P) k = Some a"
  obtains n as where "node_heap P a = Some n" "ni_service_id (nci_node n) = k"
    "distinct (nci_channels n)" "map_of (node_type_nodes P) (ni_type (nci_node n)) = Some as" "a \<in> set as"
    "a < node_next P"
proof -
  from assms have l: "node_listed P k a" and a: "a < node_next P" by (simp_all add: peers_inv_def)
  from l obtain n where n: "node_heap P a = Some n" by (cases "node_heap P a") (simp_all add: node_listed_def)
  with l obtain as where "map_of (node_type_nodes P) (ni_type (nci_node n)) = Some as"
    by (cases "map_of (node_type_nodes P) (ni_type (nci_node n))") (simp_all add: node_listed_def)
  with n l a show thesis using that by (simp add: node_listed_def)
qed

lemma peers_inv_type:
  assumes "peers_inv P" "map_of (node_type_nodes P) t = Some as" "a \<in> set as"
  obtains n where "node_heap P a = Some n" "ni_type (nci_node n) = t"
    "map_of (node_id_nodes P) (ni_service_id (nci_node n)) = Some a"
proof -
  from assms have "type_listed P t as" by (simp add: peers_inv_def)
  with assms(3) have "case node_heap P a of None \<Rightarrow> False
    | Some n \<Rightarrow> ni_type (nci_node n) = t \<and> map_of (node_id_nodes P) (ni_service_id (nci_node n)) = Some a"
    by (simp add: type_listed_def)
  then show thesis using that by (cases "node_heap P a") simp_all
qed

lemma peers_empty_inv: "peers_inv peers_empty"
  by (simp add: peers_inv_def peers_empty_def)

lemma saveNode_known: "map_of (node_id_nodes P) (ni_service_id i) = Some a \<Longrightarrow> saveNode i P = P"
  by (simp add: saveNode_def)

lemma saveNode_inv:
  assumes inv: "peers_inv P"
  shows "peers_inv (saveNode i P)"
proof (cases "map_of (node_id_nodes P) (ni_service_id i)")
  case (Some a)
  then show ?thesis using inv by (simp add: saveNode_known)
next
  case None
  let ?k = "ni_service_id i" and ?t = "ni_type i" and ?u = "node_next P" and ?Q = "saveNode i P"
  define vec where "vec = (case map_of (node_type_nodes P) ?t of None \<Rightarrow> [] | Some v \<Rightarrow> v)"
  have Q: "node_heap ?Q = (node_heap P)(?u \<mapsto> \<lparr>nci_node = i, nci_channels = []\<rparr>)"
    "node_next ?Q = ?u + 1"
    "map_of (node_id_nodes ?Q) = (map_of (node_id_nodes P))(?k \<mapsto> ?u)"
    "map_of (node_type_nodes ?Q) = (map_of (node_type_nodes P))(?t \<mapsto> vec @ [?u])"
    "distinct (map fst (node_id_nodes ?Q))" "distinct (map fst (node_type_nodes ?Q))"
    using None inv by (simp_all add: saveNode_def Let_def vec_def update_conv' peers_inv_def distinct_update)
  have vec: "distinct vec" "\<And>a. a \<in> set vec \<Longrightarrow> \<exists>n. node_heap P a = Some n \<and> ni_type (nci_node n) = ?t \<and>
      map_of (node_id_nodes P) (ni_service_id (nci_node n)) = Some a \<and> a < ?u"
  proof -
    show "distinct vec" using inv by (auto simp: vec_def peers_inv_def type_listed_def split: option.splits)
    fix a assume a: "a \<in> set vec"
    then obtain v where v: "map_of (node_type_nodes P) ?t = Some v" "a \<in> set v"
      by (cases "map_of (node_type_nodes P) ?t") (simp_all add: vec_def)
    then obtain n where n: "node_heap P a = Some n" "ni_type (nci_node n) = ?t"
      "map_of (node_id_nodes P) (ni_service_id (nci_node n)) = Some a"
      using peers_inv_type [OF inv] by blast
    then show "\<exists>n. node_heap P a = Some n \<and> ni_type (nci_node n) = ?t \<and>
      map_of (node_id_nodes P) (ni_service_id (nci_node n)) = Some a \<and> a < ?u"
      using inv by (auto simp: peers_inv_def)
  qed
  have old: "\<And>k a. map_of (node_id_nodes P) k = Some a \<Longrightarrow> a \<noteq> ?u \<and> k \<noteq> ?k"
  proof -
    fix k a assume k: "map_of (node_id_nodes P) k = Some a"
    have "a < ?u" using inv k unfolding peers_inv_def by blast
    then show "a \<noteq> ?u \<and> k \<noteq> ?k" using k None by auto
  qed
  have "a < node_next ?Q \<and> node_listed ?Q k a" if "map_of (node_id_nodes ?Q) k = Some a" for k a
  proof (cases "k = ?k")
    case True
    then show ?thesis using that by (simp add: node_listed_def Q)
  next
    case False
    then have "map_of (node_id_nodes P) k = Some a" using that Q(3) by simp
    then obtain n as where "node_heap P a = Some n" "ni_service_id (nci_node n) = k"
      "distinct (nci_channels n)" "map_of (node_type_nodes P) (ni_type (nci_node n)) = Some as" "a \<in> set as"
      "a < node_next P"
      by (rule peers_inv_id [OF inv])
    then show ?thesis by (auto simp: node_listed_def Q vec_def)
  qed
  moreover have "type_listed ?Q t as" if "map_of (node_type_nodes ?Q) t = Some as" for t as
  proof (cases "t = ?t")
    case True
    then have "as = vec @ [?u]" using that Q(4) by simp
    then show ?thesis using vec True old by (fastforce simp: type_listed_def Q)
  next
    case False
    then have as: "map_of (node_type_nodes P) t = Some as" using that Q(4) by simp
    have "case node_heap ?Q a of None \<Rightarrow> False
        | Some n \<Rightarrow> ni_type (nci_node n) = t \<and> map_of (node_id_nodes ?Q) (ni_service_id (nci_node n)) = Some a"
      if mem: "a \<in> set as" for a
    proof -
      obtain n where n: "node_heap P a = Some n" "ni_type (nci_node n) = t"
        "map_of (node_id_nodes P) (ni_service_id (nci_node n)) = Some a"
        by (rule peers_inv_type [OF inv as mem])
      then show ?thesis using old [OF n(3)] by (simp add: Q)
    qed
    moreover have "as \<noteq> []" "distinct as" using inv as by (auto simp: peers_inv_def type_listed_def)
    ultimately show ?thesis by (simp add: type_listed_def)
  qed
  ultimately show ?thesis using Q(5,6) by (simp add: peers_inv_def)
qed

lemma removeNode_inv:
  assumes inv: "peers_inv P"
  shows "peers_inv (removeNode k P)"
proof (cases "map_of (node_id_nodes P) k")
  case None
  then show ?thesis using inv by (simp add: removeNode_def)
next
  case (Some a)
  let ?Q = "removeNode k P"
  obtain n as where n: "node_heap P a = Some n" "ni_service_id (nci_node n) = k"
    and as: "map_of (node_type_nodes P) (ni_type (nci_node n)) = Some as" "a \<in> set as"
    by (rule peers_inv_id [OF inv Some])
  let ?t = "ni_type (nci_node n)" and ?vec = "filter (\<lambda>b. b \<noteq> a) as"
  have Q: "node_heap ?Q = node_heap P" "node_next ?Q = node_next P"
    "map_of (node_id_nodes ?Q) = (map_of (node_id_nodes P))(k := None)"
    "map_of (node_type_nodes ?Q) = (map_of (node_type_nodes P))(?t := if ?vec = [] then None else Some ?vec)"
    "distinct (map fst (node_id_nodes ?Q))" "distinct (map fst (node_type_nodes ?Q))"
    using Some n as(1) inv
    by (simp_all add: removeNode_def Let_def update_conv' delete_conv' peers_inv_def distinct_update
        distinct_delete)
  have "b < node_next ?Q \<and> node_listed ?Q k' b" if k': "map_of (node_id_nodes ?Q) k' = Some b" for k' b
  proof -
    have b: "map_of (node_id_nodes P) k' = Some b" "k' \<noteq> k"
      using k' by (auto simp: Q(3) split: if_splits)
    obtain m bs where m: "node_heap P b = Some m" "ni_service_id (nci_node m) = k'"
      "distinct (nci_channels m)" "map_of (node_type_nodes P) (ni_type (nci_node m)) = Some bs" "b \<in> set bs"
      "b < node_next P"
      by (rule peers_inv_id [OF inv b(1)])
    have "b \<noteq> a" using m(1,2) n b(2) by auto
    moreover have "ni_type (nci_node m) = ?t \<Longrightarrow> b \<in> set ?vec" using m(4,5) as(1) \<open>b \<noteq> a\<close> by auto
    ultimately have "case map_of (node_type_nodes ?Q) (ni_type (nci_node m)) of None \<Rightarrow> False | Some as \<Rightarrow> b \<in> set as"
      using m(4,5) by (cases "ni_type (nci_node m) = ?t") (auto simp: Q(4) filter_empty_conv simp del: map_of_eq_Some_iff)
    then show ?thesis using m by (simp add: node_listed_def Q(1,2))
  qed
  moreover have "type_listed ?Q t bs" if t: "map_of (node_type_nodes ?Q) t = Some bs" for t bs
  proof -
    obtain cs where cs: "map_of (node_type_nodes P) t = Some cs" "bs = filter (\<lambda>b. b \<noteq> a) cs" "bs \<noteq> []"
    proof (cases "t = ?t")
      case True
      then show thesis using t as(1) that by (auto simp: Q(4) split: if_splits)
    next
      case False
      have l: "type_listed P t bs" using t False inv unfolding peers_inv_def Q(4) by simp
      have "a \<notin> set bs" using l n(1) False by (auto simp: type_listed_def)
      then have "bs = filter (\<lambda>b. b \<noteq> a) bs" by (auto intro!: filter_True [symmetric])
      then show thesis using that [of bs] t False l by (simp add: Q(4) type_listed_def)
    qed
    have "type_listed P t cs" using inv cs(1) unfolding peers_inv_def by blast
    moreover have "map_of (node_id_nodes ?Q) (ni_service_id (nci_node m)) = Some b"
      if "b \<noteq> a" "map_of (node_id_nodes P) (ni_service_id (nci_node m)) = Some b" for m b
      using that Some by (auto simp: Q(3))
    ultimately show ?thesis using cs(2,3) by (fastforce simp: type_listed_def Q(1) split: option.splits)
  qed
  ultimately show ?thesis using Q(5,6) by (simp add: peers_inv_def)
qed

text \<open>Changing only the channels of nodes keeps the invariant.\<close>

lemma peers_inv_channels:
  assumes inv: "peers_inv P"
    and h: "\<And>a. map_option nci_node (h a) = map_option nci_node (node_heap P a)"
    and d: "\<And>a n. h a = Some n \<Longrightarrow> node_heap P a \<noteq> None \<Longrightarrow> (\<And>m. node_heap P a = Some m \<Longrightarrow> distinct (nci_channels m)) \<Longrightarrow> distinct (nci_channels n)"
  shows "peers_inv (P\<lparr>node_heap := h\<rparr>)"
proof -
  have node: "\<exists>n'. h a = Some n' \<and> nci_node n' = nci_node n" if "node_heap P a = Some n" for a n
    using h [of a] that by (cases "h a") simp_all
  have "node_listed (P\<lparr>node_heap := h\<rparr>) k a" if k: "map_of (node_id_nodes P) k = Some a" for k a
  proof -
    obtain n as where n: "node_heap P a = Some n" "ni_service_id (nci_node n) = k" "distinct (nci_channels n)"
      "map_of (node_type_nodes P) (ni_type (nci_node n)) = Some as" "a \<in> set as"
      by (rule peers_inv_id [OF inv k])
    obtain n' where "h a = Some n'" "nci_node n' = nci_node n" using node [OF n(1)] by blast
    moreover have "distinct (nci_channels n')" by (rule d [OF \<open>h a = Some n'\<close>]) (simp_all add: n)
    ultimately show ?thesis using n by (simp add: node_listed_def)
  qed
  moreover have "type_listed (P\<lparr>node_heap := h\<rparr>) t as" if "type_listed P t as" for t as
    using that node by (fastforce simp: type_listed_def split: option.splits)
  ultimately show ?thesis using inv by (auto simp: peers_inv_def simp del: map_of_eq_Some_iff)
qed

lemma saveNodeChannel_inv: "peers_inv P \<Longrightarrow> peers_inv (saveNodeChannel live k c P)"
proof (cases "map_of (node_id_nodes P) k")
  case (Some a)
  assume inv: "peers_inv P"
  show ?thesis
  proof (cases "node_heap P a")
    case (Some n)
    then show ?thesis using inv \<open>map_of (node_id_nodes P) k = Some a\<close>
      by (auto simp: saveNodeChannel_def intro!: peers_inv_channels split: if_splits)
  qed (use Some inv in \<open>simp add: saveNodeChannel_def\<close>)
qed (simp add: saveNodeChannel_def)

text \<open>The store after a removal: every node of the directory loses the channel.\<close>

lemma fold_drop_channel:
  "fold (\<lambda>kv. drop_channel c (snd kv)) kvs h a =
    (if a \<in> snd ` set kvs
     then map_option (\<lambda>n. n\<lparr>nci_channels := filter (\<lambda>d. d \<noteq> c) (nci_channels n)\<rparr>) (h a) else h a)"
proof (induction kvs arbitrary: h)
  case (Cons kv kvs)
  have "drop_channel c (snd kv) h b = (if b = snd kv
     then map_option (\<lambda>n. n\<lparr>nci_channels := filter (\<lambda>d. d \<noteq> c) (nci_channels n)\<rparr>) (h b) else h b)" for b
    by (auto simp: drop_channel_def split: option.splits)
  then show ?case by (cases "h a") (auto simp: Cons.IH)
qed simp

lemma removeNodeChannel_inv: "peers_inv P \<Longrightarrow> peers_inv (removeNodeChannel c P)"
  unfolding removeNodeChannel_def
proof (rule peers_inv_channels)
  fix a
  show "map_option nci_node (fold (\<lambda>kv. drop_channel c (snd kv)) (node_id_nodes P) (node_heap P) a) =
    map_option nci_node (node_heap P a)"
    by (cases "node_heap P a") (simp_all add: fold_drop_channel)
  fix n
  show "fold (\<lambda>kv. drop_channel c (snd kv)) (node_id_nodes P) (node_heap P) a = Some n \<Longrightarrow>
    (\<And>m. node_heap P a = Some m \<Longrightarrow> distinct (nci_channels m)) \<Longrightarrow> distinct (nci_channels n)"
    by (cases "node_heap P a") (auto simp: fold_drop_channel split: if_splits)
qed

lemma removeNodeChannel_node:
  assumes "map_of (node_id_nodes P) k = Some a"
  shows "node_heap (removeNodeChannel c P) a =
    map_option (\<lambda>n. n\<lparr>nci_channels := filter (\<lambda>d. d \<noteq> c) (nci_channels n)\<rparr>) (node_heap P a)"
  using map_of_SomeD [OF assms] by (force simp: removeNodeChannel_def fold_drop_channel)

lemma node_of_removeNodeChannel:
  "node_of (removeNodeChannel c P) k =
    map_option (\<lambda>n. n\<lparr>nci_channels := filter (\<lambda>d. d \<noteq> c) (nci_channels n)\<rparr>) (node_of P k)"
proof (cases "map_of (node_id_nodes P) k")
  case (Some a)
  then show ?thesis using removeNodeChannel_node [OF Some, of c]
    by (simp add: node_of_def removeNodeChannel_def)
qed (simp add: node_of_def removeNodeChannel_def)

lemma type_nodes_removeNodeChannel [simp]: "node_type_nodes (removeNodeChannel c P) = node_type_nodes P"
  by (simp add: removeNodeChannel_def)

section \<open>Commands\<close>

text \<open>The calls that change the directory, for statements about any history of it.\<close>

datatype peer_cmd =
    Save_node node_info
  | Remove_node string
  | Save_channel string u32
  | Remove_channel u32

fun peer_exec :: "(u32 \<Rightarrow> bool) \<Rightarrow> peer_cmd \<Rightarrow> peers \<Rightarrow> peers" where
  "peer_exec live (Save_node i) P = saveNode i P"
| "peer_exec live (Remove_node k) P = removeNode k P"
| "peer_exec live (Save_channel k c) P = saveNodeChannel live k c P"
| "peer_exec live (Remove_channel c) P = removeNodeChannel c P"

lemma peer_exec_inv: "peers_inv P \<Longrightarrow> peers_inv (peer_exec live cmd P)"
  by (cases cmd) (simp_all add: saveNode_inv removeNode_inv saveNodeChannel_inv removeNodeChannel_inv)

lemma peers_run_inv: "peers_inv P \<Longrightarrow> peers_inv (fold (peer_exec live) cmds P)"
  by (induction cmds arbitrary: P) (simp_all add: peer_exec_inv)

text \<open>C39. After any history of registrations and removals the two tables of the directory agree:
  keys are unique, every node registered under a service id is listed exactly once under its own type
  and the other way round, no type has an empty list, and no node holds a connection twice.\<close>

theorem directory_consistent: "peers_inv (fold (peer_exec live) cmds peers_empty)"
  by (rule peers_run_inv [OF peers_empty_inv])

lemma map_of_saveNode:
  "map_of (node_id_nodes (saveNode i P)) (ni_service_id i) \<noteq> None"
  by (cases "map_of (node_id_nodes P) (ni_service_id i)") (simp_all add: saveNode_def Let_def update_conv')

lemma getChannelsByType_member:
  assumes inv: "peers_inv P" and n: "node_of P k = Some n" and c: "c \<in> set (nci_channels n)" "\<not> is_closed c"
  shows "c \<in> set (getChannelsByType is_closed (ni_type (nci_node n)) P)"
proof -
  obtain a where a: "map_of (node_id_nodes P) k = Some a" "node_heap P a = Some n"
    using n by (cases "map_of (node_id_nodes P) k") (simp_all add: node_of_def)
  obtain m as where m: "node_heap P a = Some m" "ni_service_id (nci_node m) = k"
    "distinct (nci_channels m)" "map_of (node_type_nodes P) (ni_type (nci_node m)) = Some as" "a \<in> set as"
    by (rule peers_inv_id [OF inv a(1)])
  moreover have "n = m" using a(2) m(1) by simp
  ultimately show ?thesis using a(2) c unfolding getChannelsByType_def
    by (auto simp: getChannelsByType_def simp del: map_of_eq_Some_iff intro!: bexI [of _ a])
qed

lemma saveNodeChannel_node:
  assumes "node_of P k = Some n" "k \<noteq> []" "live c"
  shows "node_of (saveNodeChannel live k c P) k =
    Some (if c \<in> set (nci_channels n) then n else n\<lparr>nci_channels := nci_channels n @ [c]\<rparr>)"
  using assms
  by (cases "map_of (node_id_nodes P) k") (simp_all add: node_of_def saveNodeChannel_def)

lemma hand_shake_gives:
  assumes inv: "peers_inv P" and k: "ni_service_id i \<noteq> []" and live: "live c" and op: "\<not> is_closed c"
    and fresh: "\<And>n. node_of P (ni_service_id i) = Some n \<Longrightarrow> c \<notin> set (nci_channels n)"
  shows "\<exists>n. node_of (saveNode i P) (ni_service_id i) = Some n \<and>
    getChannelByServiceId is_closed (ni_service_id i)
      (saveNodeChannel live (ni_service_id i) c (saveNode i P)) = Some c \<and>
    c \<in> set (getChannelsByType is_closed (ni_type (nci_node n))
      (saveNodeChannel live (ni_service_id i) c (saveNode i P)))"
proof -
  let ?k = "ni_service_id i" and ?Q = "saveNode i P"
  let ?R = "saveNodeChannel live ?k c ?Q"
  have invQ: "peers_inv ?Q" by (rule saveNode_inv [OF inv])
  obtain a where a: "map_of (node_id_nodes ?Q) ?k = Some a" using map_of_saveNode [of i P] by auto
  obtain n as where n: "node_heap ?Q a = Some n" by (rule peers_inv_id [OF invQ a])
  have Q: "node_of ?Q ?k = Some n" using a n by (simp add: node_of_def)
  have "c \<notin> set (nci_channels n)"
  proof (cases "map_of (node_id_nodes P) ?k")
    case None
    then show ?thesis using a n by (auto simp: saveNode_def Let_def update_conv' simp del: map_of_eq_Some_iff)
  next
    case (Some b)
    then show ?thesis using fresh [of n] Q by (simp add: saveNode_known)
  qed
  then have R: "node_of ?R ?k = Some (n\<lparr>nci_channels := nci_channels n @ [c]\<rparr>)"
    using saveNodeChannel_node [OF Q k] live by simp
  have "getChannelByServiceId is_closed ?k ?R = Some c"
    using R op by (simp add: getChannelByServiceId_def)
  moreover have "c \<in> set (getChannelsByType is_closed (ni_type (nci_node n)) ?R)"
    using getChannelsByType_member [OF saveNodeChannel_inv [OF invQ] R] op by simp
  ultimately show ?thesis using Q by blast
qed

text \<open>The hand-shake of a peer makes it reachable: once its node is saved and its live, open
  connection registered, a look-up by service id gives this newest connection, and a broadcast to the
  type of the node includes it.\<close>

theorem hand_shake_registers:
  assumes inv: "peers_inv P" and k: "ni_service_id i \<noteq> []" and live: "live c" and op: "\<not> is_closed c"
    and fresh: "\<And>n. node_of P (ni_service_id i) = Some n \<Longrightarrow> c \<notin> set (nci_channels n)"
  shows "\<exists>n. node_of (saveNode i P) (ni_service_id i) = Some n \<and>
    getChannelByServiceId is_closed (ni_service_id i)
      (saveNodeChannel live (ni_service_id i) c (saveNode i P)) = Some c \<and>
    c \<in> set (getChannelsByType is_closed (ni_type (nci_node n))
      (saveNodeChannel live (ni_service_id i) c (saveNode i P)))"
  by (rule hand_shake_gives [where is_closed = is_closed and live = live, OF assms])

text \<open>A peer and a directory to evaluate on.\<close>

definition ex_node :: "string \<Rightarrow> i32 \<Rightarrow> node_info" where
  "ex_node k t = \<lparr>ni_service_id = k, ni_service_name = ''game'', ni_ip = ''10.0.0.1'', ni_type = t,
    ni_port = 80, ni_net_port = 81, ni_id = 1, ni_group_id = 1, ni_meta_data = [],
    ni_keep_alive_lease_id = 0\<rparr>"

definition ex_peers :: peers where
  "ex_peers = fold (peer_exec (\<lambda>c. c < 10))
    [Save_node (ex_node ''g1'' 3), Save_node (ex_node ''g2'' 3), Save_channel ''g2'' 5, Save_channel ''g2'' 6]
    peers_empty"

lemma ex_peers_inv: "peers_inv ex_peers"
  unfolding ex_peers_def by (rule peers_run_inv [OF peers_empty_inv])

lemma hand_shake_registers_witness:
  "getChannelByServiceId (\<lambda>c. False) ''g1'' (saveNodeChannel (\<lambda>c. c < 10) ''g1'' 7 (saveNode (ex_node ''g1'' 3) ex_peers))
    = Some 7"
proof -
  have n: "node_of ex_peers ''g1'' = Some \<lparr>nci_node = ex_node ''g1'' 3, nci_channels = []\<rparr>" by code_simp
  have "ni_service_id (ex_node ''g1'' 3) = ''g1''" by code_simp
  then show ?thesis
    using hand_shake_registers [OF ex_peers_inv, of "ex_node ''g1'' 3" "\<lambda>c. c < 10" 7 "\<lambda>c. False"] n
    by force
qed

lemma find_Some_mem: "List.find p xs = Some x \<Longrightarrow> x \<in> set xs \<and> p x"
  by (induction xs) (auto split: if_splits)

lemma type_nodes_after_removal:
  assumes inv: "peers_inv P" and t: "map_of (node_type_nodes P) t = Some as" and a: "a \<in> set as"
  shows "node_heap (removeNodeChannel c P) a =
    map_option (\<lambda>n. n\<lparr>nci_channels := filter (\<lambda>d. d \<noteq> c) (nci_channels n)\<rparr>) (node_heap P a)"
proof -
  obtain n where "node_heap P a = Some n" "ni_type (nci_node n) = t"
    and n: "map_of (node_id_nodes P) (ni_service_id (nci_node n)) = Some a"
    by (rule peers_inv_type [OF inv t a])
  from n show ?thesis by (rule removeNodeChannel_node)
qed

lemma getChannelsByType_removal:
  assumes inv: "peers_inv P"
  shows "getChannelsByType is_closed t (removeNodeChannel c P) =
    filter (\<lambda>d. d \<noteq> c) (getChannelsByType is_closed t P)"
proof (cases "map_of (node_type_nodes P) t")
  case (Some as)
  let ?f = "\<lambda>h. \<lambda>a. case h a of None \<Rightarrow> [] | Some n \<Rightarrow> filter (\<lambda>c. \<not> is_closed c) (nci_channels n)"
  have "?f (node_heap (removeNodeChannel c P)) a = filter (\<lambda>d. d \<noteq> c) (?f (node_heap P) a)" if "a \<in> set as" for a
    using type_nodes_after_removal [OF inv Some that, of c] by (cases "node_heap P a") (auto simp: conj_commute)
  then show ?thesis
    using Some by (simp add: getChannelsByType_def filter_concat comp_def cong: map_cong)
qed (simp add: getChannelsByType_def)

text \<open>C40. A closed connection is forgotten: after its removal no look-up gives it, and a broadcast
  reaches exactly the other connections it reached before, in the same order.\<close>

theorem closed_channel_forgotten:
  assumes inv: "peers_inv P" and rnd: "\<And>lo hi. lo \<le> hi \<Longrightarrow> lo \<le> getInt lo hi \<and> getInt lo hi \<le> hi"
  shows "getChannelByServiceId is_closed k (removeNodeChannel c P) \<noteq> Some c \<and>
    getRandomChannel getInt k (removeNodeChannel c P) \<noteq> Some c \<and>
    sendMsg_type t (removeNodeChannel c P) \<noteq> Some c \<and>
    getChannelsByType is_closed t (removeNodeChannel c P) =
      filter (\<lambda>d. d \<noteq> c) (getChannelsByType is_closed t P)"
proof (intro conjI)
  let ?R = "removeNodeChannel c P"
  have notin: "c \<notin> set (nci_channels n)" if "node_of ?R k = Some n" for n
    using that by (auto simp: node_of_removeNodeChannel)
  show "getChannelByServiceId is_closed k ?R \<noteq> Some c"
    using notin by (auto simp: getChannelByServiceId_def dest!: find_Some_mem split: option.splits)
  show "getRandomChannel getInt k ?R \<noteq> Some c"
  proof (cases "node_of ?R k")
    case (Some n)
    let ?cs = "nci_channels n"
    have "?cs ! nat (getInt 0 (int (length ?cs) - 1)) \<in> set ?cs" if "?cs \<noteq> []"
      using rnd [of 0 "int (length ?cs) - 1"] that by (intro nth_mem) (cases ?cs; simp add: less_Suc_eq_le nat_le_iff)
    moreover have "?cs ! 0 \<in> set ?cs" if "?cs \<noteq> []" using that by simp
    ultimately show ?thesis using Some notin [OF Some] by (auto simp: getRandomChannel_def Let_def)
  qed (simp add: getRandomChannel_def)
  show "sendMsg_type t ?R \<noteq> Some c"
  proof (cases "map_of (node_type_nodes P) t")
    case (Some as)
    show ?thesis
    proof (cases as)
      case (Cons a bs)
      have "c \<notin> set (nci_channels n)" if "node_heap ?R a = Some n" for n
        using type_nodes_after_removal [OF inv Some, of a c] that Cons by (cases "node_heap P a") auto
      then show ?thesis using Some Cons by (auto simp: sendMsg_type_def split: option.splits list.splits)
    qed (use Some in \<open>simp add: sendMsg_type_def\<close>)
  qed (simp add: sendMsg_type_def)
  show "getChannelsByType is_closed t ?R = filter (\<lambda>d. d \<noteq> c) (getChannelsByType is_closed t P)"
    by (rule getChannelsByType_removal [OF inv])
qed

lemma closed_channel_forgotten_witness:
  "getChannelsByType (\<lambda>c. False) 3 (removeNodeChannel 5 ex_peers) = [6]"
proof -
  have "getChannelsByType (\<lambda>c. False) 3 ex_peers = [5, 6]" by code_simp
  then show ?thesis
    using closed_channel_forgotten [OF ex_peers_inv, of "\<lambda>lo hi. lo" "\<lambda>c. False" "''g2''" 5 3] by simp
qed

text \<open>A send by type looks at the first connection of the first node of the type only. It
  reports failure while another node of the type has an open connection, and it uses a closed one
  while an open one is there.\<close>

theorem send_by_type_first_only:
  "\<exists>P Q t. peers_inv P \<and> getChannelsByType (\<lambda>c. c = 5) t P = [6] \<and> sendMsg_type t P = None \<and>
    peers_inv Q \<and> getChannelsByType (\<lambda>c. c = 5) t Q = [6] \<and> sendMsg_type t Q = Some 5"
proof (intro exI conjI)
  let ?Q = "removeNode ''g1'' ex_peers"
  show "peers_inv ex_peers" "peers_inv ?Q" by (simp_all add: ex_peers_inv removeNode_inv)
  show "getChannelsByType (\<lambda>c. c = 5) 3 ex_peers = [6]" "sendMsg_type 3 ex_peers = None"
    "getChannelsByType (\<lambda>c. c = 5) 3 ?Q = [6]" "sendMsg_type 3 ?Q = Some 5" by code_simp+
qed

end
