(* ===== verification/Object_Pool.thy ===== *)
theory Object_Pool
  imports Athena_Prelude
begin

text \<open>
  The object pool of src/core/common/ObjectPool.hpp, and what its users rely on as the locale
  \<open>exclusive_pool\<close>: an object in use is handed to nobody else and keeps its content. The chain of
  free nodes is the list of their objects, the chain of spare nodes is its length, and every member
  function is one step, as the pool's mutex makes it. Objects are addresses of a store.
\<close>

section \<open>The interface\<close>

text \<open>A user takes objects with their initial content and gives back those it has.\<close>

datatype 'v pool_cmd = Take 'v | Give nat

fun pool_run :: "('v \<Rightarrow> 's \<Rightarrow> nat \<times> 's) \<Rightarrow> (nat \<Rightarrow> 's \<Rightarrow> 's) \<Rightarrow> 'v pool_cmd list \<Rightarrow>
    's \<Rightarrow> (nat \<times> 'v) list \<Rightarrow> 's \<times> (nat \<times> 'v) list" where
  "pool_run acq rel [] s held = (s, held)"
| "pool_run acq rel (Take v # cs) s held =
    (case acq v s of (a, s') \<Rightarrow> pool_run acq rel cs s' ((a, v) # held))"
| "pool_run acq rel (Give a # cs) s held =
    (if a \<in> fst ` set held then pool_run acq rel cs (rel a s) (filter (\<lambda>(b, v). b \<noteq> a) held)
     else pool_run acq rel cs s held)"

locale exclusive_pool =
  fixes inv :: "'s \<Rightarrow> nat set \<Rightarrow> bool"
    and acq :: "'v \<Rightarrow> 's \<Rightarrow> nat \<times> 's"
    and rel :: "nat \<Rightarrow> 's \<Rightarrow> 's"
    and content :: "'s \<Rightarrow> nat \<Rightarrow> 'v option"
  assumes acq_inv: "inv s H \<Longrightarrow> acq v s = (a, s') \<Longrightarrow> inv s' (insert a H)"
    and acq_fresh: "inv s H \<Longrightarrow> acq v s = (a, s') \<Longrightarrow> a \<notin> H"
    and acq_content: "inv s H \<Longrightarrow> acq v s = (a, s') \<Longrightarrow> content s' a = Some v"
    and acq_keeps: "inv s H \<Longrightarrow> acq v s = (a, s') \<Longrightarrow> b \<in> H \<Longrightarrow> content s' b = content s b"
    and rel_inv: "inv s H \<Longrightarrow> a \<in> H \<Longrightarrow> inv (rel a s) (H - {a})"
    and rel_keeps: "content (rel a s) b = content s b"
begin

text \<open>What a user has: distinct objects, each with the content it was taken with.\<close>

definition holds :: "'s \<Rightarrow> (nat \<times> 'v) list \<Rightarrow> bool" where
  "holds s held \<longleftrightarrow> inv s (fst ` set held) \<and> distinct (map fst held) \<and>
    (\<forall>(a, v) \<in> set held. content s a = Some v)"

lemma holds_take:
  assumes h: "holds s held" and a: "acq v s = (a, s')"
  shows "holds s' ((a, v) # held)"
proof -
  have i: "inv s (fst ` set held)" using h by (simp add: holds_def)
  have "a \<notin> fst ` set held" by (rule acq_fresh [OF i a])
  moreover have "content s' b = content s b" if "b \<in> fst ` set held" for b by (rule acq_keeps [OF i a that])
  ultimately show ?thesis
    using h acq_inv [OF i a] acq_content [OF i a] by (fastforce simp: holds_def)
qed

lemma holds_give:
  assumes h: "holds s held" and a: "a \<in> fst ` set held"
  shows "holds (rel a s) (filter (\<lambda>(b, v). b \<noteq> a) held)"
proof -
  have "fst ` set (filter (\<lambda>(b, v). b \<noteq> a) held) = fst ` set held - {a}" by force
  moreover have "inv (rel a s) (fst ` set held - {a})" using h a by (intro rel_inv) (simp_all add: holds_def)
  moreover have "distinct (map fst (filter (\<lambda>(b, v). b \<noteq> a) held))"
    using h by (simp add: holds_def distinct_map_filter)
  ultimately show ?thesis using h by (auto simp: holds_def rel_keeps)
qed

lemma holds_run: "holds s held \<Longrightarrow> case pool_run acq rel cs s held of (s', held') \<Rightarrow> holds s' held'"
proof (induction cs arbitrary: s held)
  case (Cons c cs)
  show ?case
  proof (cases c)
    case (Take v)
    obtain a s' where a: "acq v s = (a, s')" by (cases "acq v s")
    show ?thesis using Cons.IH [OF holds_take [OF Cons.prems a]] by (simp add: Take a)
  next
    case (Give a)
    then show ?thesis using Cons.IH [OF holds_give [OF Cons.prems, of a]] Cons.IH [OF Cons.prems] by simp
  qed
qed simp

end

section \<open>The pool\<close>

record 'v pool =
  free_chain :: "nat list"
  spare_nodes :: nat
  owned_objects :: "nat list"
  owned_nodes :: nat
  free_count :: nat
  alloc_count_obj :: nat
  alloc_count_node :: nat
  hit_count :: nat
  miss_count :: nat
  max_size :: nat
  pool_debug :: bool
  objects :: "nat \<Rightarrow> 'v option"
  next_obj :: nat

text \<open>Allocated objects get ascending addresses.\<close>

fun reserve :: "'v \<Rightarrow> nat \<Rightarrow> 'v pool \<Rightarrow> 'v pool" where
  "reserve dflt 0 P = P"
| "reserve dflt (Suc n) P =
    (let obj = next_obj P in
     reserve dflt n (P\<lparr>next_obj := obj + 1, objects := (objects P)(obj \<mapsto> dflt),
       owned_objects := owned_objects P @ [obj], owned_nodes := owned_nodes P + 1,
       free_chain := obj # free_chain P, free_count := free_count P + 1,
       alloc_count_obj := alloc_count_obj P + 1, alloc_count_node := alloc_count_node P + 1\<rparr>))"

definition pool_new :: "'v \<Rightarrow> nat \<Rightarrow> nat \<Rightarrow> 'v pool" where
  "pool_new dflt initial maxSize =
    reserve dflt initial \<lparr>free_chain = [], spare_nodes = 0, owned_objects = [], owned_nodes = 0,
      free_count = 0, alloc_count_obj = 0, alloc_count_node = 0, hit_count = 0, miss_count = 0,
      max_size = maxSize, pool_debug = False, objects = (\<lambda>a. None), next_obj = 0\<rparr>"

definition acquire :: "'v \<Rightarrow> 'v pool \<Rightarrow> nat \<times> 'v pool" where
  "acquire v P =
    (case free_chain P of
       obj # rest \<Rightarrow>
         (obj, P\<lparr>free_chain := rest, spare_nodes := spare_nodes P + 1, free_count := free_count P - 1,
            hit_count := hit_count P + 1, objects := (objects P)(obj \<mapsto> v)\<rparr>)
     | [] \<Rightarrow>
         let obj = next_obj P in
         (obj, P\<lparr>miss_count := miss_count P + 1, next_obj := obj + 1, objects := (objects P)(obj \<mapsto> v),
            owned_objects := owned_objects P @ [obj], alloc_count_obj := alloc_count_obj P + 1\<rparr>))"

text \<open>\<open>node_ok\<close>: whether a new node can be allocated; the null pointer is \<open>None\<close>.\<close>

definition release :: "bool \<Rightarrow> nat option \<Rightarrow> 'v pool \<Rightarrow> 'v pool" where
  "release node_ok ptr P =
    (case ptr of
       None \<Rightarrow> P
     | Some obj \<Rightarrow>
         if pool_debug P \<and> obj \<in> set (free_chain P) then P
         else if max_size P > 0 \<and> free_count P \<ge> max_size P then P
         else if spare_nodes P > 0 then
           P\<lparr>spare_nodes := spare_nodes P - 1, free_chain := obj # free_chain P, free_count := free_count P + 1\<rparr>
         else if \<not> node_ok then P
         else P\<lparr>alloc_count_node := alloc_count_node P + 1,
                free_chain := obj # free_chain P, free_count := free_count P + 1\<rparr>)"

text \<open>The owning handle: its object and whether it still has a pool.\<close>

record pool_ref =
  ref_obj :: "nat option"
  ref_pool :: bool

definition acquire_ref :: "'v \<Rightarrow> 'v pool \<Rightarrow> pool_ref \<times> 'v pool" where
  "acquire_ref v P = (case acquire v P of (a, P') \<Rightarrow> (\<lparr>ref_obj = Some a, ref_pool = True\<rparr>, P'))"

definition ref_release :: "bool \<Rightarrow> pool_ref \<Rightarrow> 'v pool \<Rightarrow> pool_ref \<times> 'v pool" where
  "ref_release node_ok r P =
    (if ref_obj r \<noteq> None \<and> ref_pool r
     then (\<lparr>ref_obj = None, ref_pool = False\<rparr>, release node_ok (ref_obj r) P) else (r, P))"

text \<open>Moving returns the new handle and the one moved from.\<close>

definition ref_move :: "pool_ref \<Rightarrow> pool_ref \<times> pool_ref" where
  "ref_move r = (r, \<lparr>ref_obj = None, ref_pool = False\<rparr>)"

definition ref_move_assign :: "bool \<Rightarrow> pool_ref \<Rightarrow> pool_ref \<Rightarrow> 'v pool \<Rightarrow> pool_ref \<times> pool_ref \<times> 'v pool" where
  "ref_move_assign node_ok this src P =
    (case ref_release node_ok this P of
       (_, P') \<Rightarrow> (src, \<lparr>ref_obj = None, ref_pool = False\<rparr>, P'))"

section \<open>The pool keeps its contract\<close>

text \<open>Free objects and those in use are disjoint, owned, and allocated; the counters say what they
  name; the chain respects its bound.\<close>

definition pool_inv :: "'v pool \<Rightarrow> nat set \<Rightarrow> bool" where
  "pool_inv P H \<longleftrightarrow>
    distinct (free_chain P) \<and> set (free_chain P) \<inter> H = {} \<and>
    set (free_chain P) \<union> H \<subseteq> set (owned_objects P) \<and> distinct (owned_objects P) \<and>
    (\<forall>a \<in> set (owned_objects P). a < next_obj P) \<and>
    free_count P = length (free_chain P) \<and> alloc_count_obj P = length (owned_objects P) \<and>
    alloc_count_node P = length (free_chain P) + spare_nodes P"

lemma reserve_inv: "pool_inv P H \<Longrightarrow> pool_inv (reserve dflt n P) H"
proof (induction n arbitrary: P)
  case (Suc n)
  have "next_obj P \<notin> set (owned_objects P)" using Suc.prems by (auto simp: pool_inv_def)
  then have "next_obj P \<notin> set (free_chain P) \<union> H" using Suc.prems by (auto simp: pool_inv_def)
  then show ?case using Suc.prems \<open>next_obj P \<notin> set (owned_objects P)\<close>
    by (simp add: Let_def) (rule Suc.IH, fastforce simp: pool_inv_def)
qed simp

lemma pool_new_inv: "pool_inv (pool_new dflt n m) {}"
  unfolding pool_new_def by (rule reserve_inv) (simp add: pool_inv_def)

lemma acquire_inv:
  assumes "pool_inv P H" "acquire v P = (a, P')"
  shows "pool_inv P' (insert a H)" "a \<notin> H" "objects P' a = Some v" "b \<in> H \<Longrightarrow> objects P' b = objects P b"
proof -
  have n: "next_obj P \<notin> set (owned_objects P)" using assms(1) by (auto simp: pool_inv_def)
  have "pool_inv P' (insert a H) \<and> a \<notin> H \<and> objects P' a = Some v \<and> (b \<in> H \<longrightarrow> objects P' b = objects P b)"
  proof (cases "free_chain P")
    case Nil
    then show ?thesis using assms n by (auto simp: acquire_def Let_def pool_inv_def less_Suc_eq)
  next
    case (Cons obj rest)
    then show ?thesis using assms by (auto simp: acquire_def pool_inv_def)
  qed
  then show "pool_inv P' (insert a H)" "a \<notin> H" "objects P' a = Some v"
    "b \<in> H \<Longrightarrow> objects P' b = objects P b" by simp_all
qed

lemma release_inv: "pool_inv P H \<Longrightarrow> a \<in> H \<Longrightarrow> pool_inv (release ok (Some a) P) (H - {a})"
  by (auto simp: release_def pool_inv_def)

lemma release_objects [simp]: "objects (release ok p P) = objects P"
  by (auto simp: release_def split: option.splits)

interpretation object_pool: exclusive_pool pool_inv acquire "\<lambda>a. release ok (Some a)" objects for ok
  by unfold_locales (auto simp: release_inv intro: acquire_inv dest: acquire_inv(2,4))

text \<open>C38. For every sequence of takes and gives, a user of the pool holds distinct objects, none of
  them is in the free chain, and each still has the content it was constructed with.\<close>

theorem pool_exclusive:
  assumes run: "pool_run acquire (\<lambda>a. release ok (Some a)) cs (pool_new dflt n m) [] = (P, held)"
  shows "distinct (map fst held) \<and> set (free_chain P) \<inter> fst ` set held = {} \<and>
    (\<forall>(a, v) \<in> set held. objects P a = Some v) \<and> free_count P = length (free_chain P)"
proof -
  have "object_pool.holds (pool_new dflt n m) []" by (simp add: object_pool.holds_def pool_new_inv)
  from object_pool.holds_run [OF this, of ok cs] run show ?thesis
    by (auto simp: object_pool.holds_def pool_inv_def)
qed

lemma pool_exclusive_witness:
  "\<exists>P held. pool_run acquire (\<lambda>a. release True (Some a)) [Take (7 :: nat), Take 8, Give 0, Take 9]
      (pool_new 0 1 4) [] = (P, held) \<and> map fst held = [0, 1] \<and> distinct (map fst held)"
proof -
  obtain P held where r: "pool_run acquire (\<lambda>a. release True (Some a)) [Take (7 :: nat), Take 8, Give 0, Take 9]
      (pool_new 0 1 4) [] = (P, held)" by (cases "pool_run acquire (\<lambda>a. release True (Some a)) [Take (7 :: nat), Take 8, Give 0, Take 9]
      (pool_new 0 1 4) []")
  moreover have "map fst (snd (pool_run acquire (\<lambda>a. release True (Some a)) [Take (7 :: nat), Take 8, Give 0, Take 9]
      (pool_new 0 1 4) [])) = [0, 1]" by code_simp
  ultimately show ?thesis using pool_exclusive [OF r] by auto
qed

text \<open>The chain of free objects never grows beyond a bound that was set, and an object given
  back twice is refused in debug mode and handed to two users without it.\<close>

theorem release_bounds:
  assumes inv: "pool_inv P H"
  shows "(max_size P > 0 \<longrightarrow> length (free_chain P) \<le> max_size P \<longrightarrow>
      length (free_chain (release ok p P)) \<le> max_size P) \<and>
    (pool_debug P \<longrightarrow> a \<in> set (free_chain P) \<longrightarrow> release ok (Some a) P = P) \<and>
    (\<not> pool_debug P \<longrightarrow> free_chain P = a # rest \<longrightarrow> spare_nodes P > 0 \<longrightarrow>
      max_size P = 0 \<or> length (free_chain P) < max_size P \<longrightarrow>
      (let Q = release ok (Some a) P; (b, Q1) = acquire v Q; (c, Q2) = acquire w Q1 in b = a \<and> c = a))"
  using inv by (auto simp: release_def acquire_def pool_inv_def Let_def split: option.splits list.splits)

definition ex_pool :: "nat pool" where
  "ex_pool = fst (pool_run acquire (\<lambda>a. release True (Some a)) [Take 7, Take 8, Give 0] (pool_new 0 2 4) [])"

lemma ex_pool_inv: "pool_inv ex_pool {1}"
proof -
  let ?r = "pool_run acquire (\<lambda>a. release True (Some a)) [Take (7 :: nat), Take 8, Give 0] (pool_new 0 2 4) []"
  have "object_pool.holds (pool_new (0 :: nat) 2 4) []" by (simp add: object_pool.holds_def pool_new_inv)
  from object_pool.holds_run [OF this, of True "[Take 7, Take 8, Give 0]"]
  have "pool_inv (fst ?r) (fst ` set (snd ?r))" by (simp add: object_pool.holds_def case_prod_beta)
  moreover have "snd ?r = [(1, 7)]" by code_simp
  ultimately show ?thesis by (simp add: ex_pool_def)
qed

lemma release_bounds_witness:
  "fst (acquire 5 (release True (Some 0) ex_pool)) = 0 \<and>
    fst (acquire 6 (snd (acquire 5 (release True (Some 0) ex_pool)))) = 0"
proof -
  have "max_size ex_pool = 4" "free_chain ex_pool = [0]" "spare_nodes ex_pool = 1"
    "pool_debug ex_pool = False" by code_simp+
  then show ?thesis
    using release_bounds [OF ex_pool_inv, of True None 0 "[]" 5 6] by (simp add: Let_def case_prod_beta)
qed

end
