(* ===== verification/Snowflake.thy ===== *)
theory Snowflake
  imports Athena_Prelude
begin

unbundle bit_operations_syntax

text \<open>
  The id generator of src/core/utils/Snowflake.h. The clock is the sequence of its readings, in the
  order the generator takes them, and a call says how many it took; waiting for the clock is
  \<open>partial_function\<close>, so a call that never returns is \<open>None\<close>. Times and ids are 64-bit words compared as signed.
\<close>

section \<open>Layout\<close>

definition WORKER_ID_BITS :: nat where "WORKER_ID_BITS = 10"
definition SEQUENCE_BITS :: nat where "SEQUENCE_BITS = 12"
definition MAX_WORKER_ID :: i64 where "MAX_WORKER_ID = push_bit WORKER_ID_BITS 1 - 1"
definition SEQUENCE_MASK :: i64 where "SEQUENCE_MASK = push_bit SEQUENCE_BITS 1 - 1"
definition WORKER_ID_SHIFT :: nat where "WORKER_ID_SHIFT = SEQUENCE_BITS"
definition TIMESTAMP_SHIFT :: nat where "TIMESTAMP_SHIFT = SEQUENCE_BITS + WORKER_ID_BITS"
definition EPOCH :: i64 where "EPOCH = 1577836800000"

lemmas sf_layout = WORKER_ID_BITS_def SEQUENCE_BITS_def WORKER_ID_SHIFT_def TIMESTAMP_SHIFT_def

record snowflake =
  worker_id :: i64
  last_timestamp :: i64
  sequence :: i64

text \<open>Construction asserts the worker id (\<open>None\<close> is the failed assertion).\<close>

definition snowflake_new :: "i64 \<Rightarrow> snowflake option" where
  "snowflake_new workerId =
    (if 0 \<le>s workerId \<and> workerId \<le>s MAX_WORKER_ID
     then Some \<lparr>worker_id = workerId, last_timestamp = 0, sequence = 0\<rparr> else None)"

text \<open>The process-wide instance: a second initialisation is refused.\<close>

definition sf_init :: "i64 \<Rightarrow> snowflake option \<Rightarrow> (bool \<times> snowflake option) option" where
  "sf_init workerId inst =
    (case inst of
       Some s \<Rightarrow> Some (False, inst)
     | None \<Rightarrow> map_option (\<lambda>s. (True, Some s)) (snowflake_new workerId))"

section \<open>Generation\<close>

text \<open>Readings are taken from position \<open>p\<close> on until one is acceptable.\<close>

partial_function (option) spin_until :: "(i64 \<Rightarrow> bool) \<Rightarrow> (nat \<Rightarrow> i64) \<Rightarrow> nat \<Rightarrow> (i64 \<times> nat) option" where
  "spin_until ok clk p = (if ok (clk p) then Some (clk p, p + 1) else spin_until ok clk (p + 1))"

declare spin_until.simps [code]

definition make_id :: "i64 \<Rightarrow> i64 \<Rightarrow> i64 \<Rightarrow> i64" where
  "make_id timestamp worker q =
    push_bit TIMESTAMP_SHIFT (timestamp - EPOCH) OR push_bit WORKER_ID_SHIFT worker OR q"

definition nextIdImp :: "(nat \<Rightarrow> i64) \<Rightarrow> nat \<Rightarrow> snowflake \<Rightarrow> (i64 \<times> nat \<times> snowflake) option" where
  "nextIdImp clk p s =
    (case spin_until (\<lambda>t. \<not> t <s last_timestamp s) clk p of
       None \<Rightarrow> None
     | Some (timestamp, p) \<Rightarrow>
         (case (if timestamp = last_timestamp s then
                  let q = (sequence s + 1) AND SEQUENCE_MASK in
                  if q = 0 then
                    map_option (\<lambda>(timestamp, p). (timestamp, p, q))
                      (spin_until (\<lambda>t. \<not> t \<le>s last_timestamp s) clk p)
                  else Some (timestamp, p, q)
                else Some (timestamp, p, 0)) of
            None \<Rightarrow> None
          | Some (timestamp, p, q) \<Rightarrow>
              Some (make_id timestamp (worker_id s) q, p,
                s\<lparr>last_timestamp := timestamp, sequence := q\<rparr>)))"

definition getTimestamp :: "i64 \<Rightarrow> i64" where
  "getTimestamp i = signed_drop_bit TIMESTAMP_SHIFT i + EPOCH"

fun nextIds :: "(nat \<Rightarrow> i64) \<Rightarrow> nat \<Rightarrow> snowflake \<Rightarrow> nat \<Rightarrow> (i64 list \<times> nat \<times> snowflake) option" where
  "nextIds clk p s 0 = Some ([], p, s)"
| "nextIds clk p s (Suc n) =
    (case nextIdImp clk p s of
       None \<Rightarrow> None
     | Some (i, p', s') \<Rightarrow>
         (case nextIds clk p' s' n of None \<Rightarrow> None | Some (is', p'', s'') \<Rightarrow> Some (i # is', p'', s'')))"

section \<open>Waiting\<close>

lemma spin_until_sound:
  assumes "spin_until ok clk p = Some r"
  shows "ok (fst r) \<and> p < snd r \<and> (\<exists>j. fst r = clk j)"
proof (rule spin_until.raw_induct [of "\<lambda>ok clk p r. ok (fst r) \<and> p < snd r \<and> (\<exists>j. fst r = clk j)", OF _ assms])
  fix spin ok clk and p :: nat and r
  assume IH: "\<And>ok clk p r. spin ok clk p = Some r \<Longrightarrow> ok (fst r) \<and> p < snd r \<and> (\<exists>j. fst r = clk j)"
    and r: "(if ok (clk p) then Some (clk p, p + 1) else spin ok clk (p + 1)) = Some r"
  show "ok (fst r) \<and> p < snd r \<and> (\<exists>j. fst r = clk j)"
    using r IH [of ok clk "p + 1" r] by (cases "ok (clk p)") auto
qed

lemma spin_until_total:
  assumes "ok (clk j)" "p \<le> j"
  shows "\<exists>t p'. spin_until ok clk p = Some (t, p') \<and> p' \<le> j + 1"
  using assms(2)
proof (induction "j - p" arbitrary: p)
  case 0
  then have "p = j" by simp
  then show ?case using assms(1) by (subst spin_until.simps) simp
next
  case (Suc n)
  show ?case
  proof (cases "ok (clk p)")
    case True
    then show ?thesis using Suc by (subst spin_until.simps) simp
  next
    case False
    then have "p \<noteq> j" using assms(1) by auto
    then have "\<exists>t p'. spin_until ok clk (Suc p) = Some (t, p') \<and> p' \<le> j + 1" using Suc by (intro Suc.hyps) simp_all
    then show ?thesis using False by (subst spin_until.simps) simp
  qed
qed

section \<open>The layout of an id\<close>

lemma bit_below: "uint (x :: i64) < 2 ^ n \<Longrightarrow> bit x j \<Longrightarrow> j < n"
proof (rule ccontr)
  assume x: "uint x < 2 ^ n" "bit x j" "\<not> j < n"
  then have "x = take_bit n x" by (simp add: word_uint_eq_iff unsigned_take_bit_eq take_bit_int_eq_self)
  then show False using x(2,3) by (metis bit_take_bit_iff)
qed

lemma make_id_uint:
  assumes t: "uint (t - EPOCH) < 2 ^ 41" and w: "uint w < 2 ^ 10" and q: "uint q < 2 ^ 12"
  shows "uint (make_id t w q) = uint (t - EPOCH) * 2 ^ 22 + uint w * 2 ^ 12 + uint q"
proof -
  let ?a = "push_bit 22 (t - EPOCH)" and ?b = "push_bit 12 w"
  have "?a AND (?b OR q) = 0" "?b AND q = 0"
    by (auto simp: bit_eq_iff bit_simps dest!: bit_below [OF t] bit_below [OF w] bit_below [OF q])
  then have "make_id t w q = ?a + (?b + q)"
    by (simp add: make_id_def sf_layout disjunctive_add_eq_or or.assoc)
  moreover have "uint (push_bit 22 d + (push_bit 12 w + q)) = uint d * 2 ^ 22 + uint w * 2 ^ 12 + uint q"
    if "uint d < 2 ^ 41" for d :: i64
    using that w q by (simp add: push_bit_eq_mult uint_word_ariths)
  ultimately show ?thesis using t by simp
qed

text \<open>Milliseconds since the epoch of the layout; a reading in range is less than 2^41 of them.\<close>

definition age :: "i64 \<Rightarrow> int" where "age t = sint t - sint EPOCH"

definition in_era :: "i64 \<Rightarrow> bool" where "in_era t \<longleftrightarrow> 0 \<le> age t \<and> age t < 2 ^ 41"

lemma era_uint: "in_era t \<Longrightarrow> uint (t - EPOCH) = age t"
proof -
  assume "in_era t"
  then have "0 \<le> sint t - 1577836800000" "sint t - 1577836800000 < 2 ^ 41"
    by (simp_all add: in_era_def age_def EPOCH_def)
  moreover have "t - EPOCH = word_of_int (sint t - 1577836800000)" by (simp add: EPOCH_def)
  then have "uint (t - EPOCH) = (sint t - 1577836800000) mod 2 ^ LENGTH(64)"
    by (simp only: uint_word_of_int)
  ultimately have "uint (t - EPOCH) = sint t - 1577836800000" using \<open>in_era t\<close>
    by (simp add: in_era_def age_def EPOCH_def)
  then show ?thesis by (simp add: age_def EPOCH_def)
qed

lemma sint_below:
  assumes "uint (x :: i64) < 2 ^ 63"
  shows "sint x = uint x"
proof -
  have "sint x = signed_take_bit 63 (uint x)" by (simp add: sint_uint)
  also have "\<dots> = uint x"
    using assms by (intro signed_take_bit_int_eq_self) (auto intro: order_trans [of _ 0])
  finally show ?thesis .
qed

lemma make_id_sint:
  assumes t: "in_era t" and w: "uint w < 2 ^ 10" and q: "uint q < 2 ^ 12"
  shows "sint (make_id t w q) = age t * 2 ^ 22 + uint w * 2 ^ 12 + uint q"
proof -
  have "uint (make_id t w q) = age t * 2 ^ 22 + uint w * 2 ^ 12 + uint q"
    using make_id_uint [of t w q] t w q by (simp add: era_uint in_era_def)
  moreover have "age t \<le> 2 ^ 41 - 1" using t by (simp add: in_era_def)
  ultimately show ?thesis using w q by (simp add: sint_below)
qed

section \<open>One call\<close>

definition sf_inv :: "snowflake \<Rightarrow> bool" where
  "sf_inv s \<longleftrightarrow> uint (worker_id s) < 2 ^ 10 \<and> uint (sequence s) < 2 ^ 12 \<and>
    (last_timestamp s = 0 \<or> in_era (last_timestamp s))"

text \<open>The state as a number: what the last id was, once there is one.\<close>

definition sf_code :: "snowflake \<Rightarrow> int" where
  "sf_code s = age (last_timestamp s) * 2 ^ 22 + uint (worker_id s) * 2 ^ 12 + uint (sequence s)"

lemma sequence_next: "uint q < 2 ^ 12 \<Longrightarrow> uint ((q + 1) AND SEQUENCE_MASK) = (uint q + 1) mod 2 ^ 12"
proof -
  have m: "SEQUENCE_MASK = mask 12" by (simp add: SEQUENCE_MASK_def SEQUENCE_BITS_def mask_eq_exp_minus_1)
  assume "uint q < 2 ^ 12"
  then have "uint (q + 1) = uint q + 1" by (simp add: uint_word_ariths)
  moreover have "uint ((q + 1) AND mask 12) = take_bit 12 (uint (q + 1))"
    by (simp only: flip: take_bit_eq_mask) (simp add: unsigned_take_bit_eq)
  ultimately show ?thesis by (simp add: m take_bit_eq_mod)
qed

lemma nextIdImp_step:
  assumes inv: "sf_inv s" and clk: "\<And>j. in_era (clk j)" and r: "nextIdImp clk p s = Some (i, p', s')"
  shows "sf_inv s' \<and> worker_id s' = worker_id s \<and> in_era (last_timestamp s') \<and>
    i = make_id (last_timestamp s') (worker_id s') (sequence s') \<and> sint i = sf_code s' \<and>
    sf_code s < sf_code s' \<and> p < p'"
proof -
  let ?l = "last_timestamp s" and ?t' = "last_timestamp s'" and ?q' = "sequence s'"
  obtain t p1 where sp: "spin_until (\<lambda>t. \<not> t <s ?l) clk p = Some (t, p1)"
    using r by (auto simp: nextIdImp_def split: option.splits)
  have t: "sint ?l \<le> sint t" "in_era t" "p < p1"
    using spin_until_sound [OF sp] clk by (auto simp: word_sless_alt not_less)
  have key: "worker_id s' = worker_id s \<and> in_era ?t' \<and> i = make_id ?t' (worker_id s) ?q' \<and> p < p' \<and>
     (sint ?l < sint ?t' \<and> ?q' = 0 \<or> ?l = ?t' \<and> uint ?q' = uint (sequence s) + 1) \<and> uint ?q' < 2 ^ 12"
  proof (cases "t = ?l")
    case False
    then have "sint ?l < sint t" using t(1) by (metis order_le_less signed_word_eqI)
    then show ?thesis using r sp t False by (auto simp: nextIdImp_def)
  next
    case True
    let ?q = "(sequence s + 1) AND SEQUENCE_MASK"
    have q: "uint ?q = (uint (sequence s) + 1) mod 2 ^ 12" using inv by (intro sequence_next) (simp add: sf_inv_def)
    show ?thesis
    proof (cases "?q = 0")
      case True
      then obtain t2 p2 where sp2: "spin_until (\<lambda>t. \<not> t \<le>s ?l) clk p1 = Some (t2, p2)"
        using r sp \<open>t = ?l\<close> by (auto simp: nextIdImp_def Let_def split: option.splits)
      then have "sint ?l < sint t2" "in_era t2" "p1 < p2"
        using spin_until_sound [OF sp2] clk by (auto simp: word_sle_eq not_le)
      then show ?thesis using r sp sp2 \<open>t = ?l\<close> True t by (auto simp: nextIdImp_def Let_def)
    next
      case False
      then have "uint ?q \<noteq> 0" by (simp only: uint_0_iff not_False_eq_True)
      then have "uint ?q = uint (sequence s) + 1 \<and> uint ?q < 2 ^ 12"
        using q inv by (cases "uint (sequence s) + 1 = 2 ^ 12") (simp_all add: sf_inv_def)
      then show ?thesis using r sp \<open>t = ?l\<close> False t by (auto simp: nextIdImp_def Let_def)
    qed
  qed
  have w: "uint (worker_id s) < 2 ^ 10" "uint (sequence s) < 2 ^ 12" using inv by (simp_all add: sf_inv_def)
  have i: "sint i = sf_code s'"
    using key w by (simp add: sf_code_def make_id_sint)
  have a: "sint ?l < sint ?t' \<Longrightarrow> age ?l + 1 \<le> age ?t'" by (simp add: age_def)
  have "sf_code s < sf_code s'"
    using key
  proof (elim conjE disjE)
    assume "sint ?l < sint ?t'" "?q' = 0" "worker_id s' = worker_id s"
    then show ?thesis using a w(2) by (simp add: sf_code_def)
  next
    assume "?l = ?t'" "uint ?q' = uint (sequence s) + 1" "worker_id s' = worker_id s"
    then show ?thesis by (simp add: sf_code_def)
  qed
  then show ?thesis using key w i by (simp add: sf_inv_def)
qed

section \<open>Many calls\<close>

lemma snowflake_new_inv: "snowflake_new w = Some s \<Longrightarrow> sf_inv s \<and> worker_id s = w"
proof -
  assume s: "snowflake_new w = Some s"
  then have "0 \<le> sint w" "sint w \<le> 1023" "s = \<lparr>worker_id = w, last_timestamp = 0, sequence = 0\<rparr>"
    by (auto simp: snowflake_new_def word_sle_eq MAX_WORKER_ID_def sf_layout split: if_splits)
  moreover from this have "uint w = sint w" by (simp add: uint_sint take_bit_int_eq_self)
  ultimately show ?thesis by (simp add: sf_inv_def)
qed

lemma nextIds_step:
  assumes clk: "\<And>j. in_era (clk j)"
  shows "sf_inv s \<Longrightarrow> nextIds clk p s n = Some (ids, p', s') \<Longrightarrow>
    sf_inv s' \<and> length ids = n \<and> sorted_wrt (\<lambda>a b. a <s b) ids \<and>
    (\<forall>i \<in> set ids. sf_code s < sint i \<and> sint i \<le> sf_code s' \<and>
      (\<exists>t q. in_era t \<and> uint q < 2 ^ 12 \<and> i = make_id t (worker_id s) q)) \<and>
    sf_code s \<le> sf_code s' \<and> worker_id s' = worker_id s"
proof (induction n arbitrary: p s ids)
  case (Suc n)
  obtain i p1 s1 where i: "nextIdImp clk p s = Some (i, p1, s1)"
    using Suc.prems by (auto split: option.splits)
  then obtain js where js: "nextIds clk p1 s1 n = Some (js, p', s')" "ids = i # js"
    using Suc.prems by (auto split: option.splits)
  note st = nextIdImp_step [OF Suc.prems(1) clk i]
  have "uint (sequence s1) < 2 ^ 12" using st by (simp add: sf_inv_def)
  then have e: "\<exists>t q. in_era t \<and> uint q < 2 ^ 12 \<and> i = make_id t (worker_id s) q" using st by metis
  have IH: "sf_inv s' \<and> length js = n \<and> sorted_wrt (\<lambda>a b. a <s b) js \<and>
    (\<forall>i \<in> set js. sf_code s1 < sint i \<and> sint i \<le> sf_code s' \<and>
      (\<exists>t q. in_era t \<and> uint q < 2 ^ 12 \<and> i = make_id t (worker_id s) q)) \<and>
    sf_code s1 \<le> sf_code s' \<and> worker_id s' = worker_id s"
    using Suc.IH [of s1 p1 js] st js(1) by simp
  have "sf_code s < sint x" if "x \<in> set js" for x using IH st that by fastforce
  moreover have "sint i = sf_code s1" "sf_code s < sf_code s1" using st by blast+
  ultimately show ?case using IH e by (auto simp: js(2) word_sless_alt)
qed auto

lemma getTimestamp_make_id:
  assumes t: "in_era t" and w: "uint w < 2 ^ 10" and q: "uint q < 2 ^ 12"
  shows "getTimestamp (make_id t w q) = t" "0 \<le>s make_id t w q"
proof -
  have s: "sint (make_id t w q) = age t * 2 ^ 22 + uint w * 2 ^ 12 + uint q" by (rule make_id_sint [OF assms])
  moreover have "(age t * 2 ^ 22 + uint w * 2 ^ 12 + uint q) div 2 ^ 22 = age t"
  proof -
    have "(uint w * 2 ^ 12 + uint q) div 2 ^ 22 = 0" using w q by (intro div_pos_pos_trivial) simp_all
    then show ?thesis using div_mult_self3 [of "2 ^ 22 :: int" "age t" "uint w * 2 ^ 12 + uint q"]
      by (simp add: add.assoc)
  qed
  ultimately have "sint (make_id t w q) div 2 ^ 22 = age t" by simp
  then have "sint (signed_drop_bit 22 (make_id t w q)) = age t"
    by (simp add: sint_signed_drop_bit_eq drop_bit_eq_div)
  moreover have "sint (t - EPOCH) = age t"
    using era_uint [OF t] t by (simp add: sint_below in_era_def)
  ultimately have "signed_drop_bit 22 (make_id t w q) = t - EPOCH" by (metis signed_word_eqI)
  then show "getTimestamp (make_id t w q) = t" by (simp add: getTimestamp_def sf_layout)
  show "0 \<le>s make_id t w q" using t by (simp add: word_sle_eq s in_era_def)
qed

lemma digit_eq: "(a :: int) * 2 ^ 12 + b = c * 2 ^ 12 + d \<Longrightarrow> 0 \<le> b \<Longrightarrow> b < 2 ^ 12 \<Longrightarrow> 0 \<le> d \<Longrightarrow> d < 2 ^ 12 \<Longrightarrow> a = c"
  by simp

lemma sless_sorted_distinct: "sorted_wrt (\<lambda>a b. a <s b) ids \<Longrightarrow> distinct (ids :: i64 list)"
  by (induction ids) (auto simp: word_sless_alt)


text \<open>C16. Two generators with different workers never make the same id.\<close>

theorem ids_of_workers_differ:
  assumes new: "snowflake_new w1 = Some s1" "snowflake_new w2 = Some s2" and w: "w1 \<noteq> w2"
    and clk: "\<And>j. in_era (clk1 j)" "\<And>j. in_era (clk2 j)"
    and run: "nextIds clk1 p1 s1 n1 = Some (ids1, q1, r1)" "nextIds clk2 p2 s2 n2 = Some (ids2, q2, r2)"
  shows "set ids1 \<inter> set ids2 = {}"
proof -
  have s: "sf_inv s1" "worker_id s1 = w1" "sf_inv s2" "worker_id s2 = w2"
    using snowflake_new_inv new by blast+
  have b: "uint w1 < 2 ^ 10" "uint w2 < 2 ^ 10" using s by (simp_all add: sf_inv_def)
  have False if i: "i \<in> set ids1" "i \<in> set ids2" for i
  proof -
    obtain t1 q1 where 1: "in_era t1" "uint q1 < 2 ^ 12" "i = make_id t1 w1 q1"
      using nextIds_step [OF clk(1) s(1) run(1)] i(1) s(2) by blast
    obtain t2 q2 where 2: "in_era t2" "uint q2 < 2 ^ 12" "i = make_id t2 w2 q2"
      using nextIds_step [OF clk(2) s(3) run(2)] i(2) s(4) by blast
    have "age t1 * 2 ^ 22 + uint w1 * 2 ^ 12 + uint q1 = age t2 * 2 ^ 22 + uint w2 * 2 ^ 12 + uint q2"
      using make_id_sint [OF 1(1) b(1) 1(2)] make_id_sint [OF 2(1) b(2) 2(2)] 1(3) 2(3) by simp
    moreover have "age t1 = age t2"
      using 1 2 getTimestamp_make_id(1) b by metis
    ultimately have "uint w1 * 2 ^ 12 + uint q1 = uint w2 * 2 ^ 12 + uint q2" by simp
    then have "uint w1 = uint w2" 
      by (rule digit_eq) (use 1(2) 2(2) in simp_all)
    then show False using w by (simp add: word_uint_eq_iff)
  qed
  then show ?thesis by blast
qed

text \<open>A clock that stands still for a moment, jumps back and then goes on.\<close>

definition ex_clock :: "nat \<Rightarrow> i64" where
  "ex_clock j = (if j < 2 then 1700000000000 else if j = 2 then 1699999999000 else 1700000000001)"

lemma ex_clock_era: "in_era (ex_clock j)"
  by (simp add: ex_clock_def in_era_def age_def EPOCH_def)

definition ex_flake :: "i64 \<Rightarrow> snowflake" where
  "ex_flake w = \<lparr>worker_id = w, last_timestamp = 0, sequence = 0\<rparr>"

lemma ex_flake_new: "snowflake_new 5 = Some (ex_flake 5)" "snowflake_new 6 = Some (ex_flake 6)"
  by code_simp+

lemma ex_flake_run:
  "map_option fst (nextIds ex_clock 0 (ex_flake 5) 3) = Some [512389598412820480, 512389598412820481, 512389598417014784]"
  by code_simp


lemma ids_of_workers_differ_witness:
  "set (fst (the (nextIds ex_clock 0 (ex_flake 5) 3))) \<inter> set (fst (the (nextIds ex_clock 0 (ex_flake 6) 3))) = {}"
proof -
  have "nextIds ex_clock 0 (ex_flake 6) 3 \<noteq> None" by code_simp
  then obtain ids2 p2 s2 where 2: "nextIds ex_clock 0 (ex_flake 6) 3 = Some (ids2, p2, s2)" by auto
  obtain ids1 p1 s1 where 1: "nextIds ex_clock 0 (ex_flake 5) 3 = Some (ids1, p1, s1)"
    using ex_flake_run by auto
  show ?thesis
    using ids_of_workers_differ [OF ex_flake_new _ ex_clock_era ex_clock_era 1 2] by (simp add: 1 2)
qed

text \<open>A call returns at the latest when the clock has twice read a time past that of the last id.\<close>

theorem nextId_returns:
  assumes j: "p \<le> j" "last_timestamp s <s clk j" and k: "j < k" "last_timestamp s <s clk k"
  shows "\<exists>i p' s'. nextIdImp clk p s = Some (i, p', s') \<and> p' \<le> k + 1"
proof -
  obtain t p1 where sp: "spin_until (\<lambda>t. \<not> t <s last_timestamp s) clk p = Some (t, p1)" "p1 \<le> j + 1"
    using spin_until_total [of "\<lambda>t. \<not> t <s last_timestamp s" clk j p] j by (auto simp: word_sless_alt)
  moreover obtain t2 p2 where "spin_until (\<lambda>t. \<not> t \<le>s last_timestamp s) clk p1 = Some (t2, p2)" "p2 \<le> k + 1"
    using spin_until_total [of "\<lambda>t. \<not> t \<le>s last_timestamp s" clk k p1] k sp
    by (auto simp: word_sle_eq word_sless_alt)
  ultimately show ?thesis using k(1) by (auto simp: nextIdImp_def Let_def)
qed

lemma nextId_returns_witness: "nextIdImp ex_clock 0 (ex_flake 5) \<noteq> None"
proof -
  have "last_timestamp (ex_flake 5) <s ex_clock 0" "last_timestamp (ex_flake 5) <s ex_clock 1"
    by code_simp+
  then show ?thesis using nextId_returns [of 0 0 "ex_flake 5" ex_clock 1] by auto
qed

end
