(* ===== verification/Router.thy ===== *)
theory Router
  imports Peer_Conn Dispatch
begin

text \<open>
  The messages between servers, the hand-shake and heart-beat handlers
  (src/{router,gateway,game}/src/network/SystemMsgHandler.cpp) and the router: the table of players and
  the forwarding of src/router/src/route/RouteMgr.cpp. A handler gives what it sends as a list, in
  order; \<open>perform\<close> carries such a list out on the connections.
\<close>

section \<open>Messages\<close>

text \<open>The messages of src/proto/ProtoInner.proto and ProtoCommon.proto that the handlers build.\<close>

datatype message =
    InnerServerHandShakeReq (hs_service_name: string) (hs_service_id: string) (hs_server_type: i32)
  | InnerServerHandShakeRes string string
  | InnerHeartBeatRequest i64
  | InnerHeartBeatResponse i64
  | InnerLoginRequest i64 i64
  | InnerLoginResponse i64 i64
  | InnerPlayerDisconnectRequest i64 i64
  | LoginResponse i32 i64 i64
  | HeartBeatResponse i64

definition INNER_SERVER_HAND_SHAKE_REQ :: i32 where "INNER_SERVER_HAND_SHAKE_REQ = -1"
definition INNER_SERVER_HAND_SHAKE_RES :: i32 where "INNER_SERVER_HAND_SHAKE_RES = -2"
definition INNER_HEART_BEAT_REQ :: i32 where "INNER_HEART_BEAT_REQ = -3"
definition INNER_HEART_BEAT_RES :: i32 where "INNER_HEART_BEAT_RES = -4"
definition INNER_PLAYER_DISCONNECT_REQ :: i32 where "INNER_PLAYER_DISCONNECT_REQ = -6"
definition INNER_TO_GAME_LOGIN_REQ :: i32 where "INNER_TO_GAME_LOGIN_REQ = -10"
definition INNER_TO_GAME_LOGIN_RES :: i32 where "INNER_TO_GAME_LOGIN_RES = -11"
definition INNER_ROUTE_TRANSFER :: i32 where "INNER_ROUTE_TRANSFER = -20"

definition SRV_TYPE_GAME :: i32 where "SRV_TYPE_GAME = 3"

text \<open>A send on a connection: a message to serialize, or bytes that are serialized already.\<close>

datatype net_send =
    Msg_send u32 i32 message i64
  | Raw_send u32 i32 "byte list" i64

fun send_chan :: "net_send \<Rightarrow> u32" where
  "send_chan (Msg_send c m b p) = c"
| "send_chan (Raw_send c m b p) = c"

text \<open>\<open>pb\<close> is the message as the connection model has it.\<close>

fun perform1 :: "(message \<Rightarrow> pmsg) \<Rightarrow> net_send \<Rightarrow> (u32 \<Rightarrow> conn) \<Rightarrow> (u32 \<Rightarrow> conn)" where
  "perform1 pb (Msg_send c m msg p) cs = cs(c := sendMsg m (pb msg) p (cs c))"
| "perform1 pb (Raw_send c m body p) cs =
    cs(c := sendRawMsg_ptr m (Some body) (sint (word_of_nat (length body) :: i32)) p (cs c))"

definition perform :: "(message \<Rightarrow> pmsg) \<Rightarrow> net_send list \<Rightarrow> (u32 \<Rightarrow> conn) \<Rightarrow> (u32 \<Rightarrow> conn)" where
  "perform pb sends cs = fold (perform1 pb) sends cs"

section \<open>Hand-shake and heart-beat\<close>

text \<open>\<open>blank\<close> is a default-initialised node, whose address fields the hand-shake does not set.\<close>

definition onShakHandReq ::
  "(u32 \<Rightarrow> bool) \<Rightarrow> node_info \<Rightarrow> node_info \<Rightarrow> u32 \<Rightarrow> message \<Rightarrow> peers \<Rightarrow> peers \<times> net_send list" where
  "onShakHandReq live blank mySelf channel req P =
    (case req of
       InnerServerHandShakeReq service_name service_id server_type \<Rightarrow>
         let shNodeInfo = blank\<lparr>ni_type := server_type, ni_service_name := service_name,
                            ni_service_id := service_id\<rparr>;
             P = saveNodeChannel live service_id channel (saveNode shNodeInfo P)
         in (P, [Msg_send channel INNER_SERVER_HAND_SHAKE_RES
                  (InnerServerHandShakeRes (ni_service_name mySelf) (ni_service_id mySelf)) 0])
     | _ \<Rightarrow> (P, []))"

definition onShakHandResponse :: "(u32 \<Rightarrow> bool) \<Rightarrow> u32 \<Rightarrow> message \<Rightarrow> peers \<Rightarrow> peers" where
  "onShakHandResponse live channel res P =
    (case res of
       InnerServerHandShakeRes service_name service_id \<Rightarrow> saveNodeChannel live service_id channel P
     | _ \<Rightarrow> P)"

definition router_onInnerHeartBeatReq :: "u32 \<Rightarrow> net_send list" where
  "router_onInnerHeartBeatReq channel =
    [Msg_send channel INNER_HEART_BEAT_RES (InnerHeartBeatRequest 8888) 0]"

definition gateway_onInnerHeartBeatReq :: "u32 \<Rightarrow> net_send list" where
  "gateway_onInnerHeartBeatReq channel =
    [Msg_send channel INNER_HEART_BEAT_RES (InnerHeartBeatRequest 0) 0]"

definition game_onInnerHeartBeatReq :: "u32 \<Rightarrow> net_send list" where
  "game_onInnerHeartBeatReq channel =
    [Msg_send channel INNER_HEART_BEAT_RES (InnerHeartBeatResponse 9999) 0]"

text \<open>The client end of a connection between servers announces itself.\<close>

definition client_onNewConnect :: "node_info \<Rightarrow> u32 \<Rightarrow> net_send list" where
  "client_onNewConnect mySelf channel =
    [Msg_send channel INNER_SERVER_HAND_SHAKE_REQ
      (InnerServerHandShakeReq (ni_service_name mySelf) (ni_service_id mySelf) (ni_type mySelf)) 0]"

definition client_onEventTrigger :: "trigger_event \<Rightarrow> u32 \<Rightarrow> net_send list" where
  "client_onEventTrigger reason channel =
    (if reason = WRITE_IDLE then [Msg_send channel INNER_HEART_BEAT_REQ (InnerHeartBeatRequest 8888) 0]
     else [])"

section \<open>Routing\<close>

type_synonym routes = "i64 \<Rightarrow> string option"

definition bindPlayer :: "i64 \<Rightarrow> string \<Rightarrow> routes \<Rightarrow> routes" where
  "bindPlayer playerId serviceId R = R(playerId \<mapsto> serviceId)"

definition unbindPlayer :: "i64 \<Rightarrow> routes \<Rightarrow> routes" where
  "unbindPlayer playerId R = R(playerId := None)"

definition findPlayerServiceId :: "i64 \<Rightarrow> routes \<Rightarrow> string" where
  "findPlayerServiceId playerId R = (case R playerId of None \<Rightarrow> [] | Some s \<Rightarrow> s)"

record route_transfer =
  rt_player_id :: i64
  rt_dest_service_id :: string
  rt_inner_msg_id :: i32
  rt_body :: "byte list"

definition forwardToService ::
  "(u32 \<Rightarrow> bool) \<Rightarrow> peers \<Rightarrow> string \<Rightarrow> route_transfer \<Rightarrow> bool \<times> net_send list" where
  "forwardToService is_closed P serviceId msg =
    (case getChannelByServiceId is_closed serviceId P of
       None \<Rightarrow> (False, [])
     | Some channel \<Rightarrow> (True, [Raw_send channel (rt_inner_msg_id msg) (rt_body msg) (rt_player_id msg)]))"

definition onRouteTransfer ::
  "(u32 \<Rightarrow> bool) \<Rightarrow> peers \<Rightarrow> routes \<Rightarrow> route_transfer \<Rightarrow> net_send list" where
  "onRouteTransfer is_closed P R msg =
    (if rt_dest_service_id msg \<noteq> [] then
       (case forwardToService is_closed P (rt_dest_service_id msg) msg of (ok, sends) \<Rightarrow> sends)
     else
       let dest = findPlayerServiceId (rt_player_id msg) R;
           (ok, sends) = (if dest \<noteq> [] then forwardToService is_closed P dest msg else (False, []))
       in if ok then sends
          else map (\<lambda>c. Raw_send c (rt_inner_msg_id msg) (rt_body msg) (rt_player_id msg))
                 (getChannelsByType is_closed SRV_TYPE_GAME P))"

section \<open>Lemmas and properties\<close>

lemma getChannelByServiceId_open:
  "getChannelByServiceId is_closed k P = Some c \<Longrightarrow> \<not> is_closed c"
  by (auto simp: getChannelByServiceId_def dest: find_Some_mem split: option.splits)

lemma getChannelsByType_open: "c \<in> set (getChannelsByType is_closed t P) \<Longrightarrow> \<not> is_closed c"
  by (auto simp: getChannelsByType_def split: option.splits)



text \<open>C18. A player bound to a game server that shook hands over an open connection is reached there,
  over that connection only, until the player is unbound.\<close>

theorem bound_player_reached:
  assumes inv: "peers_inv P" and req: "req = InnerServerHandShakeReq name sid t" and sid: "sid \<noteq> []"
    and live: "live c" and op: "\<not> is_closed c"
    and fresh: "\<And>n. node_of P sid = Some n \<Longrightarrow> c \<notin> set (nci_channels n)"
    and msg: "rt_dest_service_id msg = []"
  shows "onRouteTransfer is_closed (fst (onShakHandReq live blank me c req P))
      (bindPlayer (rt_player_id msg) sid R) msg =
    [Raw_send c (rt_inner_msg_id msg) (rt_body msg) (rt_player_id msg)]"
proof -
  let ?i = "blank\<lparr>ni_type := t, ni_service_name := name, ni_service_id := sid\<rparr>"
  have "getChannelByServiceId is_closed sid (saveNodeChannel live sid c (saveNode ?i P)) = Some c"
    using hand_shake_gives [OF inv, of ?i live c is_closed] sid live op fresh by auto
  then show ?thesis
    using sid by (simp add: onShakHandReq_def req Let_def onRouteTransfer_def msg findPlayerServiceId_def
        bindPlayer_def forwardToService_def)
qed

lemma bound_player_reached_witness:
  "onRouteTransfer (\<lambda>c. False)
     (fst (onShakHandReq (\<lambda>c. True) (ex_node '''' 0) (ex_node ''r'' 4) 9 (InnerServerHandShakeReq ''game'' ''g3'' 3) ex_peers))
     (bindPlayer 7 ''g3'' (\<lambda>p. None))
     \<lparr>rt_player_id = 7, rt_dest_service_id = [], rt_inner_msg_id = 100, rt_body = [1]\<rparr> =
   [Raw_send 9 100 [1] 7]"
proof -
  have "node_of ex_peers ''g3'' = None" by code_simp
  then show ?thesis
    using bound_player_reached [OF ex_peers_inv refl, of "''g3''" "\<lambda>c. True" 9 "\<lambda>c. False"
      "\<lparr>rt_player_id = 7, rt_dest_service_id = [], rt_inner_msg_id = 100, rt_body = [1]\<rparr>"] by simp
qed

end
