(* ===== verification/Gateway.thy ===== *)
theory Gateway
  imports Router Object_Pool
begin

text \<open>
  The gateway: players online (src/gateway/src/objs/PlayerOnlineService.cpp, Player.h), the log-in
  handlers (src/gateway/src/controller/PlayerLoginHandler.cpp) and the network handlers
  (src/gateway/src/network). A \<open>Player*\<close> is an address of the object pool's store; the user data of a
  connection is such an address or null. Each service call is one step, as the service's mutex makes it.
\<close>

section \<open>State\<close>

record player =
  gp_pid :: u32
  gp_sid :: i64
  gp_channel :: "u32 option"
  gp_valid :: bool

record gateway =
  online :: "u32 \<Rightarrow> nat option"
  player_pool :: "player pool"
  user_data :: "u32 \<Rightarrow> nat option"
  gw_peers :: peers

definition the_player :: "gateway \<Rightarrow> nat \<Rightarrow> player" where
  "the_player g a = the (objects (player_pool g) a)"

section \<open>The service\<close>

definition findPlayer :: "u32 \<Rightarrow> gateway \<Rightarrow> nat option" where
  "findPlayer i g = online g i"

text \<open>\<open>node_ok\<close>: whether the pool can allocate a node when it takes an object back.\<close>

definition createPlayer :: "bool \<Rightarrow> u32 \<Rightarrow> i64 \<Rightarrow> u32 \<Rightarrow> gateway \<Rightarrow> gateway" where
  "createPlayer node_ok uid sid channel g =
    (let g = (case online g uid of
           None \<Rightarrow> g
         | Some old \<Rightarrow>
             let g = (case gp_channel (the_player g old) of
                   None \<Rightarrow> g
                 | Some c \<Rightarrow> g\<lparr>user_data := (user_data g)(c := None)\<rparr>)
             in g\<lparr>player_pool := release node_ok (Some old) (player_pool g),
                  online := (online g)(uid := None)\<rparr>);
         (player, pool) = acquire \<lparr>gp_pid = uid, gp_sid = sid, gp_channel = Some channel, gp_valid = False\<rparr>
           (player_pool g)
     in g\<lparr>player_pool := pool, user_data := (user_data g)(channel \<mapsto> player),
          online := (online g)(uid \<mapsto> player)\<rparr>)"

definition removePlayer :: "bool \<Rightarrow> u32 \<Rightarrow> gateway \<Rightarrow> nat option \<times> gateway" where
  "removePlayer node_ok i g =
    (case online g i of
       None \<Rightarrow> (None, g)
     | Some player \<Rightarrow>
         (Some player, g\<lparr>online := (online g)(i := None),
            player_pool := release node_ok (Some player) (player_pool g)\<rparr>))"

definition removePlayerByChannel :: "bool \<Rightarrow> u32 \<Rightarrow> gateway \<Rightarrow> (u32 \<times> i64) option \<times> gateway" where
  "removePlayerByChannel node_ok channel g =
    (case user_data g channel of
       None \<Rightarrow> (None, g)
     | Some player \<Rightarrow>
         let p = the_player g player in
         if online g (gp_pid p) \<noteq> Some player
         then (None, g\<lparr>user_data := (user_data g)(channel := None)\<rparr>)
         else (Some (gp_pid p, gp_sid p),
               g\<lparr>online := (online g)(gp_pid p := None),
                 user_data := (user_data g)(channel := None),
                 player_pool := release node_ok (Some player) (player_pool g)\<rparr>))"

text \<open>A send to the game servers, on the connection that a send by type chooses.\<close>

definition send_to_game :: "i32 \<Rightarrow> message \<Rightarrow> i64 \<Rightarrow> gateway \<Rightarrow> net_send list" where
  "send_to_game msgId msg playerId g =
    (case sendMsg_type SRV_TYPE_GAME (gw_peers g) of None \<Rightarrow> [] | Some c \<Rightarrow> [Msg_send c msgId msg playerId])"

definition onPlayerLogin :: "bool \<Rightarrow> u32 \<Rightarrow> i64 \<Rightarrow> u32 \<Rightarrow> gateway \<Rightarrow> gateway \<times> net_send list" where
  "onPlayerLogin node_ok pid sid channel g =
    (let g = createPlayer node_ok pid sid channel g
     in (g, send_to_game INNER_TO_GAME_LOGIN_REQ (InnerLoginRequest sid (ucast pid)) (ucast pid) g))"

definition onPlayerDisconnect :: "bool \<Rightarrow> u32 \<Rightarrow> gateway \<Rightarrow> gateway \<times> net_send list" where
  "onPlayerDisconnect node_ok channel g =
    (case removePlayerByChannel node_ok channel g of
       (None, g) \<Rightarrow> (g, [])
     | (Some (pid, sid), g) \<Rightarrow>
         (g, send_to_game INNER_PLAYER_DISCONNECT_REQ (InnerPlayerDisconnectRequest sid (ucast pid)) (ucast pid) g))"

section \<open>Handlers\<close>

definition LOGIN_RESPONSE :: i32 where "LOGIN_RESPONSE = 11"
definition HEART_BEAT_RESPONSE :: i32 where "HEART_BEAT_RESPONSE = 3"

text \<open>The game server confirmed a log-in; \<open>now\<close> is the clock's reading.\<close>

definition onInnerLoginRes :: "i64 \<Rightarrow> message \<Rightarrow> gateway \<Rightarrow> gateway \<times> net_send list" where
  "onInnerLoginRes now res g =
    (case res of
       InnerLoginResponse sid roleid \<Rightarrow>
         (case findPlayer (ucast roleid) g of
            None \<Rightarrow> (g, [])
          | Some a \<Rightarrow>
              let p = (the_player g a)\<lparr>gp_valid := True\<rparr>;
                  pool = player_pool g
              in (g\<lparr>player_pool := pool\<lparr>objects := (objects pool)(a \<mapsto> p)\<rparr>\<rparr>,
                  case gp_channel p of
                    None \<Rightarrow> []
                  | Some c \<Rightarrow> [Msg_send c LOGIN_RESPONSE (LoginResponse 0 now roleid) 0]))
     | _ \<Rightarrow> (g, []))"

text \<open>\<open>sid\<close> is the next Snowflake id.\<close>

definition onLoginReq :: "bool \<Rightarrow> i64 \<Rightarrow> u32 \<Rightarrow> i64 \<Rightarrow> gateway \<Rightarrow> gateway \<times> net_send list" where
  "onLoginReq node_ok sid channel roleid g = onPlayerLogin node_ok (ucast roleid) sid channel g"

definition onHeartBeat :: "i64 \<Rightarrow> u32 \<Rightarrow> gateway \<Rightarrow> net_send list" where
  "onHeartBeat now channel g =
    (case user_data g channel of
       None \<Rightarrow> []
     | Some player \<Rightarrow> [Msg_send channel HEART_BEAT_RESPONSE (HeartBeatResponse now) 0])"

text \<open>A frame of a client without a handler here goes to every game server, its header replaced.\<close>

definition proxyMsgToGame :: "(u32 \<Rightarrow> bool) \<Rightarrow> byte list \<Rightarrow> int \<Rightarrow> gateway \<Rightarrow> net_send list" where
  "proxyMsgToGame is_closed buff len g =
    (let frame = take (nat len) buff
     in map (\<lambda>c. let body = drop (nat CLIENT_HEADER_LEN) frame; bodyLen = len - CLIENT_HEADER_LEN
             in Raw_send c (readInt32 (drop 4 frame)) (take (nat bodyLen) body) 0)
          (getChannelsByType is_closed SRV_TYPE_GAME (gw_peers g)))"

section \<open>The table of players\<close>

definition gateway_new :: "player pool \<Rightarrow> peers \<Rightarrow> gateway" where
  "gateway_new pool P = \<lparr>online = (\<lambda>u. None), player_pool = pool, user_data = (\<lambda>c. None), gw_peers = P\<rparr>"

text \<open>Every player online is a pool object in use, under its own id; user data of a connection is null or
  the online player whose connection it is.\<close>

definition gw_inv :: "gateway \<Rightarrow> bool" where
  "gw_inv g \<longleftrightarrow> pool_inv (player_pool g) (ran (online g)) \<and>
    (\<forall>u a. online g u = Some a \<longrightarrow>
      (\<exists>p. objects (player_pool g) a = Some p \<and> gp_pid p = u \<and> gp_channel p \<noteq> None)) \<and>
    (\<forall>c a. user_data g c = Some a \<longrightarrow>
      online g (gp_pid (the_player g a)) = Some a \<and> gp_channel (the_player g a) = Some c)"

text \<open>The other way round, the user data of the connection of a player online is this player.\<close>

definition gw_linked :: "gateway \<Rightarrow> bool" where
  "gw_linked g \<longleftrightarrow> (\<forall>u a c. online g u = Some a \<longrightarrow> gp_channel (the_player g a) = Some c \<longrightarrow> user_data g c = Some a)"

lemma gw_online:
  assumes "gw_inv g" "online g u = Some a"
  obtains c where "objects (player_pool g) a = Some (the_player g a)" "gp_pid (the_player g a) = u"
    "gp_channel (the_player g a) = Some c"
proof -
  obtain p where "objects (player_pool g) a = Some p" "gp_pid p = u" "gp_channel p \<noteq> None"
    using assms unfolding gw_inv_def by blast
  then show thesis using that by (auto simp: the_player_def)
qed

lemma gw_online_inj: "gw_inv g \<Longrightarrow> online g u = Some a \<Longrightarrow> online g v = Some a \<Longrightarrow> u = v"
  by (metis gw_online)

lemma ran_remove:
  assumes "gw_inv g" "online g u = Some a"
  shows "ran ((online g)(u := None)) = ran (online g) - {a}"
  using assms gw_online_inj [OF assms(1)] by (auto simp: ran_def) (metis option.inject)

text \<open>Taking a player out: table and pool change together, the link of its connection goes.\<close>

definition take_out :: "bool \<Rightarrow> u32 \<Rightarrow> nat \<Rightarrow> gateway \<Rightarrow> gateway" where
  "take_out node_ok u a g =
    g\<lparr>online := (online g)(u := None),
      user_data := (case gp_channel (the_player g a) of None \<Rightarrow> user_data g | Some c \<Rightarrow> (user_data g)(c := None)),
      player_pool := release node_ok (Some a) (player_pool g)\<rparr>"

lemma the_player_release [simp]:
  "the_player (g\<lparr>online := o', user_data := d', player_pool := release ok x (player_pool g)\<rparr>) = the_player g"
  by (simp add: the_player_def fun_eq_iff)

lemma take_out_inv:
  assumes inv: "gw_inv g" and a: "online g u = Some a"
  shows "gw_inv (take_out ok u a g)" "gw_linked g \<Longrightarrow> gw_linked (take_out ok u a g)"
proof -
  obtain c where c: "objects (player_pool g) a = Some (the_player g a)" "gp_pid (the_player g a) = u"
    "gp_channel (the_player g a) = Some c" by (rule gw_online [OF inv a])
  have p: "pool_inv (release ok (Some a) (player_pool g)) (ran ((online g)(u := None)))"
    unfolding ran_remove [OF inv a]
    by (rule release_inv) (use inv a in \<open>auto simp: gw_inv_def intro: ranI\<close>)
  have d: "b \<noteq> a \<and> gp_pid (the_player g b) \<noteq> u" if "user_data g d = Some b" "d \<noteq> c" for d b
    using inv that a c unfolding gw_inv_def by (metis option.inject)
  show "gw_inv (take_out ok u a g)"
    using inv p d by (auto simp: gw_inv_def take_out_def c(3) split: if_splits)
  show "gw_linked (take_out ok u a g)" if l: "gw_linked g"
    unfolding gw_linked_def
  proof (intro allI impI)
    fix v b e
    assume "online (take_out ok u a g) v = Some b" "gp_channel (the_player (take_out ok u a g) b) = Some e"
    then have v: "v \<noteq> u" "online g v = Some b" "gp_channel (the_player g b) = Some e"
      by (auto simp: take_out_def split: if_splits)
    then have "user_data g e = Some b" using l by (auto simp: gw_linked_def)
    moreover have "e \<noteq> c"
    proof
      assume "e = c"
      moreover have "user_data g c = Some a" using l a c by (auto simp: gw_linked_def)
      ultimately have "b = a" using \<open>user_data g e = Some b\<close> by simp
      then show False using v(1,2) a gw_online_inj [OF inv] by blast
    qed
    ultimately show "user_data (take_out ok u a g) e = Some b" by (simp add: take_out_def c(3))
  qed
qed

text \<open>Putting a new player in.\<close>

definition put_in :: "u32 \<Rightarrow> i64 \<Rightarrow> u32 \<Rightarrow> gateway \<Rightarrow> gateway" where
  "put_in uid sid channel g =
    (case acquire \<lparr>gp_pid = uid, gp_sid = sid, gp_channel = Some channel, gp_valid = False\<rparr> (player_pool g) of
       (player, pool) \<Rightarrow>
         g\<lparr>player_pool := pool, user_data := (user_data g)(channel \<mapsto> player),
           online := (online g)(uid \<mapsto> player)\<rparr>)"

lemma createPlayer_eq:
  "createPlayer ok uid sid c g =
    put_in uid sid c (case online g uid of None \<Rightarrow> g | Some old \<Rightarrow> take_out ok uid old g)"
  by (auto simp: createPlayer_def put_in_def take_out_def Let_def split: option.splits)

lemma put_in_inv:
  assumes inv: "gw_inv g" and u: "online g uid = None"
  shows "gw_inv (put_in uid sid c g)" "gw_linked g \<Longrightarrow> user_data g c = None \<Longrightarrow> gw_linked (put_in uid sid c g)"
    "online (put_in uid sid c g) uid \<noteq> None" "user_data (put_in uid sid c g) c = online (put_in uid sid c g) uid"
proof -
  let ?p = "\<lparr>gp_pid = uid, gp_sid = sid, gp_channel = Some c, gp_valid = False\<rparr>"
  obtain a pool where acq: "acquire ?p (player_pool g) = (a, pool)" by (cases "acquire ?p (player_pool g)")
  have P: "pool_inv (player_pool g) (ran (online g))" using inv by (simp add: gw_inv_def)
  have ai: "pool_inv pool (insert a (ran (online g)))" "a \<notin> ran (online g)" "objects pool a = Some ?p"
    "\<And>b. b \<in> ran (online g) \<Longrightarrow> objects pool b = objects (player_pool g) b"
    using acquire_inv [OF P acq] by simp_all
  have r: "ran ((online g)(uid \<mapsto> a)) = insert a (ran (online g))" using u by simp
  have same: "the_player (put_in uid sid c g) b = the_player g b" if "b \<in> ran (online g)" for b
    using ai(4) [OF that] by (simp add: put_in_def acq the_player_def)
  have new: "the_player (put_in uid sid c g) a = ?p" by (simp add: put_in_def acq the_player_def ai(3))
  have f: "online (put_in uid sid c g) = (online g)(uid \<mapsto> a)"
    "user_data (put_in uid sid c g) = (user_data g)(c \<mapsto> a)" "player_pool (put_in uid sid c g) = pool"
    by (simp_all add: put_in_def acq)
  have o: "\<exists>p. objects pool b = Some p \<and> gp_pid p = v \<and> gp_channel p \<noteq> None" if "((online g)(uid \<mapsto> a)) v = Some b" for v b
  proof (cases "v = uid")
    case True
    then show ?thesis using that ai(3) by simp
  next
    case False
    then have v: "online g v = Some b" using that by simp
    then have "objects pool b = objects (player_pool g) b" by (intro ai(4) ranI)
    then show ?thesis using inv v by (auto simp: gw_inv_def)
  qed
  have d: "((online g)(uid \<mapsto> a)) (gp_pid (the_player (put_in uid sid c g) b)) = Some b \<and>
      gp_channel (the_player (put_in uid sid c g) b) = Some e"
    if "((user_data g)(c \<mapsto> a)) e = Some b" for e b
  proof (cases "e = c")
    case True
    then show ?thesis using that new by simp
  next
    case False
    then have "user_data g e = Some b" using that by simp
    then have l: "online g (gp_pid (the_player g b)) = Some b" "gp_channel (the_player g b) = Some e"
      using inv by (auto simp: gw_inv_def)
    then have "gp_pid (the_player g b) \<noteq> uid" using u by auto
    moreover have "b \<in> ran (online g)" using l(1) by (auto simp: ran_def)
    ultimately show ?thesis using l same [of b] by simp
  qed
  show "gw_inv (put_in uid sid c g)" using ai(1) r o d by (simp add: gw_inv_def f)
  show "online (put_in uid sid c g) uid \<noteq> None" "user_data (put_in uid sid c g) c = online (put_in uid sid c g) uid"
    by (simp_all add: f)
  show "gw_linked (put_in uid sid c g)" if l: "gw_linked g" and n: "user_data g c = None"
    unfolding gw_linked_def f
  proof (intro allI impI)
    fix v b e
    assume v: "((online g)(uid \<mapsto> a)) v = Some b" and e: "gp_channel (the_player (put_in uid sid c g) b) = Some e"
    show "((user_data g)(c \<mapsto> a)) e = Some b"
    proof (cases "v = uid")
      case True
      then show ?thesis using v e new by auto
    next
      case False
      then have v: "online g v = Some b" using v by simp
      then have "user_data g e = Some b" using l e same [of b] ranI [of "online g", OF v] by (simp add: gw_linked_def)
      then show ?thesis using n by auto
    qed
  qed
qed

lemma take_out_offline [simp]: "online (take_out ok u a g) u = None"
  by (simp add: take_out_def)

lemma createPlayer_inv: "gw_inv g \<Longrightarrow> gw_inv (createPlayer ok uid sid c g)"
  by (auto simp: createPlayer_eq intro!: put_in_inv(1) take_out_inv(1) split: option.splits)

lemma removePlayerByChannel_eq:
  assumes "gw_inv g"
  shows "removePlayerByChannel ok c g =
    (case user_data g c of
       None \<Rightarrow> (None, g)
     | Some a \<Rightarrow> (Some (gp_pid (the_player g a), gp_sid (the_player g a)), take_out ok (gp_pid (the_player g a)) a g))"
proof (cases "user_data g c")
  case (Some a)
  then have "online g (gp_pid (the_player g a)) = Some a" "gp_channel (the_player g a) = Some c"
    using assms by (auto simp: gw_inv_def)
  then show ?thesis using Some by (simp add: removePlayerByChannel_def take_out_def Let_def)
qed (simp add: removePlayerByChannel_def)

lemma onInnerLoginRes_inv:
  assumes inv: "gw_inv g"
  shows "gw_inv (fst (onInnerLoginRes now res g))" "gw_linked g \<Longrightarrow> gw_linked (fst (onInnerLoginRes now res g))"
    "online (fst (onInnerLoginRes now res g)) = online g"
    "user_data (fst (onInnerLoginRes now res g)) = user_data g"
    "gp_channel (the_player (fst (onInnerLoginRes now res g)) a) = gp_channel (the_player g a)"
    "gp_pid (the_player (fst (onInnerLoginRes now res g)) a) = gp_pid (the_player g a)"
proof -
  let ?g = "fst (onInnerLoginRes now res g)"
  have e: "online ?g = online g" "user_data ?g = user_data g"
    "pool_inv (player_pool ?g) H = pool_inv (player_pool g) H" for H
    by (auto simp: onInnerLoginRes_def Let_def pool_inv_def split: message.splits option.splits)
  have p: "gp_channel (the_player ?g a) = gp_channel (the_player g a) \<and> gp_pid (the_player ?g a) = gp_pid (the_player g a)" for a
    by (auto simp: onInnerLoginRes_def Let_def the_player_def split: message.splits option.splits)
  have o: "\<exists>p. objects (player_pool ?g) a = Some p \<and> gp_pid p = u \<and> gp_channel p \<noteq> None" if on: "online g u = Some a" for u a
  proof -
    obtain c where c: "objects (player_pool g) a = Some (the_player g a)" "gp_pid (the_player g a) = u"
      "gp_channel (the_player g a) = Some c" by (rule gw_online [OF inv on])
    moreover have "objects (player_pool ?g) a \<noteq> None" using c(1)
      by (auto simp: onInnerLoginRes_def Let_def split: message.splits option.splits)
    moreover have "the (objects (player_pool ?g) a) = the_player ?g a" by (simp add: the_player_def)
    ultimately show ?thesis using p [of a] by fastforce
  qed
  show "gw_inv ?g" using inv o p by (simp add: gw_inv_def e)
  show "gw_linked g \<Longrightarrow> gw_linked ?g" using p by (simp add: gw_linked_def e)
  show "online ?g = online g" "user_data ?g = user_data g" by (rule e)+
  show "gp_channel (the_player ?g a) = gp_channel (the_player g a)" "gp_pid (the_player ?g a) = gp_pid (the_player g a)"
    using p by simp_all
qed

section \<open>Histories\<close>

text \<open>What the clients and the game servers make the service do.\<close>

datatype gw_event =
    Login_req i64 u32 i64
  | Login_res i64 message
  | Client_closed u32

definition gw_step :: "bool \<Rightarrow> gw_event \<Rightarrow> gateway \<Rightarrow> gateway \<times> net_send list" where
  "gw_step ok e g =
    (case e of
       Login_req sid c roleid \<Rightarrow> onLoginReq ok sid c roleid g
     | Login_res now res \<Rightarrow> onInnerLoginRes now res g
     | Client_closed c \<Rightarrow> onPlayerDisconnect ok c g)"

definition gw_run :: "bool \<Rightarrow> gw_event list \<Rightarrow> gateway \<Rightarrow> gateway" where
  "gw_run ok es g = fold (\<lambda>e g. fst (gw_step ok e g)) es g"

lemma onPlayerDisconnect_state:
  "fst (onPlayerDisconnect ok c g) = snd (removePlayerByChannel ok c g)"
  by (simp add: onPlayerDisconnect_def split: prod.split option.split)

lemma gw_step_inv: "gw_inv g \<Longrightarrow> gw_inv (fst (gw_step ok e g))"
proof (cases e)
  case (Client_closed c)
  assume inv: "gw_inv g"
  have "gw_inv (take_out ok (gp_pid (the_player g a)) a g)" if "user_data g c = Some a" for a
    using inv that by (intro take_out_inv(1)) (simp_all add: gw_inv_def)
  then show ?thesis using inv
    by (auto simp: gw_step_def Client_closed onPlayerDisconnect_state removePlayerByChannel_eq split: option.splits)
qed (simp_all add: gw_step_def onLoginReq_def onPlayerLogin_def Let_def createPlayer_inv onInnerLoginRes_inv)

lemma gw_run_inv: "gw_inv g \<Longrightarrow> gw_inv (gw_run ok es g)"
  unfolding gw_run_def by (induction es arbitrary: g) (simp_all add: gw_step_inv)

lemma gateway_new_inv: "pool_inv pool {} \<Longrightarrow> gw_inv (gateway_new pool P)"
  by (simp add: gw_inv_def gateway_new_def)


text \<open>A history in which a connection logs in only while it has no player of another id.\<close>

fun one_login :: "bool \<Rightarrow> gw_event list \<Rightarrow> gateway \<Rightarrow> bool" where
  "one_login ok [] g \<longleftrightarrow> True"
| "one_login ok (e # es) g \<longleftrightarrow>
    (case e of
       Login_req sid c roleid \<Rightarrow>
         (case user_data g c of None \<Rightarrow> True | Some a \<Rightarrow> gp_pid (the_player g a) = ucast roleid)
     | _ \<Rightarrow> True) \<and> one_login ok es (fst (gw_step ok e g))"

lemma createPlayer_linked:
  assumes inv: "gw_inv g" and l: "gw_linked g"
    and one: "case user_data g c of None \<Rightarrow> True | Some a \<Rightarrow> gp_pid (the_player g a) = uid"
  shows "gw_linked (createPlayer ok uid sid c g)"
proof (cases "online g uid")
  case None
  then have "user_data g c = None" using one inv by (auto simp: gw_inv_def split: option.splits)
  then show ?thesis using None inv l by (simp add: createPlayer_eq put_in_inv)
next
  case (Some old)
  have "user_data (take_out ok uid old g) c = None"
  proof (cases "user_data g c")
    case None
    then show ?thesis by (auto simp: take_out_def split: option.split)
  next
    case (Some a)
    then have "a = old" "gp_channel (the_player g a) = Some c" using one inv \<open>online g uid = Some old\<close>
      by (auto simp: gw_inv_def)
    then show ?thesis by (simp add: take_out_def)
  qed
  then show ?thesis using Some inv l by (simp add: createPlayer_eq put_in_inv take_out_inv)
qed

lemma gw_run_linked:
  "gw_inv g \<Longrightarrow> gw_linked g \<Longrightarrow> one_login ok es g \<Longrightarrow> gw_linked (gw_run ok es g)"
proof (induction es arbitrary: g)
  case (Cons e es)
  have "gw_linked (fst (gw_step ok e g))"
  proof (cases e)
    case (Login_req sid c roleid)
    then show ?thesis using Cons.prems
      by (simp add: gw_step_def onLoginReq_def onPlayerLogin_def Let_def createPlayer_linked)
  next
    case (Login_res now res)
    then show ?thesis using Cons.prems by (simp add: gw_step_def onInnerLoginRes_inv)
  next
    case (Client_closed c)
    have "gw_linked (take_out ok (gp_pid (the_player g a)) a g)" if "user_data g c = Some a" for a
      using Cons.prems(1,2) that by (intro take_out_inv(2)) (simp_all add: gw_inv_def)
    then show ?thesis using Cons.prems(1,2)
      by (auto simp: gw_step_def Client_closed onPlayerDisconnect_state removePlayerByChannel_eq split: option.splits)
  qed
  then show ?case using Cons by (simp add: gw_run_def gw_step_inv)
qed (simp add: gw_run_def)

text \<open>C7. Where every connection logs in under one id at a time, closing a connection takes its player
  offline: no player online has this connection any more, and the game server is told of exactly
  that player.\<close>

theorem disconnect_takes_offline:
  assumes g: "g = gw_run ok es (gateway_new (pool_new dflt n m) P)"
    and one: "one_login ok es (gateway_new (pool_new dflt n m) P)"
    and r: "onPlayerDisconnect ok c g = (g', sends)"
  shows "(\<forall>u a. online g' u = Some a \<longrightarrow> gp_channel (the_player g' a) \<noteq> Some c) \<and>
    (\<forall>u a. online g u = Some a \<longrightarrow> gp_channel (the_player g a) = Some c \<longrightarrow>
      online g' = (online g)(u := None) \<and>
      sends = send_to_game INNER_PLAYER_DISCONNECT_REQ
        (InnerPlayerDisconnectRequest (gp_sid (the_player g a)) (ucast u)) (ucast u) g)"
proof -
  have start: "gw_inv (gateway_new (pool_new dflt n m) P)" by (rule gateway_new_inv [OF pool_new_inv])
  have inv: "gw_inv g" unfolding g by (rule gw_run_inv [OF start])
  have l: "gw_linked g" unfolding g
    by (rule gw_run_linked [OF start _ one]) (simp add: gw_linked_def gateway_new_def)
  show ?thesis
  proof (cases "user_data g c")
    case None
    then have "g' = g" using r inv by (simp add: onPlayerDisconnect_def removePlayerByChannel_eq)
    then show ?thesis using l None by (auto simp: gw_linked_def)
  next
    case (Some a)
    have a: "online g (gp_pid (the_player g a)) = Some a" "gp_channel (the_player g a) = Some c"
      using inv Some by (simp_all add: gw_inv_def)
    have g': "g' = take_out ok (gp_pid (the_player g a)) a g"
      "sends = send_to_game INNER_PLAYER_DISCONNECT_REQ
        (InnerPlayerDisconnectRequest (gp_sid (the_player g a)) (ucast (gp_pid (the_player g a))))
        (ucast (gp_pid (the_player g a))) g'"
      using r Some inv by (auto simp: onPlayerDisconnect_def removePlayerByChannel_eq)
    have u: "b = a \<and> v = gp_pid (the_player g a)" if "online g v = Some b" "gp_channel (the_player g b) = Some c" for v b
      using l that Some gw_online_inj [OF inv] a(1) by (auto simp: gw_linked_def)
    have "gp_channel (the_player g' b) \<noteq> Some c" if "online g' v = Some b" for v b
      using that u by (auto simp: g' take_out_def split: if_splits)
    moreover have "send_to_game i msg p g' = send_to_game i msg p g" for i msg p
      by (simp add: g' take_out_def send_to_game_def)
    moreover have "online g' = (online g)(gp_pid (the_player g a) := None)" by (simp add: g' take_out_def)
    ultimately show ?thesis using u g'(2) by metis
  qed
qed

definition ex_player :: player where
  "ex_player = \<lparr>gp_pid = 0, gp_sid = 0, gp_channel = None, gp_valid = False\<rparr>"

definition ex_gateway :: gateway where
  "ex_gateway = gateway_new (pool_new ex_player 0 4096) (removeNode ''g1'' ex_peers)"


lemma disconnect_takes_offline_witness:
  "snd (onPlayerDisconnect True 9 (gw_run True [Login_req 77 9 7] ex_gateway)) =
    [Msg_send 5 INNER_PLAYER_DISCONNECT_REQ (InnerPlayerDisconnectRequest 77 7) 7]"
proof -
  let ?g = "gw_run True [Login_req 77 9 7] ex_gateway"
  obtain g' sends where r: "onPlayerDisconnect True 9 ?g = (g', sends)"
    by (cases "onPlayerDisconnect True 9 ?g")
  have one: "one_login True [Login_req 77 9 7] ex_gateway" by code_simp
  have "sends = send_to_game INNER_PLAYER_DISCONNECT_REQ
        (InnerPlayerDisconnectRequest (gp_sid (the_player ?g 0)) 7) 7 ?g"
  proof -
    have "online ?g 7 = Some 0" "gp_channel (the_player ?g 0) = Some 9" by code_simp+
    then show ?thesis
      using disconnect_takes_offline [of ?g True "[Login_req 77 9 7]" ex_player 0 4096 "removeNode ''g1'' ex_peers" 9 g' sends]
        r one unfolding ex_gateway_def by fastforce
  qed
  moreover have "gp_sid (the_player ?g 0) = 77" by code_simp
  moreover have "sendMsg_type SRV_TYPE_GAME (gw_peers ?g) = Some 5" by code_simp
  ultimately show ?thesis using r by (simp add: send_to_game_def)
qed

text \<open>Without that discipline players stay online for good. A connection that logs in under two ids
  leaves the first one online when it closes, and when the first id logs in again elsewhere the second
  one loses its link and stays online too, although its connection is closed.\<close>

theorem second_login_strands_player:
  "(let g = gw_run True [Login_req 70 9 1, Login_req 71 9 2, Client_closed 9] ex_gateway in
     online g 1 = Some 0 \<and> gp_channel (the_player g 0) = Some 9) \<and>
   (let g = gw_run True [Login_req 70 9 1, Login_req 71 9 2, Login_req 72 8 1, Client_closed 9] ex_gateway in
     online g 2 = Some 1 \<and> gp_channel (the_player g 1) = Some 9)"
  by code_simp

end
