(* ===== verification/Game.thy ===== *)
theory Game
  imports Router Object_Pool
begin

text \<open>
  The game server's players: log-in and disconnection (src/game/src/service/LoginService.cpp,
  PlayerMgr), the player and its modules (src/game/src/objs, module, player_modules) and the data access
  of src/dal/mongodb/MongodbDAO.hpp. The database is a map; what the driver does with a call is an
  argument. The other fields of a player are of the same connection and id as in the code.
\<close>

section \<open>Data access\<close>

record role_do =
  ro_id :: i64
  ro_name :: string

type_synonym db = "i64 \<Rightarrow> role_do option"

datatype db_status = DB_OK | NOT_FOUND | DB_ERROR

text \<open>\<open>ok\<close>: the driver returned; otherwise it raised.\<close>

definition find_one_status :: "bool \<Rightarrow> i64 \<Rightarrow> db \<Rightarrow> db_status \<times> role_do option" where
  "find_one_status ok i D =
    (if \<not> ok then (DB_ERROR, None)
     else case D i of None \<Rightarrow> (NOT_FOUND, None) | Some d \<Rightarrow> (DB_OK, Some d))"

definition find_one :: "bool \<Rightarrow> i64 \<Rightarrow> db \<Rightarrow> role_do option" where
  "find_one ok i D = snd (find_one_status ok i D)"

text \<open>A write is acknowledged, or not acknowledged (and may be applied), or raises.\<close>

datatype write_outcome = Acked | Unacked bool | Raised

definition db_update :: "write_outcome \<Rightarrow> role_do \<Rightarrow> db \<Rightarrow> bool \<times> db" where
  "db_update w obj D =
    (case w of
       Acked \<Rightarrow> (True, D(ro_id obj \<mapsto> obj))
     | Unacked applied \<Rightarrow> (False, if applied then D(ro_id obj \<mapsto> obj) else D)
     | Raised \<Rightarrow> (False, D))"

text \<open>Ordered writes stop at the first failure, \<open>fail_at\<close>.\<close>

definition bulk_update :: "nat option \<Rightarrow> bool \<Rightarrow> role_do list \<Rightarrow> db \<Rightarrow> bool \<times> db" where
  "bulk_update fail_at acked dos D =
    (if dos = [] then (True, D)
     else case fail_at of
         Some k \<Rightarrow> if k < length dos then (False, fold (\<lambda>d D. D(ro_id d \<mapsto> d)) (take k dos) D)
                   else (acked, fold (\<lambda>d D. D(ro_id d \<mapsto> d)) dos D)
       | None \<Rightarrow> (acked, fold (\<lambda>d D. D(ro_id d \<mapsto> d)) dos D))"

section \<open>Modules\<close>

record role_module =
  rm_owner :: u32
  rm_data :: "role_do option"
  rm_dirty :: bool

definition role_module_new :: "u32 \<Rightarrow> role_module" where
  "role_module_new owner = \<lparr>rm_owner = owner, rm_data = None, rm_dirty = False\<rparr>"

definition fromDO :: "role_do option \<Rightarrow> role_module \<Rightarrow> role_module" where
  "fromDO d m =
    (case d of None \<Rightarrow> m\<lparr>rm_data := Some \<lparr>ro_id = ucast (rm_owner m), ro_name = []\<rparr>\<rparr> | Some _ \<Rightarrow> m)"

definition loadDataFromDB :: "bool \<Rightarrow> db \<Rightarrow> role_module \<Rightarrow> role_module" where
  "loadDataFromDB ok D m =
    (case find_one ok (ucast (rm_owner m)) D of
       None \<Rightarrow> fromDO None m
     | Some d \<Rightarrow> fromDO (Some d) (m\<lparr>rm_data := Some d\<rparr>))"

definition module_onLogin :: "role_module \<Rightarrow> role_module" where
  "module_onLogin m = m\<lparr>rm_dirty := True\<rparr>"

definition saveDataToDB :: "write_outcome \<Rightarrow> role_module \<Rightarrow> db \<Rightarrow> db" where
  "saveDataToDB w m D =
    (if \<not> rm_dirty m then D
     else case rm_data m of None \<Rightarrow> D | Some d \<Rightarrow> snd (db_update w d D))"

section \<open>Players\<close>

record game_player =
  pl_hashCode :: u32
  pl_pid :: u32
  pl_sid :: u64
  pl_channel :: "u32 option"
  pl_modules :: "role_module list"

text \<open>\<open>live\<close>: the loop's registry holds the channel, so that it can be shared.\<close>

definition setChannel :: "(u32 \<Rightarrow> bool) \<Rightarrow> u32 option \<Rightarrow> game_player \<Rightarrow> game_player" where
  "setChannel live ch p =
    p\<lparr>pl_channel := (case ch of None \<Rightarrow> None | Some c \<Rightarrow> if live c then Some c else None)\<rparr>"

definition player_new :: "(u32 \<Rightarrow> bool) \<Rightarrow> u32 \<Rightarrow> u64 \<Rightarrow> u32 option \<Rightarrow> game_player" where
  "player_new live pid sid ch =
    setChannel live ch \<lparr>pl_hashCode = 0, pl_pid = pid, pl_sid = sid, pl_channel = None, pl_modules = []\<rparr>"

definition initModules :: "game_player \<Rightarrow> game_player" where
  "initModules p = p\<lparr>pl_modules := pl_modules p @ [role_module_new (pl_pid p)]\<rparr>"

definition loadDataFormDB :: "bool \<Rightarrow> db \<Rightarrow> game_player \<Rightarrow> game_player" where
  "loadDataFormDB ok D p = p\<lparr>pl_modules := map (loadDataFromDB ok D) (pl_modules p)\<rparr>"

definition player_onLogin :: "game_player \<Rightarrow> game_player" where
  "player_onLogin p = p\<lparr>pl_hashCode := pl_pid p, pl_modules := map module_onLogin (pl_modules p)\<rparr>"

definition player_save :: "write_outcome \<Rightarrow> game_player \<Rightarrow> db \<Rightarrow> db" where
  "player_save w p D = fold (saveDataToDB w) (pl_modules p) D"

definition player_sendMsg :: "i32 \<Rightarrow> message \<Rightarrow> game_player \<Rightarrow> net_send list" where
  "player_sendMsg msgId msg p =
    (case pl_channel p of None \<Rightarrow> [] | Some c \<Rightarrow> [Msg_send c msgId msg (ucast (pl_pid p))])"

record game =
  players :: "u32 \<Rightarrow> nat option"
  gp_pool :: "game_player pool"
  game_db :: db

definition getPlayer :: "u32 \<Rightarrow> game \<Rightarrow> nat option" where
  "getPlayer playerId G = players G playerId"

definition gplayer :: "game \<Rightarrow> nat \<Rightarrow> game_player" where
  "gplayer G a = the (objects (gp_pool G) a)"

definition set_gplayer :: "nat \<Rightarrow> game_player \<Rightarrow> game \<Rightarrow> game" where
  "set_gplayer a p G = G\<lparr>gp_pool := (gp_pool G)\<lparr>objects := (objects (gp_pool G))(a \<mapsto> p)\<rparr>\<rparr>"

definition addPlayer :: "nat \<Rightarrow> game \<Rightarrow> game" where
  "addPlayer a G =
    (let pid = pl_pid (gplayer G a) in
     case players G pid of None \<Rightarrow> G\<lparr>players := (players G)(pid \<mapsto> a)\<rparr> | Some _ \<Rightarrow> G)"

definition game_removePlayer :: "nat \<Rightarrow> game \<Rightarrow> game" where
  "game_removePlayer a G = G\<lparr>players := (players G)(pl_pid (gplayer G a) := None)\<rparr>"

definition newPlayer :: "(u32 \<Rightarrow> bool) \<Rightarrow> u32 \<Rightarrow> u64 \<Rightarrow> u32 \<Rightarrow> game \<Rightarrow> nat \<times> game" where
  "newPlayer live playerId sid channel G =
    (case acquire (player_new live playerId sid (Some channel)) (gp_pool G) of
       (a, pool) \<Rightarrow> (a, G\<lparr>gp_pool := pool\<rparr>))"

section \<open>The log-in service\<close>

definition game_onPlayerLogin ::
  "bool \<Rightarrow> (u32 \<Rightarrow> bool) \<Rightarrow> u32 \<Rightarrow> i64 \<Rightarrow> i64 \<Rightarrow> game \<Rightarrow> game \<times> net_send list" where
  "game_onPlayerLogin ok live channel sid roleid G =
    (let playerId = ucast roleid;
         (a, G) = (case getPlayer playerId G of
             Some a \<Rightarrow> (a, set_gplayer a (setChannel live (Some channel) (gplayer G a)) G)
           | None \<Rightarrow>
               (case newPlayer live playerId sid channel G of
                  (a, G) \<Rightarrow> (a, set_gplayer a (loadDataFormDB ok (game_db G) (initModules (gplayer G a))) G)));
         G = addPlayer a (set_gplayer a (player_onLogin (gplayer G a)) G)
     in (G, [Msg_send channel INNER_TO_GAME_LOGIN_RES (InnerLoginResponse sid roleid) roleid]))"

definition game_onPlayerDisconnect :: "write_outcome \<Rightarrow> i64 \<Rightarrow> game \<Rightarrow> game" where
  "game_onPlayerDisconnect w playerId G =
    (case getPlayer (ucast playerId) G of
       None \<Rightarrow> G
     | Some a \<Rightarrow>
         (case pl_channel (gplayer G a) of
            None \<Rightarrow> G
          | Some c \<Rightarrow> G\<lparr>game_db := player_save w (gplayer G a) (game_db G)\<rparr>))"

section \<open>Invariant\<close>

text \<open>A player of the table is a pool object in use under its own id, with one role module whose data
  is of that id; all of them are dirty.\<close>

definition player_ok :: "u32 \<Rightarrow> game_player \<Rightarrow> bool" where
  "player_ok u p \<longleftrightarrow> pl_pid p = u \<and>
    (\<exists>d. pl_modules p = [\<lparr>rm_owner = u, rm_data = Some d, rm_dirty = True\<rparr>] \<and> ro_id d = ucast u)"

definition game_inv :: "game \<Rightarrow> bool" where
  "game_inv G \<longleftrightarrow> pool_inv (gp_pool G) (ran (players G)) \<and>
    (\<forall>u a. players G u = Some a \<longrightarrow> (\<exists>p. objects (gp_pool G) a = Some p \<and> player_ok u p)) \<and>
    (\<forall>i d. game_db G i = Some d \<longrightarrow> ro_id d = i)"

definition game_new :: "game_player pool \<Rightarrow> db \<Rightarrow> game" where
  "game_new pool D = \<lparr>players = (\<lambda>u. None), gp_pool = pool, game_db = D\<rparr>"

lemma set_gplayer_simps [simp]:
  "players (set_gplayer a p G) = players G" "game_db (set_gplayer a p G) = game_db G"
  "gplayer (set_gplayer a p G) b = (if b = a then p else gplayer G b)"
  "objects (gp_pool (set_gplayer a p G)) = (objects (gp_pool G))(a \<mapsto> p)"
  "pool_inv (gp_pool (set_gplayer a p G)) H = pool_inv (gp_pool G) H"
  "set_gplayer a q (set_gplayer a p G) = set_gplayer a q G"
  by (simp_all add: set_gplayer_def gplayer_def pool_inv_def)

text \<open>The data a fresh player starts with.\<close>

definition first_data :: "bool \<Rightarrow> u32 \<Rightarrow> db \<Rightarrow> role_do" where
  "first_data ok u D = (case find_one ok (ucast u) D of None \<Rightarrow> \<lparr>ro_id = ucast u, ro_name = []\<rparr> | Some d \<Rightarrow> d)"

lemma fresh_player:
  "player_onLogin (loadDataFormDB ok D (initModules (player_new live u sid (Some c)))) =
    \<lparr>pl_hashCode = u, pl_pid = u, pl_sid = sid, pl_channel = (if live c then Some c else None),
     pl_modules = [\<lparr>rm_owner = u, rm_data = Some (first_data ok u D), rm_dirty = True\<rparr>]\<rparr>"
  by (simp add: player_onLogin_def loadDataFormDB_def initModules_def player_new_def setChannel_def
      role_module_new_def loadDataFromDB_def fromDO_def module_onLogin_def first_data_def split: option.split)

lemma returning_player:
  "player_ok u p \<Longrightarrow> player_onLogin (setChannel live (Some c) p) =
    p\<lparr>pl_hashCode := u, pl_channel := (if live c then Some c else None)\<rparr>"
  by (auto simp: player_ok_def player_onLogin_def setChannel_def module_onLogin_def)

lemma game_player:
  assumes "game_inv G" "players G u = Some a"
  obtains p d where "objects (gp_pool G) a = Some p" "gplayer G a = p" "player_ok u p" "pl_pid p = u"
    "pl_modules p = [\<lparr>rm_owner = u, rm_data = Some d, rm_dirty = True\<rparr>]" "ro_id d = ucast u"
proof -
  obtain p where p: "objects (gp_pool G) a = Some p" "player_ok u p"
    using assms unfolding game_inv_def by blast
  moreover obtain d where "pl_modules p = [\<lparr>rm_owner = u, rm_data = Some d, rm_dirty = True\<rparr>]" "ro_id d = ucast u"
    using p(2) unfolding player_ok_def by blast
  ultimately show thesis using that [of p d] by (simp add: gplayer_def player_ok_def)
qed

lemma game_online_inj: "game_inv G \<Longrightarrow> players G v = Some b \<Longrightarrow> players G w = Some b \<Longrightarrow> v = w"
  by (metis game_player option.inject)

text \<open>The table, the player and the replies after a log-in.\<close>

lemma game_login:
  assumes inv: "game_inv G" and u: "u = ucast roleid"
    and G': "game_onPlayerLogin ok live c sid roleid G = (G', sends)"
  obtains a where "players G' = (players G)(u \<mapsto> a)" "a \<notin> ran (players G) \<or> players G u = Some a"
    "pool_inv (gp_pool G') (insert a (ran (players G)))"
    "\<forall>b \<in> ran (players G). b \<noteq> a \<longrightarrow> objects (gp_pool G') b = objects (gp_pool G) b"
    "objects (gp_pool G') a = Some (gplayer G' a)" "player_ok u (gplayer G' a)"
    "pl_channel (gplayer G' a) = (if live c then Some c else None)"
    "rm_data (hd (pl_modules (gplayer G' a))) = Some
      (if players G u = Some a then the (rm_data (hd (pl_modules (gplayer G a)))) else first_data ok u (game_db G))"
    "game_db G' = game_db G" "sends = [Msg_send c INNER_TO_GAME_LOGIN_RES (InnerLoginResponse sid roleid) roleid]"
proof (cases "players G u")
  case None
  obtain a pool where acq: "acquire (player_new live u sid (Some c)) (gp_pool G) = (a, pool)"
    by (cases "acquire (player_new live u sid (Some c)) (gp_pool G)")
  have P: "pool_inv (gp_pool G) (ran (players G))" using inv by (simp add: game_inv_def)
  have ai: "pool_inv pool (insert a (ran (players G)))" "a \<notin> ran (players G)"
    "objects pool a = Some (player_new live u sid (Some c))"
    "\<And>b. b \<in> ran (players G) \<Longrightarrow> objects pool b = objects (gp_pool G) b"
    using acquire_inv [OF P acq] by simp_all
  let ?p = "\<lparr>pl_hashCode = u, pl_pid = u, pl_sid = sid, pl_channel = (if live c then Some c else None),
     pl_modules = [\<lparr>rm_owner = u, rm_data = Some (first_data ok u (game_db G)), rm_dirty = True\<rparr>]\<rparr>"
  have "G' = G\<lparr>players := (players G)(u \<mapsto> a), gp_pool := pool\<lparr>objects := (objects pool)(a \<mapsto> ?p)\<rparr>\<rparr>"
    using G' None fresh_player [of ok "game_db G" live u sid c]
    by (auto simp: game_onPlayerLogin_def getPlayer_def newPlayer_def u [symmetric] acq Let_def addPlayer_def
        gplayer_def set_gplayer_def ai(3))
  moreover have "ro_id (first_data ok u (game_db G)) = ucast u"
    using inv by (auto simp: first_data_def find_one_def find_one_status_def game_inv_def split: option.splits)
  moreover have "sends = [Msg_send c INNER_TO_GAME_LOGIN_RES (InnerLoginResponse sid roleid) roleid]"
    using G' by (simp add: game_onPlayerLogin_def Let_def split: prod.splits)
  ultimately show thesis
    using that [of a] ai None by (simp add: player_ok_def gplayer_def pool_inv_def)
next
  case (Some a)
  obtain p d where p: "objects (gp_pool G) a = Some p" "player_ok u p"
    and d: "pl_pid p = u" "pl_modules p = [\<lparr>rm_owner = u, rm_data = Some d, rm_dirty = True\<rparr>]" "ro_id d = ucast u"
    by (rule game_player [OF inv Some])
  let ?p = "p\<lparr>pl_hashCode := u, pl_channel := (if live c then Some c else None)\<rparr>"
  have "G' = set_gplayer a ?p G"
    using G' Some p d returning_player [OF p(2), of live c]
    by (auto simp: game_onPlayerLogin_def getPlayer_def u [symmetric] Let_def addPlayer_def gplayer_def)
  moreover have "sends = [Msg_send c INNER_TO_GAME_LOGIN_RES (InnerLoginResponse sid roleid) roleid]"
    using G' by (simp add: game_onPlayerLogin_def Let_def split: prod.splits)
  moreover have "(players G)(u \<mapsto> a) = players G" "insert a (ran (players G)) = ran (players G)"
    using Some by (auto intro: ranI)
  ultimately show thesis
    using that [of a] Some p d inv by (simp add: player_ok_def game_inv_def) (simp add: gplayer_def)
qed

section \<open>No role is lost\<close>

datatype game_event =
    Inner_login bool u32 i64 i64
  | Inner_disconnect write_outcome i64

definition game_step :: "(u32 \<Rightarrow> bool) \<Rightarrow> game_event \<Rightarrow> game \<Rightarrow> game" where
  "game_step live e G =
    (case e of
       Inner_login ok c sid roleid \<Rightarrow> fst (game_onPlayerLogin ok live c sid roleid G)
     | Inner_disconnect w playerId \<Rightarrow> game_onPlayerDisconnect w playerId G)"

text \<open>What a player online has in memory is what the database has, when it has anything.\<close>

definition in_sync :: "game \<Rightarrow> bool" where
  "in_sync G \<longleftrightarrow> (\<forall>u a d. players G u = Some a \<longrightarrow> game_db G (ucast u) = Some d \<longrightarrow>
    rm_data (hd (pl_modules (gplayer G a))) = Some d)"

lemma ucast_inj: "(ucast (u :: u32) :: i64) = ucast v \<longleftrightarrow> u = v"
proof
  assume "(ucast u :: i64) = ucast v"
  then have "uint (ucast u :: i64) = uint (ucast v :: i64)" by simp
  moreover have "take_bit 64 (uint x) = uint x" for x :: u32
    using unsigned_less [of x, where 'a=int] by (simp add: take_bit_int_eq_self)
  ultimately show "u = v" by (simp add: unsigned_ucast_eq word_uint_eq_iff)
qed simp

lemma game_login_inv:
  assumes inv: "game_inv G" and G': "game_onPlayerLogin ok live c sid roleid G = (G', sends)"
  shows "game_inv G'" "in_sync G \<Longrightarrow> ok \<Longrightarrow> in_sync G'" "game_db G' = game_db G"
proof -
  define u :: u32 where "u = ucast roleid"
  obtain a where a: "players G' = (players G)(u \<mapsto> a)" "a \<notin> ran (players G) \<or> players G u = Some a"
    "pool_inv (gp_pool G') (insert a (ran (players G)))"
    "\<forall>b \<in> ran (players G). b \<noteq> a \<longrightarrow> objects (gp_pool G') b = objects (gp_pool G) b"
    "objects (gp_pool G') a = Some (gplayer G' a)" "player_ok u (gplayer G' a)"
    "pl_channel (gplayer G' a) = (if live c then Some c else None)"
    "rm_data (hd (pl_modules (gplayer G' a))) = Some
      (if players G u = Some a then the (rm_data (hd (pl_modules (gplayer G a)))) else first_data ok u (game_db G))"
    "game_db G' = game_db G" "sends = [Msg_send c INNER_TO_GAME_LOGIN_RES (InnerLoginResponse sid roleid) roleid]"
    by (rule game_login [OF inv u_def G'])
  note inj = game_online_inj [OF inv]
  have other: "b \<noteq> a \<and> b \<in> ran (players G)" if "players G v = Some b" "v \<noteq> u" for v b
    using that inj a(2) by (auto intro: ranI)
  have "ran (players G') \<subseteq> insert a (ran (players G))" by (auto simp: a(1) ran_def)
  then have "pool_inv (gp_pool G') (ran (players G'))" using a(3) by (auto simp: pool_inv_def)
  moreover have "\<exists>p. objects (gp_pool G') b = Some p \<and> player_ok v p" if "players G' v = Some b" for v b
  proof (cases "v = u")
    case True
    then show ?thesis using that a(1,5,6) by auto
  next
    case False
    then have v: "players G v = Some b" using that a(1) by simp
    then show ?thesis using a(4) other [OF v False] inv by (auto simp: game_inv_def)
  qed
  ultimately show "game_inv G'" using inv a(9) by (simp add: game_inv_def)
  show "in_sync G'" if s: "in_sync G" and ok
    unfolding in_sync_def a(9)
  proof (intro allI impI)
    fix v b d
    assume v: "players G' v = Some b" and d: "game_db G (ucast v) = Some d"
    show "rm_data (hd (pl_modules (gplayer G' b))) = Some d"
    proof (cases "v = u")
      case True
      then have b: "b = a" using v a(1) by simp
      show ?thesis
      proof (cases "players G u = Some a")
        case True
        have "rm_data (hd (pl_modules (gplayer G a))) = Some d"
          using s d True \<open>v = u\<close> by (auto simp: in_sync_def)
        then show ?thesis using a(8) True b by simp
      next
        case False
        have "first_data ok u (game_db G) = d"
          using \<open>ok\<close> d \<open>v = u\<close> by (simp add: first_data_def find_one_def find_one_status_def)
        then show ?thesis using a(8) False b by simp
      qed
    next
      case False
      then have "players G v = Some b" using v a(1) by simp
      moreover from this have "gplayer G' b = gplayer G b"
        using a(4) other [of v b] False by (simp add: gplayer_def)
      ultimately show ?thesis using s d by (auto simp: in_sync_def)
    qed
  qed
  show "game_db G' = game_db G" by (rule a(9))
qed

lemma game_disconnect_inv:
  assumes inv: "game_inv G"
  shows "game_inv (game_onPlayerDisconnect w i G)"
    "in_sync G \<Longrightarrow> in_sync (game_onPlayerDisconnect w i G) \<and>
      (\<forall>j d. game_db G j = Some d \<longrightarrow> game_db (game_onPlayerDisconnect w i G) j = Some d)"
proof -
  let ?G = "game_onPlayerDisconnect w i G"
  have eq: "?G = G \<or> (\<exists>u a d. players G u = Some a \<and> ro_id d = ucast u \<and>
      rm_data (hd (pl_modules (gplayer G a))) = Some d \<and> ?G = G\<lparr>game_db := (game_db G)(ucast u \<mapsto> d)\<rparr>)"
  proof (cases "players G (ucast i)")
    case None
    then show ?thesis by (simp add: game_onPlayerDisconnect_def getPlayer_def)
  next
    case (Some a)
    obtain p d where p: "gplayer G a = p"
      "pl_modules p = [\<lparr>rm_owner = ucast i, rm_data = Some d, rm_dirty = True\<rparr>]" "ro_id d = ucast (ucast i :: u32)"
      by (rule game_player [OF inv Some])
    have "?G = G \<or> ?G = G\<lparr>game_db := (game_db G)(ucast (ucast i :: u32) \<mapsto> d)\<rparr>"
      using Some p by (auto simp: game_onPlayerDisconnect_def getPlayer_def player_save_def
          saveDataToDB_def db_update_def split: option.splits write_outcome.splits)
    then show ?thesis
    proof
      assume "?G = G\<lparr>game_db := (game_db G)(ucast (ucast i :: u32) \<mapsto> d)\<rparr>"
      then show ?thesis using Some p by (intro disjI2 exI [of _ "ucast i"] exI [of _ a] exI [of _ d]) simp
    qed simp
  qed
  show "game_inv ?G" using eq inv by (auto simp: game_inv_def split: if_splits)
  show "in_sync ?G \<and> (\<forall>j d. game_db G j = Some d \<longrightarrow> game_db ?G j = Some d)" if s: "in_sync G"
    using eq
  proof (elim disjE exE conjE)
    fix u a d
    assume u: "players G u = Some a" "rm_data (hd (pl_modules (gplayer G a))) = Some d"
      "?G = G\<lparr>game_db := (game_db G)(ucast u \<mapsto> d)\<rparr>"
    have inj: "v = u" if "players G v = Some a" for v
      by (rule game_online_inj [OF inv that u(1)])
    show ?thesis unfolding u(3) using s u by (auto simp: in_sync_def gplayer_def ucast_inj)
  qed (use s in auto)
qed

text \<open>C6. As long as the reads of the database at log-in succeed, no stored role is ever changed or
  lost, whatever the writes do; and a disconnection whose write is acknowledged stores what the
  player has in memory.\<close>

theorem roles_kept:
  assumes pool: "pool_inv pool {}" and D: "\<And>i d. D i = Some d \<Longrightarrow> ro_id d = i"
    and reads: "\<And>ok c sid r. Inner_login ok c sid r \<in> set es \<Longrightarrow> ok"
    and G: "G = fold (game_step live) es (game_new pool D)"
  shows "(\<forall>i d. D i = Some d \<longrightarrow> game_db G i = Some d) \<and>
    (\<forall>i a. players G (ucast i) = Some a \<longrightarrow> pl_channel (gplayer G a) \<noteq> None \<longrightarrow>
      game_db (game_onPlayerDisconnect Acked i G) (ucast (ucast i :: u32)) =
        rm_data (hd (pl_modules (gplayer G a))))"
proof -
  have run: "game_inv (fold (game_step live) es G0) \<and> in_sync (fold (game_step live) es G0) \<and>
      (\<forall>i d. game_db G0 i = Some d \<longrightarrow> game_db (fold (game_step live) es G0) i = Some d)"
    if "game_inv G0" "in_sync G0" "\<And>ok c sid r. Inner_login ok c sid r \<in> set es \<Longrightarrow> ok" for G0
    using that
  proof (induction es arbitrary: G0)
    case (Cons e es)
    have "game_inv (game_step live e G0) \<and> in_sync (game_step live e G0) \<and>
        (\<forall>i d. game_db G0 i = Some d \<longrightarrow> game_db (game_step live e G0) i = Some d)"
    proof (cases e)
      case (Inner_login ok c sid r)
      obtain G' sends where "game_onPlayerLogin ok live c sid r G0 = (G', sends)"
        by (cases "game_onPlayerLogin ok live c sid r G0")
      from game_login_inv [OF Cons.prems(1) this] this show ?thesis
        using Cons.prems Inner_login by (auto simp: game_step_def)
    next
      case (Inner_disconnect w i)
      then show ?thesis using game_disconnect_inv Cons.prems by (simp add: game_step_def)
    qed
    then show ?case using Cons.IH [of "game_step live e G0"] Cons.prems(3) by fastforce
  qed auto
  have "game_inv (game_new pool D)" "in_sync (game_new pool D)" "game_db (game_new pool D) = D"
    using pool D by (auto simp: game_inv_def game_new_def in_sync_def)
  then have inv: "game_inv G" and keep: "\<forall>i d. D i = Some d \<longrightarrow> game_db G i = Some d"
    using run [of "game_new pool D"] reads unfolding G by auto
  have "game_db (game_onPlayerDisconnect Acked i G) (ucast (ucast i :: u32)) = rm_data (hd (pl_modules (gplayer G a)))"
    if a: "players G (ucast i) = Some a" "pl_channel (gplayer G a) \<noteq> None" for i a
  proof -
    obtain p d where "gplayer G a = p"
      "pl_modules p = [\<lparr>rm_owner = ucast i, rm_data = Some d, rm_dirty = True\<rparr>]" "ro_id d = ucast (ucast i :: u32)"
      by (rule game_player [OF inv a(1)])
    then show ?thesis using a by (auto simp: game_onPlayerDisconnect_def getPlayer_def
          player_save_def saveDataToDB_def db_update_def)
  qed
  then show ?thesis using keep by blast
qed

definition ex_db :: db where
  "ex_db i = (if i = 7 then Some \<lparr>ro_id = 7, ro_name = ''conan''\<rparr> else None)"

lemma ex_db_ids: "ex_db i = Some d \<Longrightarrow> ro_id d = i"
  by (auto simp: ex_db_def split: if_splits)

definition ex_blank :: game_player where
  "ex_blank = \<lparr>pl_hashCode = 0, pl_pid = 0, pl_sid = 0, pl_channel = None, pl_modules = []\<rparr>"

definition ex_game :: game where
  "ex_game = game_new (pool_new ex_blank 0 4096) ex_db"

lemma roles_kept_witness:
  "game_db (fold (game_step (\<lambda>c. True)) [Inner_login True 9 1 7, Inner_disconnect Raised 7, Inner_disconnect Acked 7] ex_game) 7
    = Some \<lparr>ro_id = 7, ro_name = ''conan''\<rparr>"
proof -
  let ?es = "[Inner_login True 9 1 7, Inner_disconnect Raised 7, Inner_disconnect Acked 7]"
  have "\<forall>i d. ex_db i = Some d \<longrightarrow> game_db (fold (game_step (\<lambda>c. True)) ?es ex_game) i = Some d"
    unfolding ex_game_def
    by (rule roles_kept [THEN conjunct1, OF pool_new_inv _ _ refl]) (auto simp: ex_db_ids)
  moreover have "ex_db 7 = Some \<lparr>ro_id = 7, ro_name = ''conan''\<rparr>" by code_simp
  ultimately show ?thesis by blast
qed

text \<open>A read that fails at log-in is taken for a missing record: the next acknowledged write replaces the
  stored role by an empty one.\<close>

theorem failed_read_overwrites:
  assumes pool: "pool_inv pool {}" and D: "\<And>i d. D i = Some d \<Longrightarrow> ro_id d = i" and live: "live c"
  shows "game_db (fold (game_step live) [Inner_login False c sid r, Inner_disconnect Acked r] (game_new pool D))
      (ucast (ucast r :: u32)) = Some \<lparr>ro_id = ucast (ucast r :: u32), ro_name = []\<rparr>"
proof -
  let ?G = "game_new pool D"
  define u :: u32 where "u = ucast r"
  have inv: "game_inv ?G" using pool D by (auto simp: game_inv_def game_new_def)
  obtain G' sends where G': "game_onPlayerLogin False live c sid r ?G = (G', sends)"
    by (cases "game_onPlayerLogin False live c sid r ?G")
  obtain a where a: "players G' = (players ?G)(u \<mapsto> a)" "pl_channel (gplayer G' a) = (if live c then Some c else None)"
    "rm_data (hd (pl_modules (gplayer G' a))) = Some
      (if players ?G u = Some a then the (rm_data (hd (pl_modules (gplayer ?G a)))) else first_data False u (game_db ?G))"
    by (rule game_login [OF inv u_def G'])
  have inv': "game_inv G'" by (rule game_login_inv(1) [OF inv G'])
  have p: "players G' u = Some a" using a(1) by simp
  obtain q d where d: "gplayer G' a = q" "pl_modules q = [\<lparr>rm_owner = u, rm_data = Some d, rm_dirty = True\<rparr>]"
    "ro_id d = ucast u"
    by (rule game_player [OF inv' p])
  have "d = \<lparr>ro_id = ucast u, ro_name = []\<rparr>"
    using a(3) d by (simp add: game_new_def first_data_def find_one_def find_one_status_def)
  then show ?thesis
    using G' p d(1,2) a(2) live
    by (simp add: game_step_def game_onPlayerDisconnect_def getPlayer_def u_def [symmetric] player_save_def
        saveDataToDB_def db_update_def)
qed

lemma failed_read_overwrites_witness:
  "game_db (fold (game_step (\<lambda>c. True)) [Inner_login False 9 1 7, Inner_disconnect Acked 7] ex_game) 7
    = Some \<lparr>ro_id = 7, ro_name = []\<rparr>"
  using failed_read_overwrites [where D = ex_db and live = "\<lambda>c. True" and c = 9 and r = 7 and sid = 1,
      OF pool_new_inv [of ex_blank 0 4096] ex_db_ids]
  unfolding ex_game_def by simp

end
