(* ===== verification/Heap_Order.thy ===== *)
theory Heap_Order
  imports Athena_Prelude "HOL-Library.Multiset"
begin

text \<open>
  The specification of the timer heap: a priority queue as a locale, and a binary heap laid out
  breadth-first in a list, which provides it. The pointer code of src/core/common/Heap.cpp is shown to
  implement these list operations in \<open>Timer_Heap\<close>.
\<close>

section \<open>The interface\<close>

locale timer_queue =
  fixes invar :: "('n \<Rightarrow> 'k :: linorder) \<Rightarrow> 'q \<Rightarrow> bool"
    and elems :: "'q \<Rightarrow> 'n set"
    and least :: "'q \<Rightarrow> 'n option"
    and ins :: "('n \<Rightarrow> 'k) \<Rightarrow> 'n \<Rightarrow> 'q \<Rightarrow> 'q"
    and del :: "('n \<Rightarrow> 'k) \<Rightarrow> 'n \<Rightarrow> 'q \<Rightarrow> 'q"
  assumes least_None: "invar key q \<Longrightarrow> least q = None \<longleftrightarrow> elems q = {}"
    and least_Some: "invar key q \<Longrightarrow> least q = Some a \<Longrightarrow> a \<in> elems q \<and> (\<forall>b \<in> elems q. key a \<le> key b)"
    and ins_invar: "invar key q \<Longrightarrow> a \<notin> elems q \<Longrightarrow> invar key (ins key a q)"
    and ins_elems: "invar key q \<Longrightarrow> a \<notin> elems q \<Longrightarrow> elems (ins key a q) = insert a (elems q)"
    and del_invar: "invar key q \<Longrightarrow> a \<in> elems q \<Longrightarrow> (\<And>b. b \<noteq> a \<Longrightarrow> key' b = key b) \<Longrightarrow> invar key' (del key' a q)"
    and del_elems: "invar key q \<Longrightarrow> a \<in> elems q \<Longrightarrow> (\<And>b. b \<noteq> a \<Longrightarrow> key' b = key b) \<Longrightarrow>
      elems (del key' a q) = elems q - {a}"
    and invar_cong: "invar key q \<Longrightarrow> (\<And>b. b \<in> elems q \<Longrightarrow> key' b = key b) \<Longrightarrow> invar key' q"

section \<open>Positions\<close>

definition up :: "nat \<Rightarrow> nat" where "up i = (i - 1) div 2"

lemma up_less [termination_simp]: "0 < i \<Longrightarrow> up i < i" by (simp add: up_def)

lemma up_child [simp]: "up (2 * i + 1) = i" "up (2 * i + 2) = i" "up (Suc (2 * i)) = i" "up (Suc (Suc (2 * i))) = i"
  by (simp_all add: up_def)

lemma up_cases: "0 < j \<Longrightarrow> j = 2 * up j + 1 \<or> j = 2 * up j + 2"
  by (simp add: up_def) presburger

definition swap_at :: "nat \<Rightarrow> nat \<Rightarrow> 'a list \<Rightarrow> 'a list" where
  "swap_at i j xs = xs[i := xs ! j, j := xs ! i]"

lemma length_swap_at [simp]: "length (swap_at i j xs) = length xs"
  by (simp add: swap_at_def)

lemma mset_swap_at: "i < length xs \<Longrightarrow> j < length xs \<Longrightarrow> mset (swap_at i j xs) = mset xs"
  by (simp add: swap_at_def mset_swap)

lemma set_swap_at: "i < length xs \<Longrightarrow> j < length xs \<Longrightarrow> set (swap_at i j xs) = set xs"
  by (metis mset_swap_at set_mset_mset)

lemma distinct_swap_at: "i < length xs \<Longrightarrow> j < length xs \<Longrightarrow> distinct (swap_at i j xs) = distinct xs"
  by (metis mset_swap_at mset_eq_imp_distinct_iff)

lemma nth_swap_at:
  "i < length xs \<Longrightarrow> j < length xs \<Longrightarrow> k < length xs \<Longrightarrow>
    swap_at i j xs ! k = (if k = i then xs ! j else if k = j then xs ! i else xs ! k)"
  by (auto simp: swap_at_def nth_list_update)

section \<open>Operations on the list\<close>

fun sift_up :: "('n \<Rightarrow> 'k :: linorder) \<Rightarrow> 'n list \<Rightarrow> nat \<Rightarrow> 'n list" where
  "sift_up key xs i =
    (if 0 < i \<and> key (xs ! i) < key (xs ! up i) then sift_up key (swap_at (up i) i xs) (up i) else xs)"

declare sift_up.simps [simp del]

definition smallest_of :: "('n \<Rightarrow> 'k :: linorder) \<Rightarrow> 'n list \<Rightarrow> nat \<Rightarrow> nat" where
  "smallest_of key xs i =
    (let s = i;
         s = (if 2 * i + 1 < length xs \<and> key (xs ! (2 * i + 1)) < key (xs ! s) then 2 * i + 1 else s)
     in if 2 * i + 2 < length xs \<and> key (xs ! (2 * i + 2)) < key (xs ! s) then 2 * i + 2 else s)"

lemma smallest_of_cases:
  "smallest_of key xs i = i \<or>
    smallest_of key xs i < length xs \<and> i < smallest_of key xs i \<and> up (smallest_of key xs i) = i"
  by (auto simp: smallest_of_def Let_def)

function sift_down :: "('n \<Rightarrow> 'k :: linorder) \<Rightarrow> 'n list \<Rightarrow> nat \<Rightarrow> 'n list \<times> nat" where
  "sift_down key xs i =
    (if smallest_of key xs i = i then (xs, i)
     else sift_down key (swap_at i (smallest_of key xs i) xs) (smallest_of key xs i))"
  by auto
termination
proof (relation "measure (\<lambda>(key, xs, i). length xs - i)")
  fix key :: "'n \<Rightarrow> 'k :: linorder" and xs and i
  assume "smallest_of key xs i \<noteq> i"
  then show "((key, swap_at i (smallest_of key xs i) xs, smallest_of key xs i), key, xs, i) \<in> measure (\<lambda>(key, xs, i). length xs - i)"
    using smallest_of_cases [of key xs i] by auto
qed simp

declare sift_down.simps [simp del]

definition list_insert :: "('n \<Rightarrow> 'k :: linorder) \<Rightarrow> 'n \<Rightarrow> 'n list \<Rightarrow> 'n list" where
  "list_insert key x xs = sift_up key (xs @ [x]) (length xs)"

definition list_remove_at :: "('n \<Rightarrow> 'k :: linorder) \<Rightarrow> nat \<Rightarrow> 'n list \<Rightarrow> 'n list" where
  "list_remove_at key i xs =
    (if i = length xs - 1 then butlast xs
     else case sift_down key ((butlast xs)[i := last xs]) i of (ys, p) \<Rightarrow> sift_up key ys p)"

section \<open>Order\<close>

definition heap_ok :: "('n \<Rightarrow> 'k :: linorder) \<Rightarrow> 'n list \<Rightarrow> bool" where
  "heap_ok key xs \<longleftrightarrow> (\<forall>j. 0 < j \<longrightarrow> j < length xs \<longrightarrow> key (xs ! up j) \<le> key (xs ! j))"

text \<open>Order may fail between position \<open>i\<close> and its parent only.\<close>

definition up_inv :: "('n \<Rightarrow> 'k :: linorder) \<Rightarrow> 'n list \<Rightarrow> nat \<Rightarrow> bool" where
  "up_inv key xs i \<longleftrightarrow> i < length xs \<and>
    (\<forall>j. 0 < j \<longrightarrow> j < length xs \<longrightarrow> j \<noteq> i \<longrightarrow> key (xs ! up j) \<le> key (xs ! j)) \<and>
    (\<forall>j. 0 < i \<longrightarrow> 0 < j \<longrightarrow> j < length xs \<longrightarrow> up j = i \<longrightarrow> key (xs ! up i) \<le> key (xs ! j))"

text \<open>Order may fail around position \<open>i\<close> only.\<close>

definition down_inv :: "('n \<Rightarrow> 'k :: linorder) \<Rightarrow> 'n list \<Rightarrow> nat \<Rightarrow> bool" where
  "down_inv key xs i \<longleftrightarrow> i < length xs \<and>
    (\<forall>j. 0 < j \<longrightarrow> j < length xs \<longrightarrow> j \<noteq> i \<longrightarrow> up j \<noteq> i \<longrightarrow> key (xs ! up j) \<le> key (xs ! j)) \<and>
    (\<forall>j. 0 < i \<longrightarrow> 0 < j \<longrightarrow> j < length xs \<longrightarrow> up j = i \<longrightarrow> key (xs ! up i) \<le> key (xs ! j))"

lemma heap_ok_min:
  assumes "heap_ok key xs"
  shows "j < length xs \<Longrightarrow> key (xs ! 0) \<le> key (xs ! j)"
proof (induction j rule: less_induct)
  case (less j)
  show ?case
  proof (cases "j = 0")
    case False
    then have "key (xs ! 0) \<le> key (xs ! up j)" "key (xs ! up j) \<le> key (xs ! j)"
      using less up_less [of j] assms by (auto simp: heap_ok_def)
    then show ?thesis by (rule order_trans)
  qed simp
qed

lemma up_inv_swap:
  assumes inv: "up_inv key xs i" and i: "0 < i" and lt: "key (xs ! i) < key (xs ! up i)"
  shows "up_inv key (swap_at (up i) i xs) (up i)"
proof -
  let ?p = "up i" and ?ys = "swap_at (up i) i xs"
  have n: "i < length xs" "?p < length xs" "?p \<noteq> i" using inv i up_less [of i] by (auto simp: up_inv_def)
  have ys: "?ys ! k = (if k = ?p then xs ! i else if k = i then xs ! ?p else xs ! k)" if "k < length xs" for k
    by (rule nth_swap_at [OF n(2,1) that])
  have ok: "key (xs ! up j) \<le> key (xs ! j)" if "0 < j" "j < length xs" "j \<noteq> i" for j
    using inv that by (simp add: up_inv_def)
  have 1: "key (?ys ! up j) \<le> key (?ys ! j)" if j: "0 < j" "j < length xs" "j \<noteq> ?p" for j
  proof -
    have u: "up j < length xs" using j up_less [of j] by simp
    consider "j = i" | "j \<noteq> i" "up j = ?p" | "j \<noteq> i" "up j = i" | "j \<noteq> i" "up j \<noteq> i" "up j \<noteq> ?p" by blast
    then show ?thesis
    proof cases
      case 1
      then show ?thesis using j lt n by (simp add: ys)
    next
      case 2
      then show ?thesis using ok [of j] j u lt n by (simp add: ys)
    next
      case 3
      then show ?thesis using inv j u i n by (simp add: ys up_inv_def)
    next
      case 4
      then show ?thesis using ok [of j] j u n by (simp add: ys)
    qed
  qed
  have 2: "key (?ys ! up ?p) \<le> key (?ys ! j)" if j: "0 < ?p" "0 < j" "j < length xs" "up j = ?p" for j
  proof -
    have u: "up ?p < length xs" "up ?p \<noteq> ?p" "up ?p \<noteq> i" using up_less [of ?p] up_less [of i] j(1) i n by auto
    have p: "key (xs ! up ?p) \<le> key (xs ! ?p)" using ok [of ?p] j(1) n by simp
    have "j \<noteq> ?p" using up_less [OF j(2)] j(4) by auto
    then show ?thesis using j u n p ok [of j] by (cases "j = i") (auto simp: ys)
  qed
  show ?thesis unfolding up_inv_def using n 1 2 by simp
qed

lemma sift_up_ok: "up_inv key xs i \<Longrightarrow> heap_ok key (sift_up key xs i)"
proof (induction key xs i rule: sift_up.induct)
  case (1 key xs i)
  show ?case
  proof (cases "0 < i \<and> key (xs ! i) < key (xs ! up i)")
    case True
    then have "up_inv key (swap_at (up i) i xs) (up i)" using up_inv_swap [OF 1(2)] by simp
    from 1(1) [OF True this] show ?thesis using True by (subst sift_up.simps) simp
  next
    case False
    then have "heap_ok key xs"
      using 1(2) unfolding heap_ok_def up_inv_def by (metis linorder_not_less)
    then show ?thesis using False by (subst sift_up.simps) auto
  qed
qed

lemma smallest_of_key:
  assumes "smallest_of key xs i = s"
  shows "s \<noteq> i \<Longrightarrow> key (xs ! s) < key (xs ! i)"
    "0 < j \<Longrightarrow> j < length xs \<Longrightarrow> up j = i \<Longrightarrow> key (xs ! s) \<le> key (xs ! j)"
proof -
  show "s \<noteq> i \<Longrightarrow> key (xs ! s) < key (xs ! i)"
    using assms by (auto simp: smallest_of_def Let_def split: if_splits)
  assume j: "0 < j" "j < length xs" "up j = i"
  then consider "j = 2 * i + 1" | "j = 2 * i + 2" using up_cases by blast
  then show "key (xs ! s) \<le> key (xs ! j)"
    using assms j by cases (auto simp: smallest_of_def Let_def split: if_splits)
qed

lemma down_inv_swap:
  assumes inv: "down_inv key xs i" and s: "s = smallest_of key xs i" "s \<noteq> i"
  shows "down_inv key (swap_at i s xs) s"
proof -
  let ?ys = "swap_at i s xs"
  have n: "i < length xs" "s < length xs" "up s = i" "0 < s" "s \<noteq> i"
    using inv smallest_of_cases [of key xs i] s by (auto simp: down_inv_def)
  note lt = smallest_of_key(1) [OF s(1) [symmetric] s(2)] and le = smallest_of_key(2) [OF s(1) [symmetric]]
  have ys: "?ys ! k = (if k = i then xs ! s else if k = s then xs ! i else xs ! k)" if "k < length xs" for k
    by (rule nth_swap_at [OF n(1,2) that])
  have ok: "key (xs ! up j) \<le> key (xs ! j)" if "0 < j" "j < length xs" "j \<noteq> i" "up j \<noteq> i" for j
    using inv that by (simp add: down_inv_def)
  have 1: "key (?ys ! up j) \<le> key (?ys ! j)" if j: "0 < j" "j < length xs" "j \<noteq> s" "up j \<noteq> s" for j
  proof -
    have u: "up j < length xs" "up j < j" using j up_less [of j] by simp_all
    consider "j = i" | "j \<noteq> i" "up j = i" | "j \<noteq> i" "up j \<noteq> i" by blast
    then show ?thesis
    proof cases
      case 1
      then show ?thesis using inv j u n by (simp add: ys down_inv_def)
    next
      case 2
      then show ?thesis using le [of j] j u n by (simp add: ys)
    next
      case 3
      then show ?thesis using ok [of j] j u n by (simp add: ys)
    qed
  qed
  have 2: "key (?ys ! up s) \<le> key (?ys ! j)" if j: "0 < j" "j < length xs" "up j = s" for j
  proof -
    have "j \<noteq> s" "j \<noteq> i" using j n up_less [OF j(1)] up_less [OF n(4)] by auto
    then show ?thesis using ok [of j] j n by (simp add: ys)
  qed
  show ?thesis unfolding down_inv_def using n 1 2 by simp
qed

lemma sift_down_inv: "down_inv key xs i \<Longrightarrow> case sift_down key xs i of (ys, p) \<Rightarrow> up_inv key ys p"
proof (induction key xs i rule: sift_down.induct)
  case (1 key xs i)
  show ?case
  proof (cases "smallest_of key xs i = i")
    case True
    have "key (xs ! up j) \<le> key (xs ! j)" if "0 < j" "j < length xs" "j \<noteq> i" for j
      using 1(2) smallest_of_key(2) [OF True, of j] that by (cases "up j = i") (auto simp: down_inv_def)
    then show ?thesis using 1(2) True by (subst sift_down.simps) (simp add: up_inv_def down_inv_def)
  next
    case False
    then show ?thesis using 1(1) [OF False down_inv_swap [OF 1(2) refl False]]
      by (subst sift_down.simps) simp
  qed
qed

section \<open>Content\<close>

lemma mset_sift_up: "i < length xs \<Longrightarrow> mset (sift_up key xs i) = mset xs"
proof (induction key xs i rule: sift_up.induct)
  case (1 key xs i)
  show ?case
  proof (cases "0 < i \<and> key (xs ! i) < key (xs ! up i)")
    case True
    then have "up i < length xs" using up_less [of i] 1(2) by simp
    then show ?thesis using 1 True by (subst sift_up.simps) (simp add: mset_swap_at)
  next
    case False
    then show ?thesis by (subst sift_up.simps) auto
  qed
qed

lemma mset_sift_down: "i < length xs \<Longrightarrow> case sift_down key xs i of (ys, p) \<Rightarrow> mset ys = mset xs \<and> p < length ys"
proof (induction key xs i rule: sift_down.induct)
  case (1 key xs i)
  show ?case
  proof (cases "smallest_of key xs i = i")
    case True
    then show ?thesis using 1(2) by (subst sift_down.simps) simp
  next
    case False
    then have "smallest_of key xs i < length xs" using smallest_of_cases by blast
    then show ?thesis using 1(1) [OF False] 1(2) False by (subst sift_down.simps) (simp add: mset_swap_at)
  qed
qed

lemma list_insert_ok:
  assumes "heap_ok key xs"
  shows "heap_ok key (list_insert key x xs)" "mset (list_insert key x xs) = add_mset x (mset xs)"
proof -
  have "up_inv key (xs @ [x]) (length xs)"
    unfolding up_inv_def
  proof (intro conjI allI impI)
    fix j
    assume j: "0 < j" "j < length (xs @ [x])"
    then have "up j < length xs" using up_less [of j] by simp
    moreover assume "j \<noteq> length xs"
    ultimately show "key ((xs @ [x]) ! up j) \<le> key ((xs @ [x]) ! j)"
      using assms j by (simp add: heap_ok_def nth_append)
  next
    fix j
    assume "0 < j" "j < length (xs @ [x])" "up j = length xs"
    then show "key ((xs @ [x]) ! up (length xs)) \<le> key ((xs @ [x]) ! j)" using up_less [of j] by simp
  qed simp
  then show "heap_ok key (list_insert key x xs)" unfolding list_insert_def by (rule sift_up_ok)
  show "mset (list_insert key x xs) = add_mset x (mset xs)" by (simp add: list_insert_def mset_sift_up)
qed

text \<open>Removal does not look at the key of the removed element, which may have changed.\<close>

lemma list_remove_at_ok:
  assumes ok: "heap_ok key xs" and i: "i < length xs" and d: "distinct xs"
    and k: "\<And>b. b \<noteq> xs ! i \<Longrightarrow> key' b = key b"
  shows "heap_ok key' (list_remove_at key' i xs)" "mset (list_remove_at key' i xs) = mset xs - {#xs ! i#}"
proof -
  obtain zs z where xs: "xs = zs @ [z]" using i by (cases xs rule: rev_cases) auto
  have kn: "key' (xs ! j) = key (xs ! j)" if "j < length xs" "j \<noteq> i" for j
    using k d i that by (simp add: nth_eq_iff_index_eq)
  have "heap_ok key' (list_remove_at key' i xs) \<and> mset (list_remove_at key' i xs) = mset xs - {#xs ! i#}"
  proof (cases "i = length zs")
    case True
    have kz: "key' (zs ! j) = key (zs ! j)" if "j < length zs" for j
      using kn [of j] that True by (simp add: xs nth_append)
    have "heap_ok key' zs"
      unfolding heap_ok_def
    proof (intro allI impI)
      fix j
      assume j: "0 < j" "j < length zs"
      then have u: "up j < length zs" using up_less [of j] by simp
      have "key (xs ! up j) \<le> key (xs ! j)" using ok j by (simp add: heap_ok_def xs)
      then show "key' (zs ! up j) \<le> key' (zs ! j)" using j u by (simp add: kz xs nth_append)
    qed
    then show ?thesis using True by (simp add: list_remove_at_def xs)
  next
    case False
    then have il: "i < length zs" using i by (simp add: xs)
    let ?ys = "zs[i := z]"
    have old: "zs ! j = xs ! j" if "j < length zs" for j using that by (simp add: xs nth_append)
    have par: "up j < length zs" if "0 < j" "j < length zs" for j using that up_less [of j] by simp
    have okz: "key' (zs ! up j) \<le> key' (zs ! j)" if "0 < j" "j < length zs" "j \<noteq> i" "up j \<noteq> i" for j
      using ok kn [of j] kn [of "up j"] that par [of j] by (simp add: old heap_ok_def xs)
    have grand: "key' (zs ! up i) \<le> key' (zs ! j)" if "0 < i" "0 < j" "j < length zs" "up j = i" for j
    proof -
      have "key (xs ! up i) \<le> key (xs ! i)" "key (xs ! i) \<le> key (xs ! j)"
        using ok that i by (auto simp: heap_ok_def xs)
      moreover have "up i \<noteq> i" "j \<noteq> i" using up_less [of i] up_less [of j] that by auto
      ultimately show ?thesis using kn [of "up i"] kn [of j] that par [of i] il by (simp add: old xs)
    qed
    have "down_inv key' ?ys i"
      unfolding down_inv_def
    proof (intro conjI allI impI)
      fix j
      assume "0 < j" "j < length ?ys" "j \<noteq> i" "up j \<noteq> i"
      then show "key' (?ys ! up j) \<le> key' (?ys ! j)" using okz [of j] par [of j] by simp
    next
      fix j
      assume j: "0 < i" "0 < j" "j < length ?ys" "up j = i"
      then have "up i \<noteq> i" "j \<noteq> i" using up_less [of i] up_less [of j] by auto
      then show "key' (?ys ! up i) \<le> key' (?ys ! j)" using grand [of j] j by simp
    qed (use il in simp)
    then have inv: "case sift_down key' ?ys i of (ws, p) \<Rightarrow> up_inv key' ws p" by (rule sift_down_inv)
    obtain ws p where ws: "sift_down key' ?ys i = (ws, p)" by (cases "sift_down key' ?ys i")
    have m: "mset ws = mset ?ys" "p < length ws" using mset_sift_down [of i ?ys key'] il ws by simp_all
    have r: "list_remove_at key' i xs = sift_up key' ws p"
      using False ws by (simp add: list_remove_at_def xs)
    have "mset ?ys = mset xs - {#xs ! i#}" using il by (simp add: xs nth_append mset_update)
    then show ?thesis using inv ws m by (simp add: r sift_up_ok mset_sift_up)
  qed
  then show "heap_ok key' (list_remove_at key' i xs)" "mset (list_remove_at key' i xs) = mset xs - {#xs ! i#}"
    by simp_all
qed

section \<open>The list is a timer queue\<close>

definition list_least :: "'n list \<Rightarrow> 'n option" where
  "list_least xs = (case xs of [] \<Rightarrow> None | x # _ \<Rightarrow> Some x)"

definition index_of :: "'n \<Rightarrow> 'n list \<Rightarrow> nat" where
  "index_of a xs = length (takeWhile (\<lambda>b. b \<noteq> a) xs)"

lemma index_of_less: "a \<in> set xs \<Longrightarrow> index_of a xs < length xs"
  unfolding index_of_def by (induction xs) auto

lemma nth_index_of: "a \<in> set xs \<Longrightarrow> xs ! index_of a xs = a"
  unfolding index_of_def by (induction xs) auto

lemma index_of_nth: "distinct xs \<Longrightarrow> i < length xs \<Longrightarrow> index_of (xs ! i) xs = i"
  by (metis index_of_less nth_eq_iff_index_eq nth_index_of nth_mem)

definition list_queue :: "('n \<Rightarrow> 'k :: linorder) \<Rightarrow> 'n list \<Rightarrow> bool" where
  "list_queue key xs \<longleftrightarrow> heap_ok key xs \<and> distinct xs"

lemma list_queue_remove:
  assumes "list_queue key xs" "a \<in> set xs" "\<And>b. b \<noteq> a \<Longrightarrow> key' b = key b"
  shows "list_queue key' (list_remove_at key' (index_of a xs) xs)"
    "set (list_remove_at key' (index_of a xs) xs) = set xs - {a}"
proof -
  let ?i = "index_of a xs"
  have i: "?i < length xs" "xs ! ?i = a" using assms(2) by (simp_all add: index_of_less nth_index_of)
  have r: "heap_ok key' (list_remove_at key' ?i xs)" "mset (list_remove_at key' ?i xs) = mset xs - {#a#}"
    using list_remove_at_ok [of key xs ?i key'] assms i by (simp_all add: list_queue_def)
  have "mset xs = mset_set (set xs)" using assms(1) by (simp add: list_queue_def mset_set_set)
  then have "mset (list_remove_at key' ?i xs) = mset_set (set xs - {a})"
    using r(2) assms(2) by (simp add: mset_set_Diff)
  then have "mset (list_remove_at key' ?i xs) = mset (removeAll a xs)"
    using assms(1) by (simp add: list_queue_def mset_set_set distinct_removeAll flip: set_removeAll)
  then have "set (list_remove_at key' ?i xs) = set xs - {a} \<and> distinct (list_remove_at key' ?i xs)"
    using assms(1) mset_eq_setD mset_eq_imp_distinct_iff
    by (metis distinct_removeAll list_queue_def set_removeAll)
  then show "list_queue key' (list_remove_at key' ?i xs)" "set (list_remove_at key' ?i xs) = set xs - {a}"
    using r(1) by (simp_all add: list_queue_def)
qed

lemma list_queue_insert:
  assumes "list_queue key xs" "a \<notin> set xs"
  shows "list_queue key (list_insert key a xs)" "set (list_insert key a xs) = insert a (set xs)"
proof -
  have m: "mset (list_insert key a xs) = mset (a # xs)" "heap_ok key (list_insert key a xs)"
    using list_insert_ok [of key xs a] assms by (simp_all add: list_queue_def)
  then have "distinct (list_insert key a xs)"
    using assms mset_eq_imp_distinct_iff by (fastforce simp: list_queue_def)
  then show "list_queue key (list_insert key a xs)" using m by (simp add: list_queue_def)
  show "set (list_insert key a xs) = insert a (set xs)" using m(1) by (metis list.simps(15) mset_eq_setD)
qed

lemma list_queue_least:
  assumes "list_queue key xs" "list_least xs = Some a"
  shows "a \<in> set xs \<and> (\<forall>b \<in> set xs. key a \<le> key b)"
proof -
  obtain ys where "xs = a # ys" using assms(2) by (cases xs) (simp_all add: list_least_def)
  then show ?thesis
    using heap_ok_min [of key xs] assms(1) unfolding list_queue_def by (metis in_set_conv_nth list.set_intros(1) nth_Cons_0)
qed

interpretation list_heap: timer_queue list_queue set list_least list_insert
  "\<lambda>key a xs. list_remove_at key (index_of a xs) xs"
proof unfold_locales
  fix key key' :: "'n \<Rightarrow> 'k :: linorder" and q a
  show "list_queue key q \<Longrightarrow> (list_least q = None) = (set q = {})"
    by (simp add: list_least_def split: list.splits)
  show "list_queue key q \<Longrightarrow> (\<And>b. b \<in> set q \<Longrightarrow> key' b = key b) \<Longrightarrow> list_queue key' q"
    unfolding list_queue_def heap_ok_def by (metis nth_mem order.strict_trans up_less)
qed (simp_all add: list_queue_least list_queue_insert list_queue_remove)

end
