(* ===== verification/Timer_Heap.thy ===== *)
theory Timer_Heap
  imports Heap_Order
begin

text \<open>
  The intrusive binary heap of src/core/common/Heap.cpp, over a store of nodes with left, right and
  parent pointers, and its refinement to the breadth-first list of \<open>Heap_Order\<close>. A node is its
  address. The loops that follow pointers are \<open>partial_function\<close>, and \<open>None\<close> also stands for
  following a null pointer.
\<close>

section \<open>Nodes\<close>

record hnode =
  h_left :: "nat option"
  h_right :: "nat option"
  h_parent :: "nat option"

record heap =
  h_min :: "nat option"
  nelts :: nat
  links :: "nat \<Rightarrow> hnode"

definition left :: "heap \<Rightarrow> nat \<Rightarrow> nat option" where "left H a = h_left (links H a)"
definition right :: "heap \<Rightarrow> nat \<Rightarrow> nat option" where "right H a = h_right (links H a)"
definition parent :: "heap \<Rightarrow> nat \<Rightarrow> nat option" where "parent H a = h_parent (links H a)"

definition set_left :: "nat \<Rightarrow> nat option \<Rightarrow> heap \<Rightarrow> heap" where
  "set_left a v H = H\<lparr>links := (links H)(a := (links H a)\<lparr>h_left := v\<rparr>)\<rparr>"
definition set_right :: "nat \<Rightarrow> nat option \<Rightarrow> heap \<Rightarrow> heap" where
  "set_right a v H = H\<lparr>links := (links H)(a := (links H a)\<lparr>h_right := v\<rparr>)\<rparr>"
definition set_parent :: "nat \<Rightarrow> nat option \<Rightarrow> heap \<Rightarrow> heap" where
  "set_parent a v H = H\<lparr>links := (links H)(a := (links H a)\<lparr>h_parent := v\<rparr>)\<rparr>"

lemma link_simps [simp]:
  "left (set_left a v H) b = (if b = a then v else left H b)" "right (set_left a v H) = right H"
  "parent (set_left a v H) = parent H" "left (set_right a v H) = left H"
  "right (set_right a v H) b = (if b = a then v else right H b)" "parent (set_right a v H) = parent H"
  "left (set_parent a v H) = left H" "right (set_parent a v H) = right H"
  "parent (set_parent a v H) b = (if b = a then v else parent H b)"
  "nelts (set_left a v H) = nelts H" "nelts (set_right a v H) = nelts H" "nelts (set_parent a v H) = nelts H"
  "h_min (set_left a v H) = h_min H" "h_min (set_right a v H) = h_min H" "h_min (set_parent a v H) = h_min H"
  "left (H\<lparr>h_min := m\<rparr>) = left H" "right (H\<lparr>h_min := m\<rparr>) = right H" "parent (H\<lparr>h_min := m\<rparr>) = parent H"
  "left (H\<lparr>nelts := k\<rparr>) = left H" "right (H\<lparr>nelts := k\<rparr>) = right H" "parent (H\<lparr>nelts := k\<rparr>) = parent H"
  by (auto simp: left_def right_def parent_def set_left_def set_right_def set_parent_def)

section \<open>Operations\<close>

definition heap_init :: "heap \<Rightarrow> heap" where
  "heap_init H = H\<lparr>h_min := None, nelts := 0\<rparr>"

definition heap_min :: "heap \<Rightarrow> nat option" where "heap_min H = h_min H"

text \<open>The assignments of two structs, then the repair of the pointers around them.\<close>

definition swap_structs :: "nat \<Rightarrow> nat \<Rightarrow> heap \<Rightarrow> heap" where
  "swap_structs par child H =
    (let t = links H par;
         H = H\<lparr>links := (links H)(par := links H child)\<rparr>
     in H\<lparr>links := (links H)(child := t)\<rparr>)"

definition heap_node_swap :: "nat \<Rightarrow> nat \<Rightarrow> heap \<Rightarrow> heap" where
  "heap_node_swap par child H =
    (let H = set_parent par (Some child) (swap_structs par child H);
         was_left = (left H child = Some child);
         H = (if was_left then set_left child (Some par) H else set_right child (Some par) H);
         sibling = (if was_left then right H child else left H child);
         H = (case sibling of None \<Rightarrow> H | Some s \<Rightarrow> set_parent s (Some child) H);
         H = (case left H par of None \<Rightarrow> H | Some l \<Rightarrow> set_parent l (Some par) H);
         H = (case right H par of None \<Rightarrow> H | Some r \<Rightarrow> set_parent r (Some par) H)
     in case parent H child of
          None \<Rightarrow> H\<lparr>h_min := Some child\<rparr>
        | Some g \<Rightarrow> if left H g = Some par then set_left g (Some child) H else set_right g (Some child) H)"

text \<open>The path to position \<open>n\<close>: its length and its bits, the first step in the lowest bit.\<close>

fun path_to :: "nat \<Rightarrow> nat \<Rightarrow> nat \<Rightarrow> nat \<times> nat" where
  "path_to n k path = (if n \<ge> 2 then path_to (n div 2) (k + 1) (2 * path + n mod 2) else (k, path))"

declare path_to.simps [simp del]

text \<open>A pointer to a pointer: the heap's or one inside a node.\<close>

datatype slot = Min_slot | Left_slot nat | Right_slot nat

fun deref :: "heap \<Rightarrow> slot \<Rightarrow> nat option" where
  "deref H Min_slot = h_min H"
| "deref H (Left_slot a) = left H a"
| "deref H (Right_slot a) = right H a"

fun store :: "slot \<Rightarrow> nat option \<Rightarrow> heap \<Rightarrow> heap" where
  "store Min_slot v H = H\<lparr>h_min := v\<rparr>"
| "store (Left_slot a) v H = set_left a v H"
| "store (Right_slot a) v H = set_right a v H"

fun walk :: "heap \<Rightarrow> nat \<Rightarrow> nat \<Rightarrow> slot \<Rightarrow> slot \<Rightarrow> (slot \<times> slot) option" where
  "walk H 0 path par child = Some (par, child)"
| "walk H (Suc k) path par child =
    (case deref H child of
       None \<Rightarrow> None
     | Some a \<Rightarrow> walk H k (path div 2) child (if odd path then Right_slot a else Left_slot a))"

partial_function (option) climb :: "(nat \<Rightarrow> nat \<Rightarrow> bool) \<Rightarrow> nat \<Rightarrow> heap \<Rightarrow> heap option" where
  "climb lt node H =
    (case parent H node of
       None \<Rightarrow> Some H
     | Some p \<Rightarrow> if lt node p then climb lt node (heap_node_swap p node H) else Some H)"

declare climb.simps [code]

definition heap_insert :: "(nat \<Rightarrow> nat \<Rightarrow> bool) \<Rightarrow> nat \<Rightarrow> heap \<Rightarrow> heap option" where
  "heap_insert lt newnode H =
    (let H = H\<lparr>links := (links H)(newnode := \<lparr>h_left = None, h_right = None, h_parent = None\<rparr>)\<rparr>;
         (k, path) = path_to (1 + nelts H) 0 0
     in case walk H k path Min_slot Min_slot of
          None \<Rightarrow> None
        | Some (par, child) \<Rightarrow>
            let H = set_parent newnode (deref H par) H;
                H = store child (Some newnode) H;
                H = H\<lparr>nelts := nelts H + 1\<rparr>
            in climb lt newnode H)"

definition smallest_child :: "(nat \<Rightarrow> nat \<Rightarrow> bool) \<Rightarrow> nat \<Rightarrow> heap \<Rightarrow> nat" where
  "smallest_child lt child H =
    (let smallest = child;
         smallest = (case left H child of None \<Rightarrow> smallest | Some l \<Rightarrow> if lt l smallest then l else smallest)
     in case right H child of None \<Rightarrow> smallest | Some r \<Rightarrow> if lt r smallest then r else smallest)"

partial_function (option) descend :: "(nat \<Rightarrow> nat \<Rightarrow> bool) \<Rightarrow> nat \<Rightarrow> heap \<Rightarrow> heap option" where
  "descend lt child H =
    (let smallest = smallest_child lt child H
     in if smallest = child then Some H else descend lt child (heap_node_swap child smallest H))"

declare descend.simps [code]

text \<open>The last node takes the place of the removed one.\<close>

definition take_place :: "nat \<Rightarrow> nat \<Rightarrow> heap \<Rightarrow> heap" where
  "take_place node child H =
    (let H = set_left child (left H node) H;
         H = set_right child (right H node) H;
         H = set_parent child (parent H node) H;
         H = (case left H child of None \<Rightarrow> H | Some l \<Rightarrow> set_parent l (Some child) H);
         H = (case right H child of None \<Rightarrow> H | Some r \<Rightarrow> set_parent r (Some child) H)
     in case parent H node of
          None \<Rightarrow> H\<lparr>h_min := Some child\<rparr>
        | Some p \<Rightarrow> if left H p = Some node then set_left p (Some child) H else set_right p (Some child) H)"

definition heap_remove :: "(nat \<Rightarrow> nat \<Rightarrow> bool) \<Rightarrow> nat \<Rightarrow> heap \<Rightarrow> heap option" where
  "heap_remove lt node H =
    (if nelts H = 0 then Some H
     else
       let (k, path) = path_to (nelts H) 0 0
       in case walk H k path Min_slot Min_slot of
            None \<Rightarrow> None
          | Some (_, mx) \<Rightarrow>
              let H = H\<lparr>nelts := nelts H - 1\<rparr> in
              case deref H mx of
                None \<Rightarrow> None
              | Some child \<Rightarrow>
                  let H = store mx None H in
                  if child = node then
                    Some (if h_min H = Some child then H\<lparr>h_min := None\<rparr> else H)
                  else
                    Option.bind (descend lt child (take_place node child H)) (climb lt child))"

text \<open>Removing the null pointer of an empty heap changes nothing; of a corrupted one, it may be followed.\<close>

definition heap_dequeue :: "(nat \<Rightarrow> nat \<Rightarrow> bool) \<Rightarrow> heap \<Rightarrow> heap option" where
  "heap_dequeue lt H =
    (case h_min H of
       None \<Rightarrow> if nelts H \<le> 1 then Some (H\<lparr>nelts := 0\<rparr>) else None
     | Some a \<Rightarrow> heap_remove lt a H)"

section \<open>The list a heap stands for\<close>

definition at :: "nat list \<Rightarrow> nat \<Rightarrow> nat option" where
  "at xs i = (if i < length xs then Some (xs ! i) else None)"

definition rep :: "heap \<Rightarrow> nat list \<Rightarrow> bool" where
  "rep H xs \<longleftrightarrow> nelts H = length xs \<and> distinct xs \<and> h_min H = at xs 0 \<and>
    (\<forall>i < length xs. left H (xs ! i) = at xs (2 * i + 1) \<and> right H (xs ! i) = at xs (2 * i + 2) \<and>
      parent H (xs ! i) = (if i = 0 then None else Some (xs ! up i)))"

lemma rep_unique: "rep H xs \<Longrightarrow> rep H ys \<Longrightarrow> i < length xs \<Longrightarrow> xs ! i = ys ! i"
proof (induction i rule: less_induct)
  case (less i)
  have n: "length ys = length xs" using less.prems by (simp add: rep_def)
  show ?case
  proof (cases "i = 0")
    case True
    then show ?thesis using less.prems n by (auto simp: rep_def at_def)
  next
    case False
    then have u: "up i < i" using up_less by simp
    then have e: "xs ! up i = ys ! up i" using less by simp
    from False consider "i = 2 * up i + 1" | "i = 2 * up i + 2" using up_cases by blast
    then show ?thesis
    proof cases
      case 1
      then have "left H (xs ! up i) = Some (xs ! i)" "left H (ys ! up i) = Some (ys ! i)"
        using less.prems n u by (simp_all add: rep_def at_def)
      then show ?thesis using e by simp
    next
      case 2
      then have "right H (xs ! up i) = Some (xs ! i)" "right H (ys ! up i) = Some (ys ! i)"
        using less.prems n u by (simp_all add: rep_def at_def)
      then show ?thesis using e by simp
    qed
  qed
qed

lemma at_Some: "distinct xs \<Longrightarrow> k < length xs \<Longrightarrow> at xs m = Some (xs ! k) \<longleftrightarrow> m = k"
  by (auto simp: at_def nth_eq_iff_index_eq)

text \<open>The pointers after a swap.\<close>

lemma swap_links:
  assumes ne: "p \<noteq> c" and child: "left H p = Some c \<or> right H p = Some c"
    and p: "left H p \<noteq> Some p" "right H p \<noteq> Some p" "parent H p \<noteq> Some p" "parent H p \<noteq> Some c"
    and c: "left H c \<noteq> Some p" "right H c \<noteq> Some p" "left H c \<noteq> Some c" "right H c \<noteq> Some c"
    and lr: "left H p = right H p \<longrightarrow> left H p = None"
  defines "sib \<equiv> if left H p = Some c then right H p else left H p"
  shows "left (heap_node_swap p c H) a =
      (if a = p then left H c else if a = c then if left H p = Some c then Some p else left H p
       else if parent H p = Some a \<and> left H a = Some p then Some c else left H a)"
    "right (heap_node_swap p c H) a =
      (if a = p then right H c else if a = c then if left H p = Some c then right H p else Some p
       else if parent H p = Some a \<and> left H a \<noteq> Some p then Some c else right H a)"
    "parent (heap_node_swap p c H) a =
      (if a = p then Some c else if a = c then parent H p
       else if left H c = Some a \<or> right H c = Some a then Some p
       else if sib = Some a then Some c else parent H a)"
    "nelts (heap_node_swap p c H) = nelts H"
    "h_min (heap_node_swap p c H) = (if parent H p = None then Some c else h_min H)"
proof -
  define H1 where "H1 = set_parent p (Some c) (swap_structs p c H)"
  have H1: "left H1 a = (if a = p then left H c else if a = c then left H p else left H a)"
    "right H1 a = (if a = p then right H c else if a = c then right H p else right H a)"
    "parent H1 a = (if a = p then Some c else if a = c then parent H p else parent H a)" for a
    using ne by (auto simp: H1_def swap_structs_def Let_def left_def right_def parent_def set_parent_def)
  define H2 where "H2 = (if left H1 c = Some c then set_left c (Some p) H1 else set_right c (Some p) H1)"
  have sib: "(if left H1 c = Some c then right H2 c else left H2 c) = sib"
    using ne by (simp add: sib_def H1 H2_def)
  define H3 where "H3 = (case sib of None \<Rightarrow> H2 | Some s \<Rightarrow> set_parent s (Some c) H2)"
  define H4 where "H4 = (case left H3 p of None \<Rightarrow> H3 | Some l \<Rightarrow> set_parent l (Some p) H3)"
  define H5 where "H5 = (case right H4 p of None \<Rightarrow> H4 | Some r \<Rightarrow> set_parent r (Some p) H4)"
  have eq: "heap_node_swap p c H = (case parent H5 c of None \<Rightarrow> H5\<lparr>h_min := Some c\<rparr>
      | Some g \<Rightarrow> if left H5 g = Some p then set_left g (Some c) H5 else set_right g (Some c) H5)"
    unfolding heap_node_swap_def Let_def H1_def [symmetric] H2_def [symmetric] sib H3_def [symmetric]
      H4_def [symmetric] H5_def [symmetric] ..
  have L: "left H5 a = (if a = c \<and> left H p = Some c then Some p else left H1 a)"
    and R: "right H5 a = (if a = c \<and> left H p \<noteq> Some c then Some p else right H1 a)" for a
    using ne by (auto simp: H5_def H4_def H3_def H2_def H1 split: option.split)
  have P3: "parent H3 a = (if sib = Some a then Some c else parent H1 a)" for a
    by (auto simp: H3_def H2_def split: option.split)
  have l3: "left H3 p = left H c" "right H4 p = right H c"
    using ne by (auto simp: H4_def H3_def H2_def H1 split: option.split)
  have P4: "parent H4 a = (if left H c = Some a then Some p else parent H3 a)" for a
    unfolding H4_def l3(1) by (auto split: option.split)
  have P: "parent H5 a = (if left H c = Some a \<or> right H c = Some a then Some p else if sib = Some a then Some c else parent H1 a)" for a
    unfolding H5_def l3(2) by (auto simp: P4 P3 split: option.split)
  have sc: "sib \<noteq> Some c" "sib \<noteq> Some p" using lr p child by (auto simp: sib_def)
  have pc: "parent H5 c = parent H p" using c sc ne by (simp add: P H1)
  have n5: "nelts H5 = nelts H" "h_min H5 = h_min H"
    by (auto simp: H5_def H4_def H3_def H2_def H1_def swap_structs_def Let_def split: option.split)
  show "left (heap_node_swap p c H) a =
      (if a = p then left H c else if a = c then if left H p = Some c then Some p else left H p
       else if parent H p = Some a \<and> left H a = Some p then Some c else left H a)"
    using ne p(3,4) by (auto simp: eq pc L H1 split: option.split)
  show "right (heap_node_swap p c H) a =
      (if a = p then right H c else if a = c then if left H p = Some c then right H p else Some p
       else if parent H p = Some a \<and> left H a \<noteq> Some p then Some c else right H a)"
    using ne p(3,4) by (auto simp: eq pc L R H1 split: option.split)
  show "parent (heap_node_swap p c H) a =
      (if a = p then Some c else if a = c then parent H p
       else if left H c = Some a \<or> right H c = Some a then Some p
       else if sib = Some a then Some c else parent H a)"
    using ne c sc by (auto simp: eq pc P H1 split: option.split)
  show "nelts (heap_node_swap p c H) = nelts H"
    "h_min (heap_node_swap p c H) = (if parent H p = None then Some c else h_min H)"
    by (auto simp: eq pc n5 split: option.split)
qed

lemma at_swap: "i < length xs \<Longrightarrow> j < length xs \<Longrightarrow>
  at (swap_at i j xs) m = (if m = i then Some (xs ! j) else if m = j then Some (xs ! i) else at xs m)"
  by (auto simp: at_def nth_swap_at)

text \<open>Swapping a node with its parent swaps two positions of the list.\<close>

lemma rep_swap:
  assumes rep: "rep H xs" and j: "0 < j" "j < length xs"
  shows "rep (heap_node_swap (xs ! up j) (xs ! j) H) (swap_at (up j) j xs)"
proof -
  define i where "i = up j"
  define p where "p = xs ! i"
  define c where "c = xs ! j"
  note d = i_def p_def c_def
  have ij: "i < j" "i < length xs" "j = 2 * i + 1 \<or> j = 2 * i + 2" using j up_less [of j] up_cases [of j] by (auto simp: d)
  have dist: "distinct xs" using rep by (simp add: rep_def)
  note atS = at_Some [OF dist]
  have lk: "left H (xs ! k) = at xs (2 * k + 1)" "right H (xs ! k) = at xs (2 * k + 2)"
    "parent H (xs ! k) = (if k = 0 then None else Some (xs ! up k))" if "k < length xs" for k
    using rep that by (simp_all add: rep_def)
  have eqn: "xs ! k = xs ! m \<longleftrightarrow> k = m" if "k < length xs" "m < length xs" for k m
    using that dist by (simp add: nth_eq_iff_index_eq)
  have ui: "up i < length xs" "i \<noteq> 0 \<Longrightarrow> up i < i"
    using up_less [of i] ij by (auto simp: up_def)
  have hyps: "p \<noteq> c" "left H p = Some c \<or> right H p = Some c" "left H p \<noteq> Some p" "right H p \<noteq> Some p"
    "parent H p \<noteq> Some p" "parent H p \<noteq> Some c" "left H c \<noteq> Some p" "right H c \<noteq> Some p"
    "left H c \<noteq> Some c" "right H c \<noteq> Some c" "left H p = right H p \<longrightarrow> left H p = None"
    using ij j ui by (auto simp: d lk atS eqn) (auto simp: at_def eqn split: if_splits)
  note sw = swap_links [OF hyps]
  let ?ys = "swap_at i j xs" and ?H = "heap_node_swap p c H"
  note at' = at_swap [OF ij(2) j(2)]
  have pi: "parent H p = None \<longleftrightarrow> i = 0" using lk(3) ij by (simp add: p_def)
  have lp: "left H p = Some c \<longleftrightarrow> j = 2 * i + 1"
    using lk(1) [OF ij(2)] j atS [of j "2 * i + 1"] by (auto simp: p_def c_def)
  have main: "left ?H (?ys ! k) = at ?ys (2 * k + 1) \<and> right ?H (?ys ! k) = at ?ys (2 * k + 2) \<and>
      parent ?H (?ys ! k) = (if k = 0 then None else Some (?ys ! up k))" if k: "k < length xs" for k
  proof -
    consider "k = i" | "k = j" | "k \<noteq> i" "k \<noteq> j" by blast
    then show ?thesis
    proof cases
      case 1
      then have b: "?ys ! k = c" using ij j by (simp add: nth_swap_at c_def)
      have "up i \<noteq> i \<and> up i \<noteq> j" if "i \<noteq> 0" using ui(2) [OF that] ij by simp
      then show ?thesis using 1 ij j ui lk [OF ij(2)] hyps(1)
        unfolding b sw at' lp by (auto simp: p_def [symmetric] c_def [symmetric] lp nth_swap_at) (simp add: p_def)
    next
      case 2
      then have b: "?ys ! k = p" using ij j by (simp add: nth_swap_at p_def)
      show ?thesis using 2 ij j lk [OF j(2)]
        unfolding b sw at' by (auto simp: c_def [symmetric] i_def [symmetric] nth_swap_at)
    next
      case 3
      then have b: "?ys ! k = xs ! k" using ij j k by (simp add: nth_swap_at)
      have ne: "xs ! k \<noteq> p" "xs ! k \<noteq> c" using 3 k ij j by (simp_all add: p_def c_def eqn)
      have l: "left ?H (xs ! k) = at ?ys (2 * k + 1)"
      proof -
        have "parent H p = Some (xs ! k) \<longleftrightarrow> i \<noteq> 0 \<and> k = up i" using lk(3) [OF ij(2)] k ui by (auto simp: p_def eqn)
        moreover have "left H (xs ! k) = Some p \<longleftrightarrow> 2 * k + 1 = i"
          using lk(1) [OF k] atS [OF ij(2)] by (simp add: p_def)
        moreover have "2 * k + 1 = i \<Longrightarrow> i \<noteq> 0 \<and> k = up i" by auto
        moreover have "2 * k + 1 \<noteq> j" using 3 d by auto
        moreover have "at ?ys (2 * k + 1) = (if 2 * k + 1 = i then Some c else if 2 * k + 1 = j then Some p else at xs (2 * k + 1))"
          by (simp only: at' c_def p_def)
        ultimately show ?thesis using ne lk(1) [OF k] by (cases "2 * k + 1 = i") (simp_all only: sw(1) if_True if_False simp_thms)
      qed
      have r: "right ?H (xs ! k) = at ?ys (2 * k + 2)"
      proof -
        have "parent H p = Some (xs ! k) \<longleftrightarrow> i \<noteq> 0 \<and> k = up i" using lk(3) [OF ij(2)] k ui by (auto simp: p_def eqn)
        moreover have "left H (xs ! k) = Some p \<longleftrightarrow> 2 * k + 1 = i"
          using lk(1) [OF k] atS [OF ij(2)] by (simp add: p_def)
        moreover have "(i \<noteq> 0 \<and> k = up i) \<and> 2 * k + 1 \<noteq> i \<longleftrightarrow> 2 * k + 2 = i" using up_cases [of i] by auto
        moreover have "2 * k + 2 \<noteq> j" using 3 d by auto
        moreover have "at ?ys (2 * k + 2) = (if 2 * k + 2 = i then Some c else if 2 * k + 2 = j then Some p else at xs (2 * k + 2))"
          by (simp only: at' c_def p_def)
        ultimately show ?thesis using ne lk(2) [OF k] by (simp only: sw(2) if_False)
      qed
      have q: "parent ?H (xs ! k) = (if k = 0 then None else Some (?ys ! up k))"
      proof (cases "k = 0")
        case True
        have "left H c \<noteq> Some (xs ! k)" "right H c \<noteq> Some (xs ! k)" "left H p \<noteq> Some (xs ! k)" "right H p \<noteq> Some (xs ! k)"
          using lk [OF j(2)] lk [OF ij(2)] atS [OF k] True by (auto simp: c_def p_def)
        then show ?thesis using True ne lk(3) [OF k] by (simp add: sw(3))
      next
        case False
        then have u: "up k < length xs" using up_less [of k] k by simp
        have uk: "2 * m + 1 = k \<or> 2 * m + 2 = k \<longleftrightarrow> up k = m" for m
          using up_cases [of k] False by (metis gr0I up_child(1,2))
        have lc: "left H c = Some (xs ! k) \<longleftrightarrow> 2 * j + 1 = k" "right H c = Some (xs ! k) \<longleftrightarrow> 2 * j + 2 = k"
          "left H p = Some (xs ! k) \<longleftrightarrow> 2 * i + 1 = k" "right H p = Some (xs ! k) \<longleftrightarrow> 2 * i + 2 = k"
          using lk(1,2) [OF j(2)] lk(1,2) [OF ij(2)] atS [OF k] by (simp_all add: c_def p_def)
        have "left H c = Some (xs ! k) \<or> right H c = Some (xs ! k) \<longleftrightarrow> up k = j"
          unfolding lc by (rule uk)
        moreover have "(if left H p = Some c then right H p else left H p) = Some (xs ! k) \<longleftrightarrow> up k = i"
          using lc(3,4) lp uk [of i] ij(3) 3 by (cases "j = 2 * i + 1") auto
        moreover have "?ys ! up k = (if up k = i then c else if up k = j then p else xs ! up k)"
          using u ij j by (simp add: nth_swap_at c_def p_def)
        ultimately show ?thesis using False ne lk(3) [OF k] ij(1) by (simp add: sw(3))
      qed
      show ?thesis using l r q by (simp add: b)
    qed
  qed
  have "h_min H = at xs 0" "0 = i \<longleftrightarrow> i = 0" using rep by (auto simp: rep_def)
  then have "h_min ?H = at ?ys 0" using ij(1) j(1) by (simp add: sw(5) at' pi c_def [symmetric])
  moreover have "nelts ?H = length ?ys" "distinct ?ys" using rep dist ij(2) j(2) by (simp_all add: sw(4) distinct_swap_at rep_def)
  ultimately have "rep ?H ?ys" using main unfolding rep_def length_swap_at by blast
  then show ?thesis unfolding d .
qed

section \<open>Paths\<close>

fun follow :: "nat \<Rightarrow> nat \<Rightarrow> nat \<Rightarrow> nat" where
  "follow 0 path q = q"
| "follow (Suc k) path q = follow k (path div 2) (2 * q + path mod 2)"

lemma follow_path_to: "1 \<le> n \<Longrightarrow> path_to n k path = (k', path') \<Longrightarrow> follow k' path' 1 = follow k path n"
proof (induction n k path rule: path_to.induct)
  case (1 n k path)
  show ?case
  proof (cases "n \<ge> 2")
    case True
    then have "path_to (n div 2) (k + 1) (2 * path + n mod 2) = (k', path')"
      using 1(3) by (subst (asm) path_to.simps) simp
    from 1(1) [OF True _ this] True show ?thesis by simp
  next
    case False
    then have "n = 1" using 1(2) by simp
    then show ?thesis using 1(3) by (subst (asm) path_to.simps) simp
  qed
qed

lemma follow_ge: "q \<le> follow k path q"
  by (induction k path q rule: follow.induct) (auto intro: order_trans [rotated])

text \<open>The pointer that leads to position \<open>q\<close>, counted from 1.\<close>

definition slot_at :: "nat list \<Rightarrow> nat \<Rightarrow> slot" where
  "slot_at xs q = (if q = 1 then Min_slot
     else if odd q then Right_slot (xs ! (q div 2 - 1)) else Left_slot (xs ! (q div 2 - 1)))"

lemma deref_slot_at:
  assumes "rep H xs" "1 \<le> q" "q div 2 \<le> length xs"
  shows "deref H (slot_at xs q) = at xs (q - 1)"
proof (cases "q = 1")
  case True
  then show ?thesis using assms by (simp add: slot_at_def rep_def)
next
  case False
  then have k: "q div 2 - 1 < length xs" "1 \<le> q div 2" using assms by auto
  have "2 * (q div 2 - 1) + (if odd q then 2 else 1) = q - 1" using k(2) by (cases "odd q") (auto elim!: oddE evenE)
  then show ?thesis using assms(1) k False by (cases "odd q") (auto simp: slot_at_def rep_def)
qed

lemma walk_slot:
  assumes rep: "rep H xs"
  shows "1 \<le> q \<Longrightarrow> follow k path q \<le> length xs + 1 \<Longrightarrow>
    walk H k path par (slot_at xs q) =
      Some (if k = 0 then par else slot_at xs (follow k path q div 2), slot_at xs (follow k path q))"
proof (induction k arbitrary: path q par)
  case (Suc k)
  let ?q = "2 * q + path mod 2"
  have f: "follow (Suc k) path q = follow k (path div 2) ?q" by simp
  have "?q \<le> length xs + 1" using Suc.prems follow_ge [of ?q k "path div 2"] by simp
  then have n: "q \<le> length xs" using Suc.prems(1) by simp
  then have d: "deref H (slot_at xs q) = Some (xs ! (q - 1))"
    using deref_slot_at [OF rep Suc.prems(1)] Suc.prems(1) by (simp add: at_def)
  have s: "(if odd path then Right_slot (xs ! (q - 1)) else Left_slot (xs ! (q - 1))) = slot_at xs ?q"
    using Suc.prems(1) by (auto simp: slot_at_def)
  have z: "follow k (path div 2) ?q div 2 = q" if "k = 0" using that by simp
  have "walk H (Suc k) path par (slot_at xs q) = walk H k (path div 2) (slot_at xs q) (slot_at xs ?q)"
    unfolding s [symmetric] by (simp add: d)
  also have "\<dots> = Some (if k = 0 then slot_at xs q else slot_at xs (follow k (path div 2) ?q div 2),
      slot_at xs (follow k (path div 2) ?q))"
    by (rule Suc.IH) (use Suc.prems in simp_all)
  finally show ?case using z f by auto
qed simp

lemma walk_to:
  assumes "rep H xs" "1 \<le> n" "n \<le> length xs + 1" "path_to n 0 0 = (k, path)"
  shows "walk H k path Min_slot Min_slot = Some (if n = 1 then Min_slot else slot_at xs (n div 2), slot_at xs n)"
proof -
  have f: "follow k path 1 = n" using follow_path_to [OF assms(2,4)] by simp
  have "k = 0 \<longleftrightarrow> n = 1"
  proof
    assume "k = 0"
    then show "n = 1" using f by simp
  next
    assume "n = 1"
    then show "k = 0" using assms(4) by (simp add: path_to.simps)
  qed
  then show ?thesis
    using walk_slot [OF assms(1), of 1 k path Min_slot] f assms(3) by (simp add: slot_at_def)
qed

section \<open>Insertion\<close>

lemma rep_climb:
  "rep H xs \<Longrightarrow> i < length xs \<Longrightarrow>
    \<exists>H'. climb (\<lambda>a b. key a < key b) (xs ! i) H = Some H' \<and> rep H' (sift_up key xs i)"
proof (induction key xs i arbitrary: H rule: sift_up.induct)
  case (1 key xs i)
  have par: "parent H (xs ! i) = (if i = 0 then None else Some (xs ! up i))"
    using 1(2,3) by (simp add: rep_def)
  show ?case
  proof (cases "0 < i \<and> key (xs ! i) < key (xs ! up i)")
    case True
    let ?ys = "swap_at (up i) i xs"
    have u: "up i < length xs" "up i \<noteq> i" using True up_less [of i] 1(3) by auto
    have r: "rep (heap_node_swap (xs ! up i) (xs ! i) H) ?ys" using rep_swap [OF 1(2)] True 1(3) by simp
    have "?ys ! up i = xs ! i" using u 1(3) by (simp add: nth_swap_at)
    then show ?thesis
      using 1(1) [OF True r] True u par by (subst climb.simps, subst sift_up.simps) simp
  next
    case False
    then show ?thesis using par 1(2) by (subst climb.simps, subst sift_up.simps) (auto split: if_splits)
  qed
qed

lemma rep_append:
  assumes rep: "rep H xs" and new: "x \<notin> set xs"
    and H1: "H1 = H\<lparr>links := (links H)(x := \<lparr>h_left = None, h_right = None, h_parent = None\<rparr>)\<rparr>"
    and n: "n = length xs"
    and H2: "H2 = store (slot_at xs (n + 1)) (Some x) (set_parent x (if n = 0 then None else Some (xs ! up n)) H1)"
  shows "rep (H2\<lparr>nelts := n + 1\<rparr>) (xs @ [x])"
proof -
  have l1: "left H1 a = (if a = x then None else left H a)" "right H1 a = (if a = x then None else right H a)"
    "parent H1 a = (if a = x then None else parent H a)" "h_min H1 = h_min H" for a
    by (simp_all add: H1 left_def right_def parent_def)
  have ne: "xs ! k \<noteq> x" if "k < length xs" for k using new that by auto
  have lk: "left H (xs ! k) = at xs (2 * k + 1)" "right H (xs ! k) = at xs (2 * k + 2)"
    "parent H (xs ! k) = (if k = 0 then None else Some (xs ! up k))" if "k < length xs" for k
    using rep that by (simp_all add: rep_def)
  have dist: "distinct xs" "h_min H = at xs 0" "nelts H = n" using rep n by (simp_all add: rep_def)
  have atS: "at (xs @ [x]) m = (if m = n then Some x else at xs m)" for m
    by (auto simp: at_def n nth_append)
  have u: "up n < n" if "0 < n" using that by (rule up_less)
  have eqn: "xs ! k = xs ! up n \<longleftrightarrow> k = up n" if "k < n" "0 < n" for k
    using that u dist(1) by (simp add: nth_eq_iff_index_eq n)
  have q: "(n + 1) div 2 - 1 = up n" "odd (n + 1) \<longleftrightarrow> n = 2 * up n + 2" "even (n + 1) \<longleftrightarrow> n = 2 * up n + 1" if "0 < n"
    using that by (auto simp: up_def) presburger+
  have s: "slot_at xs (n + 1) = (if n = 0 then Min_slot else if n = 2 * up n + 1 then Left_slot (xs ! up n) else Right_slot (xs ! up n))"
    using q by (auto simp: slot_at_def simp del: up_child)
  have l2: "left H2 a = (if 0 < n \<and> n = 2 * up n + 1 \<and> a = xs ! up n then Some x else left H1 a)"
    "right H2 a = (if 0 < n \<and> n \<noteq> 2 * up n + 1 \<and> a = xs ! up n then Some x else right H1 a)"
    "parent H2 a = (if a = x then if n = 0 then None else Some (xs ! up n) else parent H1 a)"
    "h_min H2 = (if n = 0 then Some x else h_min H)" for a
    unfolding H2 s by (auto simp: l1)
  have "left H2 ((xs @ [x]) ! k) = at (xs @ [x]) (2 * k + 1) \<and> right H2 ((xs @ [x]) ! k) = at (xs @ [x]) (2 * k + 2) \<and>
      parent H2 ((xs @ [x]) ! k) = (if k = 0 then None else Some ((xs @ [x]) ! up k))" if k: "k < n + 1" for k
  proof (cases "k = n")
    case True
    have "xs ! up n \<noteq> x" if "0 < n" using ne u that n by simp
    then show ?thesis using True u by (auto simp: n [symmetric] l2 l1 atS nth_append) (simp_all add: n at_def)
  next
    case False
    then have kn: "k < n" "0 < n" using k by auto
    have "up k < n" using kn up_less [of k] by (cases "k = 0") (simp_all add: up_def)
    have e: "xs ! k \<noteq> x" "(xs @ [x]) ! k = xs ! k" "(xs @ [x]) ! up k = xs ! up k" "xs ! k = xs ! up n \<longleftrightarrow> k = up n"
      using kn \<open>up k < n\<close> ne eqn by (simp_all add: n nth_append)
    have c: "n = 2 * up n + 1 \<and> k = up n \<longleftrightarrow> 2 * k + 1 = n" "n \<noteq> 2 * up n + 1 \<and> k = up n \<longleftrightarrow> 2 * k + 2 = n"
      using up_cases [OF kn(2)] by auto
    have k': "k < length xs" using kn n by simp
    have "left H2 (xs ! k) = (if 2 * k + 1 = n then Some x else at xs (2 * k + 1))"
      unfolding l2 l1 e c(1) [symmetric] lk(1) [OF k', symmetric] using kn e by auto
    moreover have "right H2 (xs ! k) = (if 2 * k + 2 = n then Some x else at xs (2 * k + 2))"
      unfolding l2 l1 e c(2) [symmetric] lk(2) [OF k', symmetric] using kn e by auto
    moreover have "parent H2 (xs ! k) = (if k = 0 then None else Some (xs ! up k))"
      using e lk(3) [OF k'] by (simp add: l2 l1)
    ultimately show ?thesis unfolding e atS by blast
  qed
  then show ?thesis using dist new n atS [of 0] by (simp add: rep_def l2)
qed

lemma rep_insert:
  assumes rep: "rep H xs" and new: "x \<notin> set xs"
  shows "\<exists>H'. heap_insert (\<lambda>a b. key a < key b) x H = Some H' \<and> rep H' (list_insert key x xs)"
proof -
  define H1 where "H1 = H\<lparr>links := (links H)(x := \<lparr>h_left = None, h_right = None, h_parent = None\<rparr>)\<rparr>"
  define n where "n = length xs"
  have r1: "rep H1 xs" and n1: "nelts H1 = n"
    using rep new unfolding rep_def H1_def n_def left_def right_def parent_def
    by (auto dest: nth_mem)
  obtain k path where kp: "path_to (1 + n) 0 0 = (k, path)" by (cases "path_to (1 + n) 0 0")
  have w: "walk H1 k path Min_slot Min_slot =
      Some (if n + 1 = 1 then Min_slot else slot_at xs ((n + 1) div 2), slot_at xs (n + 1))"
    by (rule walk_to [OF r1]) (use kp in \<open>simp_all add: n_def\<close>)
  have d: "deref H1 (if n + 1 = 1 then Min_slot else slot_at xs ((n + 1) div 2)) = (if n = 0 then None else Some (xs ! up n))"
  proof (cases "n = 0")
    case True
    then show ?thesis using r1 by (simp add: rep_def at_def n_def)
  next
    case False
    have u: "(n + 1) div 2 - 1 = up n" "up n < n" using False up_less [of n] by (simp_all add: up_def)
    have "deref H1 (slot_at xs ((n + 1) div 2)) = at xs ((n + 1) div 2 - 1)"
      by (rule deref_slot_at [OF r1]) (use False in \<open>cases xs; simp add: n_def\<close>)+
    then show ?thesis unfolding u(1) using False u(2) by (simp add: at_def n_def)
  qed
  let ?H2 = "store (slot_at xs (n + 1)) (Some x) (set_parent x (if n = 0 then None else Some (xs ! up n)) H1)"
  have ne: "nelts ?H2 = n" by (cases "slot_at xs (n + 1)") (simp_all add: n1)
  have r2: "rep (?H2\<lparr>nelts := n + 1\<rparr>) (xs @ [x])" by (rule rep_append [OF rep new H1_def n_def refl])
  have "\<exists>H'. climb (\<lambda>a b. key a < key b) ((xs @ [x]) ! n) (?H2\<lparr>nelts := n + 1\<rparr>) = Some H' \<and> rep H' (list_insert key x xs)"
    unfolding list_insert_def n_def [symmetric] by (rule rep_climb [OF r2]) (simp add: n_def)
  then show ?thesis
    unfolding heap_insert_def Let_def H1_def [symmetric] n1 kp prod.case w option.case d ne
    by (simp add: n_def)
qed

section \<open>Removal\<close>

lemma rep_butlast:
  assumes rep: "rep H (xs @ [z])"
  shows "rep (store (slot_at xs (length xs + 1)) None (H\<lparr>nelts := length xs\<rparr>)) xs"
proof -
  define n where "n = length xs"
  define H2 where "H2 = store (slot_at xs (n + 1)) None (H\<lparr>nelts := n\<rparr>)"
  have lk: "left H (xs ! k) = at (xs @ [z]) (2 * k + 1)" "right H (xs ! k) = at (xs @ [z]) (2 * k + 2)"
    "parent H (xs ! k) = (if k = 0 then None else Some (xs ! up k))" if "k < n" for k
  proof -
    have e: "(xs @ [z]) ! k = xs ! k" "k < length (xs @ [z])" using that by (simp_all add: n_def nth_append)
    have "k \<noteq> 0 \<Longrightarrow> (xs @ [z]) ! up k = xs ! up k" using that up_less [of k] by (simp add: n_def nth_append)
    moreover have "left H ((xs @ [z]) ! k) = at (xs @ [z]) (2 * k + 1) \<and> right H ((xs @ [z]) ! k) = at (xs @ [z]) (2 * k + 2) \<and>
        parent H ((xs @ [z]) ! k) = (if k = 0 then None else Some ((xs @ [z]) ! up k))"
      using rep e(2) unfolding rep_def by blast
    ultimately show "left H (xs ! k) = at (xs @ [z]) (2 * k + 1)" "right H (xs ! k) = at (xs @ [z]) (2 * k + 2)"
      "parent H (xs ! k) = (if k = 0 then None else Some (xs ! up k))"
      unfolding e by auto
  qed
  have dist: "distinct xs" "h_min H = at (xs @ [z]) 0" using rep by (simp_all add: rep_def)
  have atS: "at (xs @ [z]) m = (if m = n then Some z else at xs m)" "at xs n = None" for m
    by (auto simp: at_def n_def nth_append)
  have q: "(n + 1) div 2 - 1 = up n" "odd (n + 1) \<longleftrightarrow> n = 2 * up n + 2" "even (n + 1) \<longleftrightarrow> n = 2 * up n + 1" if "0 < n"
    using that by (auto simp: up_def) presburger+
  have s: "slot_at xs (n + 1) = (if n = 0 then Min_slot else if n = 2 * up n + 1 then Left_slot (xs ! up n) else Right_slot (xs ! up n))"
    using q by (auto simp: slot_at_def simp del: up_child)
  have l2: "left H2 a = (if 0 < n \<and> n = 2 * up n + 1 \<and> a = xs ! up n then None else left H a)"
    "right H2 a = (if 0 < n \<and> n \<noteq> 2 * up n + 1 \<and> a = xs ! up n then None else right H a)"
    "parent H2 a = parent H a" "h_min H2 = (if n = 0 then None else h_min H)" "nelts H2 = n" for a
    unfolding H2_def s by auto
  have "left H2 (xs ! k) = at xs (2 * k + 1) \<and> right H2 (xs ! k) = at xs (2 * k + 2) \<and>
      parent H2 (xs ! k) = (if k = 0 then None else Some (xs ! up k))" if k: "k < n" for k
  proof -
    have "up n < n" using k up_less [of n] by simp
    then have e: "xs ! k = xs ! up n \<longleftrightarrow> k = up n" using k dist(1) by (simp add: nth_eq_iff_index_eq n_def)
    have c: "n = 2 * up n + 1 \<and> k = up n \<longleftrightarrow> 2 * k + 1 = n" "n \<noteq> 2 * up n + 1 \<and> k = up n \<longleftrightarrow> 2 * k + 2 = n"
      using up_cases [of n] k by auto
    have "left H2 (xs ! k) = (if 2 * k + 1 = n then None else at (xs @ [z]) (2 * k + 1))"
      unfolding l2 e c(1) [symmetric] lk(1) [OF k, symmetric] using k by auto
    moreover have "right H2 (xs ! k) = (if 2 * k + 2 = n then None else at (xs @ [z]) (2 * k + 2))"
      unfolding l2 e c(2) [symmetric] lk(2) [OF k, symmetric] using k by auto
    ultimately show ?thesis using lk(3) [OF k] atS by (auto simp: l2(3))
  qed
  then have "rep H2 xs" using dist atS(1) [of 0] by (auto simp: rep_def l2(4,5) n_def at_def)
  then show ?thesis by (simp add: H2_def n_def)
qed

lemma rep_take_place:
  assumes rep: "rep H xs" and i: "i < length xs" and z: "z \<notin> set xs"
  shows "rep (take_place (xs ! i) z H) (xs[i := z])"
proof -
  define a where "a = xs ! i"
  define H1 where "H1 = set_left z (left H a) H"
  define H2 where "H2 = set_right z (right H1 a) H1"
  define H3 where "H3 = set_parent z (parent H2 a) H2"
  define H4 where "H4 = (case left H a of None \<Rightarrow> H3 | Some l \<Rightarrow> set_parent l (Some z) H3)"
  define H5 where "H5 = (case right H a of None \<Rightarrow> H4 | Some r \<Rightarrow> set_parent r (Some z) H4)"
  have az: "a \<noteq> z" "a \<in> set xs" using i z by (auto simp: a_def)
  have lk: "left H (xs ! k) = at xs (2 * k + 1)" "right H (xs ! k) = at xs (2 * k + 2)"
    "parent H (xs ! k) = (if k = 0 then None else Some (xs ! up k))" if "k < length xs" for k
    using rep that by (simp_all add: rep_def)
  have nz: "xs ! k \<noteq> z" if "k < length xs" for k using z that by auto
  have dist: "distinct xs" using rep by (simp add: rep_def)
  have ea: "xs ! k = a \<longleftrightarrow> k = i" if "k < length xs" for k using that i dist by (simp add: a_def nth_eq_iff_index_eq)
  have la: "left H a = at xs (2 * i + 1)" "right H a = at xs (2 * i + 2)" "parent H a = (if i = 0 then None else Some (xs ! up i))"
    using lk [OF i] by (simp_all add: a_def)
  have nn: "left H a \<noteq> Some a" "right H a \<noteq> Some a" "parent H a \<noteq> Some a" "left H a \<noteq> Some z" "right H a \<noteq> Some z"
    using la i up_less [of i] ea [of "2 * i + 1"] ea [of "2 * i + 2"] ea [of "up i"] nz by (auto simp: at_def)
  note H123 = H3_def H2_def H1_def
  have s3: "left H3 z = left H a" using az by (simp add: H123)
  have s4: "right H4 z = right H a" using az by (simp add: H4_def H123 split: option.split)
  have p5: "parent H5 a = parent H a" using nn az by (simp add: H5_def H4_def H123 split: option.split)
  have eq: "take_place a z H = (case parent H a of None \<Rightarrow> H5\<lparr>h_min := Some z\<rparr>
      | Some p \<Rightarrow> if left H5 p = Some a then set_left p (Some z) H5 else set_right p (Some z) H5)"
    unfolding take_place_def Let_def H1_def [symmetric] H2_def [symmetric] H3_def [symmetric] s3
      H4_def [symmetric] s4 H5_def [symmetric] p5 ..
  have l5: "left H5 b = (if b = z then left H a else left H b)" "right H5 b = (if b = z then right H a else right H b)"
    "parent H5 b = (if right H a = Some b \<or> left H a = Some b then Some z else if b = z then parent H a else parent H b)"
    "h_min H5 = h_min H" "nelts H5 = nelts H" for b
    using az by (auto simp: H5_def H4_def H123 split: option.split)
  let ?H = "take_place a z H" and ?ys = "xs[i := z]"
  have ui: "i \<noteq> 0 \<Longrightarrow> up i < length xs" "i \<noteq> 0 \<Longrightarrow> up i \<noteq> i" using i up_less [of i] by auto
  have pz: "parent H a \<noteq> Some z" using la ui nz by auto
  have l6: "left ?H b = (if parent H a = Some b \<and> left H b = Some a then Some z else left H5 b)"
    "right ?H b = (if parent H a = Some b \<and> left H b \<noteq> Some a then Some z else right H5 b)"
    "parent ?H b = parent H5 b" "nelts ?H = nelts H" "h_min ?H = (if parent H a = None then Some z else h_min H)" for b
    using pz by (auto simp: eq l5 split: option.split)
  have atS: "at ?ys m = (if m = i then Some z else at xs m)" for m using i by (auto simp: at_def)
  have iff: "at xs m = Some (xs ! k) \<longleftrightarrow> m = k" if "k < length xs" for k m by (rule at_Some [OF dist that])
  have "left ?H (?ys ! k) = at ?ys (2 * k + 1) \<and> right ?H (?ys ! k) = at ?ys (2 * k + 2) \<and>
      parent ?H (?ys ! k) = (if k = 0 then None else Some (?ys ! up k))" if k: "k < length xs" for k
  proof (cases "k = i")
    case True
    have "?ys ! i = z" "i \<noteq> 0 \<Longrightarrow> ?ys ! up i = xs ! up i" using i ui by simp_all
    then show ?thesis using True pz nn(4,5) by (auto simp: l6 l5 la atS)
  next
    case False
    then have e: "?ys ! k = xs ! k" "xs ! k \<noteq> z" using nz k by simp_all
    have pa: "parent H a = Some (xs ! k) \<longleftrightarrow> i \<noteq> 0 \<and> up i = k"
      using la(3) ui(1) k dist by (auto simp: nth_eq_iff_index_eq)
    have lb: "left H (xs ! k) = Some a \<longleftrightarrow> 2 * k + 1 = i" using lk(1) [OF k] iff [OF i] by (simp add: a_def)
    have c: "(i \<noteq> 0 \<and> up i = k) \<and> 2 * k + 1 = i \<longleftrightarrow> 2 * k + 1 = i" "(i \<noteq> 0 \<and> up i = k) \<and> 2 * k + 1 \<noteq> i \<longleftrightarrow> 2 * k + 2 = i"
      using up_cases [of i] by auto
    have "left ?H (xs ! k) = at ?ys (2 * k + 1)"
      unfolding l6 pa lb c(1) atS l5 using e lk(1) [OF k] by simp
    moreover have "right ?H (xs ! k) = at ?ys (2 * k + 2)"
      unfolding l6 pa lb c(2) atS l5 using e lk(2) [OF k] by simp
    moreover have "parent ?H (xs ! k) = (if k = 0 then None else Some (?ys ! up k))"
    proof -
      have "right H a = Some (xs ! k) \<or> left H a = Some (xs ! k) \<longleftrightarrow> k \<noteq> 0 \<and> up k = i"
        unfolding la iff [OF k] using up_cases [of k] by auto
      moreover have "?ys ! up k = (if up k = i then z else xs ! up k)" if "k \<noteq> 0"
        using i that up_less [of k] k by simp
      ultimately show ?thesis unfolding l6 l5 using e lk(3) [OF k] by auto
    qed
    ultimately show ?thesis unfolding e by blast
  qed
  moreover have "h_min ?H = at ?ys 0" using rep la(3) by (auto simp: l6(5) atS rep_def)
  moreover have "distinct ?ys" using dist z by (simp add: distinct_list_update)
  moreover have "nelts ?H = length ?ys" using rep by (simp add: l6(4) rep_def)
  ultimately have "rep ?H ?ys" unfolding rep_def by simp
  then show ?thesis unfolding a_def .
qed

lemma smallest_child_rep:
  assumes rep: "rep H xs" and i: "i < length xs"
  shows "smallest_child (\<lambda>a b. key a < key b) (xs ! i) H = xs ! smallest_of key xs i"
proof -
  have "left H (xs ! i) = at xs (2 * i + 1)" "right H (xs ! i) = at xs (2 * i + 2)"
    using rep i by (simp_all add: rep_def)
  then show ?thesis by (simp add: smallest_child_def smallest_of_def Let_def at_def)
qed

lemma rep_descend:
  "rep H xs \<Longrightarrow> i < length xs \<Longrightarrow>
    \<exists>H'. descend (\<lambda>a b. key a < key b) (xs ! i) H = Some H' \<and> rep H' (fst (sift_down key xs i)) \<and>
      fst (sift_down key xs i) ! snd (sift_down key xs i) = xs ! i"
proof (induction key xs i arbitrary: H rule: sift_down.induct)
  case (1 key xs i)
  let ?s = "smallest_of key xs i"
  note sc = smallest_child_rep [OF 1(2,3), of key]
  show ?case
  proof (cases "?s = i")
    case True
    then show ?thesis using 1(2) sc by (subst (1 2 3) sift_down.simps, subst descend.simps) simp
  next
    case False
    then have s: "?s < length xs" "i < ?s" "up ?s = i" using smallest_of_cases [of key xs i] by auto
    let ?ys = "swap_at i ?s xs"
    have ne: "xs ! ?s \<noteq> xs ! i" using 1(2,3) s by (auto simp: rep_def nth_eq_iff_index_eq)
    have r: "rep (heap_node_swap (xs ! i) (xs ! ?s) H) ?ys" using rep_swap [OF 1(2), of ?s] s by simp
    have y: "?ys ! ?s = xs ! i" using s 1(3) by (simp add: nth_swap_at)
    show ?thesis
      using 1(1) [OF False r] s False ne sc y by (subst (1 2 3) sift_down.simps, subst descend.simps) simp
  qed
qed

lemma rep_remove:
  assumes rep: "rep H xs" and i: "i < length xs"
  shows "\<exists>H'. heap_remove (\<lambda>a b. key a < key b) (xs ! i) H = Some H' \<and> rep H' (list_remove_at key i xs)"
proof -
  obtain zs z where xs: "xs = zs @ [z]" using i by (cases xs rule: rev_cases) auto
  define n where "n = length zs"
  have d: "distinct zs" "z \<notin> set zs" "nelts H = n + 1" using rep by (auto simp: rep_def xs n_def)
  obtain k path where kp: "path_to (n + 1) 0 0 = (k, path)" by (cases "path_to (n + 1) 0 0")
  have sl: "slot_at xs (n + 1) = slot_at zs (n + 1)"
  proof (cases "n = 0")
    case False
    then have "(n + 1) div 2 - 1 < n" by auto
    then have "xs ! ((n + 1) div 2 - 1) = zs ! ((n + 1) div 2 - 1)" unfolding xs n_def by (rule nth_append_left)
    then show ?thesis by (simp only: slot_at_def)
  qed (simp add: slot_at_def)
  have w: "walk H k path Min_slot Min_slot =
      Some (if n + 1 = 1 then Min_slot else slot_at xs ((n + 1) div 2), slot_at zs (n + 1))"
    unfolding sl [symmetric] by (rule walk_to [OF rep]) (use kp in \<open>simp_all add: n_def xs\<close>)
  let ?H1 = "H\<lparr>nelts := n\<rparr>"
  have "deref H (slot_at xs (n + 1)) = at xs n" using deref_slot_at [OF rep, of "n + 1"] by (simp add: xs n_def)
  then have dz: "deref ?H1 (slot_at zs (n + 1)) = Some z"
    unfolding sl by (cases "slot_at zs (n + 1)") (simp_all add: xs at_def n_def)
  let ?H2 = "store (slot_at zs (n + 1)) None ?H1"
  have r2: "rep ?H2 zs" unfolding n_def by (rule rep_butlast) (use rep xs in simp)
  have n1: "(n + 1 = 0) = False" "n + 1 - 1 = n" by simp_all
  have eq: "heap_remove (\<lambda>a b. key a < key b) a H =
      (if z = a then Some (if h_min ?H2 = Some z then ?H2\<lparr>h_min := None\<rparr> else ?H2)
       else Option.bind (descend (\<lambda>a b. key a < key b) z (take_place a z ?H2)) (climb (\<lambda>a b. key a < key b) z))" for a
    by (simp only: heap_remove_def Let_def d(3) kp w dz n1 prod.case option.case if_False)
  show ?thesis
  proof (cases "i = n")
    case True
    have "h_min ?H2 \<noteq> Some z" using r2 d(2) by (auto simp: rep_def at_def split: if_splits)
    then show ?thesis using True r2 by (simp add: eq list_remove_at_def xs n_def)
  next
    case False
    then have il: "i < n" using i by (simp add: xs n_def)
    then have xi: "xs ! i = zs ! i" "zs ! i \<in> set zs" by (simp_all add: xs n_def nth_append)
    let ?ys = "zs[i := z]"
    have r3: "rep (take_place (zs ! i) z ?H2) ?ys" using rep_take_place [OF r2 _ d(2)] il by (simp add: n_def)
    obtain ws p where ws: "sift_down key ?ys i = (ws, p)" by (cases "sift_down key ?ys i")
    have p: "p < length ws" using mset_sift_down [of i ?ys key] il ws by (simp add: n_def)
    have zi: "?ys ! i = z" using il by (simp add: n_def)
    obtain H4 where H4: "descend (\<lambda>a b. key a < key b) z (take_place (zs ! i) z ?H2) = Some H4" "rep H4 ws" "ws ! p = z"
      using rep_descend [OF r3, of i key] il ws zi by (auto simp: n_def)
    have "list_remove_at key i xs = sift_up key ws p" using False ws by (simp add: list_remove_at_def xs n_def)
    then show ?thesis using rep_climb [OF H4(2) p, of key] H4 xi d(2) by (auto simp: eq)
  qed
qed

section \<open>The pointer heap is a timer queue\<close>

definition heap_set :: "heap \<Rightarrow> nat set" where
  "heap_set H = {a. \<exists>xs. rep H xs \<and> a \<in> set xs}"

definition heap_queue :: "(nat \<Rightarrow> 'k :: linorder) \<Rightarrow> heap \<Rightarrow> bool" where
  "heap_queue key H \<longleftrightarrow> (\<exists>xs. rep H xs \<and> list_queue key xs)"

lemma rep_list_unique:
  assumes "rep H xs" "rep H ys"
  shows "xs = ys"
proof (rule nth_equalityI)
  show "length xs = length ys" using assms by (simp add: rep_def)
qed (rule rep_unique [OF assms])

lemma heap_set_rep: "rep H xs \<Longrightarrow> heap_set H = set xs"
  using rep_list_unique by (auto simp: heap_set_def)

lemma heap_min_rep: "rep H xs \<Longrightarrow> heap_min H = list_least xs"
  by (cases xs) (simp_all add: heap_min_def rep_def at_def list_least_def)

lemma rep_empty: "rep (heap_init H) []"
  by (simp add: rep_def heap_init_def at_def)

lemma heap_insert_returns:
  assumes "heap_queue key H" "a \<notin> heap_set H"
  shows "\<exists>H'. heap_insert (\<lambda>a b. key a < key b) a H = Some H' \<and> heap_queue key H' \<and>
    heap_set H' = insert a (heap_set H)"
proof -
  obtain xs where xs: "rep H xs" "list_queue key xs" using assms(1) by (auto simp: heap_queue_def)
  then have "a \<notin> set xs" using assms(2) by (simp add: heap_set_rep)
  then show ?thesis
    using rep_insert [OF xs(1), of a key] list_queue_insert [OF xs(2), of a] xs(1) by (auto simp: heap_queue_def heap_set_rep)
qed

lemma heap_remove_returns:
  assumes "heap_queue key H" "a \<in> heap_set H" "\<And>b. b \<noteq> a \<Longrightarrow> key' b = key b"
  shows "\<exists>H'. heap_remove (\<lambda>a b. key' a < key' b) a H = Some H' \<and> heap_queue key' H' \<and>
    heap_set H' = heap_set H - {a}"
proof -
  obtain xs where xs: "rep H xs" "list_queue key xs" using assms(1) by (auto simp: heap_queue_def)
  then have a: "a \<in> set xs" using assms(2) by (simp add: heap_set_rep)
  then obtain H' where "heap_remove (\<lambda>a b. key' a < key' b) a H = Some H'" "rep H' (list_remove_at key' (index_of a xs) xs)"
    using rep_remove [OF xs(1) index_of_less, of a key'] by (auto simp: nth_index_of)
  then show ?thesis
    using list_queue_remove [OF xs(2) a, of key'] assms(3) xs(1) by (auto simp: heap_queue_def heap_set_rep)
qed

interpretation pointer_heap: timer_queue heap_queue heap_set heap_min
  "\<lambda>key a H. the (heap_insert (\<lambda>a b. key a < key b) a H)"
  "\<lambda>key a H. the (heap_remove (\<lambda>a b. key a < key b) a H)"
proof unfold_locales
  fix key key' :: "nat \<Rightarrow> 'k :: linorder" and H a
  show "heap_queue key H \<Longrightarrow> (heap_min H = None) = (heap_set H = {})"
    unfolding heap_queue_def by (metis heap_min_rep heap_set_rep list_heap.least_None)
  show "heap_queue key H \<Longrightarrow> heap_min H = Some a \<Longrightarrow> a \<in> heap_set H \<and> (\<forall>b\<in>heap_set H. key a \<le> key b)"
    unfolding heap_queue_def by (metis heap_min_rep heap_set_rep list_queue_least)
  show "heap_queue key H \<Longrightarrow> (\<And>b. b \<in> heap_set H \<Longrightarrow> key' b = key b) \<Longrightarrow> heap_queue key' H"
    unfolding heap_queue_def by (elim exE conjE) (auto simp: heap_set_rep intro!: list_heap.invar_cong [of key _ key'])
  show "heap_queue key H \<Longrightarrow> a \<notin> heap_set H \<Longrightarrow> heap_queue key (the (heap_insert (\<lambda>a b. key a < key b) a H))"
    "heap_queue key H \<Longrightarrow> a \<notin> heap_set H \<Longrightarrow> heap_set (the (heap_insert (\<lambda>a b. key a < key b) a H)) = insert a (heap_set H)"
    by (drule (1) heap_insert_returns, elim exE conjE, simp)+
  show "heap_queue key H \<Longrightarrow> a \<in> heap_set H \<Longrightarrow> (\<And>b. b \<noteq> a \<Longrightarrow> key' b = key b) \<Longrightarrow>
      heap_queue key' (the (heap_remove (\<lambda>a b. key' a < key' b) a H))"
    "heap_queue key H \<Longrightarrow> a \<in> heap_set H \<Longrightarrow> (\<And>b. b \<noteq> a \<Longrightarrow> key' b = key b) \<Longrightarrow>
      heap_set (the (heap_remove (\<lambda>a b. key' a < key' b) a H)) = heap_set H - {a}"
    by (drule (1) heap_remove_returns [where key' = key'], blast, elim exE conjE, simp)+
qed

text \<open>C19. 
  The pointer operations implement the list operations: on a store that represents a breadth-first list
  ordered by the comparison key, inserting a new node and removing a queued one return (no null pointer
  is followed and the loops end) with a store that represents the list operation's result, and the
  minimum is the head of the list.
\<close>

theorem heap_refines_list:
  assumes rep: "rep H xs" and ord: "list_queue key xs"
  shows "heap_min H = list_least xs \<and>
    (\<forall>a. a \<notin> set xs \<longrightarrow> (\<exists>H'. heap_insert (\<lambda>a b. key a < key b) a H = Some H' \<and> rep H' (list_insert key a xs))) \<and>
    (\<forall>a \<in> set xs. \<exists>H'. heap_remove (\<lambda>a b. key a < key b) a H = Some H' \<and>
      rep H' (list_remove_at key (index_of a xs) xs))"
proof (intro conjI allI impI ballI)
  fix a
  assume "a \<in> set xs"
  then show "\<exists>H'. heap_remove (\<lambda>a b. key a < key b) a H = Some H' \<and> rep H' (list_remove_at key (index_of a xs) xs)"
    using rep_remove [OF rep index_of_less, of a key] by (simp add: nth_index_of)
qed (use rep in \<open>simp_all add: heap_min_rep rep_insert\<close>)

text \<open>Nodes 5, 3 and 4 queued in this order, keyed by their address.\<close>

definition three_nodes :: "heap option" where
  "three_nodes =
    (let lt = (\<lambda>a b. a < b); H = heap_init \<lparr>h_min = None, nelts = 7, links = (\<lambda>_. \<lparr>h_left = None, h_right = None, h_parent = None\<rparr>)\<rparr>
     in Option.bind (Option.bind (heap_insert lt 5 H) (heap_insert lt 3)) (heap_insert lt 4))"

lemma three_nodes_rep: "\<exists>H. three_nodes = Some H \<and> rep H [3, 5, 4]"
proof -
  define H where "H = heap_init \<lparr>h_min = None, nelts = 7, links = (\<lambda>_. \<lparr>h_left = None, h_right = None, h_parent = None\<rparr>)\<rparr>"
  have l: "list_insert (\<lambda>a. a) 5 [] = [5 :: nat]" "list_insert (\<lambda>a. a) 3 [5] = [3, 5 :: nat]"
    "list_insert (\<lambda>a. a) 4 [3, 5] = [3, 5, 4 :: nat]" by code_simp+
  obtain H1 where 1: "heap_insert (\<lambda>a b. a < b) 5 H = Some H1" "rep H1 [5]"
    using rep_insert [of H "[]" 5 "\<lambda>a. a"] rep_empty l by (auto simp: H_def)
  obtain H2 where 2: "heap_insert (\<lambda>a b. a < b) 3 H1 = Some H2" "rep H2 [3, 5]"
    using rep_insert [OF 1(2), of 3 "\<lambda>a. a"] l by auto
  obtain H3 where 3: "heap_insert (\<lambda>a b. a < b) 4 H2 = Some H3" "rep H3 [3, 5, 4]"
    using rep_insert [OF 2(2), of 4 "\<lambda>a. a"] l by auto
  show ?thesis using 1 2 3 by (simp add: three_nodes_def H_def)
qed

theorem heap_refines_list_witness:
  "\<exists>H. three_nodes = Some H \<and> heap_min H = Some 3 \<and>
    (\<exists>H'. heap_insert (\<lambda>a b. a < b) 1 H = Some H' \<and> rep H' [1, 3, 4, 5]) \<and>
    (\<exists>H'. heap_remove (\<lambda>a b. a < b) 3 H = Some H' \<and> rep H' [4, 5])"
proof -
  obtain H where H: "three_nodes = Some H" "rep H [3, 5, 4]" using three_nodes_rep by blast
  have q: "list_queue (\<lambda>a. a) [3, 5, 4 :: nat]"
    by (auto simp: list_queue_def heap_ok_def up_def less_Suc_eq numeral_3_eq_3)
  have e: "list_insert (\<lambda>a. a) 1 [3, 5, 4] = [1, 3, 4, 5 :: nat]"
    "list_remove_at (\<lambda>a. a :: nat) (index_of (3 :: nat) [3, 5, 4]) [3, 5, 4] = [4, 5]"
    "list_least [3, 5, 4 :: nat] = Some 3" by code_simp+
  note all = heap_refines_list [OF H(2) q]
  have "\<exists>H'. heap_insert (\<lambda>a b. a < b) 1 H = Some H' \<and> rep H' [1, 3, 4, 5]"
    using all [THEN conjunct2, THEN conjunct1, rule_format, of 1] unfolding e by simp
  moreover have "\<exists>H'. heap_remove (\<lambda>a b. a < b) 3 H = Some H' \<and> rep H' [4, 5]"
    using all [THEN conjunct2, THEN conjunct2, rule_format, of 3] unfolding e by simp
  ultimately show ?thesis using all [THEN conjunct1] H(1) e(3) by auto
qed

end
