(* ===== verification/Timers.thy ===== *)
theory Timers
  imports Timer_Heap
begin

text \<open>
  The timers of src/core/common/Timer.cpp over the heap of \<open>Timer_Heap\<close>. A timer is the address of
  its heap node, its callback any function on the timers that may fail, and the clock the sequence of
  its readings. Due times are 32-bit words and wrap around as in the code.
\<close>

record 'c timers =
  root :: heap
  m_time :: "nat \<Rightarrow> u32"
  m_repeat :: "nat \<Rightarrow> u32"
  m_cb :: "nat \<Rightarrow> 'c"
  readings :: nat

type_synonym timer_clock = "nat \<Rightarrow> u32"
type_synonym 'c run_cb = "'c \<Rightarrow> 'c timers \<Rightarrow> 'c timers option"

definition timer_init :: "'c timers \<Rightarrow> 'c timers" where
  "timer_init S = S\<lparr>root := heap_init (root S)\<rparr>"

definition compare_fn :: "'c timers \<Rightarrow> nat \<Rightarrow> nat \<Rightarrow> bool" where
  "compare_fn S a b = (m_time S a < m_time S b)"

definition timer_start :: "timer_clock \<Rightarrow> 'c \<Rightarrow> u64 \<Rightarrow> u64 \<Rightarrow> nat \<Rightarrow> 'c timers \<Rightarrow> 'c timers option" where
  "timer_start clock cb timeout again a S =
    (let S = S\<lparr>m_cb := (m_cb S)(a := cb)\<rparr>;
         now = clock (readings S);
         S = S\<lparr>readings := readings S + 1, m_time := (m_time S)(a := ucast (timeout + ucast now))\<rparr>;
         S = S\<lparr>m_repeat := (m_repeat S)(a := ucast again)\<rparr>
     in map_option (\<lambda>H. S\<lparr>root := H\<rparr>) (heap_insert (compare_fn S) a (root S)))"

definition timer_stop :: "nat \<Rightarrow> 'c timers \<Rightarrow> 'c timers option" where
  "timer_stop a S =
    (if m_time S a = 0 then Some S
     else let S = S\<lparr>m_time := (m_time S)(a := 0)\<rparr>
          in map_option (\<lambda>H. S\<lparr>root := H\<rparr>) (heap_remove (compare_fn S) a (root S)))"

text \<open>A timer that fires leaves the heap, is queued again when it repeats, and then runs its callback.\<close>

definition fire :: "timer_clock \<Rightarrow> 'c run_cb \<Rightarrow> nat \<Rightarrow> 'c timers \<Rightarrow> 'c timers option" where
  "fire clock run a S =
    (case heap_remove (compare_fn S) a (root S) of
       None \<Rightarrow> None
     | Some H \<Rightarrow>
         let S = S\<lparr>root := H, m_time := (m_time S)(a := 0)\<rparr> in
         case (if m_repeat S a > 0 then
                 let now = clock (readings S);
                     S = S\<lparr>readings := readings S + 1, m_time := (m_time S)(a := m_repeat S a + now)\<rparr>
                 in map_option (\<lambda>H. S\<lparr>root := H\<rparr>) (heap_insert (compare_fn S) a (root S))
               else Some S) of
           None \<Rightarrow> None
         | Some S \<Rightarrow> run (m_cb S a) S)"

text \<open>The loop of an update, with what it fired: the timer, its due time and the clock's reading.\<close>

fun update_loop :: "timer_clock \<Rightarrow> 'c run_cb \<Rightarrow> nat \<Rightarrow> 'c timers \<Rightarrow> ((nat \<times> u32 \<times> u32) list \<times> 'c timers) option" where
  "update_loop clock run 0 S = Some ([], S)"
| "update_loop clock run (Suc k) S =
    (case heap_min (root S) of
       None \<Rightarrow> Some ([], S)
     | Some a \<Rightarrow>
         let now = clock (readings S); S = S\<lparr>readings := readings S + 1\<rparr> in
         if now \<ge> m_time S a then
           (case fire clock run a S of
              None \<Rightarrow> None
            | Some S' \<Rightarrow> map_option (\<lambda>(fired, T). ((a, m_time S a, now) # fired, T)) (update_loop clock run k S'))
         else Some ([], S))"

definition timer_update :: "timer_clock \<Rightarrow> 'c run_cb \<Rightarrow> 'c timers \<Rightarrow> ((nat \<times> u32 \<times> u32) list \<times> 'c timers) option" where
  "timer_update clock run S = update_loop clock run 10 S"

section \<open>The invariant\<close>

definition queued :: "'c timers \<Rightarrow> nat set" where "queued S = heap_set (root S)"

text \<open>The heap is in order of the due times, and every timer with a due time is in it.\<close>

definition timers_ok :: "'c timers \<Rightarrow> bool" where
  "timers_ok S \<longleftrightarrow> heap_queue (m_time S) (root S) \<and> (\<forall>a. m_time S a \<noteq> 0 \<longrightarrow> a \<in> queued S)"

lemma compare_fn_key: "compare_fn S = (\<lambda>a b. m_time S a < m_time S b)"
  by (simp add: fun_eq_iff compare_fn_def)

lemma timer_insert:
  assumes "heap_queue key (root S)" "a \<notin> queued S" "\<And>b. b \<noteq> a \<Longrightarrow> m_time S b = key b"
    "\<And>b. b \<noteq> a \<Longrightarrow> m_time S b \<noteq> 0 \<Longrightarrow> b \<in> queued S"
  shows "\<exists>H. heap_insert (compare_fn S) a (root S) = Some H \<and> timers_ok (S\<lparr>root := H\<rparr>) \<and>
    heap_set H = insert a (queued S)"
proof -
  have "heap_queue (m_time S) (root S)"
    by (rule pointer_heap.invar_cong [OF assms(1)], rule assms(3)) (use assms(2) in \<open>auto simp: queued_def\<close>)
  from heap_insert_returns [OF this, of a] obtain H
    where "heap_insert (compare_fn S) a (root S) = Some H" "heap_queue (m_time S) H" "heap_set H = insert a (queued S)"
    using assms(2) by (auto simp: compare_fn_key queued_def)
  then show ?thesis using assms(4) by (auto simp: timers_ok_def queued_def)
qed

lemma timer_start_ok:
  assumes "timers_ok S" "a \<notin> queued S"
  shows "\<exists>S'. timer_start clock cb timeout again a S = Some S' \<and> timers_ok S' \<and> queued S' = insert a (queued S) \<and>
    m_time S' = (m_time S)(a := ucast (timeout + ucast (clock (readings S)))) \<and>
    m_cb S' = (m_cb S)(a := cb) \<and> m_repeat S' = (m_repeat S)(a := ucast again) \<and> readings S' = readings S + 1"
proof -
  let ?S = "S\<lparr>m_cb := (m_cb S)(a := cb), readings := readings S + 1,
    m_time := (m_time S)(a := ucast (timeout + ucast (clock (readings S)))), m_repeat := (m_repeat S)(a := ucast again)\<rparr>"
  have "\<exists>H. heap_insert (compare_fn ?S) a (root ?S) = Some H \<and> timers_ok (?S\<lparr>root := H\<rparr>) \<and> heap_set H = insert a (queued ?S)"
    by (rule timer_insert [of "m_time S"]) (use assms in \<open>auto simp: timers_ok_def queued_def\<close>)
  then show ?thesis unfolding timer_start_def Let_def by (auto simp: queued_def)
qed

lemma timer_remove:
  assumes "timers_ok S" "a \<in> queued S" "\<And>b. b \<noteq> a \<Longrightarrow> m_time S' b = m_time S b" "root S' = root S"
  shows "\<exists>H. heap_remove (compare_fn S') a (root S') = Some H \<and> heap_queue (m_time S') H \<and> heap_set H = queued S - {a}"
  using heap_remove_returns [of "m_time S" "root S" a "m_time S'"] assms
  unfolding timers_ok_def queued_def compare_fn_key by auto

lemma timer_stop_ok:
  assumes ok: "timers_ok S"
  shows "\<exists>S'. timer_stop a S = Some S' \<and> timers_ok S' \<and> m_time S' = (m_time S)(a := 0) \<and>
    queued S' = (if m_time S a = 0 then queued S else queued S - {a})"
proof (cases "m_time S a = 0")
  case True
  then have "m_time S = (m_time S)(a := 0)" by auto
  then show ?thesis using ok True by (simp add: timer_stop_def)
next
  case False
  let ?S = "S\<lparr>m_time := (m_time S)(a := 0)\<rparr>"
  have a: "a \<in> queued S" using ok False by (simp add: timers_ok_def)
  obtain H where H: "heap_remove (compare_fn ?S) a (root ?S) = Some H" "heap_queue (m_time ?S) H" "heap_set H = queued S - {a}"
    using timer_remove [OF ok a, of ?S] by auto
  have "timers_ok (?S\<lparr>root := H\<rparr>)" using H ok by (auto simp: timers_ok_def queued_def)
  then show ?thesis using H False by (auto simp: timer_stop_def Let_def queued_def)
qed

lemma fire_ok:
  assumes ok: "timers_ok S" and a: "a \<in> queued S"
    and run: "\<forall>c S. timers_ok S \<longrightarrow> (\<exists>S'. run c S = Some S' \<and> timers_ok S')"
  shows "\<exists>S'. fire clock run a S = Some S' \<and> timers_ok S'"
proof -
  obtain H where H: "heap_remove (compare_fn S) a (root S) = Some H" "heap_queue (m_time S) H" "heap_set H = queued S - {a}"
    using timer_remove [OF ok a, of S] by auto
  let ?S = "S\<lparr>root := H, m_time := (m_time S)(a := 0)\<rparr>"
  have q: "a \<notin> queued ?S" using H(3) by (simp add: queued_def)
  show ?thesis
  proof (cases "m_repeat S a > 0")
    case True
    let ?T = "?S\<lparr>readings := readings S + 1, m_time := (m_time S)(a := m_repeat S a + clock (readings S))\<rparr>"
    have "\<exists>H. heap_insert (compare_fn ?T) a (root ?T) = Some H \<and> timers_ok (?T\<lparr>root := H\<rparr>) \<and> heap_set H = insert a (queued ?T)"
      by (rule timer_insert [of "m_time S"]) (use H q ok in \<open>auto simp: timers_ok_def queued_def\<close>)
    then show ?thesis using H(1) True run by (auto simp: fire_def Let_def)
  next
    case False
    have "heap_queue (m_time ?S) H"
      using pointer_heap.invar_cong [OF H(2), of "m_time ?S"] H(3) by auto
    then have "timers_ok ?S" using H ok by (auto simp: timers_ok_def queued_def)
    then show ?thesis using H(1) False run by (simp add: fire_def Let_def)
  qed
qed

lemma update_loop_ok:
  assumes run: "\<forall>c S. timers_ok S \<longrightarrow> (\<exists>S'. run c S = Some S' \<and> timers_ok S')"
  shows "timers_ok S \<Longrightarrow> \<exists>fired S'. update_loop clock run k S = Some (fired, S') \<and> timers_ok S' \<and> length fired \<le> k \<and>
    (\<forall>(a, due, now) \<in> set fired. due \<le> now) \<and>
    (length fired < k \<longrightarrow> (\<forall>a \<in> queued S'. clock (readings S' - 1) < m_time S' a))"
proof (induction k arbitrary: S)
  case (Suc k)
  have hq: "heap_queue (m_time S) (root S)" using Suc.prems by (simp add: timers_ok_def)
  show ?case
  proof (cases "heap_min (root S)")
    case None
    then have "queued S = {}" using pointer_heap.least_None [OF hq] by (simp add: queued_def)
    then show ?thesis using None Suc.prems by simp
  next
    case (Some a)
    then have a: "a \<in> queued S" "\<forall>b \<in> queued S. m_time S a \<le> m_time S b"
      using pointer_heap.least_Some [OF hq] by (auto simp: queued_def)
    let ?S = "S\<lparr>readings := readings S + 1\<rparr>"
    have ok: "timers_ok ?S" "a \<in> queued ?S" using Suc.prems a by (simp_all add: timers_ok_def queued_def)
    show ?thesis
    proof (cases "clock (readings S) \<ge> m_time S a")
      case True
      obtain T where T: "fire clock run a ?S = Some T" "timers_ok T" using fire_ok [OF ok run] by blast
      from Suc.IH [OF T(2)] obtain fired S' where
        "update_loop clock run k T = Some (fired, S')" "timers_ok S'" "length fired \<le> k"
        "\<forall>(a, due, now) \<in> set fired. due \<le> now"
        "length fired < k \<longrightarrow> (\<forall>a \<in> queued S'. clock (readings S' - 1) < m_time S' a)" by blast
      then show ?thesis using Some True T by simp
    next
      case False
      then have "\<forall>b \<in> queued S. clock (readings S) < m_time S b" using a(2) by (auto intro: less_le_trans)
      then show ?thesis using Some False ok by (simp add: queued_def)
    qed
  qed
qed simp

section \<open>Properties\<close>

text \<open>C37. 
  An update of the timers, started from an ordered heap and with callbacks that keep it ordered, always
  returns, with at most ten timers fired, none of them before its due time; and when it stops before
  the tenth, every timer still queued was due later than the last reading of the clock.
\<close>

theorem update_fires_due_timers:
  assumes ok: "timers_ok S"
    and run: "\<forall>c S. timers_ok S \<longrightarrow> (\<exists>S'. run c S = Some S' \<and> timers_ok S')"
  shows "\<exists>fired S'. timer_update clock run S = Some (fired, S') \<and> timers_ok S' \<and> length fired \<le> 10 \<and>
    (\<forall>(a, due, now) \<in> set fired. due \<le> now) \<and>
    (length fired < 10 \<longrightarrow> (\<forall>a \<in> queued S'. clock (readings S' - 1) < m_time S' a))"
  unfolding timer_update_def by (rule update_loop_ok [OF run ok])

text \<open>Nothing queued; the callbacks start the timer they name, for 50 ms, if it is idle.\<close>

definition idle_timers :: "nat timers" where
  "idle_timers = timer_init \<lparr>root = \<lparr>h_min = None, nelts = 0, links = (\<lambda>_. \<lparr>h_left = None, h_right = None, h_parent = None\<rparr>)\<rparr>,
    m_time = (\<lambda>_. 0), m_repeat = (\<lambda>_. 0), m_cb = (\<lambda>_. 0), readings = 0\<rparr>"

lemma idle_timers_ok: "timers_ok idle_timers" "queued idle_timers = {}"
proof -
  have "rep (root idle_timers) []" unfolding idle_timers_def timer_init_def by (simp add: rep_empty)
  then show "timers_ok idle_timers" "queued idle_timers = {}"
    by (auto simp: timers_ok_def heap_queue_def queued_def heap_set_rep list_queue_def heap_ok_def idle_timers_def timer_init_def)
qed

lemma idle_time: "m_time idle_timers a = 0"
  by (simp add: idle_timers_def timer_init_def)

theorem update_fires_due_timers_witness:
  "\<exists>S fired S'. timer_start (\<lambda>i. of_nat (60 * i)) 0 100 0 5 idle_timers = Some S \<and>
    timer_update (\<lambda>i. of_nat (60 * i)) (\<lambda>c. timer_stop c) S = Some (fired, S') \<and>
    (\<forall>(a, due, now) \<in> set fired. due \<le> now)"
proof -
  obtain S where S: "timer_start (\<lambda>i. of_nat (60 * i)) 0 100 0 5 idle_timers = Some S" "timers_ok S"
    using timer_start_ok [OF idle_timers_ok(1), of 5] idle_timers_ok(2) by blast
  have "\<forall>c S. timers_ok S \<longrightarrow> (\<exists>S'. timer_stop c S = Some S' \<and> timers_ok S')"
    using timer_stop_ok by blast
  from update_fires_due_timers [OF S(2) this] show ?thesis using S(1) by blast
qed

text \<open>
  Starting an idle timer queues exactly it, due its timeout after the clock's reading modulo
  \<open>2 ^ 32\<close>, and stopping a timer takes exactly it out; both return and keep the heap ordered. A timer
  whose due time is 0, as an idle one's is, is not touched by a stop.
\<close>

theorem start_and_stop:
  assumes ok: "timers_ok S"
  shows "(a \<notin> queued S \<longrightarrow> (\<exists>S'. timer_start clock cb timeout again a S = Some S' \<and> timers_ok S' \<and>
      queued S' = insert a (queued S) \<and> m_time S' a = ucast (timeout + ucast (clock (readings S))))) \<and>
    (\<exists>S'. timer_stop a S = Some S' \<and> timers_ok S' \<and> m_time S' = (m_time S)(a := 0) \<and>
      queued S' = (if m_time S a = 0 then queued S else queued S - {a}))"
  using timer_start_ok [OF ok, of a clock cb timeout again] timer_stop_ok [OF ok, of a] by auto

theorem start_and_stop_witness:
  "(\<exists>S'. timer_start (\<lambda>_. 7) 0 100 0 5 idle_timers = Some S' \<and> queued S' = {5} \<and> m_time S' 5 = 107) \<and>
    (\<exists>S'. timer_stop 5 idle_timers = Some S' \<and> queued S' = {})"
  using start_and_stop [OF idle_timers_ok(1), of 5 "\<lambda>_. 7" 0 100 0]
  by (auto simp: idle_timers_ok(2) idle_time)

text \<open>
  Starting a running timer again links its node to itself: the count of the heap and its tree
  disagree, and after stopping the timer once, starting any other follows a null pointer.
\<close>

theorem restart_corrupts_heap:
  "Option.bind (timer_start (\<lambda>_. 7) 0 100 0 5 idle_timers) (\<lambda>S.
   Option.bind (timer_start (\<lambda>_. 7) 0 100 0 5 S) (\<lambda>S.
   Option.bind (timer_stop 5 S) (\<lambda>S. Some (h_min (root S), nelts (root S), timer_start (\<lambda>_. 7) 0 100 0 6 S = None))))
   = Some (None, 1, True)"
  by code_simp

end
