(* ===== verification/Actors.thy ===== *)
theory Actors
  imports Athena_Prelude
begin

text \<open>
  The actors of src/core/actor and their use by the servers. Producers and the actor's thread take turns
  in steps; a call of \<open>execute\<close> is two of them, the look at the running flag and the insertion, between
  which anything may happen. The mailbox promises what its library documents: tasks of one producer come
  out in their order, those of different producers in any, and the queue seems empty only when it is.
  A task is a value, and running it is its entry in a log; exceptions it throws are caught and logged.
\<close>

section \<open>The mailbox\<close>

definition of_producer :: "'p \<Rightarrow> ('p \<times> 'm) list \<Rightarrow> 'm list" where
  "of_producer p q = map snd (filter (\<lambda>x. fst x = p) q)"

lemma of_producer_simps [simp]:
  "of_producer p [] = []" "of_producer p ((r, m) # q) = (if r = p then m # of_producer p q else of_producer p q)"
  "of_producer p (q @ q') = of_producer p q @ of_producer p q'"
  by (simp_all add: of_producer_def)

lemma of_producer_none: "p \<notin> fst ` set q \<Longrightarrow> of_producer p q = []"
  by (force simp: of_producer_def filter_empty_conv)

text \<open>Taking entry \<open>i\<close>, the first one of its producer.\<close>

definition take_entry :: "nat \<Rightarrow> ('p \<times> 'm) list \<Rightarrow> (('p \<times> 'm) \<times> ('p \<times> 'm) list) option" where
  "take_entry i q =
    (if i < length q \<and> fst (q ! i) \<notin> fst ` set (take i q) then Some (q ! i, take i q @ drop (Suc i) q) else None)"

lemma take_entry_of_producer:
  assumes "take_entry i q = Some (x, q')"
  shows "of_producer p q = of_producer p [x] @ of_producer p q'"
proof -
  have i: "i < length q" "x = q ! i" "q' = take i q @ drop (Suc i) q" "fst (q ! i) \<notin> fst ` set (take i q)"
    using assms by (auto simp: take_entry_def split: if_splits)
  have q: "q = take i q @ x # drop (Suc i) q" using i by (simp add: id_take_nth_drop)
  obtain r m where x: "x = (r, m)" by (cases x)
  have "of_producer p q = of_producer p (take i q) @ of_producer p [x] @ of_producer p (drop (Suc i) q)"
    by (subst q) (simp add: x)
  moreover have "of_producer p (take i q) = []" if "r = p" using i(2,4) x that by (intro of_producer_none) (metis fst_conv)
  ultimately show ?thesis unfolding i(3) by (auto simp: x)
qed

section \<open>An actor\<close>

datatype phase = Idle | Looping | Draining | Ended

record ('p, 'm) actor =
  actor_id :: u64
  is_run :: bool
  mailbox :: "('p \<times> 'm) list"
  thread :: phase
  idle_count :: u32
  checked :: "'p \<Rightarrow> 'm option"
  ran :: "('p \<times> 'm) list"
  enqueued :: "('p \<times> 'm) list"

text \<open>
  \<open>thread\<close> is \<open>Idle\<close> while no thread is to be joined; \<open>checked\<close> holds the task of a producer that saw the
  actor running and has not enqueued yet; \<open>ran\<close> and \<open>enqueued\<close> are logs.
\<close>

definition actor_new :: "u64 \<Rightarrow> ('p, 'm) actor" where
  "actor_new seq = \<lparr>actor_id = seq, is_run = False, mailbox = [], thread = Idle, idle_count = 0,
    checked = (\<lambda>_. None), ran = [], enqueued = []\<rparr>"

text \<open>Assigning over a thread that has not been joined ends the process (\<open>None\<close>).\<close>

definition actor_start :: "bool \<Rightarrow> ('p, 'm) actor \<Rightarrow> (bool \<times> ('p, 'm) actor) option" where
  "actor_start created a =
    (if is_run a then Some (True, a)
     else let a = a\<lparr>is_run := True\<rparr> in
       if \<not> created then Some (False, a\<lparr>is_run := False\<rparr>)
       else if thread a \<noteq> Idle then None
       else Some (True, a\<lparr>thread := Looping, idle_count := 0\<rparr>))"

definition stop_request :: "('p, 'm) actor \<Rightarrow> bool \<times> ('p, 'm) actor" where
  "stop_request a = (is_run a, a\<lparr>is_run := False\<rparr>)"

definition join_thread :: "('p, 'm) actor \<Rightarrow> ('p, 'm) actor option" where
  "join_thread a = (if thread a = Ended then Some (a\<lparr>thread := Idle\<rparr>) else if thread a = Idle then Some a else None)"

definition execute_check :: "'p \<Rightarrow> 'm \<Rightarrow> ('p, 'm) actor \<Rightarrow> bool \<times> ('p, 'm) actor" where
  "execute_check p m a =
    (if \<not> is_run a then (False, a) else (True, a\<lparr>checked := (checked a)(p := Some m)\<rparr>))"

definition execute_enqueue :: "'p \<Rightarrow> ('p, 'm) actor \<Rightarrow> ('p, 'm) actor option" where
  "execute_enqueue p a =
    (case checked a p of
       None \<Rightarrow> None
     | Some m \<Rightarrow> Some (a\<lparr>checked := (checked a)(p := None), mailbox := mailbox a @ [(p, m)],
                         enqueued := enqueued a @ [(p, m)]\<rparr>))"

text \<open>The two steps with nothing between them.\<close>

definition actor_execute :: "'p \<Rightarrow> 'm \<Rightarrow> ('p, 'm) actor \<Rightarrow> bool \<times> ('p, 'm) actor" where
  "actor_execute p m a =
    (case execute_check p m a of
       (False, a) \<Rightarrow> (False, a)
     | (True, a) \<Rightarrow> (case execute_enqueue p a of None \<Rightarrow> (False, a) | Some a \<Rightarrow> (True, a)))"

datatype idle_wait = Yield | Sleep_us nat

definition idle_step :: "u32 \<Rightarrow> idle_wait \<times> u32" where
  "idle_step c =
    (let c = c + 1 in (if c < 64 then Yield else if c < 1024 then Sleep_us 100 else Sleep_us 1000, c))"

definition onMessage :: "('p \<times> 'm) \<Rightarrow> ('p, 'm) actor \<Rightarrow> ('p, 'm) actor" where
  "onMessage t a = a\<lparr>ran := ran a @ [t]\<rparr>"

text \<open>One turn of the actor's thread; \<open>pick\<close> is the entry the mailbox gives, if it gives one.\<close>

definition run_step :: "nat option \<Rightarrow> ('p, 'm) actor \<Rightarrow> ('p, 'm) actor option" where
  "run_step pick a =
    (case thread a of
       Looping \<Rightarrow>
         if \<not> is_run a then Some (a\<lparr>thread := Draining\<rparr>)
         else (case pick of
             Some i \<Rightarrow> map_option (\<lambda>(t, q). onMessage t (a\<lparr>mailbox := q, idle_count := 0\<rparr>)) (take_entry i (mailbox a))
           | None \<Rightarrow> if mailbox a = [] then Some (a\<lparr>idle_count := snd (idle_step (idle_count a))\<rparr>) else None)
     | Draining \<Rightarrow>
         (case pick of
             Some i \<Rightarrow> map_option (\<lambda>(t, q). onMessage t (a\<lparr>mailbox := q\<rparr>)) (take_entry i (mailbox a))
           | None \<Rightarrow> if mailbox a = [] then Some (a\<lparr>thread := Ended\<rparr>) else None)
     | _ \<Rightarrow> None)"

section \<open>Runs\<close>

datatype ('p, 'm) actor_event = Start bool | Stop | Join | Check 'p 'm | Enqueue 'p | Turn "nat option"

fun actor_step :: "('p, 'm) actor_event \<Rightarrow> ('p, 'm) actor \<Rightarrow> ('p, 'm) actor option" where
  "actor_step (Start created) a = map_option snd (actor_start created a)"
| "actor_step Stop a = Some (snd (stop_request a))"
| "actor_step Join a = join_thread a"
| "actor_step (Check p m) a = (if checked a p = None then Some (snd (execute_check p m a)) else None)"
| "actor_step (Enqueue p) a = execute_enqueue p a"
| "actor_step (Turn pick) a = run_step pick a"

fun actor_run :: "('p, 'm) actor_event list \<Rightarrow> ('p, 'm) actor \<Rightarrow> ('p, 'm) actor option" where
  "actor_run [] a = Some a"
| "actor_run (e # es) a = Option.bind (actor_step e a) (actor_run es)"

lemma actor_run_append: "actor_run (es @ fs) a = Option.bind (actor_run es a) (actor_run fs)"
  by (induction es arbitrary: a) (auto split: bind_splits)

lemmas actor_ops = actor_start_def stop_request_def join_thread_def execute_check_def execute_enqueue_def
  onMessage_def run_step_def Let_def

definition in_order :: "('p, 'm) actor \<Rightarrow> bool" where
  "in_order a \<longleftrightarrow> (\<forall>p. of_producer p (enqueued a) = of_producer p (ran a) @ of_producer p (mailbox a))"

lemma in_order_take:
  assumes "in_order a" "take_entry i (mailbox a) = Some (t, q)"
  shows "in_order (a\<lparr>mailbox := q, ran := ran a @ [t]\<rparr>)"
  using assms(1) take_entry_of_producer [OF assms(2)] by (cases t) (simp add: in_order_def)

lemma in_order_event: "in_order a \<Longrightarrow> actor_step e a = Some a' \<Longrightarrow> in_order a'"
proof (induction e a rule: actor_step.induct)
  case (6 pick a)
  then show ?case using in_order_take [of a]
    by (auto simp: actor_ops in_order_def split: phase.splits option.splits if_splits prod.splits)
qed (auto simp: actor_ops in_order_def split: if_splits option.splits)

lemma in_order_run: "in_order a \<Longrightarrow> actor_run es a = Some a' \<Longrightarrow> in_order a'"
  by (induction es arbitrary: a) (auto split: bind_splits dest: in_order_event)

section \<open>Properties\<close>

text \<open>C23. 
  An actor runs what it accepted, each task once and the tasks of one producer in their order: in every
  run from construction, with any number of producers, starts and stops and any choices of the mailbox,
  what a producer enqueued is what has run of it followed by what is still waiting.
\<close>

theorem actor_runs_in_order:
  assumes "actor_run es (actor_new seq) = Some a"
  shows "of_producer p (enqueued a) = of_producer p (ran a) @ of_producer p (mailbox a)"
  using in_order_run [OF _ assms] by (simp add: in_order_def actor_new_def)

theorem actor_runs_in_order_witness:
  "\<exists>a. actor_run [Start True, Check 0 ''a'', Check 1 ''b'', Enqueue 1, Enqueue 0, Check 0 ''c'', Enqueue 0, Turn (Some 1)]
      (actor_new 1) = Some a \<and> of_producer (0 :: nat) (ran a) = [''a''] \<and>
    of_producer 0 (enqueued a) = of_producer 0 (ran a) @ of_producer 0 (mailbox a)"
proof -
  let ?es = "[Start True, Check 0 ''a'', Check 1 ''b'', Enqueue 1, Enqueue 0, Check 0 ''c'', Enqueue 0, Turn (Some 1)]"
  have "case actor_run ?es (actor_new 1) of None \<Rightarrow> False | Some a \<Rightarrow> of_producer (0 :: nat) (ran a) = [''a'']" by code_simp
  then obtain a where a: "actor_run ?es (actor_new 1) = Some a" "of_producer (0 :: nat) (ran a) = [''a'']"
    by (auto split: option.splits)
  then show ?thesis using actor_runs_in_order [OF a(1)] by blast
qed

text \<open>A stopped mailbox is emptied in the order of its entries when the queue hands out its head.\<close>

lemma drain_all:
  "thread a = Draining \<Longrightarrow> \<exists>a'. actor_run (replicate (length (mailbox a)) (Turn (Some 0)) @ [Turn None, Join]) a = Some a' \<and>
    thread a' = Idle \<and> mailbox a' = [] \<and> ran a' = ran a @ mailbox a \<and> enqueued a' = enqueued a \<and> is_run a' = is_run a"
proof (induction "mailbox a" arbitrary: a)
  case Nil
  then show ?case by (simp add: run_step_def join_thread_def Nil(2) Nil(1) [symmetric])
next
  case (Cons t q)
  let ?b = "onMessage t (a\<lparr>mailbox := q\<rparr>)"
  have step: "run_step (Some 0) a = Some ?b"
    using Cons(3) by (simp add: run_step_def take_entry_def Cons(2) [symmetric])
  have "\<exists>a'. actor_run (replicate (length (mailbox ?b)) (Turn (Some 0)) @ [Turn None, Join]) ?b = Some a' \<and>
      thread a' = Idle \<and> mailbox a' = [] \<and> ran a' = ran ?b @ mailbox ?b \<and> enqueued a' = enqueued ?b \<and> is_run a' = is_run ?b"
    by (rule Cons(1)) (use Cons(3) in \<open>simp_all add: onMessage_def\<close>)
  then show ?case using step by (simp add: Cons(2) [symmetric]) (simp add: onMessage_def)
qed



text \<open>
  A call of \<open>execute\<close> that overlaps a stop can be answered with success and never run: the producer saw
  the actor running, the thread drained the mailbox and ended, and the task was enqueued afterwards.
  No thread takes it out unless the actor is started again.
\<close>

theorem accepted_task_lost:
  "\<exists>a. actor_run [Start True, Check 0 ''task'', Stop, Turn None, Turn None, Join, Enqueue (0 :: nat)] (actor_new 1) = Some a \<and>
    enqueued a = [(0, ''task'')] \<and> ran a = [] \<and> thread a = Idle \<and> (\<forall>pick. run_step pick a = None)"
proof -
  let ?es = "[Start True, Check 0 ''task'', Stop, Turn None, Turn None, Join, Enqueue (0 :: nat)]"
  have "case actor_run ?es (actor_new 1) of None \<Rightarrow> False
    | Some a \<Rightarrow> enqueued a = [(0, ''task'')] \<and> ran a = [] \<and> thread a = Idle" by code_simp
  then show ?thesis by (auto simp: run_step_def split: option.splits)
qed

section \<open>The registry and the servers' shards\<close>

record ('p, 'm) actor_system =
  actors :: "u64 \<Rightarrow> ('p, 'm) actor option"
  actor_id_seq :: u64

definition spawn :: "bool \<Rightarrow> ('p, 'm) actor_system \<Rightarrow> u64 option \<times> ('p, 'm) actor_system" where
  "spawn created S =
    (let a = actor_new (actor_id_seq S); S = S\<lparr>actor_id_seq := actor_id_seq S + 1\<rparr> in
     case actor_start created a of
       Some (True, a) \<Rightarrow> (Some (actor_id a), S\<lparr>actors := (actors S)(actor_id a := Some a)\<rparr>)
     | _ \<Rightarrow> (None, S))"

definition find_actor :: "u64 \<Rightarrow> ('p, 'm) actor_system \<Rightarrow> ('p, 'm) actor option" where
  "find_actor to S = actors S to"

definition system_execute :: "u64 \<Rightarrow> 'p \<Rightarrow> 'm \<Rightarrow> ('p, 'm) actor_system \<Rightarrow> bool \<times> ('p, 'm) actor_system" where
  "system_execute to p m S =
    (case actors S to of
       None \<Rightarrow> (False, S)
     | Some a \<Rightarrow> (case actor_execute p m a of (ok, a) \<Rightarrow> (ok, S\<lparr>actors := (actors S)(to := Some a)\<rparr>)))"

text \<open>The actors to be stopped and deleted, each of them by its own run, and the empty registry.\<close>

definition stopAll :: "('p, 'm) actor_system \<Rightarrow> (u64 \<Rightarrow> ('p, 'm) actor option) \<times> ('p, 'm) actor_system" where
  "stopAll S = (actors S, S\<lparr>actors := (\<lambda>_. None)\<rparr>)"

datatype actor_type = LOGIC | IO | DB

record ('p, 'm) server_actors =
  registry :: "('p, 'm) actor_system"
  buckets :: "actor_type \<Rightarrow> u64 list"

text \<open>An actor is created for each entry of the list, which says whether its thread starts.\<close>

definition init_one :: "actor_type \<Rightarrow> bool \<Rightarrow> ('p, 'm) server_actors \<Rightarrow> ('p, 'm) server_actors" where
  "init_one t created g =
    (case spawn created (registry g) of
       (Some a, S) \<Rightarrow> g\<lparr>registry := S, buckets := (buckets g)(t := buckets g t @ [a])\<rparr>
     | (None, S) \<Rightarrow> g\<lparr>registry := S\<rparr>)"

definition initActors :: "actor_type \<Rightarrow> bool list \<Rightarrow> ('p, 'm) server_actors \<Rightarrow> ('p, 'm) server_actors" where
  "initActors t created g = fold (init_one t) created g"

definition shard :: "i32 \<Rightarrow> nat \<Rightarrow> nat" where
  "shard hashCode n = unat (scast hashCode :: u64) mod n"

text \<open>An actor of a bucket that the registry has destroyed is not to be used (\<open>None\<close>).\<close>

definition shard_execute :: "actor_type \<Rightarrow> i32 \<Rightarrow> 'p \<Rightarrow> 'm \<Rightarrow> ('p, 'm) server_actors \<Rightarrow> ('p, 'm) server_actors option" where
  "shard_execute t hashCode p m g =
    (let bucket = buckets g t in
     if bucket = [] then Some g
     else let a = bucket ! shard hashCode (length bucket) in
       if actors (registry g) a = None then None
       else Some (g\<lparr>registry := snd (system_execute a p m (registry g))\<rparr>))"

definition channel_hash :: "u64 \<Rightarrow> i32" where "channel_hash address = ucast address"

text \<open>One thread posts a list of tasks with their hash codes.\<close>

fun post_all :: "actor_type \<Rightarrow> 'p \<Rightarrow> (i32 \<times> 'm) list \<Rightarrow> ('p, 'm) server_actors \<Rightarrow> ('p, 'm) server_actors option" where
  "post_all t p [] g = Some g"
| "post_all t p ((h, m) # ms) g = Option.bind (shard_execute t h p m g) (post_all t p ms)"

definition bucket_running :: "actor_type \<Rightarrow> ('p, 'm) server_actors \<Rightarrow> bool" where
  "bucket_running t g \<longleftrightarrow> buckets g t \<noteq> [] \<and> distinct (buckets g t) \<and>
    (\<forall>a \<in> set (buckets g t). \<exists>x. actors (registry g) a = Some x \<and> is_run x)"

lemma actor_execute_running:
  "is_run a \<Longrightarrow> \<exists>a'. actor_execute p m a = (True, a') \<and> is_run a' \<and> enqueued a' = enqueued a @ [(p, m)]"
  by (simp add: actor_execute_def execute_check_def execute_enqueue_def)

lemma shard_less: "0 < n \<Longrightarrow> shard h n < n"
  by (simp add: shard_def)

lemma shard_execute_running:
  assumes g: "bucket_running t g" and h: "a = buckets g t ! shard h (length (buckets g t))"
  shows "\<exists>g'. shard_execute t h p m g = Some g' \<and> bucket_running t g' \<and> buckets g' = buckets g \<and>
    (\<forall>b x. actors (registry g) b = Some x \<longrightarrow> (\<exists>x'. actors (registry g') b = Some x' \<and>
      enqueued x' = (if b = a then enqueued x @ [(p, m)] else enqueued x)))"
proof -
  have "a \<in> set (buckets g t)" using g h shard_less by (simp add: bucket_running_def)
  then obtain x where x: "actors (registry g) a = Some x" "is_run x" using g by (auto simp: bucket_running_def)
  obtain x' where x': "actor_execute p m x = (True, x')" "is_run x'" "enqueued x' = enqueued x @ [(p, m)]"
    using actor_execute_running [OF x(2)] by blast
  have "shard_execute t h p m g = Some (g\<lparr>registry := (registry g)\<lparr>actors := (actors (registry g))(a := Some x')\<rparr>\<rparr>)"
    using g x(1) x'(1) h by (simp add: shard_execute_def Let_def system_execute_def bucket_running_def)
  then show ?thesis using g x x' by (auto simp: bucket_running_def)
qed

text \<open>C25. 
  The sharding of the servers keeps the order of a connection: when one event-loop thread posts tasks to
  running actors, every task is accepted by the actor its hash selects, and each actor has received
  exactly the tasks of its hashes, in the order they were posted.
\<close>

theorem sharding_keeps_order:
  assumes "bucket_running t g"
  shows "\<exists>g'. post_all t p ms g = Some g' \<and> buckets g' = buckets g \<and>
    (\<forall>k < length (buckets g t). \<forall>x. actors (registry g) (buckets g t ! k) = Some x \<longrightarrow>
      (\<exists>x'. actors (registry g') (buckets g t ! k) = Some x' \<and>
        of_producer p (enqueued x') =
          of_producer p (enqueued x) @ map snd (filter (\<lambda>e. shard (fst e) (length (buckets g t)) = k) ms)))"
  using assms
proof (induction ms arbitrary: g)
  case (Cons e ms)
  obtain h m where e: "e = (h, m)" by (cases e)
  let ?b = "buckets g t"
  obtain g1 where g1: "shard_execute t h p m g = Some g1" "bucket_running t g1" "buckets g1 = buckets g"
    "\<forall>b x. actors (registry g) b = Some x \<longrightarrow> (\<exists>x'. actors (registry g1) b = Some x' \<and>
      enqueued x' = (if b = ?b ! shard h (length ?b) then enqueued x @ [(p, m)] else enqueued x))"
    using shard_execute_running [OF Cons.prems refl] by blast
  obtain g' where g': "post_all t p ms g1 = Some g'" "buckets g' = buckets g"
    "\<forall>k < length ?b. \<forall>x. actors (registry g1) (?b ! k) = Some x \<longrightarrow>
      (\<exists>x'. actors (registry g') (?b ! k) = Some x' \<and> of_producer p (enqueued x') =
          of_producer p (enqueued x) @ map snd (filter (\<lambda>e. shard (fst e) (length ?b) = k) ms))"
    using Cons.IH [OF g1(2)] by (auto simp: g1(3))
  have s: "shard h (length ?b) < length ?b" "distinct ?b"
    using Cons.prems by (simp_all add: bucket_running_def shard_less)
  have "\<exists>x'. actors (registry g') (?b ! k) = Some x' \<and> of_producer p (enqueued x') =
        of_producer p (enqueued x) @ map snd (filter (\<lambda>e. shard (fst e) (length ?b) = k) (e # ms))"
    if k: "k < length ?b" "actors (registry g) (?b ! k) = Some x" for k x
  proof -
    obtain x1 where x1: "actors (registry g1) (?b ! k) = Some x1"
      "enqueued x1 = (if ?b ! k = ?b ! shard h (length ?b) then enqueued x @ [(p, m)] else enqueued x)"
      using g1(4) k(2) by blast
    have "?b ! k = ?b ! shard h (length ?b) \<longleftrightarrow> shard h (length ?b) = k"
      using s k(1) by (auto simp: nth_eq_iff_index_eq)
    then show ?thesis using g'(3) k(1) x1 by (fastforce simp: e)
  qed
  then show ?case using g1(1) g'(1,2) by (simp add: e)
qed simp

definition two_shards :: "(nat, string) server_actors" where
  "two_shards = initActors LOGIC [True, True] \<lparr>registry = \<lparr>actors = (\<lambda>_. None), actor_id_seq = 1\<rparr>, buckets = (\<lambda>_. [])\<rparr>"

theorem sharding_keeps_order_witness:
  "\<exists>g' x'. post_all LOGIC 0 [(7, ''a''), (4, ''b''), (7, ''c'')] two_shards = Some g' \<and>
    actors (registry g') 2 = Some x' \<and> of_producer 0 (enqueued x') = [''a'', ''c'']"
proof -
  have b: "buckets two_shards LOGIC = [1, 2]"
    "case actors (registry two_shards) 1 of None \<Rightarrow> False | Some x \<Rightarrow> is_run x"
    "case actors (registry two_shards) 2 of None \<Rightarrow> False | Some x \<Rightarrow> is_run x \<and> enqueued x = []" by code_simp+
  then obtain x where x: "actors (registry two_shards) 2 = Some x" "enqueued x = []" by (auto split: option.splits)
  have run: "bucket_running LOGIC two_shards" using b by (auto simp: bucket_running_def split: option.splits)
  have s: "shard 7 (Suc (Suc 0)) = Suc 0" "shard 4 (Suc (Suc 0)) = 0" by code_simp+
  obtain g' where g': "post_all LOGIC 0 [(7, ''a''), (4, ''b''), (7, ''c'')] two_shards = Some g'"
    "\<forall>k < length [1, 2 :: u64]. \<forall>x. actors (registry two_shards) ([1, 2] ! k) = Some x \<longrightarrow>
      (\<exists>x'. actors (registry g') ([1, 2] ! k) = Some x' \<and> of_producer 0 (enqueued x') = of_producer 0 (enqueued x) @
        map snd (filter (\<lambda>e. shard (fst e) (length [1, 2 :: u64]) = k) [(7, ''a''), (4, ''b''), (7, ''c'')]))"
    using sharding_keeps_order [OF run, of 0 "[(7, ''a''), (4, ''b''), (7, ''c'')]"] unfolding b(1) by blast
  show ?thesis using g'(1) g'(2) [rule_format, of 1 x] x by (simp add: s)
qed

text \<open>
  Channels are allocated at multiples of 16, so with a power of two up to 16 threads, the configured two
  among them, the address selects the first actor for every connection.
\<close>

theorem aligned_channels_share_one_actor:
  assumes "16 dvd unat address" "n dvd 16"
  shows "shard (channel_hash address) n = 0"
proof -
  let ?w = "scast (channel_hash address) :: u64"
  have "take_bit 4 ?w = take_bit 4 address"
    by (rule bit_eqI) (auto simp: channel_hash_def bit_simps)
  then have "unat (take_bit 4 ?w) = unat (take_bit 4 address)" by simp
  then have "unat ?w mod 16 = unat address mod 16" by (simp only: unsigned_take_bit_eq) (simp add: take_bit_eq_mod)
  then have "16 dvd unat ?w" unfolding dvd_eq_mod_eq_0 using assms(1) by presburger
  with assms(2) have "n dvd unat ?w" by (rule dvd_trans)
  then show ?thesis unfolding shard_def by (rule dvd_imp_mod_0)
qed

theorem aligned_channels_share_one_actor_witness:
  "shard (channel_hash 94370281230512) 2 = 0 \<and> shard (channel_hash 94370281297040) 2 = 0"
  using aligned_channels_share_one_actor [of 94370281230512 2] aligned_channels_share_one_actor [of 94370281297040 2]
  by simp

end
