(* ===== verification/Base64.thy ===== *)
theory Base64
  imports Athena_Prelude
begin

unbundle bit_operations_syntax

text \<open>
  The base 64 encoding of src/core/common/base64.cpp over lists of bytes. The arrays of the loops are
  the lists of the bytes gathered so far.
\<close>

definition base64_chars :: "byte list" where
  "base64_chars = map of_char
    ''ABCDEFGHIJKLMNOPQRSTUVWXYZabcdefghijklmnopqrstuvwxyz0123456789+/''"

definition is_base64 :: "byte \<Rightarrow> bool" where
  "is_base64 c \<longleftrightarrow> (48 \<le> c \<and> c \<le> 57 \<or> 65 \<le> c \<and> c \<le> 90 \<or> 97 \<le> c \<and> c \<le> 122) \<or> c = 43 \<or> c = 47"

text \<open>Three bytes as four 6-bit digits, and back.\<close>

definition digits4 :: "byte \<Rightarrow> byte \<Rightarrow> byte \<Rightarrow> byte list" where
  "digits4 a b c =
    [drop_bit 2 (a AND 0xfc),
     push_bit 4 (a AND 0x03) + drop_bit 4 (b AND 0xf0),
     push_bit 2 (b AND 0x0f) + drop_bit 6 (c AND 0xc0),
     c AND 0x3f]"

definition bytes3 :: "byte \<Rightarrow> byte \<Rightarrow> byte \<Rightarrow> byte \<Rightarrow> byte list" where
  "bytes3 a b c d =
    [push_bit 2 a + drop_bit 4 (b AND 0x30),
     push_bit 4 (b AND 0xf) + drop_bit 2 (c AND 0x3c),
     push_bit 6 (c AND 0x3) + d]"

definition digit_char :: "byte \<Rightarrow> byte" where "digit_char d = base64_chars ! unat d"

text \<open>The position of a character; one that is not found gives the low byte of \<open>npos\<close>.\<close>

definition find_char :: "byte \<Rightarrow> byte" where
  "find_char c =
    (let i = length (takeWhile (\<lambda>x. x \<noteq> c) base64_chars) in if i < 64 then of_nat i else 255)"

definition encode_rest :: "byte list \<Rightarrow> byte list" where
  "encode_rest xs =
    (if xs = [] then []
     else let a = xs @ replicate (3 - length xs) 0
       in take (length xs + 1) (map digit_char (digits4 (a ! 0) (a ! 1) (a ! 2))) @ replicate (3 - length xs) 61)"

fun encode_loop :: "byte list \<Rightarrow> byte list \<Rightarrow> byte list" where
  "encode_loop xs [] = encode_rest xs"
| "encode_loop xs (b # bs) =
    (let xs = xs @ [b] in
     if length xs = 3 then map digit_char (digits4 (xs ! 0) (xs ! 1) (xs ! 2)) @ encode_loop [] bs
     else encode_loop xs bs)"

definition base64_encode :: "byte list \<Rightarrow> byte list" where
  "base64_encode bs = encode_loop [] bs"

definition decode_rest :: "byte list \<Rightarrow> byte list" where
  "decode_rest xs =
    (if xs = [] then []
     else let a = map find_char (xs @ replicate (4 - length xs) 0)
       in take (length xs - 1) (bytes3 (a ! 0) (a ! 1) (a ! 2) (a ! 3)))"

fun decode_loop :: "byte list \<Rightarrow> byte list \<Rightarrow> byte list" where
  "decode_loop xs [] = decode_rest xs"
| "decode_loop xs (c # cs) =
    (if c = 61 \<or> \<not> is_base64 c then decode_rest xs
     else let xs = xs @ [c] in
       if length xs = 4 then
         (let a = map find_char xs in bytes3 (a ! 0) (a ! 1) (a ! 2) (a ! 3) @ decode_loop [] cs)
       else decode_loop xs cs)"

definition base64_decode :: "byte list \<Rightarrow> byte list" where
  "base64_decode s = decode_loop [] s"

section \<open>The alphabet\<close>

lemma alphabet: "length base64_chars = 64" "list_all (\<lambda>c. c \<noteq> 61 \<and> is_base64 c) base64_chars"
  by code_simp+

lemma alphabet_distinct: "distinct base64_chars"
  by code_simp

lemma takeWhile_index: "distinct xs \<Longrightarrow> i < length xs \<Longrightarrow> length (takeWhile (\<lambda>x. x \<noteq> xs ! i) xs) = i"
  by (induction xs arbitrary: i) (auto simp: nth_Cons split: nat.splits)

lemma digit_char_ok:
  assumes "d < 64"
  shows "digit_char d \<noteq> 61" "is_base64 (digit_char d)" "find_char (digit_char d) = d"
proof -
  have d: "unat d < 64" using assms by (simp add: word_less_nat_alt)
  then have "digit_char d \<in> set base64_chars" by (simp add: digit_char_def alphabet(1))
  then show "digit_char d \<noteq> 61" "is_base64 (digit_char d)" using alphabet(2) by (auto simp: list_all_iff)
  show "find_char (digit_char d) = d"
    using d takeWhile_index [OF alphabet_distinct, of "unat d"] by (simp add: find_char_def digit_char_def alphabet(1))
qed

section \<open>Bits\<close>

lemma octet_eqI:
  assumes "\<And>n. n \<in> {0, 1, 2, 3, 4, 5, 6, 7} \<Longrightarrow> bit (a :: byte) n = bit b n"
  shows "a = b"
proof (rule bit_word_eqI)
  fix n
  assume "n < LENGTH(8)"
  then have "n \<in> {0, 1, 2, 3, 4, 5, 6, 7}" by simp arith
  then show "bit a n = bit b n" by (rule assms)
qed

lemma add_or: "(x :: byte) AND y = 0 \<Longrightarrow> x + y = x OR y"
  by (metis add.right_neutral word_plus_and_or add.commute)

lemma digits4_or:
  "push_bit 4 (a AND 0x03) + drop_bit 4 (b AND 0xf0) = push_bit 4 (a AND 0x03) OR drop_bit 4 (b AND 0xf0)"
  "push_bit 2 (b AND 0x0f) + drop_bit 6 (c AND 0xc0) = push_bit 2 (b AND 0x0f) OR drop_bit 6 (c AND 0xc0)" for a b c :: byte
  by (rule add_or, rule octet_eqI, auto simp: bit_simps)+

lemma less_64I: "(d :: byte) AND 0x3f = d \<Longrightarrow> d < 64"
  using word_and_le1 [of d "0x3f"] by (simp add: word_le_nat_alt word_less_nat_alt)

lemma digits4_less: "\<forall>d \<in> set (digits4 a b c). d < 64"
proof -
  have "x AND 0x3f = x" if "x \<in> set (digits4 a b c)" for x
    using that unfolding digits4_def digits4_or by (auto intro!: octet_eqI simp: bit_simps)
  then show ?thesis by (blast intro: less_64I)
qed

lemma bytes3_or:
  "push_bit 2 a + drop_bit 4 (b AND 0x30) = push_bit 2 a OR drop_bit 4 (b AND 0x30)"
    "push_bit 4 (b AND 0xf) + drop_bit 2 (c AND 0x3c) = push_bit 4 (b AND 0xf) OR drop_bit 2 (c AND 0x3c)"
    "push_bit 6 (c AND 0x3) + (d AND 0x3f) = push_bit 6 (c AND 0x3) OR (d AND 0x3f)" for a b c d :: byte
  by (rule add_or, rule octet_eqI, auto simp: bit_simps)+

lemma bytes3_digits4: "(case digits4 a b c of [p, q, r, s] \<Rightarrow> bytes3 p q r s | _ \<Rightarrow> []) = [a, b, c]"
proof -
  have "bytes3 (drop_bit 2 (a AND 0xfc)) (push_bit 4 (a AND 0x03) OR drop_bit 4 (b AND 0xf0))
      (push_bit 2 (b AND 0x0f) OR drop_bit 6 (c AND 0xc0)) (c AND 0x3f) = [a, b, c]"
    unfolding bytes3_def bytes3_or by (auto intro!: octet_eqI simp: bit_simps)
  then show ?thesis unfolding digits4_def digits4_or list.case .
qed

section \<open>Round trip\<close>

lemma digits4_cases:
  obtains p q r s where "digits4 a b c = [p, q, r, s]" "p < 64" "q < 64" "r < 64" "s < 64" "bytes3 p q r s = [a, b, c]"
proof -
  obtain p q r s where d: "digits4 a b c = [p, q, r, s]" by (simp add: digits4_def)
  show thesis
    by (rule that [OF d]) (use digits4_less [of a b c] bytes3_digits4 [of a b c] d in simp_all)
qed

lemma decode_four:
  assumes "p < 64" "q < 64" "r < 64" "s < 64"
  shows "decode_loop [] (map digit_char [p, q, r, s] @ cs) = bytes3 p q r s @ decode_loop [] cs"
  using assms by (simp add: digit_char_ok)

lemma decode_two:
  assumes "p < 64" "q < 64"
  shows "decode_loop [] (map digit_char [p, q] @ [61, 61]) = take 1 (bytes3 p q r s)"
  using assms by (simp add: digit_char_ok decode_rest_def bytes3_def)

lemma decode_three:
  assumes "p < 64" "q < 64" "r < 64"
  shows "decode_loop [] (map digit_char [p, q, r] @ [61]) = take 2 (bytes3 p q r s)"
  using assms by (simp add: digit_char_ok decode_rest_def bytes3_def)

lemma encode_three: "encode_loop [] (a # b # c # bs) = map digit_char (digits4 a b c) @ encode_loop [] bs"
  by simp

lemma encode_two: "encode_loop [] [a, b] = take 3 (map digit_char (digits4 a b 0)) @ [61]"
  by (simp add: encode_rest_def numeral_eq_Suc)

lemma encode_one: "encode_loop [] [a] = take 2 (map digit_char (digits4 a 0 0)) @ [61, 61]"
  by (simp add: encode_rest_def numeral_eq_Suc)

lemma encode_decode:
  "decode_loop [] (encode_loop [] bs) = bs \<and> length (encode_loop [] bs) = 4 * ((length bs + 2) div 3) \<and>
    set (encode_loop [] bs) \<subseteq> {c. is_base64 c} \<union> {61}"
proof (induction "length bs" arbitrary: bs rule: less_induct)
  case less
  consider "bs = []" | a where "bs = [a]" | a b where "bs = [a, b]" | a b c cs where "bs = a # b # c # cs"
    by (metis list.exhaust)
  then show ?case
  proof cases
    case 1
    then show ?thesis by (simp add: encode_rest_def decode_rest_def)
  next
    case 2
    obtain p q r s where d: "digits4 a 0 0 = [p, q, r, s]" "p < 64" "q < 64" "bytes3 p q r s = [a, 0, 0]"
      by (rule digits4_cases)
    have e: "encode_loop [] bs = map digit_char [p, q] @ [61, 61]" unfolding 2 encode_one d(1) by (simp add: take_Cons')
    show ?thesis unfolding e decode_two [OF d(2,3), of r s] d(4) using d(2,3) by (simp add: digit_char_ok 2)
  next
    case 3
    obtain p q r s where d: "digits4 a b 0 = [p, q, r, s]" "p < 64" "q < 64" "r < 64" "bytes3 p q r s = [a, b, 0]"
      by (rule digits4_cases)
    have e: "encode_loop [] bs = map digit_char [p, q, r] @ [61]" unfolding 3 encode_two d(1) by (simp add: take_Cons')
    show ?thesis unfolding e decode_three [OF d(2-4), of s] d(5)
      using d(2-4) by (simp add: digit_char_ok 3 take_Cons')
  next
    case 4
    obtain p q r s where d: "digits4 a b c = [p, q, r, s]" "p < 64" "q < 64" "r < 64" "s < 64" "bytes3 p q r s = [a, b, c]"
      by (rule digits4_cases)
    have ih: "decode_loop [] (encode_loop [] cs) = cs \<and> length (encode_loop [] cs) = 4 * ((length cs + 2) div 3) \<and>
      set (encode_loop [] cs) \<subseteq> {c. is_base64 c} \<union> {61}"
      by (rule less) (simp add: 4)
    have e: "encode_loop [] bs = map digit_char [p, q, r, s] @ encode_loop [] cs" unfolding 4 encode_three d(1) ..
    have "decode_loop [] (encode_loop [] bs) = bs" unfolding e decode_four [OF d(2-5)] d(6) using ih 4 by simp
    moreover have "length (encode_loop [] bs) = 4 * ((length bs + 2) div 3)"
    proof -
      have "(length bs + 2) div 3 = (length cs + 2) div 3 + 1" unfolding 4 by simp
      then show ?thesis unfolding e length_append using ih by simp
    qed
    moreover have "set (encode_loop [] bs) \<subseteq> {c. is_base64 c} \<union> {61}"
      unfolding e set_append using ih d(2-5) by (simp add: digit_char_ok)
    ultimately show ?thesis by blast
  qed
qed


end
