(* ===== verification/Sha1.thy ===== *)
theory Sha1
  imports Athena_Prelude
begin

unbundle bit_operations_syntax

text \<open>
  The SHA-1 digest of src/core/common/sha1.cpp: the incremental class with its block buffer, and the
  digest of a whole message as the standard defines it, by padding and hashing block after block.
\<close>

section \<open>One block\<close>

type_synonym digest = "u32 \<times> u32 \<times> u32 \<times> u32 \<times> u32"

definition H_init :: digest where
  "H_init = (0x67452301, 0xEFCDAB89, 0x98BADCFE, 0x10325476, 0xC3D2E1F0)"

definition CircularShift :: "nat \<Rightarrow> u32 \<Rightarrow> u32" where
  "CircularShift bits w = push_bit bits w OR drop_bit (32 - bits) w"

definition block_word :: "byte list \<Rightarrow> nat \<Rightarrow> u32" where
  "block_word b t =
    push_bit 24 (ucast (b ! (t * 4))) OR push_bit 16 (ucast (b ! (t * 4 + 1))) OR
    push_bit 8 (ucast (b ! (t * 4 + 2))) OR ucast (b ! (t * 4 + 3))"

definition schedule_word :: "nat \<Rightarrow> u32 list \<Rightarrow> u32 list" where
  "schedule_word t W = W @ [CircularShift 1 (W ! (t - 3) XOR W ! (t - 8) XOR W ! (t - 14) XOR W ! (t - 16))]"

definition schedule :: "byte list \<Rightarrow> u32 list" where
  "schedule b = fold schedule_word [16..<80] (map (block_word b) [0..<16])"

definition round_step :: "(u32 \<Rightarrow> u32 \<Rightarrow> u32 \<Rightarrow> u32) \<Rightarrow> u32 \<Rightarrow> u32 \<Rightarrow> digest \<Rightarrow> digest" where
  "round_step f K W = (\<lambda>(A, B, C, D, E).
    (CircularShift 5 A + f B C D + E + W + K, A, CircularShift 30 B, C, D))"

definition f_choose :: "u32 \<Rightarrow> u32 \<Rightarrow> u32 \<Rightarrow> u32" where "f_choose B C D = (B AND C) OR (NOT B AND D)"
definition f_parity :: "u32 \<Rightarrow> u32 \<Rightarrow> u32 \<Rightarrow> u32" where "f_parity B C D = B XOR C XOR D"
definition f_majority :: "u32 \<Rightarrow> u32 \<Rightarrow> u32 \<Rightarrow> u32" where
  "f_majority B C D = (B AND C) OR (B AND D) OR (C AND D)"

definition compress :: "digest \<Rightarrow> byte list \<Rightarrow> digest" where
  "compress H b =
    (let W = schedule b;
         s = fold (\<lambda>t. round_step f_choose 0x5A827999 (W ! t)) [0..<20] H;
         s = fold (\<lambda>t. round_step f_parity 0x6ED9EBA1 (W ! t)) [20..<40] s;
         s = fold (\<lambda>t. round_step f_majority 0x8F1BBCDC (W ! t)) [40..<60] s;
         s = fold (\<lambda>t. round_step f_parity 0xCA62C1D6 (W ! t)) [60..<80] s
     in case (H, s) of ((h0, h1, h2, h3, h4), (A, B, C, D, E)) \<Rightarrow> (h0 + A, h1 + B, h2 + C, h3 + D, h4 + E))"

section \<open>The class\<close>

record sha1 =
  H :: digest
  Length_Low :: u32
  Length_High :: u32
  Message_Block :: "byte list"
  Message_Block_Index :: nat
  Computed :: bool
  Corrupted :: bool

definition Reset :: "sha1 \<Rightarrow> sha1" where
  "Reset s = s\<lparr>Length_Low := 0, Length_High := 0, Message_Block_Index := 0, H := H_init,
    Computed := False, Corrupted := False\<rparr>"

text \<open>A new object's block is whatever its memory holds.\<close>

definition sha1_new :: "byte list \<Rightarrow> sha1" where
  "sha1_new memory = Reset \<lparr>H = H_init, Length_Low = 0, Length_High = 0, Message_Block = memory,
    Message_Block_Index = 0, Computed = False, Corrupted = False\<rparr>"

definition ProcessMessageBlock :: "sha1 \<Rightarrow> sha1" where
  "ProcessMessageBlock s = s\<lparr>H := compress (H s) (Message_Block s), Message_Block_Index := 0\<rparr>"

definition put_byte :: "byte \<Rightarrow> sha1 \<Rightarrow> sha1" where
  "put_byte b s = s\<lparr>Message_Block := (Message_Block s)[Message_Block_Index s := b],
    Message_Block_Index := Message_Block_Index s + 1\<rparr>"

definition count_byte :: "sha1 \<Rightarrow> sha1" where
  "count_byte s =
    (let s = s\<lparr>Length_Low := Length_Low s + 8\<rparr> in
     if Length_Low s = 0 then
       let s = s\<lparr>Length_High := Length_High s + 1\<rparr> in
       if Length_High s = 0 then s\<lparr>Corrupted := True\<rparr> else s
     else s)"

definition input_byte :: "byte \<Rightarrow> sha1 \<Rightarrow> sha1" where
  "input_byte b s =
    (let s = count_byte (put_byte b s) in
     if Message_Block_Index s = 64 then ProcessMessageBlock s else s)"

fun input_loop :: "byte list \<Rightarrow> sha1 \<Rightarrow> sha1" where
  "input_loop [] s = s"
| "input_loop (b # bs) s = (if Corrupted s then s else input_loop bs (input_byte b s))"

definition Input :: "byte list \<Rightarrow> sha1 \<Rightarrow> sha1" where
  "Input bs s =
    (if bs = [] then s
     else if Computed s \<or> Corrupted s then s\<lparr>Corrupted := True\<rparr>
     else input_loop bs s)"

text \<open>A C string is given byte by byte, up to its terminator.\<close>

definition put_string :: "byte list \<Rightarrow> sha1 \<Rightarrow> sha1" where
  "put_string str s = fold (\<lambda>b. Input [b]) (takeWhile (\<lambda>b. b \<noteq> 0) str) s"

function pad_zero :: "nat \<Rightarrow> sha1 \<Rightarrow> sha1" where
  "pad_zero n s = (if Message_Block_Index s < n then pad_zero n (put_byte 0 s) else s)"
  by auto
termination by (relation "measure (\<lambda>(n, s). n - Message_Block_Index s)") (auto simp: put_byte_def)

declare pad_zero.simps [simp del]

definition put_length :: "sha1 \<Rightarrow> sha1" where
  "put_length s = s\<lparr>Message_Block := (Message_Block s)
    [56 := ucast (drop_bit 24 (Length_High s)), 57 := ucast (drop_bit 16 (Length_High s)),
     58 := ucast (drop_bit 8 (Length_High s)), 59 := ucast (Length_High s),
     60 := ucast (drop_bit 24 (Length_Low s)), 61 := ucast (drop_bit 16 (Length_Low s)),
     62 := ucast (drop_bit 8 (Length_Low s)), 63 := ucast (Length_Low s)]\<rparr>"

definition PadMessage :: "sha1 \<Rightarrow> sha1" where
  "PadMessage s =
    ProcessMessageBlock (put_length
      (if Message_Block_Index s > 55 then
         pad_zero 56 (ProcessMessageBlock (pad_zero 64 (put_byte 0x80 s)))
       else pad_zero 56 (put_byte 0x80 s)))"

definition Result :: "sha1 \<Rightarrow> (bool \<times> digest option) \<times> sha1" where
  "Result s =
    (if Corrupted s then ((False, None), s)
     else let s = (if \<not> Computed s then (PadMessage s)\<lparr>Computed := True\<rparr> else s)
       in ((True, Some (H s)), s))"

section \<open>The digest of a message\<close>

function hash_blocks :: "digest \<Rightarrow> byte list \<Rightarrow> digest" where
  "hash_blocks h m = (if length m < 64 then h else hash_blocks (compress h (take 64 m)) (drop 64 m))"
  by auto
termination by (relation "measure (\<lambda>(h, m). length m)") auto

declare hash_blocks.simps [simp del]

definition length_bytes :: "nat \<Rightarrow> byte list" where
  "length_bytes n = map (\<lambda>i. ucast (drop_bit (8 * i) (of_nat (8 * n) :: u64))) [7, 6, 5, 4, 3, 2, 1, 0]"

definition padded :: "byte list \<Rightarrow> byte list" where
  "padded m = m @ 0x80 # replicate ((119 - length m mod 64) mod 64) 0 @ length_bytes (length m)"

definition sha1_digest :: "byte list \<Rightarrow> digest" where
  "sha1_digest m = hash_blocks H_init (padded m)"

lemma hash_blocks_append: "length a mod 64 = 0 \<Longrightarrow> hash_blocks h (a @ b) = hash_blocks (hash_blocks h a) b"
proof (induction h a rule: hash_blocks.induct)
  case (1 h a)
  show ?case
  proof (cases "length a < 64")
    case True
    then have "a = []" using 1(2) by simp
    then show ?thesis by (simp add: hash_blocks.simps)
  next
    case False
    then have "length (drop 64 a) mod 64 = 0" using 1(2) by (simp add: le_mod_geq not_less)
    have e: "hash_blocks h a = hash_blocks (compress h (take 64 a)) (drop 64 a)"
      "hash_blocks h (a @ b) = hash_blocks (compress h (take 64 a)) (drop 64 a @ b)"
      using False by (subst hash_blocks.simps, simp)+
    show ?thesis unfolding e by (rule 1(1) [OF False \<open>length (drop 64 a) mod 64 = 0\<close>])
  qed
qed

lemma hash_blocks_one: "length a = 64 \<Longrightarrow> hash_blocks h a = compress h a"
  by (simp add: hash_blocks.simps)

lemma hash_blocks_snoc: "length a mod 64 = 0 \<Longrightarrow> length b = 64 \<Longrightarrow> hash_blocks h (a @ b) = compress (hash_blocks h a) b"
  by (simp add: hash_blocks_append hash_blocks_one)

section \<open>The class computes the digest\<close>

text \<open>What has been given is \<open>a @ r\<close>: whole blocks that are hashed and the rest in the buffer.\<close>

definition sha_inv :: "byte list \<Rightarrow> byte list \<Rightarrow> sha1 \<Rightarrow> bool" where
  "sha_inv a r s \<longleftrightarrow> length a mod 64 = 0 \<and> length r < 64 \<and> H s = hash_blocks H_init a \<and>
    length (Message_Block s) = 64 \<and> take (length r) (Message_Block s) = r \<and> Message_Block_Index s = length r \<and>
    unat (Length_Low s) + 2 ^ 32 * unat (Length_High s) = 8 * length (a @ r) \<and> \<not> Computed s \<and> \<not> Corrupted s"

lemma unat_less_2p32: "unat (x :: u32) < 2 ^ 32"
  using unsigned_less [of x] by simp

lemma put_byte_block:
  assumes "length (Message_Block s) = 64" "Message_Block_Index s < 64"
  shows "take (Message_Block_Index s + 1) (Message_Block (put_byte b s)) = take (Message_Block_Index s) (Message_Block s) @ [b]"
  using assms by (simp add: put_byte_def take_Suc_conv_app_nth)

lemma count_byte_ok:
  assumes n: "unat (Length_Low s) + 2 ^ 32 * unat (Length_High s) = 8 * n" "8 * (n + 1) < 2 ^ 64" and ok: "\<not> Corrupted s"
  shows "unat (Length_Low (count_byte s)) + 2 ^ 32 * unat (Length_High (count_byte s)) = 8 * (n + 1) \<and>
    \<not> Corrupted (count_byte s)"
proof -
  define x y where "x = unat (Length_Low s)" and "y = unat (Length_High s)"
  have x: "x < 2 ^ 32" and y: "y < 2 ^ 32"
    using unat_less_2p32 by (simp_all only: x_def y_def)
  have xy: "x + 2 ^ 32 * y = 8 * n" using n by (simp add: x_def y_def)
  have lo: "unat (Length_Low s + 8) = (x + 8) mod 2 ^ 32" and hi: "unat (Length_High s + 1) = (y + 1) mod 2 ^ 32"
    by (simp_all add: unat_word_ariths x_def y_def)
  show ?thesis
  proof (cases "x + 8 < 2 ^ 32")
    case True
    then have "unat (Length_Low s + 8) = x + 8" using lo by simp
    moreover from this have "Length_Low s + 8 \<noteq> 0" by (metis add_is_0 unat_0 zero_neq_numeral)
    ultimately show ?thesis using xy ok by (simp add: count_byte_def Let_def y_def)
  next
    case False
    define k where "k = n - 2 ^ 29 * y"
    have "x = 8 * k" using xy by (simp add: k_def)
    moreover from this have "k + 1 = 2 ^ 29" using False x by simp
    ultimately have xe: "x + 8 = 2 ^ 32" by simp
    then have z: "Length_Low s + 8 = 0" using lo by (simp add: unat_eq_zero)
    have e: "2 ^ 32 * (y + 1) = 8 * (n + 1)" using xy xe by simp
    then have y1: "y + 1 < 2 ^ 32" using n(2) by simp
    then have "unat (Length_High s + 1) = y + 1" using hi by simp
    moreover from this have "Length_High s + 1 \<noteq> 0" by (metis add_is_0 unat_0 one_neq_zero)
    ultimately show ?thesis using e z ok by (simp add: count_byte_def Let_def)
  qed
qed

lemma count_byte_keeps [simp]:
  "Message_Block (count_byte s) = Message_Block s" "Message_Block_Index (count_byte s) = Message_Block_Index s"
  "H (count_byte s) = H s" "Computed (count_byte s) = Computed s"
  by (simp_all add: count_byte_def Let_def)

lemma put_byte_keeps [simp]:
  "H (put_byte b s) = H s" "Length_Low (put_byte b s) = Length_Low s" "Length_High (put_byte b s) = Length_High s"
  "Computed (put_byte b s) = Computed s" "Corrupted (put_byte b s) = Corrupted s"
  "Message_Block_Index (put_byte b s) = Message_Block_Index s + 1"
  "length (Message_Block (put_byte b s)) = length (Message_Block s)"
  by (simp_all add: put_byte_def)

lemma input_byte_ok:
  assumes inv: "sha_inv a r s" and n: "8 * (length (a @ r) + 1) < 2 ^ 64"
  shows "sha_inv (if length r = 63 then a @ r @ [b] else a) (if length r = 63 then [] else r @ [b]) (input_byte b s)"
proof -
  let ?s = "count_byte (put_byte b s)"
  have c: "unat (Length_Low ?s) + 2 ^ 32 * unat (Length_High ?s) = 8 * (length (a @ r) + 1)" "\<not> Corrupted ?s"
    using count_byte_ok [of "put_byte b s" "length (a @ r)"] inv n by (simp_all add: sha_inv_def)
  have blk: "take (length r + 1) (Message_Block ?s) = r @ [b]" "length (Message_Block ?s) = 64"
    "Message_Block_Index ?s = length r + 1"
    using put_byte_block [of s b] inv by (simp_all add: sha_inv_def)
  show ?thesis
  proof (cases "length r = 63")
    case True
    then have "Message_Block ?s = r @ [b]" using blk by simp
    moreover have "hash_blocks H_init (a @ r @ [b]) = compress (hash_blocks H_init a) (r @ [b])"
      using hash_blocks_snoc [of a "r @ [b]"] inv True by (simp add: sha_inv_def)
    ultimately show ?thesis
      using c inv True blk by (simp add: sha_inv_def input_byte_def Let_def ProcessMessageBlock_def)
  next
    case False
    then show ?thesis
      using c inv blk by (simp add: sha_inv_def input_byte_def Let_def)
  qed
qed

lemma input_loop_ok:
  "sha_inv a r s \<Longrightarrow> 8 * length (a @ r @ bs) < 2 ^ 64 \<Longrightarrow>
    \<exists>a' r'. a' @ r' = a @ r @ bs \<and> sha_inv a' r' (input_loop bs s)"
proof (induction bs arbitrary: a r s)
  case (Cons b bs)
  let ?a = "if length r = 63 then a @ r @ [b] else a" and ?r = "if length r = 63 then [] else r @ [b]"
  have "sha_inv ?a ?r (input_byte b s)" by (rule input_byte_ok) (use Cons.prems in simp_all)
  moreover have "?a @ ?r @ bs = a @ r @ b # bs" by simp
  ultimately obtain a' r' where "a' @ r' = a @ r @ b # bs" "sha_inv a' r' (input_loop bs (input_byte b s))"
    using Cons.IH [of ?a ?r "input_byte b s"] Cons.prems(2) by metis
  moreover have "\<not> Corrupted s" using Cons.prems(1) by (simp add: sha_inv_def)
  ultimately show ?case by auto
qed auto

lemma Input_ok:
  assumes "sha_inv a r s" "8 * length (a @ r @ bs) < 2 ^ 64"
  shows "\<exists>a' r'. a' @ r' = a @ r @ bs \<and> sha_inv a' r' (Input bs s)"
proof (cases "bs = []")
  case True
  then show ?thesis using assms by (auto simp: Input_def)
next
  case False
  then have "Input bs s = input_loop bs s" using assms(1) by (simp add: Input_def sha_inv_def)
  then show ?thesis using input_loop_ok [OF assms] by simp
qed

lemma inputs_ok:
  "sha_inv a r s \<Longrightarrow> 8 * length (a @ r @ concat css) < 2 ^ 64 \<Longrightarrow>
    \<exists>a' r'. a' @ r' = a @ r @ concat css \<and> sha_inv a' r' (fold Input css s)"
proof (induction css arbitrary: a r s)
  case (Cons cs css)
  obtain a1 r1 where 1: "a1 @ r1 = a @ r @ cs" "sha_inv a1 r1 (Input cs s)"
    using Input_ok [of a r s cs] Cons.prems by auto
  have "a1 @ r1 @ concat css = a @ r @ concat (cs # css)" using arg_cong [OF 1(1), of "\<lambda>x. x @ concat css"] by simp
  then show ?case using Cons.IH [OF 1(2)] Cons.prems(2) by (metis append.assoc fold_simps(2))
qed auto

section \<open>Padding\<close>

lemma pad_zero_ok:
  "Message_Block_Index s \<le> n \<Longrightarrow> n \<le> 64 \<Longrightarrow> length (Message_Block s) = 64 \<Longrightarrow>
    take n (Message_Block (pad_zero n s)) =
      take (Message_Block_Index s) (Message_Block s) @ replicate (n - Message_Block_Index s) 0 \<and>
    Message_Block_Index (pad_zero n s) = n \<and> length (Message_Block (pad_zero n s)) = 64 \<and>
    H (pad_zero n s) = H s \<and> Length_Low (pad_zero n s) = Length_Low s \<and> Length_High (pad_zero n s) = Length_High s"
proof (induction n s rule: pad_zero.induct)
  case (1 n s)
  show ?case
  proof (cases "Message_Block_Index s < n")
    case True
    have e: "pad_zero n s = pad_zero n (put_byte 0 s)" using True by (subst pad_zero.simps) simp
    have r: "replicate (n - Message_Block_Index s) 0 = (0 :: byte) # replicate (n - (Message_Block_Index s + 1)) 0"
      using True by (metis Suc_diff_Suc Suc_eq_plus1 replicate_Suc)
    show ?thesis using 1 True put_byte_block [of s 0] by (simp add: e r)
  next
    case False
    then have "Message_Block_Index s = n" using 1(2) by simp
    then show ?thesis using 1(4) by (subst (1 2 3 4 5 6) pad_zero.simps) simp
  qed
qed

lemma pad_zero_Corrupted: "Corrupted (pad_zero n s) = Corrupted s"
  by (induction n s rule: pad_zero.induct) (subst pad_zero.simps, simp)

lemma last_eight:
  assumes "length (xs :: 'a list) = 64"
  shows "xs[56 := a, 57 := b, 58 := c, 59 := d, 60 := e, 61 := f, 62 := g, 63 := h] = take 56 xs @ [a, b, c, d, e, f, g, h]"
proof (rule nth_equalityI)
  fix i
  assume "i < length (xs[56 := a, 57 := b, 58 := c, 59 := d, 60 := e, 61 := f, 62 := g, 63 := h])"
  then have i: "i < 64" using assms by simp
  then consider "i < 56" | "i \<in> {56, 57, 58, 59, 60, 61, 62, 63}" by fastforce
  then show "xs[56 := a, 57 := b, 58 := c, 59 := d, 60 := e, 61 := f, 62 := g, 63 := h] ! i = (take 56 xs @ [a, b, c, d, e, f, g, h]) ! i"
    using i assms by cases (auto simp: nth_append)
qed (use assms in simp)

lemma length_words:
  fixes lo hi :: u32
  assumes "unat lo + 2 ^ 32 * unat hi = 8 * n" "8 * n < 2 ^ 64"
  shows "lo = ucast (of_nat (8 * n) :: u64)" "hi = ucast (drop_bit 32 (of_nat (8 * n) :: u64))"
proof -
  have lo: "unat lo < 2 ^ 32" by (rule unat_less_2p32)
  define w where "w = (of_nat (8 * n) :: u64)"
  have w: "unat w = 8 * n" unfolding w_def by (rule unat_word_of_nat_u64 [OF assms(2)])
  have "unat (ucast w :: u32) = 8 * n mod 2 ^ 32" using w by (simp add: unsigned_ucast_eq take_bit_eq_mod)
  also have "\<dots> = unat lo" unfolding assms(1) [symmetric] using lo by simp
  finally show "lo = ucast (of_nat (8 * n) :: u64)" unfolding w_def by (metis word_unat_eq_iff)
  have "unat (ucast (drop_bit 32 w) :: u32) = 8 * n div 2 ^ 32 mod 2 ^ 32"
    unfolding w [symmetric] by (simp only: unsigned_ucast_eq unsigned_drop_bit_eq drop_bit_eq_div take_bit_eq_mod) (simp add: unat_div_distrib)
  also have "\<dots> = unat hi" unfolding assms(1) [symmetric] using lo unat_less_2p32 [of hi] by simp
  finally show "hi = ucast (drop_bit 32 (of_nat (8 * n) :: u64))" unfolding w_def by (metis word_unat_eq_iff)
qed

lemma put_length_block:
  assumes "length (Message_Block s) = 64" "unat (Length_Low s) + 2 ^ 32 * unat (Length_High s) = 8 * n" "8 * n < 2 ^ 64"
  shows "Message_Block (put_length s) = take 56 (Message_Block s) @ length_bytes n"
proof -
  let ?w = "of_nat (8 * n) :: u64"
  have "ucast (drop_bit 24 (ucast (drop_bit 32 ?w) :: u32)) = (ucast (drop_bit 56 ?w) :: byte)"
    "ucast (drop_bit 16 (ucast (drop_bit 32 ?w) :: u32)) = (ucast (drop_bit 48 ?w) :: byte)"
    "ucast (drop_bit 8 (ucast (drop_bit 32 ?w) :: u32)) = (ucast (drop_bit 40 ?w) :: byte)"
    "ucast (ucast (drop_bit 32 ?w) :: u32) = (ucast (drop_bit 32 ?w) :: byte)"
    "ucast (drop_bit 24 (ucast ?w :: u32)) = (ucast (drop_bit 24 ?w) :: byte)"
    "ucast (drop_bit 16 (ucast ?w :: u32)) = (ucast (drop_bit 16 ?w) :: byte)"
    "ucast (drop_bit 8 (ucast ?w :: u32)) = (ucast (drop_bit 8 ?w) :: byte)"
    "ucast (ucast ?w :: u32) = (ucast ?w :: byte)"
    by (rule bit_word_eqI, simp add: bit_simps)+
  then show ?thesis
    unfolding put_length_def length_words [OF assms(2,3)] by (simp add: last_eight [OF assms(1)] length_bytes_def)
qed

lemma process_H [simp]: "H (ProcessMessageBlock s) = compress (H s) (Message_Block s)"
  "Message_Block_Index (ProcessMessageBlock s) = 0" "Message_Block (ProcessMessageBlock s) = Message_Block s"
  "Length_Low (ProcessMessageBlock s) = Length_Low s" "Length_High (ProcessMessageBlock s) = Length_High s"
  by (simp_all add: ProcessMessageBlock_def)

lemma put_length_keeps [simp]: "H (put_length s) = H s"
  by (simp add: put_length_def)

lemma PadMessage_H:
  assumes inv: "sha_inv a r s" and n: "8 * length (a @ r) < 2 ^ 64"
  shows "H (PadMessage s) = sha1_digest (a @ r)"
proof -
  let ?n = "length (a @ r)" and ?s = "put_byte 0x80 s"
  let ?L = "length_bytes ?n"
  have i: "length a mod 64 = 0" "length r < 64" "H s = hash_blocks H_init a" "length (Message_Block s) = 64"
    "Message_Block_Index s = length r" "take (length r) (Message_Block s) = r"
    "unat (Length_Low s) + 2 ^ 32 * unat (Length_High s) = 8 * ?n"
    using inv by (simp_all add: sha_inv_def)
  have L: "length ?L = 8" by (simp add: length_bytes_def)
  have rm: "?n mod 64 = length r" using i(1,2) by (simp add: mod_add_left_eq [symmetric])
  have s: "take (length r + 1) (Message_Block ?s) = r @ [0x80]" "Message_Block_Index ?s = length r + 1"
    "length (Message_Block ?s) = 64"
    using put_byte_block [of s "0x80"] i by simp_all
  have dig: "sha1_digest (a @ r) = hash_blocks (hash_blocks H_init a) (r @ 0x80 # replicate ((119 - length r) mod 64) 0 @ ?L)"
    using hash_blocks_append [OF i(1), of H_init] rm by (simp add: sha1_digest_def padded_def)
  show ?thesis
  proof (cases "length r > 55")
    case True
    let ?t = "pad_zero 64 ?s" and ?u = "pad_zero 56 (ProcessMessageBlock (pad_zero 64 ?s))"
    have t: "Message_Block ?t = r @ [0x80] @ replicate (63 - length r) 0" "H ?t = H s" "length (Message_Block ?t) = 64"
      "Length_Low ?t = Length_Low s" "Length_High ?t = Length_High s"
    proof -
      have p: "take 64 (Message_Block ?t) = r @ [0x80] @ replicate (63 - length r) 0" "length (Message_Block ?t) = 64"
        "H ?t = H s" "Length_Low ?t = Length_Low s" "Length_High ?t = Length_High s"
        using pad_zero_ok [of ?s 64] s i(2) by simp_all
      then show "Message_Block ?t = r @ [0x80] @ replicate (63 - length r) 0" "H ?t = H s" "length (Message_Block ?t) = 64"
        "Length_Low ?t = Length_Low s" "Length_High ?t = Length_High s" by (metis order_refl take_all)+
    qed
    have u: "take 56 (Message_Block ?u) = replicate 56 0" "H ?u = compress (H s) (Message_Block ?t)"
      "length (Message_Block ?u) = 64" "Length_Low ?u = Length_Low s" "Length_High ?u = Length_High s"
      using pad_zero_ok [of "ProcessMessageBlock ?t" 56] t by simp_all
    have "Message_Block (put_length ?u) = replicate 56 0 @ ?L"
      using put_length_block [of ?u ?n] u i(7) n by simp
    then have "H (PadMessage s) = compress (compress (hash_blocks H_init a) (r @ [0x80] @ replicate (63 - length r) 0)) (replicate 56 0 @ ?L)"
      using True i(3,5) t u by (simp add: PadMessage_def)
    moreover have "replicate ((119 - length r) mod 64) (0 :: byte) = replicate (63 - length r) 0 @ replicate 56 0"
      unfolding replicate_add [symmetric] using True i(2) by simp
    ultimately show ?thesis
      using hash_blocks_snoc [of "r @ [0x80] @ replicate (63 - length r) 0" "replicate 56 0 @ ?L" "hash_blocks H_init a"] L True i(2)
      by (simp add: dig hash_blocks_one)
  next
    case False
    let ?u = "pad_zero 56 ?s"
    have u: "take 56 (Message_Block ?u) = r @ [0x80] @ replicate (55 - length r) 0" "H ?u = H s"
      "length (Message_Block ?u) = 64" "Length_Low ?u = Length_Low s" "Length_High ?u = Length_High s"
      using pad_zero_ok [of ?s 56] s False by simp_all
    have "Message_Block (put_length ?u) = r @ [0x80] @ replicate (55 - length r) 0 @ ?L"
      using put_length_block [of ?u ?n] u i(7) n by simp
    then have "H (PadMessage s) = compress (hash_blocks H_init a) (r @ [0x80] @ replicate (55 - length r) 0 @ ?L)"
      using False i(3,5) u by (simp add: PadMessage_def)
    moreover have "(119 - length r) mod 64 = 55 - length r" using False by (simp add: mod_if)
    ultimately show ?thesis
      using hash_blocks_one [of "r @ [0x80] @ replicate (55 - length r) 0 @ ?L" "hash_blocks H_init a"] L False
      by (simp add: dig)
  qed
qed

lemma sha_inv_new: "length memory = 64 \<Longrightarrow> sha_inv [] [] (sha1_new memory)"
  by (simp add: sha_inv_def sha1_new_def Reset_def hash_blocks.simps)

section \<open>Properties\<close>



text \<open>
  Input after the digest has been taken spoils the object: it answers false from then on, whatever is
  given to it, until it is reset.
\<close>

theorem input_after_result_corrupts:
  assumes "Computed s" "bs \<noteq> []"
  shows "Result (fold Input css (Input bs s)) = ((False, None), fold Input css (Input bs s)) \<and>
    \<not> Corrupted (Reset (fold Input css (Input bs s)))"
proof -
  have "Corrupted (fold Input css t)" if "Corrupted t" for t
    using that by (induction css arbitrary: t) (auto simp: Input_def)
  then show ?thesis using assms by (simp add: Input_def Result_def Reset_def)
qed

theorem input_after_result_corrupts_witness:
  "\<exists>t. Result (fold Input [[1]] (Input [2, 3] (snd (Result (sha1_new (replicate 64 0)))))) = ((False, None), t)"
proof -
  have "Computed (snd (Result (sha1_new (replicate 64 0))))"
    by (simp add: Result_def sha1_new_def Reset_def)
  from input_after_result_corrupts [OF this, of "[2, 3]" "[[1]]"] show ?thesis by auto
qed

end
