(* ===== verification/Json.thy ===== *)
theory Json
  imports Athena_Prelude
begin

text \<open>
  The JSON documents of src/core/utils/Json.cpp and their reader of src/core/utils/JsonReader.cpp. A
  document is a tree; a null pointer among the members of an object is \<open>None\<close>, and using one is
  \<open>None\<close> as well. Floats are a parameter with their conversions; the characters of a string are its
  bytes, and a buffer ends where its C string does.
\<close>

section \<open>Documents\<close>

datatype 'f json =
    JInt i32
  | JFloat 'f
  | JNull
  | JStr string
  | JBool bool
  | JArr "'f json list"
  | JObj "(string \<times> 'f json option) list"

text \<open>The members of an object are in the order of their keys, as in a \<open>std::map\<close>.\<close>

fun str_less :: "string \<Rightarrow> string \<Rightarrow> bool" where
  "str_less _ [] = False"
| "str_less [] (_ # _) = True"
| "str_less (c # cs) (d # ds) =
    (of_char c < (of_char d :: nat) \<or> c = d \<and> str_less cs ds)"

fun map_put :: "string \<Rightarrow> 'v \<Rightarrow> (string \<times> 'v) list \<Rightarrow> (string \<times> 'v) list" where
  "map_put k v [] = [(k, v)]"
| "map_put k v ((k', v') # xs) =
    (if k = k' then (k, v) # xs else if str_less k k' then (k, v) # (k', v') # xs else (k', v') # map_put k v xs)"

definition map_erase :: "string \<Rightarrow> (string \<times> 'v) list \<Rightarrow> (string \<times> 'v) list" where
  "map_erase k xs = filter (\<lambda>x. fst x \<noteq> k) xs"

text \<open>\<open>operator[]\<close> of the map: a missing key is added with a null pointer.\<close>

definition member :: "string \<Rightarrow> (string \<times> 'f json option) list \<Rightarrow> 'f json option \<times> (string \<times> 'f json option) list" where
  "member k xs = (case map_of xs k of Some v \<Rightarrow> (v, xs) | None \<Rightarrow> (None, map_put k None xs))"

section \<open>Values\<close>

text \<open>Reading a value as another kind than its own is undefined (\<open>None\<close>).\<close>

fun value_int :: "'f json \<Rightarrow> i32 option" where
  "value_int (JInt v) = Some v" | "value_int _ = None"
fun value_float :: "'f json \<Rightarrow> 'f option" where
  "value_float (JFloat v) = Some v" | "value_float _ = None"
fun value_bool :: "'f json \<Rightarrow> bool option" where
  "value_bool (JBool v) = Some v" | "value_bool _ = None"
fun value_str :: "'f json \<Rightarrow> string option" where
  "value_str (JStr v) = Some v" | "value_str _ = None"

fun is_value :: "'f json \<Rightarrow> bool" where
  "is_value (JArr _) = False" | "is_value (JObj _) = False" | "is_value _ = True"

section \<open>Arrays\<close>

definition pushInt :: "i32 \<Rightarrow> 'f json list \<Rightarrow> 'f json list" where "pushInt v items = items @ [JInt v]"
definition pushFloat :: "'f \<Rightarrow> 'f json list \<Rightarrow> 'f json list" where "pushFloat v items = items @ [JFloat v]"
definition pushStr :: "string \<Rightarrow> 'f json list \<Rightarrow> 'f json list" where "pushStr v items = items @ [JStr v]"
definition pushBool :: "bool \<Rightarrow> 'f json list \<Rightarrow> 'f json list" where "pushBool v items = items @ [JBool v]"
definition pushNull :: "'f json list \<Rightarrow> 'f json list" where "pushNull items = items @ [JNull]"

definition item :: "nat \<Rightarrow> 'f json list \<Rightarrow> 'f json option" where
  "item i items = (if i < length items then Some (items ! i) else None)"

definition arr_getInt :: "nat \<Rightarrow> 'f json list \<Rightarrow> i32 option" where
  "arr_getInt i items = Option.bind (item i items) value_int"
definition arr_getFloat :: "nat \<Rightarrow> 'f json list \<Rightarrow> 'f option" where
  "arr_getFloat i items = Option.bind (item i items) value_float"
definition arr_getBool :: "nat \<Rightarrow> 'f json list \<Rightarrow> bool option" where
  "arr_getBool i items = Option.bind (item i items) value_bool"
definition arr_getStr :: "nat \<Rightarrow> 'f json list \<Rightarrow> string option" where
  "arr_getStr i items = Option.bind (item i items) value_str"
definition arr_isNull :: "nat \<Rightarrow> 'f json list \<Rightarrow> bool option" where
  "arr_isNull i items = map_option (\<lambda>v. case v of JNull \<Rightarrow> True | _ \<Rightarrow> False) (item i items)"

text \<open>Setting a value writes into the \<open>JValue\<close> that is there; a container is not one.\<close>

definition set_value :: "'f json \<Rightarrow> nat \<Rightarrow> 'f json list \<Rightarrow> 'f json list option" where
  "set_value v i items =
    (case item i items of Some w \<Rightarrow> if is_value w then Some (items[i := v]) else None | None \<Rightarrow> None)"

definition arr_setInt :: "nat \<Rightarrow> i32 \<Rightarrow> 'f json list \<Rightarrow> 'f json list option" where
  "arr_setInt i v = set_value (JInt v) i"
definition arr_setFloat :: "nat \<Rightarrow> 'f \<Rightarrow> 'f json list \<Rightarrow> 'f json list option" where
  "arr_setFloat i v = set_value (JFloat v) i"
definition arr_setStr :: "nat \<Rightarrow> string \<Rightarrow> 'f json list \<Rightarrow> 'f json list option" where
  "arr_setStr i v = set_value (JStr v) i"
definition arr_setBool :: "nat \<Rightarrow> bool \<Rightarrow> 'f json list \<Rightarrow> 'f json list option" where
  "arr_setBool i v = set_value (JBool v) i"

definition arr_setNull :: "nat \<Rightarrow> 'f json list \<Rightarrow> 'f json list option" where
  "arr_setNull i items = (if i < length items then Some (items[i := JNull]) else None)"

text \<open>The position one past the end is ignored, any further one is undefined.\<close>

definition arr_remove :: "nat \<Rightarrow> 'f json list \<Rightarrow> 'f json list option" where
  "arr_remove i items =
    (if i < length items then Some (take i items @ drop (i + 1) items)
     else if i = length items then Some items else None)"

definition arr_createArray :: "'f json list \<Rightarrow> 'f json list" where "arr_createArray items = items @ [JArr []]"
definition arr_createObj :: "'f json list \<Rightarrow> 'f json list" where "arr_createObj items = items @ [JObj []]"

section \<open>Objects\<close>

type_synonym 'f members = "(string \<times> 'f json option) list"

text \<open>The accessors give the value and the members, to which a look-up may have added a null pointer.\<close>

definition obj_get :: "('f json \<Rightarrow> 'v option) \<Rightarrow> string \<Rightarrow> 'f members \<Rightarrow> ('v \<times> 'f members) option" where
  "obj_get f k ms =
    (case member k ms of
       (None, _) \<Rightarrow> None
     | (Some w, ms) \<Rightarrow> map_option (\<lambda>v. (v, ms)) (f w))"

definition obj_getInt :: "string \<Rightarrow> 'f members \<Rightarrow> (i32 \<times> 'f members) option" where "obj_getInt = obj_get value_int"
definition obj_getFloat :: "string \<Rightarrow> 'f members \<Rightarrow> ('f \<times> 'f members) option" where "obj_getFloat = obj_get value_float"
definition obj_getBool :: "string \<Rightarrow> 'f members \<Rightarrow> (bool \<times> 'f members) option" where "obj_getBool = obj_get value_bool"
definition obj_getStr :: "string \<Rightarrow> 'f members \<Rightarrow> (string \<times> 'f members) option" where "obj_getStr = obj_get value_str"
definition obj_isNull :: "string \<Rightarrow> 'f members \<Rightarrow> (bool \<times> 'f members) option" where
  "obj_isNull = obj_get (\<lambda>v. Some (case v of JNull \<Rightarrow> True | _ \<Rightarrow> False))"

definition obj_set :: "'f json \<Rightarrow> string \<Rightarrow> 'f members \<Rightarrow> 'f members option" where
  "obj_set v k ms =
    (case member k ms of
       (None, ms) \<Rightarrow> Some (map_put k (Some v) ms)
     | (Some w, ms) \<Rightarrow> if is_value w then Some (map_put k (Some v) ms) else None)"

definition obj_setInt :: "string \<Rightarrow> i32 \<Rightarrow> 'f members \<Rightarrow> 'f members option" where "obj_setInt k v = obj_set (JInt v) k"
definition obj_setFloat :: "string \<Rightarrow> 'f \<Rightarrow> 'f members \<Rightarrow> 'f members option" where "obj_setFloat k v = obj_set (JFloat v) k"
definition obj_setStr :: "string \<Rightarrow> string \<Rightarrow> 'f members \<Rightarrow> 'f members option" where "obj_setStr k v = obj_set (JStr v) k"
definition obj_setBool :: "string \<Rightarrow> bool \<Rightarrow> 'f members \<Rightarrow> 'f members option" where "obj_setBool k v = obj_set (JBool v) k"
definition obj_setNull :: "string \<Rightarrow> 'f members \<Rightarrow> 'f members" where "obj_setNull k ms = map_put k (Some JNull) ms"

definition obj_remove :: "string \<Rightarrow> 'f members \<Rightarrow> 'f members" where "obj_remove k ms = map_erase k ms"
definition obj_createArray :: "string \<Rightarrow> 'f members \<Rightarrow> 'f members" where "obj_createArray k ms = map_put k (Some (JArr [])) ms"
definition obj_createObj :: "string \<Rightarrow> 'f members \<Rightarrow> 'f members" where "obj_createObj k ms = map_put k (Some (JObj [])) ms"
definition obj_getJsonObj :: "string \<Rightarrow> 'f members \<Rightarrow> 'f json option \<times> 'f members" where "obj_getJsonObj k ms = member k ms"

section \<open>Writing\<close>

fun dec_digits :: "nat \<Rightarrow> string" where
  "dec_digits n = (if n < 10 then [char_of (48 + n)] else dec_digits (n div 10) @ [char_of (48 + n mod 10)])"

declare dec_digits.simps [simp del]

definition int_to_string :: "int \<Rightarrow> string" where
  "int_to_string i = (if i < 0 then CHR ''-'' # dec_digits (nat (- i)) else dec_digits (nat i))"

definition writeDepth :: "nat \<Rightarrow> string" where "writeDepth depth = replicate depth (CHR 0x09)"

definition nl :: "bool \<Rightarrow> string" where "nl layout = (if layout then [CHR 0x0A] else [])"
definition indent :: "bool \<Rightarrow> nat \<Rightarrow> string" where "indent layout depth = (if layout then writeDepth depth else [])"

text \<open>One member or item is followed by a comma unless it is the last.\<close>

fun join :: "bool \<Rightarrow> string list \<Rightarrow> string" where
  "join layout [] = []"
| "join layout [x] = x @ nl layout"
| "join layout (x # xs) = x @ '','' @ nl layout @ join layout xs"

fun those_list :: "'a option list \<Rightarrow> 'a list option" where
  "those_list [] = Some []"
| "those_list (x # xs) = (case x of None \<Rightarrow> None | Some y \<Rightarrow> map_option ((#) y) (those_list xs))"

text \<open>The texts of a container from those of its items and members.\<close>

definition write_items :: "bool \<Rightarrow> nat \<Rightarrow> string list \<Rightarrow> string" where
  [simp]: "write_items layout depth ws =
    ''['' @ nl layout @ join layout (map (\<lambda>w. indent layout (depth + 1) @ w) ws) @ indent layout depth @ '']''"

definition write_members :: "bool \<Rightarrow> nat \<Rightarrow> (string \<times> string) list \<Rightarrow> string" where
  [simp]: "write_members layout depth ws =
    ''{'' @ nl layout @
    join layout (map (\<lambda>(k, w). indent layout (depth + 1) @ [CHR 0x22] @ k @ [CHR 0x22] @ '':'' @ w) ws) @
    indent layout depth @ ''}''"

fun write_json :: "('f \<Rightarrow> string) \<Rightarrow> bool \<Rightarrow> nat \<Rightarrow> 'f json \<Rightarrow> string option" where
  "write_json fmt layout depth (JInt v) = Some (int_to_string (sint v))"
| "write_json fmt layout depth (JFloat v) = Some (fmt v)"
| "write_json fmt layout depth (JBool b) = Some (if b then ''true'' else ''false'')"
| "write_json fmt layout depth JNull = Some ''null''"
| "write_json fmt layout depth (JStr s) = Some ([CHR 0x22] @ s @ [CHR 0x22])"
| "write_json fmt layout depth (JArr items) =
    map_option (write_items layout depth) (those_list (map (write_json fmt layout (depth + 1)) items))"
| "write_json fmt layout depth (JObj ms) =
    map_option (write_members layout depth)
      (those_list (map (\<lambda>m. Option.bind (snd m)
        (\<lambda>v. map_option (\<lambda>w. (fst m, w)) (write_json fmt layout (depth + 1) v))) ms))"

section \<open>Reading\<close>

text \<open>
  What a reading function comes back with: a value and the rest of the buffer, failure and the rest,
  the exception of a number out of range, or the end of the fuel.
\<close>

datatype 'a parsed = Got 'a string | Failed string | Thrown | Out_of_fuel

definition c_str :: "string \<Rightarrow> string" where "c_str s = takeWhile (\<lambda>c. c \<noteq> CHR 0x00) s"

definition is_space :: "char \<Rightarrow> bool" where "is_space c \<longleftrightarrow> of_char c \<le> (32 :: nat)"
definition is_digit :: "char \<Rightarrow> bool" where "is_digit c \<longleftrightarrow> 48 \<le> (of_char c :: nat) \<and> of_char c \<le> (57 :: nat)"

definition skip :: "string \<Rightarrow> string" where "skip s = dropWhile is_space s"

fun split_quote :: "string \<Rightarrow> string \<times> string" where
  "split_quote [] = ([], [])"
| "split_quote (c # cs) = (if c = CHR 0x22 then ([], c # cs) else case split_quote cs of (a, r) \<Rightarrow> (c # a, r))"

definition readStr :: "string \<Rightarrow> string parsed" where
  "readStr s =
    (case s of
       [] \<Rightarrow> Failed s
     | c # cs \<Rightarrow>
         if c = CHR 0x22 then
           (case split_quote cs of
              (a, []) \<Rightarrow> Failed []
            | (a, q # r) \<Rightarrow> if a \<noteq> [] then Got a r else Failed (q # r))
         else Failed s)"

definition starts :: "string \<Rightarrow> string \<Rightarrow> bool" where "starts w s \<longleftrightarrow> take (length w) s = w"

text \<open>The digits and dots of a number: whether there was a dot, how many digits, and the rest; \<open>None\<close> at a second dot.\<close>

fun scan_number :: "bool \<Rightarrow> nat \<Rightarrow> string \<Rightarrow> (bool \<times> nat) option \<times> string" where
  "scan_number isfloat numpos [] = (Some (isfloat, numpos), [])"
| "scan_number isfloat numpos (c # cs) =
    (if c = CHR ''.'' then if isfloat then (None, c # cs) else scan_number True numpos cs
     else if is_digit c then scan_number isfloat (numpos + 1) cs
     else (Some (isfloat, numpos), c # cs))"

definition dec_value :: "string \<Rightarrow> int" where
  "dec_value ds = fold (\<lambda>c v. 10 * v + (of_char c - 48)) ds 0"

text \<open>\<open>std::stoi\<close> of a sign and digits, whatever follows.\<close>

definition stoi :: "string \<Rightarrow> i32 option" where
  "stoi s =
    (let v = (if starts ''-'' s then - dec_value (takeWhile is_digit (drop 1 s)) else dec_value (takeWhile is_digit s))
     in if - (2 ^ 31) \<le> v \<and> v < 2 ^ 31 then Some (of_int v) else None)"

definition read_string_value :: "string \<Rightarrow> 'f json parsed" where
  "read_string_value s =
    (case readStr s of
       Got a r \<Rightarrow> Got (JStr a) r
     | Failed r \<Rightarrow> Failed r
     | Thrown \<Rightarrow> Thrown
     | Out_of_fuel \<Rightarrow> Out_of_fuel)"

definition readBase :: "(string \<Rightarrow> 'f option) \<Rightarrow> string \<Rightarrow> 'f json parsed" where
  "readBase stof s =
    (if starts ''null'' s then Got JNull (drop 4 s)
     else if starts ''false'' s then Got (JBool False) (drop 5 s)
     else if starts ''true'' s then Got (JBool True) (drop 4 s)
     else let cs = (if starts ''-'' s then drop 1 s else s) in
       case scan_number False 0 cs of
         (None, r) \<Rightarrow> Failed r
       | (Some (isfloat, numpos), r) \<Rightarrow>
           if numpos > 0 then
             if isfloat then (case stof s of Some v \<Rightarrow> Got (JFloat v) r | None \<Rightarrow> Thrown)
             else (case stoi s of Some v \<Rightarrow> Got (JInt v) r | None \<Rightarrow> Thrown)
           else read_string_value r)"

text \<open>
  The loops over the items and members take the reader of one value, and fuel for their turns; the
  reader takes fuel for the depth, and hands one less to everything below.
\<close>

fun read_items :: "(string \<Rightarrow> 'f json parsed) \<Rightarrow> nat \<Rightarrow> 'f json list \<Rightarrow> string \<Rightarrow> 'f json parsed" where
  "read_items rd 0 objs s = Out_of_fuel"
| "read_items rd (Suc n) objs s =
    (case rd s of
       Got v r \<Rightarrow>
         (let objs = objs @ [v]; r = skip r in
          if starts '','' r then read_items rd n objs (tl r)
          else if starts '']'' r then Got (JArr objs) (tl r)
          else if r = [] then Failed r
          else read_items rd n objs r)
     | e \<Rightarrow> e)"

definition readArray :: "(string \<Rightarrow> 'f json parsed) \<Rightarrow> nat \<Rightarrow> string \<Rightarrow> 'f json parsed" where
  "readArray rd n s =
    (if s = [] then Failed s
     else if starts '']'' s then Got (JArr []) (tl s)
     else read_items rd n [] s)"

fun read_members :: "(string \<Rightarrow> 'f json parsed) \<Rightarrow> nat \<Rightarrow> 'f members \<Rightarrow> string \<Rightarrow> 'f json parsed" where
  "read_members rd 0 objs s = Out_of_fuel"
| "read_members rd (Suc n) objs s =
    (case readStr (skip s) of
       Got k r \<Rightarrow>
         if starts '':'' r then
           (case rd (tl r) of
              Got v r \<Rightarrow>
                (let objs = map_put k (Some v) objs; r = skip r in
                 if starts '','' r then read_members rd n objs (tl r)
                 else if starts ''}'' r then Got (JObj objs) (tl r)
                 else if r = [] then Failed r
                 else read_members rd n objs r)
            | e \<Rightarrow> e)
         else Failed r
     | Failed r \<Rightarrow> Failed r
     | Thrown \<Rightarrow> Thrown
     | Out_of_fuel \<Rightarrow> Out_of_fuel)"

definition readObj :: "(string \<Rightarrow> 'f json parsed) \<Rightarrow> nat \<Rightarrow> string \<Rightarrow> 'f json parsed" where
  "readObj rd n s =
    (if s = [] then Failed s
     else if starts ''}'' s then Got (JObj []) (tl s)
     else read_members rd n [] s)"

fun reader :: "(string \<Rightarrow> 'f option) \<Rightarrow> nat \<Rightarrow> string \<Rightarrow> 'f json parsed" where
  "reader stof 0 s = Out_of_fuel"
| "reader stof (Suc n) s =
    (let s = skip s in
     if starts ''['' s then readArray (reader stof n) n (tl s)
     else if starts ''{'' s then readObj (reader stof n) n (tl s)
     else readBase stof s)"

text \<open>The document, when nothing but white space follows it, with the rest of the buffer for the error message.\<close>

definition parser :: "(string \<Rightarrow> 'f option) \<Rightarrow> string \<Rightarrow> 'f json parsed" where
  "parser stof text =
    (let s = c_str text in
     case reader stof (length s + 1) s of
       Got v r \<Rightarrow> (if skip r = [] then Got v [] else Failed (skip r))
     | Failed r \<Rightarrow> Failed (skip r)
     | e \<Rightarrow> e)"

definition getError :: "string \<Rightarrow> string" where
  "getError r =
    (case r of
       c # _ \<Rightarrow> ''There is an anomaly near '' @ [CHR 0x27] @ [c] @ [CHR 0x27]
     | [] \<Rightarrow> ''String ends prematurely'')"

definition json_write :: "('f \<Rightarrow> string) \<Rightarrow> bool \<Rightarrow> 'f json \<Rightarrow> string option" where
  "json_write fmt layout v = write_json fmt layout 0 v"

section \<open>The fuel is enough\<close>

fun progress :: "string \<Rightarrow> 'a parsed \<Rightarrow> bool" where
  "progress s (Got v r) = (length r < length s)"
| "progress s Out_of_fuel = False"
| "progress s _ = True"

definition good_reader :: "(string \<Rightarrow> 'f json parsed) \<Rightarrow> nat \<Rightarrow> bool" where
  "good_reader rd n \<longleftrightarrow> (\<forall>s. length s < n \<longrightarrow> progress s (rd s))"

lemma progress_mono: "progress s x \<Longrightarrow> length s \<le> length t \<Longrightarrow> progress t x"
  by (cases x) auto

lemma length_skip: "length (skip s) \<le> length s"
  unfolding skip_def by (rule length_dropWhile_le)

lemma starts_length: "starts w s \<Longrightarrow> length w \<le> length s"
  by (metis length_take min.cobounded1 starts_def)

lemma length_split_quote: "split_quote s = (a, r) \<Longrightarrow> length s = length a + length r"
  by (induction s arbitrary: a r) (auto split: if_splits prod.splits)

lemma progress_readStr: "progress s (readStr s)"
  by (cases s) (auto simp: readStr_def split: prod.splits list.splits dest!: length_split_quote)

lemma length_scan_number:
  "scan_number f n s = (x, r) \<Longrightarrow> length r \<le> length s \<and> (\<forall>f' n'. x = Some (f', n') \<longrightarrow> n' \<le> n + (length s - length r))"
  by (induction f n s arbitrary: x r rule: scan_number.induct) (fastforce split: if_splits)+

lemma progress_drop: "starts w s \<Longrightarrow> w \<noteq> [] \<Longrightarrow> progress s (Got v (drop (length w) s))"
  using starts_length [of w s] by (cases w) auto

lemma progress_readBase: "progress s (readBase stof s)"
proof -
  define cs where "cs = (if starts ''-'' s then drop 1 s else s)"
  obtain x r where x: "scan_number False 0 cs = (x, r)" by (cases "scan_number False 0 cs")
  have l: "length r \<le> length s" "\<And>f n. x = Some (f, n) \<Longrightarrow> 0 < n \<Longrightarrow> length r < length s"
    using length_scan_number [OF x] by (auto simp: cs_def split: if_splits)
  have str: "progress s (read_string_value r)"
    using progress_mono [OF progress_readStr l(1)] by (cases "readStr r") (auto simp: read_string_value_def)
  have num: "progress s (case x of None \<Rightarrow> Failed r | Some (isfloat, numpos) \<Rightarrow>
      if numpos > 0 then if isfloat then (case stof s of Some v \<Rightarrow> Got (JFloat v) r | None \<Rightarrow> Thrown)
        else (case stoi s of Some v \<Rightarrow> Got (JInt v) r | None \<Rightarrow> Thrown)
      else read_string_value r)"
    using l(2) str by (auto split: option.split)
  have w: "progress s (Got JNull (drop 4 s))" if "starts ''null'' s" using progress_drop [OF that] by simp
  have w': "progress s (Got (JBool False) (drop 5 s))" if "starts ''false'' s" using progress_drop [OF that] by simp
  have w'': "progress s (Got (JBool True) (drop 4 s))" if "starts ''true'' s" using progress_drop [OF that] by simp
  show ?thesis
    unfolding readBase_def Let_def cs_def [symmetric] x prod.case using w w' w'' num by simp
qed

lemma progress_read_items:
  assumes rd: "good_reader rd n"
  shows "length s < n \<Longrightarrow> length s < m \<Longrightarrow> progress s (read_items rd m objs s)"
proof (induction m arbitrary: objs s)
  case (Suc m)
  have p: "progress s (rd s)" using rd Suc.prems(1) unfolding good_reader_def by blast
  show ?case
  proof (cases "rd s")
    case (Got v r)
    let ?r = "skip r"
    have l: "length ?r < length s" using p Got length_skip [of r] by simp
    then have t: "length (tl ?r) < length s" by simp
    have "progress s (read_items rd m os ?r)" for os
      by (rule progress_mono [OF Suc.IH]) (use l Suc.prems in simp_all)
    moreover have "progress s (read_items rd m os (tl ?r))" for os
      by (rule progress_mono [OF Suc.IH]) (use t Suc.prems in simp_all)
    ultimately show ?thesis using Got t by (simp add: Let_def)
  qed (use p in simp_all)
qed simp

lemma progress_read_members:
  assumes rd: "good_reader rd n"
  shows "length s < n \<Longrightarrow> length s < m \<Longrightarrow> progress s (read_members rd m objs s)"
proof (induction m arbitrary: objs s)
  case (Suc m)
  have p: "progress s (readStr (skip s))" by (rule progress_mono [OF progress_readStr length_skip])
  show ?case
  proof (cases "readStr (skip s)")
    case (Got k q)
    then have lq: "length (tl q) < length s" using p by simp
    then have p2: "progress (tl q) (rd (tl q))" using rd Suc.prems(1) unfolding good_reader_def by simp
    show ?thesis
    proof (cases "rd (tl q)")
      case (Got v r)
      let ?r = "skip r"
      have l: "length ?r < length s" using p2 Got length_skip [of r] lq by simp
      then have t: "length (tl ?r) < length s" by simp
      have "progress s (read_members rd m os ?r)" for os
        by (rule progress_mono [OF Suc.IH]) (use l Suc.prems in simp_all)
      moreover have "progress s (read_members rd m os (tl ?r))" for os
        by (rule progress_mono [OF Suc.IH]) (use t Suc.prems in simp_all)
      ultimately show ?thesis using \<open>readStr (skip s) = Got k q\<close> Got t by (simp add: Let_def)
    qed (use p2 Got in simp_all)
  qed (use p in simp_all)
qed simp

lemma good_reader: "good_reader (reader stof n) n"
proof (induction n)
  case (Suc n)
  show ?case
    unfolding good_reader_def
  proof (intro allI impI)
    fix s :: string
    assume s: "length s < Suc n"
    let ?s = "skip s"
    have l: "length ?s \<le> length s" by (rule length_skip)
    have t: "length (tl ?s) < n" "length (tl ?s) < length s" if "starts [c] ?s" for c
      using starts_length [OF that] s l by auto
    have "progress s (readArray (reader stof n) n (tl ?s))" if c: "starts ''['' ?s"
      using progress_mono [OF progress_read_items [OF Suc t(1) [OF c] t(1) [OF c]] less_imp_le [OF t(2) [OF c]]] t(2) [OF c]
      by (auto simp: readArray_def)
    moreover have "progress s (readObj (reader stof n) n (tl ?s))" if c: "starts ''{'' ?s"
      using progress_mono [OF progress_read_members [OF Suc t(1) [OF c] t(1) [OF c]] less_imp_le [OF t(2) [OF c]]] t(2) [OF c]
      by (auto simp: readObj_def)
    ultimately show "progress s (reader stof (Suc n) s)"
      using progress_mono [OF progress_readBase [of _ stof] l] by (simp add: Let_def)
  qed
qed (simp add: good_reader_def)

section \<open>Reading what was written\<close>

text \<open>The documents the writer and the reader agree on; \<open>layout\<close> is the writer's.\<close>

fun plain_str :: "string \<Rightarrow> bool" where
  "plain_str s \<longleftrightarrow> s \<noteq> [] \<and> CHR 0x22 \<notin> set s \<and> CHR 0x00 \<notin> set s"

definition sorted_keys :: "(string \<times> 'v) list \<Rightarrow> bool" where
  "sorted_keys xs \<longleftrightarrow> sorted_wrt str_less (map fst xs)"

fun portable :: "bool \<Rightarrow> 'f json \<Rightarrow> bool" where
  "portable layout (JFloat _) = False"
| "portable layout (JStr s) = plain_str s"
| "portable layout (JArr items) = ((layout \<longrightarrow> items \<noteq> []) \<and> list_all (portable layout) items)"
| "portable layout (JObj ms) = ((layout \<longrightarrow> ms \<noteq> []) \<and> sorted_keys ms \<and>
    list_all (\<lambda>m. plain_str (fst m) \<and> (case snd m of None \<Rightarrow> False | Some v \<Rightarrow> portable layout v)) ms)"
| "portable layout _ = True"

definition boundary :: "string \<Rightarrow> bool" where
  "boundary rest \<longleftrightarrow> rest = [] \<or> \<not> is_digit (hd rest) \<and> hd rest \<noteq> CHR ''.''"

lemma skip_spaces: "list_all is_space ws \<Longrightarrow> skip (ws @ t) = skip t"
  by (induction ws) (auto simp: skip_def)

lemma skip_id: "t = [] \<or> \<not> is_space (hd t) \<Longrightarrow> skip t = t"
  by (cases t) (auto simp: skip_def)

lemma spaces_ok: "list_all is_space (nl layout)" "list_all is_space (indent layout d)"
  by (auto simp: nl_def indent_def writeDepth_def is_space_def list_all_iff)

lemma str_less_trans: "str_less a b \<Longrightarrow> str_less b c \<Longrightarrow> str_less a c"
proof (induction a b arbitrary: c rule: str_less.induct)
  case (3 x xs y ys)
  then show ?case by (cases c) auto
qed (auto elim: str_less.elims)

lemma str_less_irrefl: "\<not> str_less a a"
  by (induction a) auto

lemma map_put_last:
  "list_all (\<lambda>m. str_less (fst m) k) xs \<Longrightarrow> map_put k v xs = xs @ [(k, v)]"
proof (induction xs)
  case (Cons m xs)
  then have "str_less (fst m) k" by simp
  then have "fst m \<noteq> k" "\<not> str_less k (fst m)" using str_less_irrefl str_less_trans by blast+
  then show ?case using Cons by (cases m) auto
qed simp

text \<open>Integers.\<close>

lemma is_digit_char: "d < 10 \<Longrightarrow> is_digit (char_of (48 + d))" for d :: nat
  by (simp add: is_digit_def)

lemma dec_digits_digits: "list_all is_digit (dec_digits n)" "dec_digits n \<noteq> []"
proof (induction n rule: dec_digits.induct)
  case (1 n)
  show "list_all is_digit (dec_digits n)" using 1 by (subst dec_digits.simps) (auto simp: is_digit_char)
  show "dec_digits n \<noteq> []" by (subst dec_digits.simps) simp
qed

lemma dec_value_append: "dec_value (a @ [c]) = 10 * dec_value a + (of_char c - 48)"
  by (simp add: dec_value_def)

lemma dec_value_digits: "dec_value (dec_digits n) = int n"
proof (induction n rule: dec_digits.induct)
  case (1 n)
  have c: "of_char (char_of (48 + d) :: char) = (48 + int d)" if "d < 10" for d :: nat
  proof -
    have "(of_char (char_of (48 + d) :: char) :: int) = int (of_char (char_of (48 + d) :: char))" by (simp only: of_nat_of_char)
    then show ?thesis using that by simp
  qed
  show ?case
  proof (cases "n < 10")
    case True
    then show ?thesis using c [of n] by (subst dec_digits.simps) (simp add: dec_value_def)
  next
    case False
    then show ?thesis using 1 [OF False] c [of "n mod 10"]
      by (subst dec_digits.simps) (simp add: dec_value_append, presburger)
  qed
qed

lemma scan_digits:
  "list_all is_digit ds \<Longrightarrow> boundary rest \<Longrightarrow> scan_number False n (ds @ rest) = (Some (False, n + length ds), rest)"
proof (induction ds arbitrary: n)
  case Nil
  then show ?case by (cases rest) (auto simp: boundary_def)
next
  case (Cons d ds)
  then have "d \<noteq> CHR ''.''" by (auto simp: is_digit_def)
  then show ?case using Cons by simp
qed

lemma takeWhile_digits: "list_all is_digit ds \<Longrightarrow> boundary rest \<Longrightarrow> takeWhile is_digit (ds @ rest) = ds"
  by (cases rest) (auto simp: boundary_def list_all_iff takeWhile_append takeWhile_eq_all_conv [THEN iffD2])

lemma not_word: "s = c # t \<Longrightarrow> c \<notin> set ''nft'' \<Longrightarrow> \<not> starts ''null'' s \<and> \<not> starts ''false'' s \<and> \<not> starts ''true'' s"
  by (auto simp: starts_def)

lemma digit_not: "is_digit c \<Longrightarrow> c \<notin> set ''nft-[{'' \<and> c \<notin> set '']},'' \<and> \<not> is_space c"
  by (auto simp: is_digit_def is_space_def)

lemma read_int:
  assumes b: "boundary rest"
  shows "readBase stof (int_to_string (sint v) @ rest) = Got (JInt v) rest"
proof -
  have r: "- (2 ^ 31) \<le> sint v \<and> sint v < 2 ^ 31" using sint_greater_eq [of v] sint_less [of v] by simp
  define ds where "ds = dec_digits (nat \<bar>sint v\<bar>)"
  have ds: "list_all is_digit ds" "ds \<noteq> []" "dec_value ds = \<bar>sint v\<bar>"
    by (simp_all add: ds_def dec_digits_digits dec_value_digits)
  obtain c cs where c: "ds = c # cs" "is_digit c" using ds(1,2) by (cases ds) auto
  note dg = digit_not [OF c(2)]
  have sc: "scan_number False 0 (ds @ rest) = (Some (False, length ds), rest)"
    using scan_digits [OF ds(1) b, of 0] by simp
  have tw: "takeWhile is_digit (ds @ rest) = ds" by (rule takeWhile_digits [OF ds(1) b])
  show ?thesis
  proof (cases "sint v < 0")
    case True
    then have w: "int_to_string (sint v) @ rest = CHR ''-'' # ds @ rest" by (simp add: int_to_string_def ds_def)
    have "stoi (CHR ''-'' # ds @ rest) = Some v"
      using True r tw ds(3) by (simp add: stoi_def starts_def)
    moreover have "starts ''-'' (CHR ''-'' # ds @ rest)" by (simp add: starts_def)
    ultimately show ?thesis
      using not_word [OF refl, of "CHR ''-''" "ds @ rest"] sc ds(2) unfolding w by (simp add: readBase_def)
  next
    case False
    then have w: "int_to_string (sint v) @ rest = ds @ rest" by (simp add: int_to_string_def ds_def)
    have m: "\<not> starts ''-'' (ds @ rest)" using dg by (auto simp: starts_def c)
    then have "stoi (ds @ rest) = Some v" using False r tw ds(3) by (simp add: stoi_def)
    then show ?thesis
      using not_word [of "ds @ rest" c "cs @ rest"] m sc ds(2) dg unfolding w by (simp add: readBase_def c)
  qed
qed

lemma read_str: "plain_str a \<Longrightarrow> readStr (CHR 0x22 # a @ CHR 0x22 # r) = Got a r"
proof -
  assume a: "plain_str a"
  have "split_quote (xs @ CHR 0x22 # r) = (xs, CHR 0x22 # r)" if "CHR 0x22 \<notin> set xs" for xs
    using that by (induction xs) auto
  then show ?thesis using a by (simp add: readStr_def)
qed

lemma read_base_str: "plain_str a \<Longrightarrow> readBase stof (CHR 0x22 # a @ CHR 0x22 # r) = Got (JStr a) r"
  using not_word [OF refl, of "CHR 0x22" "a @ CHR 0x22 # r"] read_str [of a r]
  by (simp add: readBase_def starts_def is_digit_def read_string_value_def)

lemma reader_base:
  assumes "list_all is_space ws" "s = c # t" "\<not> is_space c" "c \<noteq> CHR ''[''" "c \<noteq> CHR ''{''" "0 < n"
  shows "reader stof n (ws @ s) = readBase stof s"
proof -
  obtain m where "n = Suc m" using assms(6) by (cases n) auto
  moreover have "skip (ws @ s) = s" using assms by (simp add: skip_spaces skip_id)
  ultimately show ?thesis using assms by (simp add: starts_def)
qed

lemma boundary_spaces: "list_all is_space ws \<Longrightarrow> \<not> is_digit c \<Longrightarrow> c \<noteq> CHR ''.'' \<Longrightarrow> boundary (ws @ c # t)"
  by (cases ws) (auto simp: boundary_def is_space_def is_digit_def)

definition reads_back :: "(string \<Rightarrow> 'f json parsed) \<Rightarrow> nat \<Rightarrow> 'f json \<Rightarrow> string \<Rightarrow> bool" where
  "reads_back rd n v w \<longleftrightarrow> (\<forall>ws rest. list_all is_space ws \<longrightarrow> boundary rest \<longrightarrow> length (ws @ w @ rest) < n \<longrightarrow>
    rd (ws @ w @ rest) = Got v rest)"

lemma reads_backD:
  "reads_back rd n v w \<Longrightarrow> list_all is_space ws \<Longrightarrow> boundary rest \<Longrightarrow> length (ws @ w @ rest) < n \<Longrightarrow>
    rd (ws @ w @ rest) = Got v rest"
  unfolding reads_back_def by blast

lemma skip_close: "list_all is_space ws \<Longrightarrow> \<not> is_space c \<Longrightarrow> skip (ws @ c # t) = c # t"
  by (simp add: skip_spaces skip_id)

lemma read_items_back:
  assumes "list_all is_space ind" "list_all is_space ind0"
  shows "list_all2 (reads_back rd n) vs ws \<Longrightarrow> vs \<noteq> [] \<Longrightarrow> list_all is_space pre \<Longrightarrow>
    S = pre @ join layout (map (\<lambda>w. ind @ w) ws) @ ind0 @ CHR '']'' # rest \<Longrightarrow> length S < n \<Longrightarrow> length S < m \<Longrightarrow>
    read_items rd m objs S = Got (JArr (objs @ vs)) rest"
proof (induction vs ws arbitrary: pre S m objs rule: list_all2_induct)
  case (Cons v vs w ws)
  obtain m' where m: "m = Suc m'" using Cons.prems(5) by (cases m) auto
  have c: "\<not> is_digit CHR '']''" "\<not> is_space CHR '']''" "\<not> is_digit CHR '',''" "\<not> is_space CHR '',''"
    by (simp_all add: is_digit_def is_space_def)
  have sp: "list_all is_space (pre @ ind)" "list_all is_space (nl layout @ ind0)" using Cons.prems(2) assms spaces_ok by simp_all
  show ?case
  proof (cases ws)
    case Nil
    then have vs: "vs = []" using Cons.hyps(2) by simp
    let ?r = "(nl layout @ ind0) @ CHR '']'' # rest"
    have S: "S = (pre @ ind) @ w @ ?r" using Cons.prems(3) Nil by simp
    have "boundary ?r" by (rule boundary_spaces [OF sp(2) c(1)]) simp
    then have "rd S = Got v ?r"
      using Cons.prems(4) unfolding S by (rule reads_backD [OF Cons.hyps(1) sp(1)])
    moreover have "skip ?r = CHR '']'' # rest" by (rule skip_close [OF sp(2) c(2)])
    ultimately show ?thesis by (simp add: m vs starts_def)
  next
    case (Cons w' ws')
    let ?r = "CHR '','' # nl layout @ join layout (map (\<lambda>w. ind @ w) ws) @ ind0 @ CHR '']'' # rest"
    have vs: "vs \<noteq> []" using Cons Cons.hyps(2) by auto
    have S: "S = (pre @ ind) @ w @ ?r" using Cons.prems(3) Cons by simp
    have "boundary ?r" using c by (simp add: boundary_def)
    then have "rd S = Got v ?r" using Cons.prems(4) unfolding S by (rule reads_backD [OF Cons.hyps(1) sp(1)])
    moreover have "skip ?r = ?r" using c by (simp add: skip_id)
    moreover have "read_items rd m' (objs @ [v]) (tl ?r) = Got (JArr ((objs @ [v]) @ vs)) rest"
      by (rule Cons.IH [OF vs]) (use Cons.prems S m spaces_ok in simp_all)
    ultimately show ?thesis by (simp add: m starts_def)
  qed
qed simp

lemma read_members_back:
  assumes "list_all is_space ind" "list_all is_space ind0"
  shows "list_all2 (\<lambda>m w. plain_str (fst m) \<and> (\<exists>v. snd m = Some v \<and> reads_back rd n v w)) ms ws \<Longrightarrow> ms \<noteq> [] \<Longrightarrow>
    list_all is_space pre \<Longrightarrow> sorted_keys (objs @ ms) \<Longrightarrow>
    S = pre @ join layout (map2 (\<lambda>m w. ind @ CHR 0x22 # fst m @ CHR 0x22 # CHR '':'' # w) ms ws) @ ind0 @ CHR ''}'' # rest \<Longrightarrow>
    length S < n \<Longrightarrow> length S < l \<Longrightarrow> read_members rd l objs S = Got (JObj (objs @ ms)) rest"
proof (induction ms ws arbitrary: pre S l objs rule: list_all2_induct)
  case (Cons m ms w ws)
  obtain l' where l: "l = Suc l'" using Cons.prems(6) by (cases l) auto
  obtain k v where kv: "m = (k, Some v)" "plain_str k" "reads_back rd n v w" using Cons.hyps(1) by (cases m) auto
  have c: "\<not> is_digit CHR ''}''" "\<not> is_space CHR ''}''" "\<not> is_digit CHR '',''" "\<not> is_space CHR '',''"
    "\<not> is_space CHR 0x22" by (simp_all add: is_digit_def is_space_def)
  have sp: "list_all is_space (pre @ ind)" "list_all is_space (nl layout @ ind0)" using Cons.prems(2) assms spaces_ok by simp_all
  have "list_all (\<lambda>m. str_less (fst m) k) objs"
    using Cons.prems(3) by (auto simp: sorted_keys_def sorted_wrt_append kv(1) list_all_iff)
  then have put: "map_put k (Some v) objs = objs @ [m]" by (simp add: map_put_last kv(1))
  have start: "skip ((pre @ ind) @ CHR 0x22 # t) = CHR 0x22 # t" for t by (rule skip_close [OF sp(1) c(5)])
  have key: "readStr (CHR 0x22 # k @ CHR 0x22 # t) = Got k t" for t by (rule read_str [OF kv(2)])
  show ?case
  proof (cases ws)
    case Nil
    then have ms: "ms = []" using Cons.hyps(2) by simp
    let ?r = "(nl layout @ ind0) @ CHR ''}'' # rest"
    have S: "S = (pre @ ind) @ CHR 0x22 # k @ CHR 0x22 # CHR '':'' # w @ ?r" using Cons.prems(4) Nil ms by (simp add: kv(1))
    have b: "boundary ?r" by (rule boundary_spaces [OF sp(2) c(1)]) simp
    have "rd ([] @ w @ ?r) = Got v ?r"
      by (rule reads_backD [OF kv(3) _ b]) (use Cons.prems(5) S in simp_all)
    moreover have "skip ?r = CHR ''}'' # rest" by (rule skip_close [OF sp(2) c(2)])
    ultimately show ?thesis unfolding l S read_members.simps start key by (simp add: ms starts_def put)
  next
    case (Cons w' ws')
    then obtain m' ms' where ms: "ms = m' # ms'" using Cons.hyps(2) by (cases ms) auto
    let ?r = "CHR '','' # nl layout @ join layout (map2 (\<lambda>m w. ind @ CHR 0x22 # fst m @ CHR 0x22 # CHR '':'' # w) ms ws) @ ind0 @ CHR ''}'' # rest"
    have S: "S = (pre @ ind) @ CHR 0x22 # k @ CHR 0x22 # CHR '':'' # w @ ?r" using Cons.prems(4) Cons ms by (simp add: kv(1))
    have b: "boundary ?r" using c by (simp add: boundary_def)
    have "rd ([] @ w @ ?r) = Got v ?r"
      by (rule reads_backD [OF kv(3) _ b]) (use Cons.prems(5) S in simp_all)
    moreover have "skip ?r = ?r" using c by (simp add: skip_id)
    moreover have "read_members rd l' (objs @ [m]) (tl ?r) = Got (JObj ((objs @ [m]) @ ms)) rest"
      by (rule Cons.IH) (use Cons.prems S l spaces_ok ms in simp_all)
    ultimately show ?thesis unfolding l S read_members.simps start key by (simp add: starts_def put)
  qed
qed simp

lemma those_items:
  "those_list (map f items) = Some ws \<Longrightarrow> list_all2 (\<lambda>v w. f v = Some w) items ws"
  by (induction items arbitrary: ws) (auto split: option.splits)

lemma those_members:
  "those_list (map (\<lambda>m. Option.bind (snd m) (\<lambda>v. map_option (\<lambda>w. (fst m, w)) (f v))) ms) = Some us \<Longrightarrow>
    \<exists>ws. us = map2 (\<lambda>m w. (fst m, w)) ms ws \<and> list_all2 (\<lambda>m w. \<exists>v. snd m = Some v \<and> f v = Some w) ms ws"
proof (induction ms arbitrary: us)
  case (Cons m ms)
  then obtain v w us' where w: "snd m = Some v" "f v = Some w" "us = (fst m, w) # us'"
    "those_list (map (\<lambda>m. Option.bind (snd m) (\<lambda>v. map_option (\<lambda>w. (fst m, w)) (f v))) ms) = Some us'"
    by (auto split: option.splits bind_splits)
  obtain ws where "us' = map2 (\<lambda>m w. (fst m, w)) ms ws" "list_all2 (\<lambda>m w. \<exists>v. snd m = Some v \<and> f v = Some w) ms ws"
    using Cons.IH [OF w(4)] by blast
  then show ?case using w by (intro exI [of _ "w # ws"]) simp
qed simp

lemma int_first: "\<exists>c t. int_to_string i = c # t \<and> \<not> is_space c \<and> c \<notin> set ''[{]},''"
proof -
  obtain c cs where c: "dec_digits (nat \<bar>i\<bar>) = c # cs" "is_digit c"
    using dec_digits_digits [of "nat \<bar>i\<bar>"] by (cases "dec_digits (nat \<bar>i\<bar>)") auto
  show ?thesis
  proof (cases "i < 0")
    case True
    then show ?thesis by (simp add: int_to_string_def is_space_def)
  next
    case False
    then have "int_to_string i = c # cs" using c(1) by (simp add: int_to_string_def)
    then show ?thesis using digit_not [OF c(2)] by simp
  qed
qed

lemma first_char:
  assumes "portable layout v" "write_json fmt layout d v = Some w"
  shows "\<exists>c t. w = c # t \<and> \<not> is_space c \<and> c \<notin> set '']},''"
proof (cases v)
  case (JInt i)
  then have "w = int_to_string (sint i)" using assms by simp
  then show ?thesis using int_first [of "sint i"] by auto
next
  case (JArr items)
  then have "hd w = CHR ''[''" "w \<noteq> []" using assms(2) unfolding JArr write_json.simps(6) by auto
  then show ?thesis by (cases w) (simp_all add: is_space_def)
next
  case (JObj ms)
  then have "hd w = CHR ''{''" "w \<noteq> []" using assms(2) unfolding JObj write_json.simps(7) by auto
  then show ?thesis by (cases w) (simp_all add: is_space_def)
next
  case JNull
  then have "w = ''null''" using assms by simp
  then show ?thesis by (simp add: is_space_def)
next
  case (JStr s)
  then have "w = CHR 0x22 # s @ [CHR 0x22]" using assms by simp
  then show ?thesis by (simp add: is_space_def)
next
  case (JBool b)
  then have "w = (if b then ''true'' else ''false'')" using assms by simp
  then show ?thesis by (simp add: is_space_def)
qed (use assms in simp)

lemma join_first:
  assumes "ws \<noteq> []" "hd ws = c # t"
  shows "\<exists>u. join layout ws = c # u"
  using assms by (cases ws rule: list.exhaust; cases "tl ws") auto

lemma enter:
  assumes "list_all is_space ws" "length (ws @ c # t) < n" "\<not> is_space c"
  shows "\<exists>m. n = Suc m \<and> length t < m \<and> skip (ws @ c # t) = c # t"
proof -
  obtain m where "n = Suc m" using assms(2) by (cases n) auto
  then show ?thesis using assms skip_close [OF assms(1,3)] by auto
qed

lemma read_written:
  "portable layout v \<Longrightarrow> write_json fmt layout d v = Some w \<Longrightarrow> reads_back (reader stof n) n v w"
proof (induction v arbitrary: d w n)
  case (JInt i)
  show ?case
    unfolding reads_back_def
  proof (intro allI impI)
    fix ws rest
    assume a: "list_all is_space ws" "boundary rest" "length (ws @ w @ rest) < n"
    obtain c t where c: "w = c # t" "\<not> is_space c" "c \<noteq> CHR ''[''" "c \<noteq> CHR ''{''"
      using int_first [of "sint i"] JInt.prems(2) by auto
    have "reader stof n (ws @ w @ rest) = readBase stof (w @ rest)"
      by (rule reader_base [OF a(1)]) (use c a(3) in auto)
    then show "reader stof n (ws @ w @ rest) = Got (JInt i) rest" using read_int [OF a(2), of stof i] JInt.prems(2) by simp
  qed
next
  case JNull
  show ?case unfolding reads_back_def
  proof (intro allI impI)
    fix ws rest
    assume a: "list_all is_space ws" "boundary rest" "length (ws @ w @ rest) < n"
    have w: "w = ''null''" using JNull by simp
    have "reader stof n (ws @ w @ rest) = readBase stof (w @ rest)"
      by (rule reader_base [OF a(1)]) (use w a(3) in \<open>auto simp: is_space_def\<close>)
    then show "reader stof n (ws @ w @ rest) = Got JNull rest" by (simp add: w readBase_def starts_def)
  qed
next
  case (JStr s)
  show ?case unfolding reads_back_def
  proof (intro allI impI)
    fix ws rest
    assume a: "list_all is_space ws" "boundary rest" "length (ws @ w @ rest) < n"
    have w: "w = CHR 0x22 # s @ [CHR 0x22]" using JStr by simp
    have "reader stof n (ws @ w @ rest) = readBase stof (w @ rest)"
      by (rule reader_base [OF a(1)]) (use w a(3) in \<open>auto simp: is_space_def\<close>)
    then show "reader stof n (ws @ w @ rest) = Got (JStr s) rest" using read_base_str [of s stof rest] JStr w by simp
  qed
next
  case (JBool b)
  show ?case unfolding reads_back_def
  proof (intro allI impI)
    fix ws rest
    assume a: "list_all is_space ws" "boundary rest" "length (ws @ w @ rest) < n"
    have w: "w = (if b then ''true'' else ''false'')" using JBool by simp
    have "reader stof n (ws @ w @ rest) = readBase stof (w @ rest)"
      by (cases b; rule reader_base [OF a(1)]) (use w a(3) in \<open>auto simp: is_space_def\<close>)
    then show "reader stof n (ws @ w @ rest) = Got (JBool b) rest"
      by (cases b) (simp_all add: w readBase_def starts_def)
  qed
next
  case (JArr items)
  let ?ind = "indent layout (d + 1)"
  obtain us ws where us: "us = map (\<lambda>w. ?ind @ w) ws"
    "list_all2 (\<lambda>v w. write_json fmt layout (d + 1) v = Some w) items ws"
    "w = ''['' @ nl layout @ join layout us @ indent layout d @ '']''"
    using JArr.prems(2) those_items [of "write_json fmt layout (d + 1)" items] by auto
  have p: "\<forall>v \<in> set items. portable layout v" "layout \<longrightarrow> items \<noteq> []" using JArr.prems(1) by (simp_all add: list_all_iff)
  show ?case
    unfolding reads_back_def
  proof (intro allI impI)
    fix sp rest
    assume a: "list_all is_space sp" "boundary rest" "length (sp @ w @ rest) < n"
    define S where "S = nl layout @ join layout us @ indent layout d @ CHR '']'' # rest"
    have w: "sp @ w @ rest = sp @ CHR ''['' # S" by (simp add: us(3) S_def)
    obtain m where m: "n = Suc m" "length S < m" "skip (sp @ CHR ''['' # S) = CHR ''['' # S"
      using enter [OF a(1), of "CHR ''[''" S n] a(3) w by (auto simp: is_space_def)
    have r: "reader stof n (sp @ w @ rest) = readArray (reader stof m) m S" unfolding w m(1) by (simp add: m(3) starts_def)
    show "reader stof n (sp @ w @ rest) = Got (JArr items) rest"
    proof (cases "items = []")
      case True
      then have "S = CHR '']'' # rest" using p us by (simp add: S_def nl_def indent_def)
      then show ?thesis using True r by (simp add: readArray_def starts_def)
    next
      case False
      then obtain v vs u us' where vu: "items = v # vs" "ws = u # us'" "write_json fmt layout (d + 1) v = Some u"
        using us(2) by (cases items; cases ws) auto
      obtain c t where c: "u = c # t" "c \<notin> set '']},''" using first_char [of layout v fmt "d + 1" u] p vu by auto
      have "\<not> starts '']'' S"
      proof (cases layout)
        case True
        then show ?thesis by (simp add: S_def nl_def starts_def)
      next
        case False
        then obtain q where "join layout us = c # q"
          using join_first [of us c t layout] by (auto simp: us(1) vu(2) c(1) indent_def)
        then show ?thesis using c(2) False by (simp add: S_def nl_def starts_def)
      qed
      moreover have "S \<noteq> []" by (simp add: S_def)
      moreover have "read_items (reader stof m) m [] S = Got (JArr ([] @ items)) rest"
      proof (rule read_items_back [OF spaces_ok(2) [of layout "d + 1"] spaces_ok(2) [of layout d] _ False spaces_ok(1) [of layout]])
        show "list_all2 (reads_back (reader stof m) m) items ws"
          unfolding list_all2_conv_all_nth
        proof (intro conjI allI impI)
          fix i
          assume i: "i < length items"
          have wr: "write_json fmt layout (d + 1) (items ! i) = Some (ws ! i)"
            using us(2) i by (simp add: list_all2_conv_all_nth)
          show "reads_back (reader stof m) m (items ! i) (ws ! i)"
            by (rule JArr.IH [OF nth_mem [OF i] _ wr]) (use p(1) nth_mem [OF i] in blast)
        qed (use us(2) in \<open>simp add: list_all2_conv_all_nth\<close>)
        show "S = nl layout @ join layout (map (\<lambda>w. ?ind @ w) ws) @ indent layout d @ CHR '']'' # rest"
          by (simp add: S_def us(1))
      qed (use m in simp_all)
      ultimately show ?thesis using r by (simp add: readArray_def)
    qed
  qed
next
  case (JObj ms)
  let ?ind = "indent layout (d + 1)"
  obtain us ws where us: "us = map2 (\<lambda>m w. ?ind @ CHR 0x22 # fst m @ CHR 0x22 # CHR '':'' # w) ms ws"
    "list_all2 (\<lambda>m w. \<exists>v. snd m = Some v \<and> write_json fmt layout (d + 1) v = Some w) ms ws"
    "w = ''{'' @ nl layout @ join layout us @ indent layout d @ ''}''"
  proof -
    obtain qs where qs: "those_list (map (\<lambda>m. Option.bind (snd m) (\<lambda>v. map_option (\<lambda>w. (fst m, w))
        (write_json fmt layout (d + 1) v))) ms) = Some qs" "w = write_members layout d qs"
      using JObj.prems(2) by auto
    obtain ws where ws: "qs = map2 (\<lambda>m w. (fst m, w)) ms ws"
      "list_all2 (\<lambda>m w. \<exists>v. snd m = Some v \<and> write_json fmt layout (d + 1) v = Some w) ms ws"
      using those_members [OF qs(1)] by blast
    show thesis
      by (rule that [of "map2 (\<lambda>m w. ?ind @ CHR 0x22 # fst m @ CHR 0x22 # CHR '':'' # w) ms ws" ws])
        (use ws qs(2) in \<open>simp_all add: comp_def case_prod_beta'\<close>)
  qed
  have p: "\<forall>m \<in> set ms. plain_str (fst m) \<and> (\<forall>v. snd m = Some v \<longrightarrow> portable layout v)" "layout \<longrightarrow> ms \<noteq> []" "sorted_keys ms"
    using JObj.prems(1) by (auto simp: list_all_iff split: option.splits)
  show ?case
    unfolding reads_back_def
  proof (intro allI impI)
    fix sp rest
    assume a: "list_all is_space sp" "boundary rest" "length (sp @ w @ rest) < n"
    define S where "S = nl layout @ join layout us @ indent layout d @ CHR ''}'' # rest"
    have w: "sp @ w @ rest = sp @ CHR ''{'' # S" by (simp add: us(3) S_def)
    obtain m where m: "n = Suc m" "length S < m" "skip (sp @ CHR ''{'' # S) = CHR ''{'' # S"
      using enter [OF a(1), of "CHR ''{''" S n] a(3) w by (auto simp: is_space_def)
    have r: "reader stof n (sp @ w @ rest) = readObj (reader stof m) m S" unfolding w m(1) by (simp add: m(3) starts_def)
    show "reader stof n (sp @ w @ rest) = Got (JObj ms) rest"
    proof (cases "ms = []")
      case True
      then have "S = CHR ''}'' # rest" using p us by (simp add: S_def nl_def indent_def)
      then show ?thesis using True r by (simp add: readObj_def starts_def)
    next
      case False
      then obtain x xs u us' where vu: "ms = x # xs" "ws = u # us'" using us(2) by (cases ms; cases ws) auto
      have "\<not> starts ''}'' S"
      proof (cases layout)
        case True
        then show ?thesis by (simp add: S_def nl_def starts_def)
      next
        case False
        then obtain q where "join layout us = CHR 0x22 # q"
          using join_first [of us "CHR 0x22" "fst x @ CHR 0x22 # CHR '':'' # u" layout] by (auto simp: us(1) vu indent_def)
        then show ?thesis using False by (simp add: S_def nl_def starts_def)
      qed
      moreover have "S \<noteq> []" by (simp add: S_def)
      moreover have "read_members (reader stof m) m [] S = Got (JObj ([] @ ms)) rest"
      proof (rule read_members_back [OF spaces_ok(2) [of layout "d + 1"] spaces_ok(2) [of layout d] _ False spaces_ok(1) [of layout]])
        show "list_all2 (\<lambda>y w. plain_str (fst y) \<and> (\<exists>v. snd y = Some v \<and> reads_back (reader stof m) m v w)) ms ws"
          unfolding list_all2_conv_all_nth
        proof (intro conjI allI impI)
          fix i
          assume i: "i < length ms"
          then obtain v where v: "snd (ms ! i) = Some v" "write_json fmt layout (d + 1) v = Some (ws ! i)"
            using us(2) by (auto simp: list_all2_conv_all_nth)
          have "reads_back (reader stof m) m v (ws ! i)"
            by (rule JObj.IH [OF nth_mem [OF i], of "snd (ms ! i)" v, OF _ _ _ v(2)])
              (use p(1) i v(1) nth_mem [OF i] in \<open>auto simp: snds.simps prod_set_defs\<close>)
          then show "\<exists>v. snd (ms ! i) = Some v \<and> reads_back (reader stof m) m v (ws ! i)" using v(1) by blast
          show "plain_str (fst (ms ! i))" using p(1) nth_mem [OF i] by blast
        qed (use us(2) in \<open>simp add: list_all2_conv_all_nth\<close>)
        show "S = nl layout @ join layout (map2 (\<lambda>m w. ?ind @ CHR 0x22 # fst m @ CHR 0x22 # CHR '':'' # w) ms ws) @ indent layout d @ CHR ''}'' # rest"
          by (simp add: S_def us(1))
      qed (use m p(3) in simp_all)
      ultimately show ?thesis using r by (simp add: readObj_def)
    qed
  qed
qed simp

lemma no_nul_join: "\<forall>w \<in> set ws. CHR 0x00 \<notin> set w \<Longrightarrow> CHR 0x00 \<notin> set (join layout ws)"
  by (induction layout ws rule: join.induct) (auto simp: nl_def)

lemma no_nul_int: "CHR 0x00 \<notin> set (int_to_string i)"
proof -
  have "CHR 0x00 \<notin> set (dec_digits n)" for n
    using dec_digits_digits(1) [of n] by (auto simp: list_all_iff is_digit_def)
  then show ?thesis by (auto simp: int_to_string_def)
qed

lemma no_nul_space: "CHR 0x00 \<notin> set (nl layout)" "CHR 0x00 \<notin> set (indent layout d)"
  by (auto simp: nl_def indent_def writeDepth_def)

lemma portable_writes:
  "portable layout v \<Longrightarrow> \<exists>w. write_json fmt layout d v = Some w \<and> CHR 0x00 \<notin> set w"
proof (induction v arbitrary: d)
  case (JArr items)
  let ?f = "write_json fmt layout (d + 1)"
  have "\<exists>ws. those_list (map ?f items) = Some ws \<and> (\<forall>w \<in> set ws. CHR 0x00 \<notin> set w)"
    if "\<forall>v \<in> set items. \<exists>w. ?f v = Some w \<and> CHR 0x00 \<notin> set w"
    using that by (induction items) auto
  then obtain ws where ws: "those_list (map ?f items) = Some ws" "\<forall>w \<in> set ws. CHR 0x00 \<notin> set w"
    using JArr by (auto simp: list_all_iff)
  then have "CHR 0x00 \<notin> set (join layout (map (\<lambda>w. indent layout (d + 1) @ w) ws))"
    by (intro no_nul_join) (auto simp: no_nul_space)
  then show ?case using ws no_nul_space by simp
next
  case (JObj ms)
  let ?f = "\<lambda>m. Option.bind (snd m) (\<lambda>v. map_option (\<lambda>w. (fst m, w)) (write_json fmt layout (d + 1) v))"
  have ex: "\<exists>ws. those_list (map ?f ms) = Some ws \<and> (\<forall>(k, w) \<in> set ws. CHR 0x00 \<notin> set k \<and> CHR 0x00 \<notin> set w)"
    if "\<forall>m \<in> set ms. plain_str (fst m) \<and> (\<exists>v w. snd m = Some v \<and> write_json fmt layout (d + 1) v = Some w \<and> CHR 0x00 \<notin> set w)"
    using that by (induction ms) auto
  have "\<exists>v w. snd m = Some v \<and> write_json fmt layout (d + 1) v = Some w \<and> CHR 0x00 \<notin> set w" if m: "m \<in> set ms" for m
  proof -
    obtain v where v: "snd m = Some v" "portable layout v"
      using JObj.prems m by (auto simp: list_all_iff split: option.splits)
    have "\<exists>w. write_json fmt layout (d + 1) v = Some w \<and> CHR 0x00 \<notin> set w"
      by (rule JObj.IH [OF m, of "snd m" v, OF _ _ v(2)]) (use v in \<open>auto simp: snds.simps prod_set_defs\<close>)
    then show ?thesis using v by blast
  qed
  then obtain ws where ws: "those_list (map ?f ms) = Some ws" "\<forall>(k, w) \<in> set ws. CHR 0x00 \<notin> set k \<and> CHR 0x00 \<notin> set w"
    using ex JObj.prems by (auto simp: list_all_iff simp del: plain_str.simps)
  then have "CHR 0x00 \<notin> set (join layout (map (\<lambda>(k, w). indent layout (d + 1) @ [CHR 0x22] @ k @ [CHR 0x22] @ '':'' @ w) ws))"
    by (intro no_nul_join) (auto simp: no_nul_space)
  then show ?case using ws no_nul_space by simp
qed (auto simp: no_nul_int)

lemma c_str_id: "CHR 0x00 \<notin> set s \<Longrightarrow> c_str s = s"
  unfolding c_str_def by (rule takeWhile_eq_all_conv [THEN iffD2]) auto

section \<open>Properties\<close>

text \<open>C21. 
  What is written is read back: a document without floats, null pointers, empty strings and quotes in
  strings, and without empty containers when it is laid out over lines, is written to a text that the
  reader turns into the same document, white space and all.
\<close>

theorem json_roundtrip:
  assumes "portable layout v"
  shows "\<exists>text. json_write fmt layout v = Some text \<and> parser stof text = Got v []"
proof -
  obtain w where w: "write_json fmt layout 0 v = Some w" "CHR 0x00 \<notin> set w"
    using portable_writes [OF assms] by blast
  have "reader stof (length w + 1) ([] @ w @ []) = Got v []"
    by (rule reads_backD [OF read_written [OF assms w(1)]]) (simp_all add: boundary_def)
  then have "parser stof w = Got v []" by (simp add: parser_def c_str_id [OF w(2)] skip_def del: reader.simps)
  then show ?thesis using w(1) by (simp add: json_write_def)
qed

theorem json_roundtrip_witness:
  "\<exists>text. json_write (\<lambda>f :: nat. []) True (JObj [(''a'', Some (JInt 10)), (''b'', Some (JArr [JBool True, JNull]))]) = Some text \<and>
    parser (\<lambda>s. None :: nat option) text = Got (JObj [(''a'', Some (JInt 10)), (''b'', Some (JArr [JBool True, JNull]))]) []"
proof -
  have "portable True (JObj [(''a'', Some (JInt 10)), (''b'', Some (JArr [JBool True, JNull :: nat json]))])"
    by code_simp
  from json_roundtrip [OF this] show ?thesis by blast
qed

text \<open>C29. The reader ends on every text: it gives a document, fails, or throws for a number out of range.\<close>

theorem parser_ends:
  "parser stof text \<noteq> Out_of_fuel"
proof -
  define s where "s = c_str text"
  have p: "progress s (reader stof (length s + 1) s)"
    using good_reader [of stof "length s + 1"] unfolding good_reader_def by simp
  have "reader stof (length s + 1) s \<noteq> Out_of_fuel"
  proof
    assume "reader stof (length s + 1) s = Out_of_fuel"
    with p show False by (simp only: progress.simps)
  qed
  then show ?thesis
    unfolding parser_def Let_def s_def [symmetric] by (auto split: parsed.split simp del: reader.simps)
qed

text \<open>
  What the writer lays out is not always read: an empty array over lines, an empty string, and a string
  with a quote, which changes into another document.
\<close>

theorem written_not_read:
  "(case json_write (\<lambda>f :: nat. []) True (JArr []) of None \<Rightarrow> False | Some t \<Rightarrow> parser (\<lambda>s. None :: nat option) t = Failed '']'') \<and>
   (case json_write (\<lambda>f :: nat. []) False (JStr []) of None \<Rightarrow> False | Some t \<Rightarrow> parser (\<lambda>s. None :: nat option) t = Failed [CHR 0x22]) \<and>
   (case json_write (\<lambda>f :: nat. []) False (JArr [JStr (''a'' @ [CHR 0x22] @ '','' @ [CHR 0x22] @ ''b'')]) of
      None \<Rightarrow> False | Some t \<Rightarrow> parser (\<lambda>s. None :: nat option) t = Got (JArr [JStr ''a'', JStr ''b'']) [])"
  by code_simp

text \<open>
  Looking up a key that an object does not have adds a null pointer under it, and writing the object
  afterwards follows that pointer.
\<close>

theorem lookup_breaks_write:
  assumes "map_of ms k = None"
  shows "fst (obj_getJsonObj k ms) = None \<and> write_json fmt layout d (JObj (snd (obj_getJsonObj k ms))) = None"
proof -
  have m: "(k, None) \<in> set (map_put k None ms)" for ms :: "(string \<times> 'a json option) list"
    by (induction ms) auto
  have "those_list (map f xs) = None" if "f x = None" "x \<in> set xs" for f :: "_ \<Rightarrow> (string \<times> string) option" and x and xs :: "(string \<times> 'a json option) list"
    using that by (induction xs) (auto split: option.split)
  from this [OF _ m] show ?thesis using assms by (simp add: obj_getJsonObj_def member_def)
qed

theorem lookup_breaks_write_witness:
  "write_json (\<lambda>f :: nat. []) True 0 (JObj (snd (obj_getJsonObj ''x'' [(''a'', Some JNull)]))) = None"
  using lookup_breaks_write [of "[(''a'', Some JNull)]" "''x''" "\<lambda>f :: nat. []" True 0] by simp

end
