(* ===== verification/Node_Json.thy ===== *)
theory Node_Json
  imports Json Peer_Conn
begin

text \<open>
  Node descriptions as they are stored in the registry, src/core/utils/JsonUtils.cpp. The documents are
  those of rapidjson; its parser and its writer are arguments, and a wrong access is \<open>None\<close>.
\<close>

section \<open>Documents of rapidjson\<close>

datatype rj = RNull | RBool bool | RInt int | RDouble nat | RStr string | RArr "rj list" | RObj "(string \<times> rj) list"

definition IsInt :: "rj \<Rightarrow> bool" where
  "IsInt d \<longleftrightarrow> (case d of RInt i \<Rightarrow> - (2 ^ 31) \<le> i \<and> i < 2 ^ 31 | _ \<Rightarrow> False)"

definition IsInt64 :: "rj \<Rightarrow> bool" where
  "IsInt64 d \<longleftrightarrow> (case d of RInt i \<Rightarrow> - (2 ^ 63) \<le> i \<and> i < 2 ^ 63 | _ \<Rightarrow> False)"

definition get_int :: "rj \<Rightarrow> int" where
  "get_int d = (case d of RInt i \<Rightarrow> i | _ \<Rightarrow> 0)"

text \<open>A member that is there and of the kind asked for is assigned, or the field keeps its value.\<close>

definition str_member :: "string \<Rightarrow> (string \<times> rj) list \<Rightarrow> string \<Rightarrow> string" where
  "str_member k ms old = (case map_of ms k of Some (RStr s) \<Rightarrow> c_str s | _ \<Rightarrow> old)"

definition int_member :: "string \<Rightarrow> (string \<times> rj) list \<Rightarrow> i32 \<Rightarrow> i32" where
  "int_member k ms old = (case map_of ms k of Some d \<Rightarrow> if IsInt d then word_of_int (get_int d) else old | None \<Rightarrow> old)"

definition int64_member :: "string \<Rightarrow> (string \<times> rj) list \<Rightarrow> i64 \<Rightarrow> i64" where
  "int64_member k ms old = (case map_of ms k of Some d \<Rightarrow> if IsInt64 d then word_of_int (get_int d) else old | None \<Rightarrow> old)"

text \<open>The loop over the members of \<open>meta_data\<close>: reading a member that is no string is undefined.\<close>

fun meta_loop :: "(string \<times> rj) list \<Rightarrow> (string \<times> string) list \<Rightarrow> (string \<times> string) list option" where
  "meta_loop [] meta = Some meta"
| "meta_loop ((k, RStr v) # ms) meta = meta_loop ms (AList.update (c_str k) (c_str v) meta)"
| "meta_loop (m # ms) meta = None"

section \<open>Reading and writing\<close>

definition DeserializeNodeInfo :: "(string \<Rightarrow> rj option) \<Rightarrow> string \<Rightarrow> node_info \<Rightarrow> (bool \<times> node_info) option" where
  "DeserializeNodeInfo parse jsonStr node =
    (case parse (c_str jsonStr) of
       None \<Rightarrow> Some (False, node)
     | Some (RObj doc) \<Rightarrow>
         let node = node\<lparr>ni_service_id := str_member ''service_id'' doc (ni_service_id node)\<rparr>;
             node = node\<lparr>ni_service_name := str_member ''service_name'' doc (ni_service_name node)\<rparr>;
             node = node\<lparr>ni_ip := str_member ''ip'' doc (ni_ip node)\<rparr>;
             node = node\<lparr>ni_port := int_member ''port'' doc (ni_port node)\<rparr>;
             node = node\<lparr>ni_type := int_member ''type'' doc (ni_type node)\<rparr>;
             node = node\<lparr>ni_net_port := int_member ''net_port'' doc (ni_net_port node)\<rparr>;
             node = node\<lparr>ni_id := int_member ''id'' doc (ni_id node)\<rparr>;
             node = node\<lparr>ni_group_id := int_member ''group_id'' doc (ni_group_id node)\<rparr>;
             node = node\<lparr>ni_keep_alive_lease_id := int64_member ''keep_alive_lease_id'' doc (ni_keep_alive_lease_id node)\<rparr>
         in (case map_of doc ''meta_data'' of
               Some (RObj ms) \<Rightarrow>
                 (case meta_loop ms [] of
                    None \<Rightarrow> None
                  | Some meta \<Rightarrow> Some (True, node\<lparr>ni_meta_data := meta\<rparr>))
             | _ \<Rightarrow> Some (True, node))
     | Some _ \<Rightarrow> Some (False, node))"

definition node_doc :: "node_info \<Rightarrow> rj" where
  "node_doc node = RObj
    [(''service_id'', RStr (c_str (ni_service_id node))),
     (''service_name'', RStr (c_str (ni_service_name node))),
     (''ip'', RStr (c_str (ni_ip node))),
     (''port'', RInt (sint (ni_port node))),
     (''type'', RInt (sint (ni_type node))),
     (''net_port'', RInt (sint (ni_net_port node))),
     (''id'', RInt (sint (ni_id node))),
     (''group_id'', RInt (sint (ni_group_id node))),
     (''keep_alive_lease_id'', RInt (sint (ni_keep_alive_lease_id node))),
     (''meta_data'', RObj (map (\<lambda>(key, val). (c_str key, RStr (c_str val))) (ni_meta_data node)))]"

definition SerializeNodeInfo :: "(rj \<Rightarrow> string) \<Rightarrow> node_info \<Rightarrow> string" where
  "SerializeNodeInfo write node = c_str (write (node_doc node))"

text \<open>A new description: empty strings and zeros.\<close>

definition node_empty :: node_info where
  "node_empty = \<lparr>ni_service_id = [], ni_service_name = [], ni_ip = [], ni_type = 0, ni_port = 0, ni_net_port = 0,
    ni_id = 0, ni_group_id = 0, ni_meta_data = [], ni_keep_alive_lease_id = 0\<rparr>"

section \<open>Round trip\<close>

definition c_string :: "string \<Rightarrow> bool" where
  "c_string s \<longleftrightarrow> CHR 0x00 \<notin> set s"

lemma c_str_plain: "c_string s \<Longrightarrow> c_str s = s"
  unfolding c_string_def c_str_def by (rule takeWhile_eq_all_conv [THEN iffD2]) auto

lemma c_str_twice [simp]: "c_str (c_str s) = c_str s"
  by (simp add: c_str_def)

text \<open>What a node says of itself survives: strings without a zero byte, distinct keys.\<close>

definition plain_node :: "node_info \<Rightarrow> bool" where
  "plain_node n \<longleftrightarrow> c_string (ni_service_id n) \<and> c_string (ni_service_name n) \<and> c_string (ni_ip n) \<and>
    distinct (map fst (ni_meta_data n)) \<and> list_all (\<lambda>(k, v). c_string k \<and> c_string v) (ni_meta_data n)"

lemma meta_loop_plain:
  assumes "distinct (map fst (meta @ ms))" "list_all (\<lambda>(k, v). c_string k \<and> c_string v) ms"
  shows "meta_loop (map (\<lambda>(key, val). (c_str key, RStr (c_str val))) ms) meta = Some (meta @ ms)"
  using assms
proof (induction ms arbitrary: meta)
  case Nil
  then show ?case by simp
next
  case (Cons m ms)
  obtain k v where m: "m = (k, v)" "c_string k" "c_string v" using Cons.prems(2) by (cases m) auto
  have "k \<notin> fst ` set meta" using Cons.prems(1) m(1) by auto
  then have "AList.update k v meta = meta @ [(k, v)]" by (induction meta) auto
  then show ?case using Cons.IH [of "meta @ [(k, v)]"] Cons.prems m by (simp add: c_str_plain)
qed

lemma node_reads:
  assumes "plain_node n" "parse (c_str (write (node_doc n))) = Some (node_doc n)"
  shows "DeserializeNodeInfo parse (SerializeNodeInfo write n) node_empty = Some (True, n)"
proof -
  have meta: "meta_loop (map (\<lambda>(key, val). (c_str key, RStr (c_str val))) (ni_meta_data n)) [] = Some (ni_meta_data n)"
    using assms(1) meta_loop_plain [of "[]"] by (simp add: plain_node_def)
  have i: "IsInt (RInt (sint w))" for w :: i32
    using sint_lt [of w] sint_ge [of w] by (simp add: IsInt_def)
  have l: "IsInt64 (RInt (sint w))" for w :: i64
    using sint_lt [of w] sint_ge [of w] by (simp add: IsInt64_def)
  have s: "c_str (ni_service_id n) = ni_service_id n" "c_str (ni_service_name n) = ni_service_name n" "c_str (ni_ip n) = ni_ip n"
    using assms(1) by (simp_all add: plain_node_def c_str_plain)
  show ?thesis
    using assms(2) meta unfolding DeserializeNodeInfo_def SerializeNodeInfo_def node_doc_def
    by (simp add: str_member_def int_member_def int64_member_def get_int_def i l s node_empty_def)
qed

text \<open>A node description that was written is read back as it was: when rapidjson parses what it
  wrote, reading gives every field, with the meta data, and reports success.\<close>

theorem node_roundtrip:
  assumes "plain_node n" "parse (c_str (write (node_doc n))) = Some (node_doc n)"
  shows "DeserializeNodeInfo parse (SerializeNodeInfo write n) node_empty = Some (True, n)"
  by (rule node_reads) (fact assms)+

definition ex_game_node :: node_info where
  "ex_game_node = node_empty\<lparr>ni_service_id := ''c_game.V1/10.0.0.7:9100'', ni_service_name := ''c_game.V1'',
    ni_ip := ''10.0.0.7'', ni_type := 3, ni_port := 9100, ni_meta_data := [(''zone'', ''a'')]\<rparr>"

theorem node_roundtrip_witness:
  "DeserializeNodeInfo (\<lambda>s. if s = ''{..}'' then Some (node_doc ex_game_node) else None)
    (SerializeNodeInfo (\<lambda>d. ''{..}'') ex_game_node) node_empty = Some (True, ex_game_node)"
proof (rule node_roundtrip)
  show "plain_node ex_game_node"
    by (simp add: ex_game_node_def node_empty_def plain_node_def c_string_def)
qed (simp add: c_str_def)

end
