(* ===== verification/Tcp_Server.thy ===== *)
theory Tcp_Server
  imports Event_Loop Dispatch Json
begin

text \<open>
  The server and the client of src/transport: the boss loop that accepts connections and passes them to
  the worker loops in turn (ServerEventLoop.cpp), and the life of a server (AthenaTcpServer.cpp) and of a
  client (TcpClient.cpp) with their loops. Closing a handle that is not open, or using one that was
  deleted, is undefined in libuv; here it is \<open>None\<close>.
\<close>

section \<open>The boss\<close>

datatype uv_handle = Zeroed | Open_handle | Closing_handle

text \<open>The sockets and session pipes that are allocated one by one are numbered; a deleted one is \<open>None\<close>.
  \<open>write2s\<close> are the writes with a handle that libuv accepted, in order, \<open>in_flight\<close> those whose callback
  is outstanding, each as the socket and the session. \<open>listen_posts\<close> counts the queued tasks of
  \<open>startListen\<close>, the only tasks a boss gets.\<close>

record boss =
  base :: event_loop
  worker_num :: nat
  pipe_servers :: "uv_handle list"
  sessions :: "nat option list"
  handles :: "nat \<Rightarrow> uv_handle option"
  next_handle :: nat
  next_worker :: nat
  ready_workers :: nat
  bindPort :: int
  server :: uv_handle
  listening :: bool
  listen_ok :: bool
  listen_done :: bool
  listen_posts :: nat
  write2s :: "(nat \<times> nat) list"
  in_flight :: "(nat \<times> nat) list"

definition boss_new :: "event_loop \<Rightarrow> int \<Rightarrow> boss" where
  "boss_new L w =
    (let n = nat (if w < 1 then 1 else w) in
     \<lparr>base = L, worker_num = n, pipe_servers = replicate n Zeroed, sessions = [], handles = (\<lambda>i. None),
      next_handle = 0, next_worker = 0, ready_workers = 0, bindPort = 0, server = Zeroed,
      listening = False, listen_ok = False, listen_done = False, listen_posts = 0,
      write2s = [], in_flight = []\<rparr>)"

definition boss_bind :: "int \<Rightarrow> boss \<Rightarrow> boss" where
  "boss_bind port b = b\<lparr>bindPort := port\<rparr>"

definition waitWorkersReady :: "boss \<Rightarrow> bool" where
  "waitWorkersReady b \<longleftrightarrow> worker_num b \<le> ready_workers b"

definition notifyListenDone :: "boss \<Rightarrow> boss" where
  "notifyListenDone b = b\<lparr>listen_done := True\<rparr>"

definition waitListeningOk :: "boss \<Rightarrow> bool" where
  "waitListeningOk b \<longleftrightarrow> listen_done b \<and> listen_ok b"

definition indexOfPipeServer :: "nat \<Rightarrow> boss \<Rightarrow> nat option" where
  "indexOfPipeServer pipe b = (if pipe < worker_num b then Some pipe else None)"

text \<open>The ipc servers, one for each worker, given by what uv_pipe_init, uv_pipe_bind and uv_listen
  answer for it. A failure leaves the later ones as they were constructed.\<close>

fun init_pipes :: "(int \<times> int \<times> int) list \<Rightarrow> uv_handle list \<Rightarrow> bool \<times> uv_handle list" where
  "init_pipes ((i, b, l) # rets) (p # ps) =
    (if i \<noteq> 0 then (False, p # ps)
     else if b \<noteq> 0 then (False, Open_handle # ps)
     else if l \<noteq> 0 then (False, Open_handle # ps)
     else case init_pipes rets ps of (ok, ps') \<Rightarrow> (ok, Open_handle # ps'))"
| "init_pipes rets ps = (ps = [], ps)"

definition initIpcServers :: "(int \<times> int \<times> int) list \<Rightarrow> boss \<Rightarrow> bool \<times> boss" where
  "initIpcServers rets b =
    (case init_pipes rets (pipe_servers b) of (ok, ps) \<Rightarrow>
      (ok, b\<lparr>sessions := replicate (worker_num b) None, pipe_servers := ps\<rparr>))"

text \<open>The thread of the boss up to uv_run; the result says whether it is entered.\<close>

definition boss_run :: "int list \<Rightarrow> (int \<times> int \<times> int) list \<Rightarrow> boss \<Rightarrow> bool \<times> boss" where
  "boss_run rets ipc_rets b =
    (case initAsynEvent rets (base b) of (r, L) \<Rightarrow>
      if r \<noteq> 0 then (False, b\<lparr>base := L\<lparr>running := True\<rparr>\<rparr>)
      else case initIpcServers ipc_rets (b\<lparr>base := L\<rparr>) of (ok, b) \<Rightarrow>
        let L = (if ok then base b else loop_stop (base b))
        in (True, b\<lparr>base := L\<lparr>running := True\<rparr>\<rparr>))"

section \<open>Listening\<close>

record listen_env =
  l_tcp_init :: int
  l_ip4_addr :: int
  l_tcp_bind :: int
  l_listen :: int

definition startListen :: "boss \<Rightarrow> boss" where
  "startListen b = b\<lparr>listen_posts := listen_posts b + 1, base := wakeAsync (base b)\<rparr>"

definition listen_task :: "listen_env \<Rightarrow> boss \<Rightarrow> boss" where
  "listen_task uv b =
    (if l_tcp_init uv \<noteq> 0 then notifyListenDone b
     else let b = b\<lparr>server := Open_handle\<rparr> in
       if l_ip4_addr uv \<noteq> 0 then notifyListenDone b
       else if l_tcp_bind uv \<noteq> 0 then notifyListenDone b
       else if l_listen uv \<noteq> 0 then notifyListenDone b
       else notifyListenDone (b\<lparr>listening := True, listen_ok := True\<rparr>))"

section \<open>Accepting and handing over\<close>

definition close_handle :: "nat \<Rightarrow> boss \<Rightarrow> boss option" where
  "close_handle n b =
    (if handles b n = Some Open_handle then Some (b\<lparr>handles := (handles b)(n \<mapsto> Closing_handle)\<rparr>) else None)"

text \<open>The tries left and what uv_write2 answers for a session.\<close>

primrec handoff_loop :: "(nat \<Rightarrow> int) \<Rightarrow> nat \<Rightarrow> nat \<Rightarrow> boss \<Rightarrow> boss option" where
  "handoff_loop w2 client 0 b = close_handle client b"
| "handoff_loop w2 client (Suc tries) b =
    (if length (sessions b) \<le> next_worker b then None
     else
       let s = sessions b ! next_worker b;
           b = b\<lparr>next_worker := (next_worker b + 1) mod worker_num b\<rparr>
       in case s of
            None \<Rightarrow> handoff_loop w2 client tries b
          | Some p \<Rightarrow>
              if handles b p = None then None
              else if w2 p = 0 then
                Some (b\<lparr>write2s := write2s b @ [(client, p)], in_flight := in_flight b @ [(client, p)]\<rparr>)
              else close_handle client b)"

definition handoffToWorker :: "(nat \<Rightarrow> int) \<Rightarrow> nat \<Rightarrow> boss \<Rightarrow> boss option" where
  "handoffToWorker w2 client b = handoff_loop w2 client (worker_num b) b"

definition uv_on_new_connection :: "int \<Rightarrow> int \<Rightarrow> int \<Rightarrow> (nat \<Rightarrow> int) \<Rightarrow> boss \<Rightarrow> boss option" where
  "uv_on_new_connection status init_ret accept_ret w2 b =
    (if status < 0 then Some b
     else
       let client = next_handle b; b = b\<lparr>next_handle := client + 1\<rparr> in
       if init_ret \<noteq> 0 then Some b
       else
         let b = b\<lparr>handles := (handles b)(client \<mapsto> Open_handle)\<rparr> in
         if accept_ret \<noteq> 0 then close_handle client b
         else handoffToWorker w2 client b)"

text \<open>The callback of one of the writes in flight; the socket is closed whatever its status.\<close>

definition after_handoff_cb :: "nat \<Rightarrow> int \<Rightarrow> boss \<Rightarrow> boss option" where
  "after_handoff_cb k status b =
    close_handle (fst (in_flight b ! k))
      (b\<lparr>in_flight := take k (in_flight b) @ drop (Suc k) (in_flight b)\<rparr>)"

definition uv_on_pipe_connection :: "nat \<Rightarrow> int \<Rightarrow> int \<Rightarrow> int \<Rightarrow> boss \<Rightarrow> boss option" where
  "uv_on_pipe_connection pipe status init_ret accept_ret b =
    (if status < 0 then Some b
     else case indexOfPipeServer pipe b of
         None \<Rightarrow> Some b
       | Some idx \<Rightarrow>
           let session = next_handle b; b = b\<lparr>next_handle := session + 1\<rparr> in
           if init_ret \<noteq> 0 then Some b
           else
             let b = b\<lparr>handles := (handles b)(session \<mapsto> Open_handle)\<rparr> in
             if accept_ret \<noteq> 0 then close_handle session b
             else Some (b\<lparr>sessions := (sessions b)[idx := Some session],
                         ready_workers := ready_workers b + 1\<rparr>))"

section \<open>Stopping the boss\<close>

primrec close_pipes :: "uv_handle list \<Rightarrow> uv_handle list option" where
  "close_pipes [] = Some []"
| "close_pipes (p # ps) =
    (if p = Zeroed then None else map_option (\<lambda>ps'. Closing_handle # ps') (close_pipes ps))"

primrec close_sessions :: "nat option list \<Rightarrow> boss \<Rightarrow> boss option" where
  "close_sessions [] b = Some b"
| "close_sessions (s # ss) b =
    (case s of
       None \<Rightarrow> close_sessions ss b
     | Some p \<Rightarrow>
         if handles b p = Some Closing_handle then close_sessions ss b
         else Option.bind (close_handle p b) (close_sessions ss))"

definition boss_onStopTriggered :: "(event_loop \<Rightarrow> uv_env) \<Rightarrow> boss \<Rightarrow> boss option" where
  "boss_onStopTriggered uv b =
    (let b = (if listening b \<and> server b \<noteq> Closing_handle then b\<lparr>server := Closing_handle\<rparr> else b) in
     case close_pipes (pipe_servers b) of
       None \<Rightarrow> None
     | Some ps \<Rightarrow>
         (case close_sessions (sessions b) (b\<lparr>pipe_servers := ps\<rparr>) of
            None \<Rightarrow> None
          | Some b \<Rightarrow> map_option (\<lambda>L. b\<lparr>base := L\<rparr>) (onStopTriggered uv [] (base b))))"

section \<open>What happens to a boss\<close>

datatype boss_event =
    New_conn int int int "nat \<Rightarrow> int"
  | Handoff_done nat int
  | Pipe_conn nat int int int
  | Deleted nat
  | Start_listen
  | Run_listen listen_env
  | Stop_boss "event_loop \<Rightarrow> uv_env"

fun boss_handle :: "boss_event \<Rightarrow> boss \<Rightarrow> boss option" where
  "boss_handle (New_conn status i a w2) b = uv_on_new_connection status i a w2 b"
| "boss_handle (Handoff_done k status) b = after_handoff_cb k status b"
| "boss_handle (Pipe_conn pipe status i a) b = uv_on_pipe_connection pipe status i a b"
| "boss_handle (Deleted n) b = Some (b\<lparr>handles := (handles b)(n := None)\<rparr>)"
| "boss_handle Start_listen b = Some (startListen b)"
| "boss_handle (Run_listen uv) b = Some (listen_task uv (b\<lparr>listen_posts := listen_posts b - 1\<rparr>))"
| "boss_handle (Stop_boss uv) b = boss_onStopTriggered uv b"

definition stopped :: "boss \<Rightarrow> bool" where
  "stopped b \<longleftrightarrow> asyncs_closing (base b)"

text \<open>When libuv and the servers let it happen: connections arrive on a listening handle that is not
  closed; every worker connects once; a write is called back once; a closed handle is deleted by its
  callback; the stop is handled once, after the wake-ups sent before it.\<close>

fun possible :: "boss_event \<Rightarrow> boss \<Rightarrow> bool" where
  "possible (New_conn status i a w2) b \<longleftrightarrow> listening b \<and> server b = Open_handle"
| "possible (Handoff_done k status) b \<longleftrightarrow> k < length (in_flight b)"
| "possible (Pipe_conn pipe status i a) b \<longleftrightarrow>
    pipe < length (pipe_servers b) \<and> pipe_servers b ! pipe = Open_handle \<and> sessions b ! pipe = None"
| "possible (Deleted n) b \<longleftrightarrow> handles b n = Some Closing_handle"
| "possible Start_listen b \<longleftrightarrow> \<not> stopped b"
| "possible (Run_listen uv) b \<longleftrightarrow> \<not> stopped b \<and> 0 < listen_posts b"
| "possible (Stop_boss uv) b \<longleftrightarrow> \<not> stopped b \<and> listen_posts b = 0"

primrec boss_exec :: "boss_event list \<Rightarrow> boss \<Rightarrow> boss option" where
  "boss_exec [] b = Some b"
| "boss_exec (e # es) b = Option.bind (boss_handle e b) (boss_exec es)"

primrec history :: "boss_event list \<Rightarrow> boss \<Rightarrow> bool" where
  "history [] b \<longleftrightarrow> True"
| "history (e # es) b \<longleftrightarrow> possible e b \<and> (case boss_handle e b of None \<Rightarrow> True | Some b' \<Rightarrow> history es b')"

section \<open>The handles of a boss\<close>

definition boss_shape :: "boss \<Rightarrow> bool" where
  "boss_shape b \<longleftrightarrow> 0 < worker_num b \<and> length (pipe_servers b) = worker_num b \<and>
    length (sessions b) = worker_num b \<and> next_worker b < worker_num b \<and>
    Zeroed \<notin> set (pipe_servers b) \<and> waitTasks (base b) = [] \<and>
    (listening b \<longrightarrow> server b \<noteq> Zeroed) \<and>
    (stopped b \<longrightarrow> \<not> (listening b \<and> server b = Open_handle) \<and> set (pipe_servers b) \<subseteq> {Closing_handle}) \<and>
    ready_workers b = length (filter (\<lambda>s. s \<noteq> None) (sessions b))"

definition session_set :: "boss \<Rightarrow> nat set" where
  "session_set b = {p. Some p \<in> set (sessions b)}"

definition flying :: "boss \<Rightarrow> nat set" where
  "flying b = fst ` set (in_flight b)"

text \<open>A socket is open exactly while its write is in flight, a session until the stop.\<close>

definition boss_owns :: "boss \<Rightarrow> bool" where
  "boss_owns b \<longleftrightarrow>
    (\<forall>n. handles b n \<noteq> None \<longrightarrow> n < next_handle b) \<and>
    (\<forall>n. handles b n = Some Open_handle \<longleftrightarrow> n \<in> flying b \<or> \<not> stopped b \<and> n \<in> session_set b) \<and>
    flying b \<inter> session_set b = {} \<and> (\<forall>n \<in> session_set b. n < next_handle b) \<and>
    distinct (map fst (in_flight b)) \<and> distinct (filter (\<lambda>s. s \<noteq> None) (sessions b)) \<and>
    distinct (map fst (write2s b)) \<and> (\<forall>n \<in> fst ` set (write2s b). n < next_handle b)"

text \<open>The state in which a socket was accepted and is not yet handed over.\<close>

definition holding :: "nat \<Rightarrow> boss \<Rightarrow> boss" where
  "holding n b = b\<lparr>handles := (handles b)(n \<mapsto> Open_handle)\<rparr>"

lemma holding_close:
  assumes "boss_shape b" "boss_owns b" "n < next_handle b" "n \<notin> session_set b" "n \<notin> flying b"
  shows "\<exists>b'. close_handle n (holding n b) = Some b' \<and> boss_shape b' \<and> boss_owns b' \<and>
    write2s b' = write2s b \<and> sessions b' = sessions b \<and> next_worker b' = next_worker b \<and> stopped b' = stopped b"
  using assms
  by (auto simp: close_handle_def holding_def boss_shape_def boss_owns_def flying_def session_set_def stopped_def)

lemma boss_shape_next: "boss_shape b \<Longrightarrow> boss_shape (b\<lparr>next_worker := (next_worker b + 1) mod worker_num b\<rparr>)"
  by (simp add: boss_shape_def stopped_def)

lemma boss_owns_next: "boss_owns b \<Longrightarrow> boss_owns (b\<lparr>next_worker := w\<rparr>)"
  by (simp add: boss_owns_def stopped_def flying_def session_set_def)

lemma handoff_owns:
  assumes "boss_shape b" "boss_owns b" "\<not> stopped b" "n < next_handle b" "n \<notin> session_set b" "n \<notin> flying b"
    "n \<notin> fst ` set (write2s b)"
  shows "\<exists>b'. handoff_loop w2 n k (holding n b) = Some b' \<and> boss_shape b' \<and> boss_owns b'"
  using assms
proof (induction k arbitrary: b)
  case 0
  then show ?case using holding_close [of b n] by auto
next
  case (Suc k)
  let ?b = "b\<lparr>next_worker := (next_worker b + 1) mod worker_num b\<rparr>"
  have h: "(holding n b)\<lparr>next_worker := (next_worker b + 1) mod worker_num b\<rparr> = holding n ?b"
    by (simp add: holding_def)
  have f: "next_worker (holding n b) = next_worker b" "sessions (holding n b) = sessions b"
    "worker_num (holding n b) = worker_num b" "\<not> length (sessions b) \<le> next_worker b"
    using Suc.prems(1) by (simp_all add: holding_def boss_shape_def)
  have b: "boss_shape ?b" "boss_owns ?b" "\<not> stopped ?b" "n < next_handle ?b" "n \<notin> session_set ?b"
    "n \<notin> flying ?b" "n \<notin> fst ` set (write2s ?b)"
    using Suc.prems boss_shape_next boss_owns_next by (simp_all add: stopped_def session_set_def flying_def)
  show ?case
  proof (cases "sessions b ! next_worker b")
    case None
    then show ?thesis using Suc.IH [OF b] by (simp add: f h [simplified] Let_def)
  next
    case (Some p)
    then have p: "p \<in> session_set b" using f(4) nth_mem [of "next_worker b" "sessions b"] by (simp add: session_set_def)
    then have open_p: "handles b p = Some Open_handle" "p \<noteq> n"
      using Suc.prems by (auto simp: boss_owns_def)
    show ?thesis
    proof (cases "w2 p = 0")
      case True
      have "boss_shape ((holding n ?b)\<lparr>write2s := write2s b @ [(n, p)], in_flight := in_flight b @ [(n, p)]\<rparr>)"
        using b(1) by (simp add: boss_shape_def holding_def stopped_def)
      moreover have "boss_owns ((holding n ?b)\<lparr>write2s := write2s b @ [(n, p)], in_flight := in_flight b @ [(n, p)]\<rparr>)"
        using b by (auto simp: boss_owns_def holding_def stopped_def flying_def session_set_def)
      ultimately show ?thesis using True Some open_p by (simp add: f h [simplified] Let_def) (simp add: holding_def)
    next
      case False
      then show ?thesis using Some open_p holding_close [OF b(1,2,4-6)]
        by (simp add: f h [simplified] Let_def) (auto simp: holding_def)
    qed
  qed
qed

lemma new_connection_owns:
  assumes "boss_shape b" "boss_owns b" "\<not> stopped b"
  shows "\<exists>b'. uv_on_new_connection status i a w2 b = Some b' \<and> boss_shape b' \<and> boss_owns b'"
proof -
  let ?n = "next_handle b" and ?b = "b\<lparr>next_handle := next_handle b + 1\<rparr>"
  have fresh: "?n \<notin> session_set b" "?n \<notin> flying b" "?n \<notin> fst ` set (write2s b)"
    using assms(2) by (auto simp: boss_owns_def)
  have b: "boss_shape ?b" "boss_owns ?b" "\<not> stopped ?b"
    using assms by (auto simp: boss_shape_def boss_owns_def stopped_def session_set_def flying_def less_Suc_eq)
  have f: "?n < next_handle ?b" "?n \<notin> session_set ?b" "?n \<notin> flying ?b" "?n \<notin> fst ` set (write2s ?b)"
    using fresh by (simp_all add: session_set_def flying_def)
  show ?thesis
    using assms(1,2) b(1,2) holding_close [OF b(1,2) f(1-3)] handoff_owns [OF b f]
    by (auto simp: uv_on_new_connection_def handoffToWorker_def Let_def holding_def)
qed

lemma pipe_connection_owns:
  assumes "boss_shape b" "boss_owns b" "pipe < length (pipe_servers b)" "pipe_servers b ! pipe = Open_handle"
    "sessions b ! pipe = None"
  shows "\<exists>b'. uv_on_pipe_connection pipe status i a b = Some b' \<and> boss_shape b' \<and> boss_owns b'"
proof -
  let ?n = "next_handle b" and ?b = "b\<lparr>next_handle := next_handle b + 1\<rparr>"
  have ns: "\<not> stopped b" using assms(1,3,4) nth_mem [OF assms(3)] by (auto simp: boss_shape_def)
  have fresh: "?n \<notin> session_set b" "?n \<notin> flying b"
    using assms(2) by (auto simp: boss_owns_def)
  have b: "boss_shape ?b" "boss_owns ?b" "\<not> stopped ?b"
    using assms(1,2) ns by (auto simp: boss_shape_def boss_owns_def stopped_def session_set_def flying_def less_Suc_eq)
  have f: "?n < next_handle ?b" "?n \<notin> session_set ?b" "?n \<notin> flying ?b"
    using fresh by (simp_all add: session_set_def flying_def)
  have idx: "pipe < length (sessions b)" "indexOfPipeServer pipe b = Some pipe"
    using assms(1,3) by (simp_all add: boss_shape_def indexOfPipeServer_def)
  let ?c = "(holding ?n ?b)\<lparr>sessions := (sessions b)[pipe := Some ?n], ready_workers := ready_workers b + 1\<rparr>"
  define l r where "l = take pipe (sessions b)" and "r = drop (Suc pipe) (sessions b)"
  have s: "sessions b = l @ None # r" "(sessions b)[pipe := Some ?n] = l @ Some ?n # r"
    using idx(1) assms(5) by (simp_all add: l_def r_def id_take_nth_drop [symmetric] upd_conv_take_nth_drop)
      (metis id_take_nth_drop)
  have "boss_shape ?c" using b(1) ns s by (auto simp: boss_shape_def holding_def stopped_def)
  moreover have "(?n, p) \<notin> set (in_flight b)" for p using fresh(2) by (force simp: flying_def)
  then have "boss_owns ?c"
    using b(2) ns s fresh by (auto simp: boss_owns_def holding_def stopped_def flying_def session_set_def)
  ultimately show ?thesis
    using assms(1,2) b(1,2) holding_close [OF b(1,2) f] idx(2)
    by (auto simp: uv_on_pipe_connection_def Let_def holding_def)
qed

lemma handoff_done_owns:
  assumes "boss_shape b" "boss_owns b" "k < length (in_flight b)"
  shows "\<exists>b'. after_handoff_cb k status b = Some b' \<and> boss_shape b' \<and> boss_owns b'"
proof -
  obtain c p where cp: "in_flight b ! k = (c, p)" by fastforce
  define l r where "l = take k (in_flight b)" and "r = drop (Suc k) (in_flight b)"
  have s: "in_flight b = l @ (c, p) # r"
    using assms(3) cp by (simp add: l_def r_def) (metis id_take_nth_drop)
  have "handles b c = Some Open_handle" using assms(2) s by (auto simp: boss_owns_def flying_def)
  then show ?thesis
    using assms(1,2) s cp unfolding after_handoff_cb_def l_def [symmetric] r_def [symmetric]
    by (auto simp: close_handle_def boss_shape_def boss_owns_def stopped_def flying_def session_set_def)
qed

lemma close_pipes_ok: "Zeroed \<notin> set ps \<Longrightarrow> close_pipes ps = Some (replicate (length ps) Closing_handle)"
  by (induction ps) auto

lemma close_sessions_ok:
  assumes "\<forall>p. Some p \<in> set ss \<longrightarrow> handles b p = Some Open_handle" "distinct (filter (\<lambda>s. s \<noteq> None) ss)"
  shows "close_sessions ss b =
    Some (b\<lparr>handles := (\<lambda>n. if Some n \<in> set ss then Some Closing_handle else handles b n)\<rparr>)"
  using assms
proof (induction ss arbitrary: b)
  case Nil
  then show ?case by simp
next
  case (Cons s ss)
  show ?case
  proof (cases s)
    case None
    then show ?thesis using Cons by auto
  next
    case (Some p)
    let ?b = "b\<lparr>handles := (handles b)(p \<mapsto> Closing_handle)\<rparr>"
    have "Some p \<notin> set ss" using Cons.prems(2) Some by auto
    then have "close_sessions ss ?b =
        Some (?b\<lparr>handles := (\<lambda>n. if Some n \<in> set ss then Some Closing_handle else handles ?b n)\<rparr>)"
      using Cons.prems Some by (intro Cons.IH) (auto split: if_splits)
    moreover have "close_handle p b = Some ?b" "handles b p = Some Open_handle"
      using Cons.prems(1) Some by (auto simp: close_handle_def)
    ultimately show ?thesis using Some by (auto simp: fun_eq_iff)
  qed
qed

lemma base_stop:
  "waitTasks L = [] \<Longrightarrow> onStopTriggered uv [] L = Some ((closeIpcPipe L)\<lparr>asyncs_closing := True\<rparr>)"
  by (simp add: onStopTriggered_def) (subst execute.simps, simp)

lemma stop_owns:
  assumes "boss_shape b" "boss_owns b" "\<not> stopped b"
  shows "\<exists>b'. boss_onStopTriggered uv b = Some b' \<and> boss_shape b' \<and> boss_owns b' \<and> stopped b'"
proof -
  let ?b = "if listening b \<and> server b \<noteq> Closing_handle then b\<lparr>server := Closing_handle\<rparr> else b"
  let ?c = "?b\<lparr>pipe_servers := replicate (worker_num b) Closing_handle\<rparr>"
  let ?d = "?c\<lparr>handles := (\<lambda>n. if Some n \<in> set (sessions b) then Some Closing_handle else handles b n),
    base := (closeIpcPipe (base b))\<lparr>asyncs_closing := True\<rparr>\<rparr>"
  have "close_pipes (pipe_servers b) = Some (replicate (worker_num b) Closing_handle)"
    using assms(1) by (simp add: boss_shape_def close_pipes_ok)
  moreover have "close_sessions (sessions b) ?c =
      Some (?c\<lparr>handles := (\<lambda>n. if Some n \<in> set (sessions b) then Some Closing_handle else handles b n)\<rparr>)"
    using assms by (subst close_sessions_ok) (auto simp: boss_owns_def session_set_def cong: if_cong)
  moreover have "waitTasks (base b) = []" using assms(1) by (simp add: boss_shape_def)
  ultimately have "boss_onStopTriggered uv b = Some ?d"
    by (cases "listening b \<and> server b \<noteq> Closing_handle") (auto simp: boss_onStopTriggered_def base_stop)
  moreover have "boss_shape ?d" using assms(1) by (auto simp: boss_shape_def stopped_def)
  moreover have "boss_owns ?d" using assms by (auto simp: boss_owns_def stopped_def flying_def session_set_def)
  moreover have "stopped ?d" by (simp add: stopped_def)
  ultimately show ?thesis by blast
qed

lemma wakeAsync_more [simp]: "asyncs_closing (wakeAsync L) = asyncs_closing L"
  by (simp add: wakeAsync_def)

lemma deleted_owns:
  assumes "handles b n = Some Closing_handle" "boss_owns b"
  shows "boss_owns (b\<lparr>handles := (handles b)(n := None)\<rparr>)"
proof -
  have "handles b n \<noteq> Some Open_handle" using assms(1) by simp
  then have "n \<notin> flying b" "stopped b \<or> n \<notin> session_set b" using assms(2) by (auto simp: boss_owns_def)
  moreover have "flying (b\<lparr>handles := h\<rparr>) = flying b" "session_set (b\<lparr>handles := h\<rparr>) = session_set b"
    "stopped (b\<lparr>handles := h\<rparr>) = stopped b" for h
    by (simp_all add: flying_def session_set_def stopped_def)
  ultimately show ?thesis using assms(2) by (auto simp: boss_owns_def)
qed

lemma listen_owns:
  assumes "boss_shape b" "boss_owns b" "\<not> stopped b"
  shows "boss_shape (listen_task uv (b\<lparr>listen_posts := q\<rparr>)) \<and> boss_owns (listen_task uv (b\<lparr>listen_posts := q\<rparr>))"
  using assms
  by (auto simp: listen_task_def notifyListenDone_def boss_shape_def boss_owns_def stopped_def flying_def session_set_def Let_def)

lemma boss_handle_owns:
  assumes "boss_shape b" "boss_owns b" "possible e b"
  shows "\<exists>b'. boss_handle e b = Some b' \<and> boss_shape b' \<and> boss_owns b'"
proof (cases e)
  case (New_conn status i a w2)
  then show ?thesis using new_connection_owns [OF assms(1,2)] assms(1,3) by (auto simp: boss_shape_def)
next
  case (Handoff_done k status)
  then show ?thesis using handoff_done_owns [OF assms(1,2)] assms(3) by simp
next
  case (Pipe_conn pipe status i a)
  then show ?thesis using pipe_connection_owns [OF assms(1,2)] assms(3) by simp
next
  case (Deleted n)
  then show ?thesis using assms deleted_owns [of b n] by (simp add: boss_shape_def stopped_def)
next
  case Start_listen
  then show ?thesis using assms
    by (simp add: startListen_def boss_shape_def boss_owns_def stopped_def flying_def session_set_def)
next
  case (Run_listen uv)
  then show ?thesis using listen_owns assms by simp
next
  case (Stop_boss uv)
  then show ?thesis using stop_owns [OF assms(1,2)] assms(3) by auto
qed

lemma boss_exec_owns:
  "boss_shape b \<Longrightarrow> boss_owns b \<Longrightarrow> history es b \<Longrightarrow>
    \<exists>b'. boss_exec es b = Some b' \<and> boss_shape b' \<and> boss_owns b'"
proof (induction es arbitrary: b)
  case Nil
  then show ?case by simp
next
  case (Cons e es)
  then obtain b' where "boss_handle e b = Some b'" "boss_shape b'" "boss_owns b'"
    using boss_handle_owns [of b e] by auto
  then show ?case using Cons by simp
qed

lemma init_pipes_ok:
  "fst (init_pipes rets ps) \<Longrightarrow> snd (init_pipes rets ps) = replicate (length ps) Open_handle"
  by (induction rets ps rule: init_pipes.induct) (auto split: if_splits prod.splits)

lemma boss_started:
  assumes "boss_run rets ipc (boss_bind port (boss_new L w)) = (True, b)" "\<not> stopping (base b)"
    "waitTasks L = []" "\<not> asyncs_closing L"
  shows "boss_shape b \<and> boss_owns b \<and> \<not> stopped b"
proof -
  let ?n = "nat (if w < 1 then 1 else w)"
  obtain L' where L': "initAsynEvent rets L = (0, L')" "waitTasks L' = []" "\<not> asyncs_closing L'"
    using assms(1,3,4) by (auto simp: boss_run_def boss_bind_def boss_new_def initAsynEvent_def Let_def
        split: list.splits prod.splits if_splits)
  obtain ok ps where ps: "init_pipes ipc (replicate ?n Zeroed) = (ok, ps)" by fastforce
  have "ok"
  proof (rule ccontr)
    assume "\<not> ok"
    then have "stopping (base b)" using assms(1) L'(1) ps
      by (auto simp: boss_run_def boss_bind_def boss_new_def initIpcServers_def loop_stop_def Let_def split: if_splits)
    then show False using assms(2) by simp
  qed
  then have "ps = replicate ?n Open_handle" using init_pipes_ok [of ipc "replicate ?n Zeroed"] ps by simp
  then show ?thesis using assms(1) L' ps \<open>ok\<close>
    by (auto simp: boss_run_def boss_bind_def boss_new_def initIpcServers_def Let_def boss_shape_def boss_owns_def
        stopped_def flying_def session_set_def)
qed

section \<open>Turns\<close>

text \<open>How often a counter that goes round \<open>n\<close> places from \<open>a\<close> stops at place \<open>i\<close> in \<open>k\<close> steps.\<close>

lemma round_count:
  assumes "n = Suc (i + d)"
  shows "length (filter (\<lambda>j. (a + j) mod n = i) [0..<k]) + (a + d) div n = (a + k + d) div n"
proof (induction k)
  case 0
  then show ?case by simp
next
  case (Suc k)
  define x where "x = (a + k) mod n"
  have "Suc (a + k + d) mod n = 0 \<longleftrightarrow> (a + k) mod n = i"
  proof -
    have "Suc (a + k + d) = a + k + Suc d" by simp
    also have "\<dots> mod n = ((a + k) mod n + Suc d) mod n" by (rule mod_add_left_eq [symmetric])
    finally have "Suc (a + k + d) mod n = (x + Suc d) mod n" by (simp only: x_def)
    moreover have "x < n" using assms by (simp add: x_def)
    ultimately show ?thesis
    proof (cases "x + Suc d < n")
      case False
      then have "(x + Suc d) mod n = x + Suc d - n" using \<open>x < n\<close> assms by (simp add: le_mod_geq)
      then show ?thesis using \<open>_ = (x + Suc d) mod n\<close> False assms unfolding x_def [symmetric] by linarith
    next
      case True
      then show ?thesis using \<open>_ = (x + Suc d) mod n\<close> assms unfolding x_def [symmetric] by simp
    qed
  qed
  then show ?case using Suc by (simp add: div_Suc)
qed

lemma round_fair:
  assumes "i < n" "i' < n"
  shows "length (filter (\<lambda>j. (a + j) mod n = i) [0..<k]) \<le> length (filter (\<lambda>j. (a + j) mod n = i') [0..<k]) + 1"
proof -
  have bound: "k div n \<le> length (filter (\<lambda>j. (a + j) mod n = i) [0..<k]) \<and>
      length (filter (\<lambda>j. (a + j) mod n = i) [0..<k]) \<le> k div n + 1" if i: "i < n" for i
  proof -
    obtain d where d: "n = Suc (i + d)" using less_imp_Suc_add [OF i] by (elim exE)
    have pos: "0 < n" using d by simp
    have c: "a + k + d = (a + d) + k" by simp
    have e: "(a + k + d) div n = (a + d) div n + k div n + ((a + d) mod n + k mod n) div n"
      unfolding c by (rule div_add1_eq)
    have "(a + d) mod n + k mod n < 2 * n"
      using mod_less_divisor [OF pos, of "a + d"] mod_less_divisor [OF pos, of k] by linarith
    then have "((a + d) mod n + k mod n) div n < 2" by (rule less_mult_imp_div_less)
    then show ?thesis using e round_count [OF d, of a k] by (intro conjI) linarith+
  qed
  show ?thesis using bound [OF assms(1)] bound [OF assms(2)] by linarith
qed

section \<open>Handing over in turn\<close>

definition arrives :: "boss_event \<Rightarrow> bool" where
  "arrives e \<longleftrightarrow> (case e of New_conn status i a w2 \<Rightarrow> 0 \<le> status \<and> i = 0 \<and> a = 0 | _ \<Rightarrow> False)"

definition willing :: "boss_event \<Rightarrow> bool" where
  "willing e \<longleftrightarrow> (case e of New_conn status i a w2 \<Rightarrow> \<forall>p. w2 p = 0 | _ \<Rightarrow> True)"

text \<open>The sessions that the next \<open>k\<close> connections go to.\<close>

definition turns :: "boss \<Rightarrow> nat \<Rightarrow> nat list" where
  "turns b k = map (\<lambda>j. the (sessions b ! ((next_worker b + j) mod worker_num b))) [0..<k]"

definition same_workers :: "boss \<Rightarrow> boss \<Rightarrow> nat \<Rightarrow> bool" where
  "same_workers b b' k \<longleftrightarrow> sessions b' = sessions b \<and> worker_num b' = worker_num b \<and>
    next_worker b' = (next_worker b + k) mod worker_num b \<and>
    map snd (write2s b') = map snd (write2s b) @ turns b k"

lemma handoff_in_turn:
  assumes "boss_shape b" "boss_owns b" "\<not> stopped b" "None \<notin> set (sessions b)" "\<forall>p. w2 p = 0"
    "uv_on_new_connection status 0 0 w2 b = Some b'" "0 \<le> status"
  shows "same_workers b b' 1"
proof -
  let ?w = "next_worker b"
  obtain m where m: "worker_num b = Suc m" using assms(1) by (cases "worker_num b") (auto simp: boss_shape_def)
  have w: "?w < length (sessions b)" using assms(1) by (auto simp: boss_shape_def)
  have "sessions b ! ?w \<noteq> None"
  proof
    assume "sessions b ! ?w = None"
    then show False using assms(4) nth_mem [OF w] by simp
  qed
  then obtain p where p: "sessions b ! ?w = Some p" by (elim not_None_eq [THEN iffD1, elim_format] exE)
  then have "p \<in> session_set b" using nth_mem [OF w] by (simp add: session_set_def)
  then have "handles b p = Some Open_handle" "p < next_handle b" using assms(2,3) by (auto simp: boss_owns_def)
  then have "uv_on_new_connection status 0 0 w2 b =
      Some (b\<lparr>next_handle := next_handle b + 1, handles := (handles b)(next_handle b \<mapsto> Open_handle),
        next_worker := (?w + 1) mod worker_num b, write2s := write2s b @ [(next_handle b, p)],
        in_flight := in_flight b @ [(next_handle b, p)]\<rparr>)"
    using assms(5,7) p w by (simp add: uv_on_new_connection_def handoffToWorker_def Let_def m)
  then have "write2s b' = write2s b @ [(next_handle b, p)] \<and> sessions b' = sessions b \<and>
      worker_num b' = worker_num b \<and> next_worker b' = (?w + 1) mod worker_num b"
    using assms(6) by (simp del: One_nat_def add_Suc_right Nat.add_0_right) 
  then show ?thesis using p assms(1) by (simp add: same_workers_def turns_def boss_shape_def)
qed

lemma same_workers_trans:
  assumes "same_workers b c k" "same_workers c d l"
  shows "same_workers b d (k + l)"
proof -
  have "turns c l = map (\<lambda>j. the (sessions b ! ((next_worker b + (k + j)) mod worker_num b))) [0..<l]"
    using assms(1) by (simp add: turns_def same_workers_def mod_add_left_eq add.assoc)
  also have "\<dots> = map (\<lambda>j. the (sessions b ! ((next_worker b + j) mod worker_num b))) [k..<k + l]"
    by (rule nth_equalityI) (simp_all add: add.assoc)
  finally have "turns b k @ turns c l = turns b (k + l)"
    by (simp add: turns_def upt_add_eq_append [of 0 k l])
  then show ?thesis using assms by (simp add: same_workers_def mod_add_left_eq add.assoc)
qed

lemma same_workers_quiet:
  "sessions b' = sessions b \<Longrightarrow> worker_num b' = worker_num b \<Longrightarrow> next_worker b' = next_worker b \<Longrightarrow>
    write2s b' = write2s b \<Longrightarrow> boss_shape b \<Longrightarrow> same_workers b b' 0"
  by (simp add: same_workers_def turns_def boss_shape_def)

lemma close_handle_fields:
  "close_handle n b = Some b' \<Longrightarrow> sessions b' = sessions b \<and> worker_num b' = worker_num b \<and>
    next_worker b' = next_worker b \<and> write2s b' = write2s b"
  by (auto simp: close_handle_def split: if_splits)

lemma close_sessions_fields:
  "close_sessions ss b = Some b' \<Longrightarrow> sessions b' = sessions b \<and> worker_num b' = worker_num b \<and>
    next_worker b' = next_worker b \<and> write2s b' = write2s b"
  by (induction ss arbitrary: b)
    (auto dest: close_handle_fields split: option.splits if_splits bind_splits)

lemma boss_handle_turn:
  assumes "boss_shape b" "boss_owns b" "None \<notin> set (sessions b)" "possible e b" "willing e" "boss_handle e b = Some b'"
  shows "same_workers b b' (if arrives e then 1 else 0)"
proof (cases e)
  case (New_conn status i a w2)
  show ?thesis
  proof (cases "arrives e")
    case True
    then show ?thesis using New_conn assms handoff_in_turn [OF assms(1,2) _ assms(3)]
      by (auto simp: arrives_def willing_def boss_shape_def)
  next
    case False
    then show ?thesis using New_conn assms(1,6)
      by (auto intro!: same_workers_quiet simp: uv_on_new_connection_def arrives_def Let_def
          dest!: close_handle_fields split: if_splits)
  qed
next
  case (Handoff_done k status)
  then show ?thesis using assms(1,6)
    by (auto intro!: same_workers_quiet simp: after_handoff_cb_def arrives_def dest!: close_handle_fields)
next
  case (Pipe_conn pipe status i a)
  then have "pipe < length (sessions b)" "sessions b ! pipe = None"
    using assms(1,4) by (auto simp: boss_shape_def)
  then show ?thesis using assms(3) nth_mem [of pipe "sessions b"] by simp
next
  case (Run_listen uv)
  then show ?thesis using assms(1,6)
    by (auto intro!: same_workers_quiet simp: listen_task_def notifyListenDone_def arrives_def Let_def)
next
  case (Stop_boss uv)
  then show ?thesis using assms(1,6)
    by (auto intro!: same_workers_quiet simp: boss_onStopTriggered_def arrives_def Let_def
        dest!: close_sessions_fields split: option.splits if_splits)
qed (use assms(1,6) in \<open>auto intro!: same_workers_quiet simp: startListen_def arrives_def\<close>)

lemma boss_exec_turns:
  assumes "boss_shape b" "boss_owns b" "None \<notin> set (sessions b)" "history es b" "list_all willing es"
  shows "\<exists>b'. boss_exec es b = Some b' \<and> same_workers b b' (length (filter arrives es))"
  using assms
proof (induction es arbitrary: b)
  case Nil
  then show ?case by (simp add: same_workers_quiet)
next
  case (Cons e es)
  obtain c where c: "boss_handle e b = Some c" "boss_shape c" "boss_owns c"
    using boss_handle_owns [OF Cons.prems(1,2)] Cons.prems(4) by auto
  have s: "same_workers b c (if arrives e then 1 else 0)"
    using boss_handle_turn [OF Cons.prems(1-3) _ _ c(1)] Cons.prems(4,5) by simp
  then obtain d where "boss_exec es c = Some d" "same_workers c d (length (filter arrives es))"
    using Cons.IH [OF c(2,3)] Cons.prems c(1) by (auto simp: same_workers_def)
  then show ?case using c(1) same_workers_trans [OF s] by fastforce
qed

lemma count_list_map: "count_list (map f xs) y = length (filter (\<lambda>x. f x = y) xs)"
  by (induction xs) auto

lemma turn_count:
  assumes "boss_shape b" "boss_owns b" "i < length (sessions b)" "sessions b ! i = Some p" "None \<notin> set (sessions b)"
  shows "count_list (turns b k) p =
    length (filter (\<lambda>j. (next_worker b + j) mod worker_num b = i) [0..<k])"
proof -
  have n: "0 < worker_num b" "length (sessions b) = worker_num b" using assms(1) by (simp_all add: boss_shape_def)
  have "filter (\<lambda>s. s \<noteq> None) (sessions b) = sessions b"
    by (rule filter_True) (use assms(5) in metis)
  then have d: "distinct (sessions b)" using assms(2) by (simp add: boss_owns_def)
  have "the (sessions b ! m) = p \<longleftrightarrow> m = i" if m: "m < worker_num b" for m
  proof -
    have "sessions b ! m \<noteq> None" using nth_mem [of m "sessions b"] m n(2) assms(5) by metis
    then have "the (sessions b ! m) = p \<longleftrightarrow> sessions b ! m = sessions b ! i" using assms(4) by (metis option.sel option.collapse)
    then show ?thesis using d m n(2) assms(3) by (simp add: nth_eq_iff_index_eq)
  qed
  then show ?thesis using n(1) by (simp add: turns_def count_list_map)
qed

lemma turns_fair:
  assumes "boss_shape b" "boss_owns b" "None \<notin> set (sessions b)" "p \<in> session_set b" "q \<in> session_set b"
  shows "count_list (turns b k) p \<le> count_list (turns b k) q + 1"
proof -
  obtain i i' where "i < length (sessions b)" "sessions b ! i = Some p" "i' < length (sessions b)" "sessions b ! i' = Some q"
    using assms(4,5) by (auto simp: session_set_def in_set_conv_nth)
  moreover have "length (sessions b) = worker_num b" using assms(1) by (simp add: boss_shape_def)
  ultimately show ?thesis
    using turn_count [OF assms(1,2) _ _ assms(3)] round_fair [of i "worker_num b" i' "next_worker b" k] by simp
qed

section \<open>The server\<close>

record tcp_server =
  srv_boss :: "boss option"
  srv_workers :: "event_loop list"
  srv_trigger :: "idle_handler option"
  srv_recv_size :: u64
  srv_send_size :: u64
  srv_proto :: proto
  srv_port :: int

definition tcp_server_new :: tcp_server where
  "tcp_server_new = \<lparr>srv_boss = None, srv_workers = [], srv_trigger = None, srv_recv_size = 0, srv_send_size = 0,
    srv_proto = INNER, srv_port = 0\<rparr>"

definition srv_bind :: "int \<Rightarrow> tcp_server \<Rightarrow> tcp_server" where
  "srv_bind port srv = srv\<lparr>srv_port := port\<rparr>"

definition srv_setChannelIdleTime :: "u64 \<Rightarrow> u64 \<Rightarrow> tcp_server \<Rightarrow> tcp_server" where
  "srv_setChannelIdleTime idle_read_time idle_write_time srv =
    srv\<lparr>srv_trigger := Some \<lparr>max_write_idle_time = idle_write_time, max_read_idle_time = idle_read_time\<rparr>\<rparr>"

definition srv_setChannelBuffSize :: "u64 \<Rightarrow> u64 \<Rightarrow> tcp_server \<Rightarrow> tcp_server" where
  "srv_setChannelBuffSize r s srv = srv\<lparr>srv_recv_size := r, srv_send_size := s\<rparr>"

definition srv_setProtoMode :: "proto \<Rightarrow> tcp_server \<Rightarrow> tcp_server" where
  "srv_setProtoMode m srv = srv\<lparr>srv_proto := m\<rparr>"

definition pipeName :: "nat \<Rightarrow> nat \<Rightarrow> string" where
  "pipeName pid workerIdx = ''/tmp/athena-'' @ dec_digits pid @ ''-'' @ dec_digits workerIdx @ ''.sock''"

text \<open>Stopping: the loops that were asked to stop and joined, and the empty server.\<close>

definition srv_stop :: "tcp_server \<Rightarrow> event_loop list \<times> tcp_server" where
  "srv_stop srv =
    (let bosses = (case srv_boss srv of None \<Rightarrow> [] | Some b \<Rightarrow> [loop_stop (base b)]);
         workers = map loop_stop (srv_workers srv)
     in (bosses @ workers, srv\<lparr>srv_boss := None, srv_workers := []\<rparr>))"

definition worker_of :: "tcp_server \<Rightarrow> u32 \<Rightarrow> event_loop" where
  "worker_of srv next =
    setProtoMode (srv_proto srv)
      (setBuffSize (srv_recv_size srv) (srv_send_size srv) (event_loop_new next (srv_trigger srv \<noteq> None)))"

text \<open>\<open>until_ready\<close> and \<open>until_listening\<close> are what the boss's thread has done when the waits are over,
  \<open>run_worker\<close> what a worker's thread has when its start returns; \<open>next\<close> is the next channel id.\<close>

definition srv_start :: "(boss \<Rightarrow> boss) \<Rightarrow> (boss \<Rightarrow> boss) \<Rightarrow> (event_loop \<Rightarrow> event_loop) \<Rightarrow> u32 \<Rightarrow> nat \<Rightarrow>
    int \<Rightarrow> tcp_server \<Rightarrow> bool \<times> tcp_server" where
  "srv_start until_ready until_listening run_worker next pid eventLoopNum srv =
    (let eventLoopNum = (if eventLoopNum < 1 then 1 else eventLoopNum) in
     if srv_port srv \<le> 0 then (False, srv)
     else
       let b = boss_bind (srv_port srv) (boss_new (event_loop_new next (srv_trigger srv \<noteq> None)) eventLoopNum);
           ws = srv_workers srv @ replicate (nat eventLoopNum) (worker_of srv next);
           ws = map run_worker ws;
           ws = map (\<lambda>i. if i < nat eventLoopNum then connectIpc (pipeName pid i) (ws ! i) else ws ! i) [0..<length ws];
           b = until_ready b;
           srv = srv\<lparr>srv_boss := Some b, srv_workers := ws\<rparr>
       in if \<not> waitWorkersReady b then (False, snd (srv_stop srv))
          else
            let b = until_listening (startListen b);
                srv = srv\<lparr>srv_boss := Some b\<rparr>
            in if \<not> waitListeningOk b then (False, snd (srv_stop srv))
               else (True, srv))"

text \<open>What a boss's thread can have done.\<close>

definition reaches :: "boss \<Rightarrow> boss \<Rightarrow> bool" where
  "reaches b b' \<longleftrightarrow> (\<exists>es. history es b \<and> boss_exec es b = Some b')"

definition boots :: "boss \<Rightarrow> boss \<Rightarrow> bool" where
  "boots b b' \<longleftrightarrow> (\<exists>rets ipc c. boss_run rets ipc b = (True, c) \<and> \<not> stopping (base c) \<and> reaches c b')"

lemma reaches_owns: "reaches b b' \<Longrightarrow> boss_shape b \<Longrightarrow> boss_owns b \<Longrightarrow> boss_shape b' \<and> boss_owns b'"
  using boss_exec_owns by (fastforce simp: reaches_def)

lemma boots_owns:
  assumes "boots (boss_bind port (boss_new (event_loop_new next trig) w)) b"
  shows "boss_shape b \<and> boss_owns b"
proof -
  obtain rets ipc c where c: "boss_run rets ipc (boss_bind port (boss_new (event_loop_new next trig) w)) = (True, c)"
    "\<not> stopping (base c)" "reaches c b"
    using assms by (auto simp: boots_def)
  then show ?thesis using boss_started [OF c(1,2)] reaches_owns [OF c(3)] by (simp add: event_loop_new_def)
qed

lemma ready_all:
  assumes "boss_shape b" "waitWorkersReady b"
  shows "None \<notin> set (sessions b)"
proof
  assume "None \<in> set (sessions b)"
  then have "length (filter (\<lambda>s. s \<noteq> None) (sessions b)) < length (sessions b)"
    by (intro length_filter_less [of None]) auto
  then show False using assms by (auto simp: boss_shape_def waitWorkersReady_def)
qed

lemma start_true:
  assumes "srv_start until_ready until_listening run_worker next pid n srv = (True, srv')"
  shows "0 < srv_port srv \<and>
    (\<exists>b0 b. b0 = boss_bind (srv_port srv) (boss_new (event_loop_new next (srv_trigger srv \<noteq> None)) (if n < 1 then 1 else n)) \<and>
      b = until_listening (startListen (until_ready b0)) \<and> srv_boss srv' = Some b \<and>
      waitWorkersReady (until_ready b0) \<and> waitListeningOk b)"
  using assms by (auto simp: srv_start_def Let_def split: if_splits)

lemma startListen_owns:
  "boss_shape b \<Longrightarrow> boss_owns b \<Longrightarrow> boss_shape (startListen b) \<and> boss_owns (startListen b)"
  by (simp add: startListen_def boss_shape_def boss_owns_def stopped_def flying_def session_set_def)

lemma session_kept:
  assumes "boss_handle e b = Some b'" "possible e b" "boss_shape b" "None \<notin> set (sessions b)"
  shows "sessions b' = sessions b"
proof (cases e)
  case (New_conn status i a w2)
  have "handoff_loop w n k c = Some d \<Longrightarrow> sessions d = sessions c" for w n k c d
    by (induction k arbitrary: c) (auto simp: Let_def dest: close_handle_fields split: if_splits option.splits)
  then show ?thesis using New_conn assms(1)
    by (auto simp: uv_on_new_connection_def handoffToWorker_def Let_def dest!: close_handle_fields split: if_splits)
next
  case (Pipe_conn pipe status i a)
  then have "pipe < length (sessions b)" "sessions b ! pipe = None" using assms(2,3) by (auto simp: boss_shape_def)
  then show ?thesis using assms(4) nth_mem [of pipe "sessions b"] by simp
next
  case (Stop_boss uv)
  then show ?thesis using assms(1)
    by (auto simp: boss_onStopTriggered_def Let_def dest!: close_sessions_fields split: option.splits if_splits)
qed (use assms(1) in \<open>auto simp: after_handoff_cb_def startListen_def listen_task_def notifyListenDone_def Let_def
    dest!: close_handle_fields\<close>)

lemma sessions_kept:
  "boss_exec es b = Some b' \<Longrightarrow> history es b \<Longrightarrow> boss_shape b \<Longrightarrow> boss_owns b \<Longrightarrow> None \<notin> set (sessions b) \<Longrightarrow>
    sessions b' = sessions b"
proof (induction es arbitrary: b)
  case Nil
  then show ?case by simp
next
  case (Cons e es)
  obtain c where c: "boss_handle e b = Some c" "boss_shape c" "boss_owns c"
    using boss_handle_owns [OF Cons.prems(3,4)] Cons.prems(2) by auto
  moreover have "sessions c = sessions b" using session_kept [OF c(1) _ Cons.prems(3,5)] Cons.prems(2) by simp
  ultimately show ?case using Cons by simp
qed

lemma init_pipes_fail:
  assumes "Suc k < m" "i \<noteq> 0 \<or> d \<noteq> 0 \<or> l \<noteq> 0"
  shows "\<not> fst (init_pipes (replicate k (0, 0, 0) @ (i, d, l) # ipc) (replicate m Zeroed)) \<and>
    Zeroed \<in> set (snd (init_pipes (replicate k (0, 0, 0) @ (i, d, l) # ipc) (replicate m Zeroed)))"
  using assms
proof (induction k arbitrary: m)
  case 0
  have m: "replicate m Zeroed = Zeroed # Zeroed # replicate (m - 2) Zeroed"
    using "0.prems"(1) by (cases m; cases "m - 1") auto
  show ?case using assms(2) unfolding m by auto
next
  case (Suc k)
  then obtain j where m: "m = Suc j" "Suc k < j" by (cases m) auto
  show ?case using Suc.IH [OF m(2) assms(2)] by (auto simp: m(1) split: prod.splits)
qed

lemma started_spread:
  assumes start: "srv_start until_ready until_listening run_worker next pid n srv = (True, srv')"
    and b0: "b0 = boss_bind (srv_port srv) (boss_new (event_loop_new next (srv_trigger srv \<noteq> None)) (if n < 1 then 1 else n))"
    and boss: "boots b0 (until_ready b0)" "reaches (startListen (until_ready b0)) (until_listening (startListen (until_ready b0)))"
  shows "\<exists>b. srv_boss srv' = Some b \<and> listen_ok b \<and> None \<notin> set (sessions b) \<and>
    (\<forall>es. history es b \<and> list_all willing es \<longrightarrow>
      (\<exists>b' given. boss_exec es b = Some b' \<and> map snd (write2s b') = map snd (write2s b) @ given \<and>
        length given = length (filter arrives es) \<and> set given \<subseteq> session_set b \<and>
        (\<forall>p \<in> session_set b. \<forall>q \<in> session_set b. count_list given p \<le> count_list given q + 1)))"
proof -
  let ?r = "until_ready b0"
  obtain b where b: "b = until_listening (startListen ?r)" "srv_boss srv' = Some b"
    "waitWorkersReady ?r" "waitListeningOk b"
    using start_true [OF start] b0 by blast
  have r: "boss_shape ?r" "boss_owns ?r" using boots_owns boss(1) b0 by simp_all
  then have l: "boss_shape (startListen ?r)" "boss_owns (startListen ?r)" using startListen_owns by simp_all
  have all: "None \<notin> set (sessions (startListen ?r))"
    using ready_all [OF r(1) b(3)] by (simp add: startListen_def)
  have ok: "boss_shape b" "boss_owns b" using reaches_owns [OF boss(2) l] b(1) by simp_all
  have ready: "None \<notin> set (sessions b)"
    using boss(2) sessions_kept [OF _ _ l all] all b(1) by (auto simp: reaches_def)
  have sub: "turns b k = given \<Longrightarrow> set given \<subseteq> session_set b" for k given
  proof -
    have "the (sessions b ! m) \<in> session_set b" if "m < length (sessions b)" for m
    proof (cases "sessions b ! m")
      case None
      then show ?thesis using nth_mem [OF that] ready by simp
    next
      case (Some p)
      then show ?thesis using nth_mem [OF that] by (simp add: session_set_def)
    qed
    then show "turns b k = given \<Longrightarrow> set given \<subseteq> session_set b"
      using ok(1) by (auto simp: turns_def boss_shape_def)
  qed
  have "\<exists>b' given. boss_exec es b = Some b' \<and> map snd (write2s b') = map snd (write2s b) @ given \<and>
      length given = length (filter arrives es) \<and> set given \<subseteq> session_set b \<and>
      (\<forall>p \<in> session_set b. \<forall>q \<in> session_set b. count_list given p \<le> count_list given q + 1)"
    if h: "history es b \<and> list_all willing es" for es
  proof -
    let ?t = "turns b (length (filter arrives es))"
    obtain b' where "boss_exec es b = Some b'" "map snd (write2s b') = map snd (write2s b) @ ?t"
      using boss_exec_turns [OF ok ready conjunct1 [OF h] conjunct2 [OF h]] unfolding same_workers_def by blast
    moreover have "length ?t = length (filter arrives es)" by (simp add: turns_def)
    ultimately show ?thesis using sub [OF refl] turns_fair [OF ok ready] by blast
  qed
  then show ?thesis using b(2,4) ready by (auto simp: waitListeningOk_def)
qed

section \<open>Properties of the server\<close>

text \<open>C10. Whatever happens to a boss whose pipes came up (connections, callbacks, workers connecting, the
  stop), no handle is closed twice or used after its deletion; each accepted connection is written to
  one worker at most, and the boss's copy of its socket is open exactly while that write is in flight.
  After a stop, when the callbacks have come, no handle is left open.\<close>

theorem sockets_closed_once:
  assumes "boss_run rets ipc (boss_bind port (boss_new (event_loop_new next trig) w)) = (True, b)"
    "\<not> stopping (base b)" "history es b"
  shows "\<exists>b'. boss_exec es b = Some b' \<and> distinct (map fst (write2s b')) \<and>
    (\<forall>n. handles b' n = Some Open_handle \<longleftrightarrow> n \<in> flying b' \<or> \<not> stopped b' \<and> n \<in> session_set b') \<and>
    (stopped b' \<and> in_flight b' = [] \<longrightarrow> (\<forall>n. handles b' n \<noteq> Some Open_handle))"
proof -
  have "boss_shape b \<and> boss_owns b" using boss_started [OF assms(1,2)] by (simp add: event_loop_new_def)
  then obtain b' where "boss_exec es b = Some b'" "boss_owns b'"
    using boss_exec_owns assms(3) by blast
  then show ?thesis by (intro exI [of _ b']) (auto simp: boss_owns_def flying_def)
qed


text \<open>When the pipe of any worker but the last cannot be set up, the boss asks itself to stop, and the
  stop closes the handles of the later pipes, which were never initialised.\<close>

theorem failed_pipe_crashes_stop:
  assumes "Suc k < w" "i \<noteq> 0 \<or> d \<noteq> 0 \<or> l \<noteq> 0"
  shows "\<exists>b. boss_run [] (replicate k (0, 0, 0) @ (i, d, l) # ipc) (boss_bind port (boss_new (event_loop_new next trig) (int w))) = (True, b) \<and>
    stopping (base b) \<and> stop_sends (base b) = 1 \<and> possible (Stop_boss uv) b \<and> boss_handle (Stop_boss uv) b = None"
proof -
  let ?ipc = "replicate k (0, 0, 0) @ (i, d, l) # ipc"
  have init: "\<not> fst (init_pipes ?ipc (replicate w Zeroed)) \<and> Zeroed \<in> set (snd (init_pipes ?ipc (replicate w Zeroed)))"
    using init_pipes_fail [OF assms] .
  have crash: "close_pipes ps = None" if "Zeroed \<in> set ps" for ps using that by (induction ps) auto
  have w: "nat (if int w < 1 then 1 else int w) = w" "w \<noteq> 0" using assms(1) by simp_all
  obtain ps where ps: "init_pipes ?ipc (replicate w Zeroed) = (False, ps)" "Zeroed \<in> set ps"
    using init by (cases "init_pipes ?ipc (replicate w Zeroed)") auto
  show ?thesis
    using ps(1) crash [OF ps(2)]
    by (simp add: boss_run_def initAsynEvent_def boss_bind_def boss_new_def Let_def w initIpcServers_def loop_stop_def
        event_loop_new_def boss_onStopTriggered_def stopped_def)
qed

definition ex_boss :: boss where
  "ex_boss = snd (boss_run [] [(0, 0, 0), (0, 0, 0)] (boss_bind 9000 (boss_new (event_loop_new 1 False) 2)))"

text \<open>Both workers connect and the boss listens.\<close>

definition ex_ready :: "boss_event list" where
  "ex_ready = [Pipe_conn 1 0 0 0, Pipe_conn 0 0 0 0]"

definition ex_listen :: listen_env where
  "ex_listen = \<lparr>l_tcp_init = 0, l_ip4_addr = 0, l_tcp_bind = 0, l_listen = 0\<rparr>"

text \<open>Three connections arrive, and the first is called back.\<close>

definition ex_use :: "boss_event list" where
  "ex_use = [New_conn 0 0 0 (\<lambda>p. 0), New_conn 0 0 0 (\<lambda>p. 0), New_conn 0 0 0 (\<lambda>p. 0), Handoff_done 0 0]"

lemma ex_boss_run:
  "boss_run [] [(0, 0, 0), (0, 0, 0)] (boss_bind 9000 (boss_new (event_loop_new 1 False) 2)) = (True, ex_boss)"
  "\<not> stopping (base ex_boss)"
  by (simp_all add: ex_boss_def boss_run_def initAsynEvent_def boss_bind_def boss_new_def Let_def initIpcServers_def
      event_loop_new_def numeral_2_eq_2)

lemma history_snoc:
  "history es b \<Longrightarrow> boss_exec es b = Some c \<Longrightarrow> possible e c \<Longrightarrow> history (es @ [e]) b"
  by (induction es arbitrary: b) (auto split: option.splits bind_splits)

lemma ex_history: "history (ex_ready @ [Start_listen, Run_listen ex_listen] @ ex_use) ex_boss" by code_simp

definition ex_until_ready :: "boss \<Rightarrow> boss" where
  "ex_until_ready b = the (boss_exec ex_ready (snd (boss_run [] [(0, 0, 0), (0, 0, 0)] b)))"

definition ex_until_listening :: "boss \<Rightarrow> boss" where
  "ex_until_listening b = the (boss_exec [Run_listen ex_listen] b)"

definition ex_server :: "bool \<times> tcp_server" where
  "ex_server = srv_start ex_until_ready ex_until_listening (\<lambda>L. snd (loop_run [] L)) 1 4711 2 (srv_bind 9000 tcp_server_new)"

lemma ex_boots:
  "boots (boss_bind 9000 (boss_new (event_loop_new 1 False) 2)) (ex_until_ready (boss_bind 9000 (boss_new (event_loop_new 1 False) 2)))"
proof -
  have "history ex_ready ex_boss" "boss_exec ex_ready ex_boss \<noteq> None" by code_simp+
  then show ?thesis using ex_boss_run by (auto simp: boots_def reaches_def ex_until_ready_def)
qed

lemma ex_reaches:
  "reaches (startListen (ex_until_ready (boss_bind 9000 (boss_new (event_loop_new 1 False) 2))))
    (ex_until_listening (startListen (ex_until_ready (boss_bind 9000 (boss_new (event_loop_new 1 False) 2)))))"
proof -
  let ?b = "startListen (ex_until_ready (boss_bind 9000 (boss_new (event_loop_new 1 False) 2)))"
  have "history [Run_listen ex_listen] ?b" "boss_exec [Run_listen ex_listen] ?b \<noteq> None" by code_simp+
  then show ?thesis unfolding reaches_def ex_until_listening_def
    by (intro exI [of _ "[Run_listen ex_listen]"] conjI) simp_all
qed

theorem sockets_closed_once_witness:
  "\<exists>b'. boss_exec ((ex_ready @ [Start_listen, Run_listen ex_listen] @ ex_use) @ [Stop_boss (\<lambda>L. ex_uv)]) ex_boss = Some b' \<and>
    distinct (map fst (write2s b'))"
proof -
  let ?es = "ex_ready @ [Start_listen, Run_listen ex_listen] @ ex_use"
  have "boss_exec ?es ex_boss \<noteq> None" "possible (Stop_boss (\<lambda>L. ex_uv)) (the (boss_exec ?es ex_boss))" by code_simp+
  then have "history (?es @ [Stop_boss (\<lambda>L. ex_uv)]) ex_boss"
    using history_snoc [OF ex_history, of "the (boss_exec ?es ex_boss)"] by auto
  then show ?thesis using sockets_closed_once [OF ex_boss_run] by blast
qed

definition ex_b0 :: boss where
  "ex_b0 = boss_bind 9000 (boss_new (event_loop_new 1 False) 2)"

lemma ex_b0_eq:
  "ex_b0 = boss_bind (srv_port (srv_bind 9000 tcp_server_new))
    (boss_new (event_loop_new 1 (srv_trigger (srv_bind 9000 tcp_server_new) \<noteq> None)) (if (2::int) < 1 then 1 else 2))"
  by (simp add: srv_bind_def tcp_server_new_def ex_b0_def)

lemma ex_server_started: "fst ex_server"
proof -
  have "waitWorkersReady (ex_until_ready ex_b0)" "waitListeningOk (ex_until_listening (startListen (ex_until_ready ex_b0)))"
    by code_simp+
  moreover have "0 < srv_port (srv_bind 9000 tcp_server_new)" by (simp add: srv_bind_def)
  ultimately show ?thesis
    unfolding ex_server_def srv_start_def Let_def ex_b0_eq [symmetric] by simp
qed

abbreviation ex_listening :: boss where
  "ex_listening \<equiv> ex_until_listening (startListen (ex_until_ready ex_b0))"

lemma ex_start:
  "srv_start ex_until_ready ex_until_listening (\<lambda>L. snd (loop_run [] L)) 1 4711 2 (srv_bind 9000 tcp_server_new) = (True, snd ex_server)"
  using ex_server_started unfolding ex_server_def [symmetric] by (simp add: prod_eq_iff)

lemma ex_in_use:
  "history ex_use ex_listening" "length (filter arrives ex_use) = 3" "list_all willing ex_use"
  "srv_boss (snd ex_server) = Some ex_listening"
proof -
  show "history ex_use ex_listening" "length (filter arrives ex_use) = 3" by code_simp+
  show "list_all willing ex_use" by (simp add: ex_use_def willing_def)
  show "srv_boss (snd ex_server) = Some ex_listening" using start_true [OF ex_start] ex_b0_eq by metis
qed


theorem failed_pipe_crashes_stop_witness:
  "\<exists>b. boss_run [] [(0, -13, 0)] (boss_bind 9000 (boss_new (event_loop_new 1 False) (int 2))) = (True, b) \<and>
    boss_handle (Stop_boss (\<lambda>L. ex_uv)) b = None"
  using failed_pipe_crashes_stop [of 0 2 0 "-13" 0 "[]" 9000 1 False "\<lambda>L. ex_uv"] by auto

section \<open>The client\<close>

record tcp_client =
  loops :: "event_loop list"
  cl_trigger :: "idle_handler option"
  cl_recv_size :: u64
  cl_send_size :: u64
  cl_proto :: proto
  next_loop :: u64

definition tcp_client_new :: tcp_client where
  "tcp_client_new = \<lparr>loops = [], cl_trigger = None, cl_recv_size = 0, cl_send_size = 0, cl_proto = INNER, next_loop = 0\<rparr>"

definition cl_setChannelIdleTime :: "u64 \<Rightarrow> u64 \<Rightarrow> tcp_client \<Rightarrow> tcp_client" where
  "cl_setChannelIdleTime idle_write_time idle_read_time C =
    C\<lparr>cl_trigger := Some \<lparr>max_write_idle_time = idle_write_time, max_read_idle_time = idle_read_time\<rparr>\<rparr>"

definition cl_setChannelBuffSize :: "u64 \<Rightarrow> u64 \<Rightarrow> tcp_client \<Rightarrow> tcp_client" where
  "cl_setChannelBuffSize r s C = C\<lparr>cl_recv_size := r, cl_send_size := s\<rparr>"

definition cl_setProtoMode :: "proto \<Rightarrow> tcp_client \<Rightarrow> tcp_client" where
  "cl_setProtoMode m C = C\<lparr>cl_proto := m\<rparr>"

definition cl_start :: "(event_loop \<Rightarrow> event_loop) \<Rightarrow> u32 \<Rightarrow> int \<Rightarrow> tcp_client \<Rightarrow> tcp_client" where
  "cl_start run_loop next eventLoopNum C =
    (let eventLoopNum = (if eventLoopNum < 1 then 1 else eventLoopNum);
         loop = setProtoMode (cl_proto C) (setBuffSize (cl_recv_size C) (cl_send_size C)
                  (event_loop_new next (cl_trigger C \<noteq> None)))
     in C\<lparr>loops := map run_loop (loops C @ replicate (nat eventLoopNum) loop)\<rparr>)"

definition client_connect :: "string \<Rightarrow> int \<Rightarrow> tcp_client \<Rightarrow> tcp_client" where
  "client_connect ip port C =
    (if loops C = [] then C
     else let idx = unat (next_loop C) mod length (loops C)
       in C\<lparr>next_loop := next_loop C + 1, loops := (loops C)[idx := asyncConnect ip port (loops C ! idx)]\<rparr>)"

definition cl_stop :: "tcp_client \<Rightarrow> event_loop list \<times> tcp_client" where
  "cl_stop C = (map loop_stop (loops C), C\<lparr>loops := [], next_loop := 0\<rparr>)"

text \<open>Connecting to a list of addresses.\<close>

definition connect_all :: "(string \<times> int) list \<Rightarrow> tcp_client \<Rightarrow> tcp_client" where
  "connect_all cs C = fold (\<lambda>(ip, port). client_connect ip port) cs C"

lemma asyncConnect_queue [simp]: "waitTasks (asyncConnect ip port L) = waitTasks L @ [Connect_task ip port]"
  by (simp add: asyncConnect_def executeOnEventLoop_def)

lemma connect_all_queues:
  assumes "loops C \<noteq> []" "unat (next_loop C) + length cs < 2 ^ 64"
  shows "length (loops (connect_all cs C)) = length (loops C) \<and>
    (\<forall>i < length (loops C). waitTasks (loops (connect_all cs C) ! i) = waitTasks (loops C ! i) @
      map (\<lambda>(ip, port). Connect_task ip port)
        (nths cs {j. (unat (next_loop C) + j) mod length (loops C) = i}))"
  using assms
proof (induction cs arbitrary: C)
  case Nil
  then show ?case by (simp add: connect_all_def)
next
  case (Cons c cs)
  obtain ip port where c: "c = (ip, port)" by fastforce
  let ?C = "client_connect ip port C"
  have nxt: "unat (next_loop ?C) = unat (next_loop C) + 1"
    using Cons.prems by (simp add: client_connect_def Let_def unat_word_ariths)
  have l: "length (loops ?C) = length (loops C)" "loops ?C \<noteq> []"
    using Cons.prems(1) by (auto simp: client_connect_def Let_def)
  have idx: "unat (next_loop C) mod length (loops C) < length (loops C)" using Cons.prems(1) by simp
  have q: "waitTasks (loops ?C ! i) = waitTasks (loops C ! i) @
      (if unat (next_loop C) mod length (loops C) = i then [Connect_task ip port] else [])"
    if "i < length (loops C)" for i
    using Cons.prems(1) that by (auto simp: client_connect_def Let_def nth_list_update)
  have "connect_all (c # cs) C = connect_all cs ?C" by (simp add: connect_all_def c)
  then show ?case
    using Cons.IH [OF l(2)] nxt Cons.prems(2) l(1) q by (auto simp: nths_Cons c)
qed

text \<open>A client spreads its connection attempts over its loops in turn: each loop is given, in order,
  every n-th address, so the loops' shares differ by one at most.\<close>

theorem connects_in_turn:
  assumes "0 < n" "n < 2 ^ 32" "length cs < 2 ^ 64" "C = cl_start run_loop next n tcp_client_new"
    "\<forall>L. waitTasks (run_loop L) = waitTasks L"
  shows "length (loops (connect_all cs C)) = nat n \<and>
    (\<forall>i < nat n. waitTasks (loops (connect_all cs C) ! i) =
      map (\<lambda>(ip, port). Connect_task ip port) (nths cs {j. j mod nat n = i})) \<and>
    (\<forall>i < nat n. \<forall>i' < nat n. length (waitTasks (loops (connect_all cs C) ! i)) \<le>
      length (waitTasks (loops (connect_all cs C) ! i')) + 1)"
proof -
  have C: "length (loops C) = nat n" "loops C \<noteq> []" "next_loop C = 0"
    "\<And>i. i < nat n \<Longrightarrow> waitTasks (loops C ! i) = []"
    using assms(1,4,5) by (auto simp: cl_start_def tcp_client_new_def Let_def setProtoMode_def setBuffSize_def event_loop_new_def)
  have q: "waitTasks (loops (connect_all cs C) ! i) =
      map (\<lambda>(ip, port). Connect_task ip port) (nths cs {j. j mod nat n = i})" if "i < nat n" for i
    using connect_all_queues [OF C(2), of cs] C that assms(3) by simp
  have k: "length (nths cs {j. j mod nat n = i}) = length (filter (\<lambda>j. (0 + j) mod nat n = i) [0..<length cs])" for i
    by (simp add: length_nths length_filter_conv_card cong: conj_cong)
  have "length (waitTasks (loops (connect_all cs C) ! i)) \<le> length (waitTasks (loops (connect_all cs C) ! i')) + 1"
    if "i < nat n" "i' < nat n" for i i'
    using q [OF that(1)] q [OF that(2)] k round_fair [OF that, of 0 "length cs"] by simp
  then show ?thesis using connect_all_queues [OF C(2), of cs] C assms(3) q by simp
qed

theorem connects_in_turn_witness:
  "waitTasks (loops (connect_all [(''a'', 1), (''b'', 2), (''c'', 3)] (cl_start (\<lambda>L. L) 1 2 tcp_client_new)) ! 0) =
    [Connect_task ''a'' 1, Connect_task ''c'' 3]"
  using connects_in_turn [of 2 "[(''a'', 1), (''b'', 2), (''c'', 3)]" "cl_start (\<lambda>L. L) 1 2 tcp_client_new" "\<lambda>L. L" 1]
  by (simp add: nths_Cons)
end
