(* ===== verification/Discovery.thy ===== *)
theory Discovery
  imports Node_Json Tcp_Server "HOL-Library.Sublist"
begin

text \<open>
  Finding the other servers: the client of the registry (src/athena-discovery/discovery/AthenaEtcdClient.cpp,
  AthenaDiscovery.cpp) and what the servers do with it (Discovery.cpp of src/gateway, src/game and
  src/router). The etcd client library is the record \<open>etcd_api\<close> of its calls over a state of its own.
\<close>

section \<open>The registry client\<close>

record 's etcd_api =
  leasekeepalive :: "int \<Rightarrow> 's \<Rightarrow> nat option \<times> 's"
  etcd_put :: "string \<Rightarrow> string \<Rightarrow> nat \<Rightarrow> 's \<Rightarrow> bool \<times> 's"
  leaserevoke :: "nat \<Rightarrow> 's \<Rightarrow> 's"
  keeper_cancel :: "nat \<Rightarrow> 's \<Rightarrow> 's"
  etcd_get :: "string \<Rightarrow> 's \<Rightarrow> string option \<times> 's"
  etcd_keys :: "string \<Rightarrow> 's \<Rightarrow> string list option \<times> 's"
  etcd_head :: "'s \<Rightarrow> int \<times> 's"

record etcd_client =
  keep_alives :: "(string \<times> nat) list"
  registrations :: "(string \<times> string \<times> int) list"
  watchers :: "string list"
  monitorRunning :: bool
  monitor_threads :: nat

definition etcd_client_new :: etcd_client where
  "etcd_client_new = \<lparr>keep_alives = [], registrations = [], watchers = [], monitorRunning = False, monitor_threads = 0\<rparr>"

definition etcd_connect :: "'s etcd_api \<Rightarrow> 's \<Rightarrow> int \<times> 's" where
  "etcd_connect E s = etcd_head E s"

definition client_get :: "'s etcd_api \<Rightarrow> string \<Rightarrow> 's \<Rightarrow> string \<times> 's" where
  "client_get E key s = (case etcd_get E key s of (Some v, s) \<Rightarrow> (v, s) | (None, s) \<Rightarrow> ([], s))"

primrec client_get_all :: "'s etcd_api \<Rightarrow> string list \<Rightarrow> 's \<Rightarrow> string list \<times> 's" where
  "client_get_all E [] s = ([], s)"
| "client_get_all E (key # keys) s =
    (case etcd_get E key s of (r, s) \<Rightarrow>
      case client_get_all E keys s of (vs, s) \<Rightarrow> ((case r of Some v \<Rightarrow> v | None \<Rightarrow> []) # vs, s))"

definition watchKeys :: "string list \<Rightarrow> etcd_client \<Rightarrow> etcd_client" where
  "watchKeys keys C = C\<lparr>watchers := watchers C @ keys\<rparr>"

definition keepAlive :: "'s etcd_api \<Rightarrow> string \<Rightarrow> string \<Rightarrow> int \<Rightarrow> 's \<times> etcd_client \<Rightarrow> 's \<times> etcd_client" where
  "keepAlive E key value ttl sC =
    (case sC of (s, C) \<Rightarrow>
     case leasekeepalive E ttl s of
       (None, s) \<Rightarrow> (s, C)
     | (Some keeper, s) \<Rightarrow>
         (case etcd_put E key value keeper s of (ok, s) \<Rightarrow>
            if \<not> ok then (keeper_cancel E keeper (leaserevoke E keeper s), C)
            else
              let C = C\<lparr>keep_alives := map_put key keeper (keep_alives C)\<rparr>;
                  C = C\<lparr>registrations := map_put key (value, ttl) (registrations C)\<rparr>;
                  C = (if \<not> monitorRunning C then C\<lparr>monitorRunning := True, monitor_threads := monitor_threads C + 1\<rparr>
                       else C)
              in (s, C)))"

primrec check_keys :: "'s etcd_api \<Rightarrow> (string \<times> string \<times> int) list \<Rightarrow> 's \<times> etcd_client \<Rightarrow> 's \<times> etcd_client" where
  "check_keys E [] sC = sC"
| "check_keys E (r # rs) sC =
    (case r of (key, value, ttl) \<Rightarrow>
      case etcd_get E key (fst sC) of (found, s) \<Rightarrow>
        check_keys E rs (if found = None then keepAlive E key value ttl (s, snd sC) else (s, snd sC)))"

definition monitor_round :: "'s etcd_api \<Rightarrow> 's \<times> etcd_client \<Rightarrow> 's \<times> etcd_client" where
  "monitor_round E sC = check_keys E (registrations (snd sC)) sC"

text \<open>What the loop reads of the flag, at its head and after the sleep; \<open>between\<close> is what happens to the
  registry while it sleeps.\<close>

fun monitorLoop :: "'s etcd_api \<Rightarrow> (bool \<times> bool \<times> ('s \<Rightarrow> 's)) list \<Rightarrow> 's \<times> etcd_client \<Rightarrow> 's \<times> etcd_client" where
  "monitorLoop E [] sC = sC"
| "monitorLoop E ((head, awake, between) # rounds) sC =
    (if \<not> head then sC
     else if \<not> awake then (between (fst sC), snd sC)
     else monitorLoop E rounds (monitor_round E (between (fst sC), snd sC)))"

text \<open>The values of all keys with a prefix, directories skipped; a failing \<open>keys\<close> throws (\<open>None\<close>).\<close>

primrec get_values :: "'s etcd_api \<Rightarrow> string list \<Rightarrow> (string \<times> string) list \<Rightarrow> 's \<Rightarrow> (string \<times> string) list \<times> 's" where
  "get_values E [] result s = (result, s)"
| "get_values E (key # keys) result s =
    (if key \<noteq> [] \<and> last key = CHR ''/'' then get_values E keys result s
     else case etcd_get E key s of
         (Some v, s) \<Rightarrow> get_values E keys (map_put key v result) s
       | (None, s) \<Rightarrow> get_values E keys result s)"

definition getKeysWithValues :: "'s etcd_api \<Rightarrow> string \<Rightarrow> 's \<Rightarrow> (string \<times> string) list option \<times> 's" where
  "getKeysWithValues E pre s =
    (case etcd_keys E pre s of
       (None, s) \<Rightarrow> (None, s)
     | (Some keys, s) \<Rightarrow> (case get_values E keys [] s of (result, s) \<Rightarrow> (Some result, s)))"

section \<open>The own node and its peers\<close>

definition int_decimal :: "int \<Rightarrow> string" where
  "int_decimal i = (if i < 0 then ''-'' @ dec_digits (nat (- i)) else dec_digits (nat i))"

text \<open>\<open>ips\<close> are the local addresses; taking the first of none is undefined.\<close>

definition setMySelfInfo :: "string list \<Rightarrow> node_info \<Rightarrow> node_info option" where
  "setMySelfInfo ips me =
    (case ips of
       [] \<Rightarrow> None
     | localIp # _ \<Rightarrow> Some (me\<lparr>ni_service_id := ni_service_name me @ ''/'' @ localIp @ '':'' @ int_decimal (sint (ni_port me))\<rparr>))"

definition registerServer :: "'s etcd_api \<Rightarrow> (rj \<Rightarrow> string) \<Rightarrow> node_info \<Rightarrow> 's \<times> etcd_client \<Rightarrow> 's \<times> etcd_client" where
  "registerServer E write mySelf sC = keepAlive E (ni_service_id mySelf) (SerializeNodeInfo write mySelf) 20 sC"

text \<open>The nodes of the values, whether or not a value could be parsed.\<close>

fun parse_nodes :: "(string \<Rightarrow> rj option) \<Rightarrow> (string \<times> string) list \<Rightarrow> node_info list option" where
  "parse_nodes parse [] = Some []"
| "parse_nodes parse ((k, value) # kvs) =
    (case DeserializeNodeInfo parse value node_empty of
       None \<Rightarrow> None
     | Some (ret, nodeInfo) \<Rightarrow> map_option (\<lambda>ns. nodeInfo # ns) (parse_nodes parse kvs))"

text \<open>A thrown exception is \<open>Inl ()\<close>, undefined behaviour \<open>None\<close>.\<close>

definition getServerNode :: "'s etcd_api \<Rightarrow> (string \<Rightarrow> rj option) \<Rightarrow> string \<Rightarrow> 's \<Rightarrow> (unit + node_info list) option \<times> 's" where
  "getServerNode E parse key s =
    (case getKeysWithValues E key s of
       (None, s) \<Rightarrow> (Some (Inl ()), s)
     | (Some keyValues, s) \<Rightarrow> (map_option Inr (parse_nodes parse keyValues), s))"

section \<open>Discovery of the servers\<close>

text \<open>What a server reads of its configuration, and what its discovery works on.\<close>

record disc_conf =
  conf_name :: string
  conf_port :: i32
  conf_type :: i32
  conf_watch :: "string list"

record 's disc =
  d_etcd :: 's
  d_client :: etcd_client
  d_peers :: peers
  d_tcp :: tcp_client

definition learn_gateway :: "node_info \<Rightarrow> 's disc \<Rightarrow> 's disc" where
  "learn_gateway node D =
    D\<lparr>d_tcp := client_connect (ni_ip node) (sint (ni_port node)) (d_tcp D), d_peers := saveNode node (d_peers D)\<rparr>"

definition learn_game :: "node_info \<Rightarrow> 's disc \<Rightarrow> 's disc" where
  "learn_game node D = D\<lparr>d_peers := saveNode node (d_peers D)\<rparr>"

primrec learn_keys :: "'s etcd_api \<Rightarrow> (string \<Rightarrow> rj option) \<Rightarrow> (node_info \<Rightarrow> 's disc \<Rightarrow> 's disc) \<Rightarrow>
    string list \<Rightarrow> 's disc \<Rightarrow> (unit + 's disc) option" where
  "learn_keys E parse learn [] D = Some (Inr D)"
| "learn_keys E parse learn (key # keys) D =
    (case getServerNode E parse key (d_etcd D) of
       (None, s) \<Rightarrow> None
     | (Some (Inl e), s) \<Rightarrow> Some (Inl e)
     | (Some (Inr nodes), s) \<Rightarrow> learn_keys E parse learn keys (fold learn nodes (D\<lparr>d_etcd := s\<rparr>)))"

definition own_node :: "string list \<Rightarrow> disc_conf \<Rightarrow> node_info option" where
  "own_node ips conf =
    (case ips of
       [] \<Rightarrow> None
     | ip # _ \<Rightarrow> setMySelfInfo ips (node_empty\<lparr>ni_service_name := conf_name conf, ni_port := conf_port conf,
         ni_ip := ip, ni_type := conf_type conf\<rparr>))"

text \<open>The three servers go through the same steps; \<open>learn\<close> is what they do with the nodes of the keys
  they watch, and the router watches none.\<close>

definition init_server :: "(node_info \<Rightarrow> 's disc \<Rightarrow> 's disc) option \<Rightarrow> 's etcd_api \<Rightarrow> (string \<Rightarrow> rj option) \<Rightarrow>
    (rj \<Rightarrow> string) \<Rightarrow> string list \<Rightarrow> disc_conf \<Rightarrow> 's disc \<Rightarrow> (unit + bool \<times> 's disc) option" where
  "init_server learn E parse write ips conf D =
    (case own_node ips conf of
       None \<Rightarrow> None
     | Some myself \<Rightarrow>
         (case etcd_connect E (d_etcd D) of (err, s) \<Rightarrow>
            let D = D\<lparr>d_etcd := s\<rparr> in
            if err \<noteq> 0 then Some (Inr (False, D))
            else
              (case (case learn of
                       None \<Rightarrow> Some (Inr D)
                     | Some learn \<Rightarrow>
                         if conf_watch conf = [] then Some (Inr D)
                         else learn_keys E parse learn (conf_watch conf)
                                (D\<lparr>d_client := watchKeys (conf_watch conf) (d_client D)\<rparr>)) of
                 None \<Rightarrow> None
               | Some (Inl e) \<Rightarrow> Some (Inl e)
               | Some (Inr D) \<Rightarrow>
                   (case registerServer E write myself (d_etcd D, d_client D) of (s, C) \<Rightarrow>
                      Some (Inr (True, D\<lparr>d_etcd := s, d_client := C\<rparr>))))))"

definition gateway_initWithConf where "gateway_initWithConf = init_server (Some learn_gateway)"
definition game_initWithConf where "game_initWithConf = init_server (Some learn_game)"
definition router_initWithConf where "router_initWithConf = init_server None"

datatype etcd_event = PUT | DELETE_ | INVALID

definition gateway_onWatchKeyChange :: "(string \<Rightarrow> rj option) \<Rightarrow> disc_conf \<Rightarrow> etcd_event \<Rightarrow> string \<Rightarrow> string \<Rightarrow>
    's disc \<Rightarrow> 's disc option" where
  "gateway_onWatchKeyChange parse conf eventType key value D =
    (let keyPre = takeWhile (\<lambda>c. c \<noteq> CHR ''/'') key in
     if eventType = PUT then
       (if keyPre \<in> set (conf_watch conf) then
          (case DeserializeNodeInfo parse value node_empty of
             None \<Rightarrow> None
           | Some (ret, nodeInfo) \<Rightarrow> if ret then Some (learn_gateway nodeInfo D) else Some D)
        else Some D)
     else Some D)"

section \<open>A registry that answers\<close>

text \<open>\<open>view\<close> are the keys of the registry with their values. While it answers (\<open>ok\<close>), it grants leases,
  stores what is put, gives what is stored, and lists the keys with a prefix.\<close>

definition etcd_up :: "'s etcd_api \<Rightarrow> ('s \<Rightarrow> bool) \<Rightarrow> ('s \<Rightarrow> string \<Rightarrow> string option) \<Rightarrow> bool" where
  "etcd_up E ok view \<longleftrightarrow> (\<forall>s. ok s \<longrightarrow>
    (\<forall>ttl. \<exists>l s'. leasekeepalive E ttl s = (Some l, s') \<and> ok s' \<and> view s' = view s) \<and>
    (\<forall>k v l. \<exists>s'. etcd_put E k v l s = (True, s') \<and> ok s' \<and> view s' = (view s)(k \<mapsto> v)) \<and>
    (\<forall>k. \<exists>s'. etcd_get E k s = (view s k, s') \<and> ok s' \<and> view s' = view s) \<and>
    (\<forall>p. \<exists>ks s'. etcd_keys E p s = (Some ks, s') \<and> set ks = {k \<in> dom (view s). prefix p k} \<and> ok s' \<and> view s' = view s) \<and>
    (\<exists>s'. etcd_head E s = (0, s') \<and> ok s' \<and> view s' = view s))"

lemma keepAlive_up:
  assumes "etcd_up E ok view" "ok s"
  obtains s' l where "keepAlive E k v ttl (s, C) =
      (s', C\<lparr>keep_alives := map_put k l (keep_alives C), registrations := map_put k (v, ttl) (registrations C),
        monitorRunning := True, monitor_threads := monitor_threads C + (if monitorRunning C then 0 else 1)\<rparr>)"
    "ok s'" "view s' = (view s)(k \<mapsto> v)"
proof -
  obtain l s1 where 1: "leasekeepalive E ttl s = (Some l, s1)" "ok s1" "view s1 = view s"
    using assms unfolding etcd_up_def by metis
  obtain s2 where 2: "etcd_put E k v l s1 = (True, s2)" "ok s2" "view s2 = (view s1)(k \<mapsto> v)"
    using assms(1) 1(2) unfolding etcd_up_def by metis
  show ?thesis using that [of s2 l] 1 2 by (cases "monitorRunning C") (simp_all add: keepAlive_def Let_def)
qed

lemma map_of_map_put: "map_of (map_put k v xs) = (map_of xs)(k \<mapsto> v)"
  by (induction k v xs rule: map_put.induct) (auto simp: fun_eq_iff)

text \<open>A round gives every lost key the value it was registered with and leaves the others alone.\<close>

definition restored :: "string set \<Rightarrow> (string \<rightharpoonup> string \<times> int) \<Rightarrow> (string \<rightharpoonup> string) \<Rightarrow> string \<rightharpoonup> string" where
  "restored K regs old k =
    (if old k \<noteq> None then old k else if k \<in> K then map_option fst (regs k) else None)"

lemma check_keys_up:
  assumes "etcd_up E ok view" "ok s"
    "\<forall>(k, v, ttl) \<in> set rs. map_of (registrations C) k = Some (v, ttl)"
  shows "\<exists>s' C'. check_keys E rs (s, C) = (s', C') \<and> ok s' \<and>
    map_of (registrations C') = map_of (registrations C) \<and>
    view s' = restored (fst ` set rs) (map_of (registrations C)) (view s)"
  using assms(2,3)
proof (induction rs arbitrary: s C)
  case Nil
  then show ?case by (auto simp: restored_def)
next
  case (Cons r rs)
  obtain key val ttl where r: "r = (key, val, ttl)" by (cases r) auto
  obtain s1 where 1: "etcd_get E key s = (view s key, s1)" "ok s1" "view s1 = view s"
    using assms(1) Cons.prems(1) unfolding etcd_up_def by metis
  have reg: "map_of (registrations C) key = Some (val, ttl)"
    "\<forall>(k, v, ttl) \<in> set rs. map_of (registrations C) k = Some (v, ttl)" using Cons.prems(2) r by auto
  show ?case
  proof (cases "view s key")
    case (Some v)
    then have "restored (fst ` set (r # rs)) M (view s) = restored (fst ` set rs) M (view s)" for M
      by (intro ext) (auto simp: restored_def r)
    then show ?thesis using Cons.IH [OF 1(2) reg(2)] 1 r Some by simp
  next
    case None
    obtain s2 C2 where 2: "keepAlive E key val ttl (s1, C) = (s2, C2)" "ok s2" "view s2 = (view s1)(key \<mapsto> val)"
      "registrations C2 = map_put key (val, ttl) (registrations C)"
      by (rule keepAlive_up [OF assms(1) 1(2), of key val ttl C]) auto
    have same: "map_of (registrations C2) = map_of (registrations C)"
      using reg(1) by (auto simp: 2(4) map_of_map_put)
    have "restored (fst ` set rs) (map_of (registrations C)) (view s2) =
        restored (fst ` set (r # rs)) (map_of (registrations C)) (view s)"
      by (rule ext) (use None reg(1) in \<open>auto simp: restored_def r 1(3) 2(3)\<close>)
    then show ?thesis using Cons.IH [OF 2(2), of C2, unfolded same, OF reg(2)] 1 2(1) None r by simp
  qed
qed

lemma round_up:
  assumes "etcd_up E ok view" "ok s" "distinct (map fst (registrations C))"
  shows "\<exists>s' C'. monitor_round E (s, C) = (s', C') \<and> ok s' \<and>
    map_of (registrations C') = map_of (registrations C) \<and>
    view s' = restored UNIV (map_of (registrations C)) (view s)"
proof -
  have "\<forall>(k, v, ttl) \<in> set (registrations C). map_of (registrations C) k = Some (v, ttl)"
    using assms(3) by auto
  moreover have "restored (fst ` set (registrations C)) (map_of (registrations C)) = restored UNIV (map_of (registrations C))"
    by (rule ext)+ (auto simp: restored_def map_of_eq_None_iff [symmetric])
  ultimately show ?thesis using check_keys_up [OF assms(1,2), of "registrations C" C] by (simp add: monitor_round_def)
qed

lemma str_less_linear: "a \<noteq> b \<Longrightarrow> \<not> str_less a b \<Longrightarrow> str_less b a"
proof (induction a b rule: str_less.induct)
  case (3 c cs d ds)
  have "c \<noteq> d \<Longrightarrow> (of_char c :: nat) \<noteq> of_char d" by simp
  then show ?case using 3 by (cases "c = d") (auto simp del: of_char_eq_iff)
next
  case (1 a)
  then show ?case by (cases a) auto
qed simp

lemma set_map_put: "fst ` set (map_put k v xs) = insert k (fst ` set xs)"
  by (induction k v xs rule: map_put.induct) auto

lemma sorted_map_put: "sorted_keys xs \<Longrightarrow> sorted_keys (map_put k v xs)"
proof (induction k v xs rule: map_put.induct)
  case (2 k v k' v' xs)
  then have less: "\<forall>y \<in> fst ` set xs. str_less k' y" "sorted_keys xs" by (auto simp: sorted_keys_def)
  show ?case
  proof (cases "k = k' \<or> str_less k k'")
    case True
    then show ?thesis using 2(2) str_less_trans less(1) by (fastforce simp: sorted_keys_def)
  next
    case False
    then have "str_less k' k" using str_less_linear by blast
    then have "\<forall>y \<in> fst ` set (map_put k v xs). str_less k' y" using less(1) by (simp add: set_map_put)
    then show ?thesis using False 2(1) less(2) by (simp add: sorted_keys_def)
  qed
qed (simp add: sorted_keys_def)

lemma sorted_distinct: "sorted_keys xs \<Longrightarrow> distinct (map fst xs)"
proof -
  have "sorted_wrt str_less ys \<Longrightarrow> distinct ys" for ys
    by (induction ys) (auto simp: str_less_irrefl)
  then show "sorted_keys xs \<Longrightarrow> distinct (map fst xs)" by (simp add: sorted_keys_def)
qed

lemma keepAlive_sorted:
  "sorted_keys (registrations C) \<Longrightarrow> sorted_keys (registrations (snd (keepAlive E k v ttl (s, C))))"
  by (auto simp: keepAlive_def Let_def sorted_map_put split: prod.splits option.splits)

lemma check_keys_sorted:
  "sorted_keys (registrations (snd sC)) \<Longrightarrow> sorted_keys (registrations (snd (check_keys E rs sC)))"
proof (induction rs arbitrary: sC)
  case (Cons r rs)
  obtain key val ttl where r: "r = (key, val, ttl)" by (cases r) auto
  obtain found s where 1: "etcd_get E key (fst sC) = (found, s)" by fastforce
  show ?case
    using Cons.IH [of "keepAlive E key val ttl (s, snd sC)"] Cons.IH [of "(s, snd sC)"]
      keepAlive_sorted [OF Cons.prems, of E key val ttl s] Cons.prems by (simp add: r 1)
qed simp

text \<open>Between two rounds keys may be lost, but not rewritten.\<close>

definition only_loses :: "('s \<Rightarrow> bool) \<Rightarrow> ('s \<Rightarrow> string \<Rightarrow> string option) \<Rightarrow> ('s \<Rightarrow> 's) \<Rightarrow> bool" where
  "only_loses ok view f \<longleftrightarrow> (\<forall>s. ok s \<longrightarrow> ok (f s) \<and> (\<forall>k. view (f s) k = view s k \<or> view (f s) k = None))"

lemma loop_restores:
  assumes "etcd_up E ok view"
  shows "ok s \<Longrightarrow> sorted_keys (registrations C) \<Longrightarrow>
    list_all (\<lambda>(head, awake, between). head \<and> awake \<and> only_loses ok view between) rounds \<Longrightarrow>
    (\<forall>k v ttl. map_of (registrations C) k = Some (v, ttl) \<longrightarrow> view s k \<in> {None, Some v}) \<Longrightarrow>
    (rounds = [] \<longrightarrow> (\<forall>k v ttl. map_of (registrations C) k = Some (v, ttl) \<longrightarrow> view s k = Some v)) \<Longrightarrow>
    (\<exists>s' C'. monitorLoop E rounds (s, C) = (s', C') \<and> ok s' \<and> map_of (registrations C') = map_of (registrations C) \<and>
      (\<forall>k v ttl. map_of (registrations C) k = Some (v, ttl) \<longrightarrow> view s' k = Some v))"
proof (induction rounds arbitrary: s C)
  case Nil
  then show ?case by simp
next
  case (Cons r rounds)
  obtain f where r: "r = (True, True, f)" "only_loses ok view f" using Cons.prems(3) by (cases r) auto
  have f: "ok (f s)" "\<forall>k. view (f s) k = view s k \<or> view (f s) k = None"
    using r(2) Cons.prems(1) by (auto simp: only_loses_def)
  obtain s1 C1 where 1: "monitor_round E (f s, C) = (s1, C1)" "ok s1" "map_of (registrations C1) = map_of (registrations C)"
    "view s1 = restored UNIV (map_of (registrations C)) (view (f s))"
    using round_up [OF assms f(1) sorted_distinct [OF Cons.prems(2)]] by blast
  have sorted: "sorted_keys (registrations C1)"
    using check_keys_sorted [of "(f s, C)" E "registrations C"] Cons.prems(2) 1(1) by (simp add: monitor_round_def)
  have all: "view s1 k = Some v" if reg: "map_of (registrations C1) k = Some (v, ttl)" for k v ttl
  proof -
    have "view (f s) k \<in> {None, Some v}"
      using Cons.prems(4) [rule_format, of k v ttl] reg f(2) [rule_format, of k] by (auto simp: 1(3))
    then show ?thesis using reg by (auto simp: 1(3,4) restored_def)
  qed
  show ?case using Cons.IH [OF 1(2) sorted] Cons.prems(3) all r(1) 1(1,3) by auto
qed

text \<open>C14. A registration survives the loss of its key: whatever keys disappear from a registry that answers
  (leases that expire, a restart) while the monitor sleeps, after its round every registered key is
  back with the value it was registered with.\<close>

theorem lost_keys_come_back:
  assumes "etcd_up E ok view" "ok s" "sorted_keys (registrations C)" "rounds \<noteq> []"
    "list_all (\<lambda>(head, awake, between). head \<and> awake \<and> only_loses ok view between) rounds"
    "\<forall>k v ttl. map_of (registrations C) k = Some (v, ttl) \<longrightarrow> view s k \<in> {None, Some v}"
  shows "\<exists>s' C'. monitorLoop E rounds (s, C) = (s', C') \<and> map_of (registrations C') = map_of (registrations C) \<and>
    (\<forall>k v ttl. map_of (registrations C) k = Some (v, ttl) \<longrightarrow> view s' k = Some v)"
  using loop_restores [OF assms(1-3,5,6)] assms(4) by blast

section \<open>Learning the nodes\<close>

definition is_dir :: "string \<Rightarrow> bool" where
  "is_dir k \<longleftrightarrow> k \<noteq> [] \<and> last k = CHR ''/''"

lemma get_values_up:
  assumes "etcd_up E ok view"
  shows "ok s \<Longrightarrow> \<exists>r' s'. get_values E ks r s = (r', s') \<and> ok s' \<and> view s' = view s \<and>
    (\<forall>k. map_of r' k = (if k \<in> set ks \<and> \<not> is_dir k \<and> view s k \<noteq> None then view s k else map_of r k))"
proof (induction ks arbitrary: r s)
  case Nil
  then show ?case by simp
next
  case (Cons key ks)
  obtain s1 where 1: "etcd_get E key s = (view s key, s1)" "ok s1" "view s1 = view s"
    using assms Cons.prems unfolding etcd_up_def by metis
  show ?case
  proof (cases "is_dir key")
    case True
    then show ?thesis using Cons.IH [OF Cons.prems, of r] by (auto simp: is_dir_def)
  next
    case False
    then have step: "get_values E (key # ks) r s =
        get_values E ks (case view s key of Some v \<Rightarrow> map_put key v r | None \<Rightarrow> r) s1"
      using 1(1) by (auto simp: is_dir_def split: option.splits)
    show ?thesis using Cons.IH [OF 1(2), of "case view s key of Some v \<Rightarrow> map_put key v r | None \<Rightarrow> r"] 1(3) False
      unfolding step by (cases "view s key") (auto simp: map_of_map_put)
  qed
qed

lemma getKeysWithValues_up:
  assumes "etcd_up E ok view" "ok s"
  shows "\<exists>kvs s'. getKeysWithValues E pre s = (Some kvs, s') \<and> ok s' \<and> view s' = view s \<and>
    (\<forall>k v. prefix pre k \<longrightarrow> \<not> is_dir k \<longrightarrow> view s k = Some v \<longrightarrow> (k, v) \<in> set kvs)"
proof -
  obtain ks s1 where 1: "etcd_keys E pre s = (Some ks, s1)" "set ks = {k \<in> dom (view s). prefix pre k}" "ok s1" "view s1 = view s"
    using assms unfolding etcd_up_def by metis
  obtain kvs s2 where 2: "get_values E ks [] s1 = (kvs, s2)" "ok s2" "view s2 = view s1"
    "\<forall>k. map_of kvs k = (if k \<in> set ks \<and> \<not> is_dir k \<and> view s1 k \<noteq> None then view s1 k else map_of [] k)"
    using get_values_up [OF assms(1) 1(3), of ks "[]"] by blast
  have "map_of kvs k = Some v" if "prefix pre k" "\<not> is_dir k" "view s k = Some v" for k v
    using 2(4) 1(2,4) that by auto
  then have "\<forall>k v. prefix pre k \<longrightarrow> \<not> is_dir k \<longrightarrow> view s k = Some v \<longrightarrow> (k, v) \<in> set kvs"
    using map_of_SomeD by fast
  then show ?thesis using 1 2 by (simp add: getKeysWithValues_def)
qed

lemma parse_nodes_mem:
  "parse_nodes parse kvs = Some ns \<Longrightarrow> (k, v) \<in> set kvs \<Longrightarrow>
    \<exists>ret n. DeserializeNodeInfo parse v node_empty = Some (ret, n) \<and> n \<in> set ns"
proof (induction kvs arbitrary: ns)
  case (Cons kv kvs)
  obtain k' v' ret n where m: "kv = (k', v')" "DeserializeNodeInfo parse v' node_empty = Some (ret, n)"
    using Cons.prems(1) by (cases kv) (auto split: option.splits)
  then obtain ms where "parse_nodes parse kvs = Some ms" "ns = n # ms" using Cons.prems(1) by auto
  then show ?case using Cons.IH [of ms] Cons.prems(2) m by auto
qed simp

definition knows :: "'s disc \<Rightarrow> node_info \<Rightarrow> bool" where
  "knows D n \<longleftrightarrow> map_of (node_id_nodes (d_peers D)) (ni_service_id n) \<noteq> None"

definition dials :: "'s disc \<Rightarrow> string \<Rightarrow> int \<Rightarrow> bool" where
  "dials D ip port \<longleftrightarrow> (\<exists>L \<in> set (loops (d_tcp D)). Connect_task ip port \<in> set (waitTasks L))"

lemma saveNode_keeps: "map_of (node_id_nodes P) k \<noteq> None \<Longrightarrow> map_of (node_id_nodes (saveNode n P)) k \<noteq> None"
  by (auto simp: saveNode_def Let_def update_conv' split: option.splits)

lemma connect_dials:
  assumes "loops T \<noteq> []"
  shows "\<exists>L \<in> set (loops (client_connect ip port T)). Connect_task ip port \<in> set (waitTasks L)"
proof -
  have "unat (next_loop T) mod length (loops T) < length (loops T)" using assms by simp
  then show ?thesis using assms by (auto simp: client_connect_def Let_def set_update_memI intro!: bexI [OF _ set_update_memI])
qed

lemma connect_keeps:
  assumes "L \<in> set (loops T)" "t \<in> set (waitTasks L)"
  shows "\<exists>L' \<in> set (loops (client_connect ip port T)). t \<in> set (waitTasks L')"
proof -
  obtain i where i: "i < length (loops T)" "L = loops T ! i" using assms(1) by (auto simp: in_set_conv_nth)
  let ?T = "client_connect ip port T"
  have "i < length (loops ?T)" "t \<in> set (waitTasks (loops ?T ! i))"
    using i assms(2) by (auto simp: client_connect_def Let_def nth_list_update)
  then show ?thesis using nth_mem by blast
qed

lemma learn_gateway_learns:
  assumes "loops (d_tcp D) \<noteq> []"
  shows "knows (learn_gateway n D) n" "dials (learn_gateway n D) (ni_ip n) (sint (ni_port n))"
    "loops (d_tcp (learn_gateway n D)) \<noteq> []"
    "knows D m \<Longrightarrow> knows (learn_gateway n D) m" "dials D ip port \<Longrightarrow> dials (learn_gateway n D) ip port"
proof -
  show "knows (learn_gateway n D) n" using map_of_saveNode [of n "d_peers D"] by (simp add: learn_gateway_def knows_def)
  show "dials (learn_gateway n D) (ni_ip n) (sint (ni_port n))"
    using connect_dials [OF assms] by (simp add: learn_gateway_def dials_def)
  show "loops (d_tcp (learn_gateway n D)) \<noteq> []"
    using assms by (simp add: learn_gateway_def client_connect_def Let_def)
  show "knows D m \<Longrightarrow> knows (learn_gateway n D) m"
    using saveNode_keeps [of "d_peers D"] unfolding learn_gateway_def knows_def by simp
  show "dials D ip port \<Longrightarrow> dials (learn_gateway n D) ip port"
    using connect_keeps [of _ "d_tcp D"] unfolding learn_gateway_def dials_def by fastforce
qed

lemma fold_keeps:
  assumes "loops (d_tcp D) \<noteq> []"
  shows "loops (d_tcp (fold learn_gateway ns D)) \<noteq> [] \<and>
    (knows D m \<longrightarrow> knows (fold learn_gateway ns D) m) \<and>
    (dials D ip port \<longrightarrow> dials (fold learn_gateway ns D) ip port) \<and>
    d_etcd (fold learn_gateway ns D) = d_etcd D \<and> d_client (fold learn_gateway ns D) = d_client D"
  using assms
proof (induction ns arbitrary: D)
  case Nil
  then show ?case by simp
next
  case (Cons x ns)
  note l = learn_gateway_learns [OF Cons.prems, where n = x]
  show ?case using Cons.IH [OF l(3)] l(4,5) by (simp add: learn_gateway_def)
qed

lemma fold_learns:
  assumes "loops (d_tcp D) \<noteq> []" "n \<in> set ns"
  shows "knows (fold learn_gateway ns D) n \<and> dials (fold learn_gateway ns D) (ni_ip n) (sint (ni_port n))"
proof -
  obtain l r where ns: "ns = l @ n # r" using split_list [OF assms(2)] by blast
  let ?D = "fold learn_gateway l D"
  have "loops (d_tcp ?D) \<noteq> []" using fold_keeps [OF assms(1)] by blast
  note l = learn_gateway_learns [OF this, where n = n]
  show ?thesis using fold_keeps [OF l(3), of r] l(1,2) by (simp add: ns)
qed

text \<open>What a start learns of one key.\<close>

lemma getServerNode_up:
  assumes "etcd_up E ok view" "ok s"
  obtains kvs s' where "getServerNode E parse pre s = (map_option Inr (parse_nodes parse kvs), s')" "ok s'" "view s' = view s"
    "\<forall>k v. prefix pre k \<longrightarrow> \<not> is_dir k \<longrightarrow> view s k = Some v \<longrightarrow> (k, v) \<in> set kvs"
  using getKeysWithValues_up [OF assms, of pre] by (auto simp: getServerNode_def)

lemma learn_keys_up:
  assumes up: "etcd_up E ok view" and "ok (d_etcd D)" "loops (d_tcp D) \<noteq> []"
    and "learn_keys E parse learn_gateway ks D = Some (Inr D')"
  shows "ok (d_etcd D') \<and> view (d_etcd D') = view (d_etcd D) \<and> loops (d_tcp D') \<noteq> [] \<and> d_client D' = d_client D \<and>
    (knows D m \<longrightarrow> knows D' m) \<and> (dials D ip port \<longrightarrow> dials D' ip port) \<and>
    (\<forall>pre \<in> set ks. \<forall>k v. prefix pre k \<longrightarrow> \<not> is_dir k \<longrightarrow> view (d_etcd D) k = Some v \<longrightarrow>
      (\<exists>ret n. DeserializeNodeInfo parse v node_empty = Some (ret, n) \<and> knows D' n \<and> dials D' (ni_ip n) (sint (ni_port n))))"
  using assms(2-)
proof (induction ks arbitrary: D m ip port)
  case Nil
  then show ?case by simp
next
  case (Cons pre ks)
  obtain kvs s' where 1: "getServerNode E parse pre (d_etcd D) = (map_option Inr (parse_nodes parse kvs), s')" "ok s'"
    "view s' = view (d_etcd D)"
    "\<forall>k v. prefix pre k \<longrightarrow> \<not> is_dir k \<longrightarrow> view (d_etcd D) k = Some v \<longrightarrow> (k, v) \<in> set kvs"
    by (rule getServerNode_up [OF up Cons.prems(1)])
  obtain ns where ns: "parse_nodes parse kvs = Some ns" using Cons.prems(3) 1(1) by (cases "parse_nodes parse kvs") auto
  let ?D = "fold learn_gateway ns (D\<lparr>d_etcd := s'\<rparr>)"
  have ne: "loops (d_tcp (D\<lparr>d_etcd := s'\<rparr>)) \<noteq> []" using Cons.prems(2) by simp
  note k = fold_keeps [OF ne, of ns]
  have etcd: "d_etcd ?D = s'" "d_client ?D = d_client D" using k by simp_all
  have rest: "learn_keys E parse learn_gateway ks ?D = Some (Inr D')" using Cons.prems(3) 1(1) ns by simp
  have IH: "ok (d_etcd D') \<and> view (d_etcd D') = view (d_etcd ?D) \<and> loops (d_tcp D') \<noteq> [] \<and> d_client D' = d_client ?D \<and>
    (knows ?D m \<longrightarrow> knows D' m) \<and> (dials ?D ip port \<longrightarrow> dials D' ip port) \<and>
    (\<forall>pre \<in> set ks. \<forall>k v. prefix pre k \<longrightarrow> \<not> is_dir k \<longrightarrow> view (d_etcd ?D) k = Some v \<longrightarrow>
      (\<exists>ret n. DeserializeNodeInfo parse v node_empty = Some (ret, n) \<and> knows D' n \<and> dials D' (ni_ip n) (sint (ni_port n))))"
    for m ip port
    by (rule Cons.IH) (use 1(2) etcd k rest in auto)
  have here: "\<exists>ret n. DeserializeNodeInfo parse v node_empty = Some (ret, n) \<and> knows D' n \<and> dials D' (ni_ip n) (sint (ni_port n))"
    if h: "prefix pre k" "\<not> is_dir k" "view (d_etcd D) k = Some v" for k v
  proof -
    obtain ret n where n: "DeserializeNodeInfo parse v node_empty = Some (ret, n)" "n \<in> set ns"
      using parse_nodes_mem [OF ns] 1(4) h by blast
    show ?thesis using fold_learns [OF ne n(2)] IH [of n "ni_ip n" "sint (ni_port n)"] n(1) by blast
  qed
  have "knows (D\<lparr>d_etcd := s'\<rparr>) m = knows D m" "dials (D\<lparr>d_etcd := s'\<rparr>) ip port = dials D ip port"
    by (simp_all add: knows_def dials_def)
  then show ?case using IH [of m ip port] here k [of m ip port] etcd 1(3) by auto
qed

lemma learn_keys_view:
  assumes up: "etcd_up E ok view" and l: "\<And>n D. d_etcd (learn n D) = d_etcd D"
  shows "ok (d_etcd D) \<Longrightarrow> learn_keys E parse learn ks D = Some (Inr D') \<Longrightarrow>
    ok (d_etcd D') \<and> view (d_etcd D') = view (d_etcd D)"
proof (induction ks arbitrary: D)
  case (Cons pre ks)
  obtain kvs s' where 1: "getServerNode E parse pre (d_etcd D) = (map_option Inr (parse_nodes parse kvs), s')" "ok s'"
    "view s' = view (d_etcd D)"
    by (rule getServerNode_up [OF up Cons.prems(1)])
  obtain ns where ns: "parse_nodes parse kvs = Some ns" using Cons.prems(2) 1(1) by (cases "parse_nodes parse kvs") auto
  have "d_etcd (fold learn ns (D\<lparr>d_etcd := s'\<rparr>)) = s'" for ns
    by (induction ns arbitrary: D rule: rev_induct) (simp_all add: l)
  then show ?case using Cons.IH [of "fold learn ns (D\<lparr>d_etcd := s'\<rparr>)"] Cons.prems(2) 1 ns by simp
qed simp

section \<open>Starting a server\<close>

lemma own_node_key:
  assumes "own_node ips conf = Some me"
  shows "prefix (conf_name conf) (ni_service_id me) \<and> \<not> is_dir (ni_service_id me)"
proof -
  have "int_decimal i \<noteq> [] \<and> last (int_decimal i) \<noteq> CHR ''/''" for i
  proof -
    have d: "dec_digits n \<noteq> [] \<and> last (dec_digits n) \<noteq> CHR ''/''" for n
    proof -
      have "is_digit (last (dec_digits n))"
        using dec_digits_digits [of n] last_in_set [of "dec_digits n"] by (auto simp: list_all_iff)
      moreover have "\<not> is_digit (CHR ''/'')" by (simp add: is_digit_def)
      ultimately show ?thesis using dec_digits_digits(2) by metis
    qed
    show ?thesis using d by (simp add: int_decimal_def)
  qed
  then show ?thesis using assms by (auto simp: own_node_def setMySelfInfo_def is_dir_def split: list.splits)
qed

text \<open>What a successful start has gone through.\<close>

lemma init_steps:
  assumes "init_server learn E parse write ips conf D = Some (Inr (True, D'))"
  obtains me s D1 where "own_node ips conf = Some me" "etcd_connect E (d_etcd D) = (0, s)"
    "(case learn of None \<Rightarrow> D1 = D\<lparr>d_etcd := s\<rparr> | Some learn \<Rightarrow>
        if conf_watch conf = [] then D1 = D\<lparr>d_etcd := s\<rparr>
        else learn_keys E parse learn (conf_watch conf)
          (D\<lparr>d_etcd := s, d_client := watchKeys (conf_watch conf) (d_client D)\<rparr>) = Some (Inr D1))"
    "registerServer E write me (d_etcd D1, d_client D1) = (d_etcd D', d_client D')"
    "d_peers D' = d_peers D1" "d_tcp D' = d_tcp D1"
  using assms
  by (auto simp: init_server_def Let_def split: option.splits prod.splits if_splits sum.splits)

lemma init_connect_up:
  assumes "etcd_up E ok view" "ok s" "etcd_connect E s = (e, s')"
  shows "ok s' \<and> view s' = view s"
  using assms unfolding etcd_up_def etcd_connect_def by (metis prod.inject)

lemma register_up:
  assumes "etcd_up E ok view" "ok s" "registerServer E write me (s, C) = (s', C')"
  shows "ok s' \<and> view s' = (view s)(ni_service_id me \<mapsto> SerializeNodeInfo write me) \<and> monitorRunning C'"
  by (rule keepAlive_up [OF assms(1,2), of "ni_service_id me" "SerializeNodeInfo write me" 20 C])
    (use assms(3) in \<open>auto simp: registerServer_def\<close>)

lemma game_registers:
  assumes up: "etcd_up E ok view" "ok (d_etcd D)" and start: "game_initWithConf E parse write ips conf D = Some (Inr (True, D'))"
  obtains me where "own_node ips conf = Some me" "ok (d_etcd D')"
    "view (d_etcd D') (ni_service_id me) = Some (SerializeNodeInfo write me)" "monitorRunning (d_client D')"
proof -
  obtain me s D1 where st: "own_node ips conf = Some me" "etcd_connect E (d_etcd D) = (0, s)"
    "if conf_watch conf = [] then D1 = D\<lparr>d_etcd := s\<rparr>
      else learn_keys E parse learn_game (conf_watch conf)
        (D\<lparr>d_etcd := s, d_client := watchKeys (conf_watch conf) (d_client D)\<rparr>) = Some (Inr D1)"
    "registerServer E write me (d_etcd D1, d_client D1) = (d_etcd D', d_client D')"
    using start unfolding game_initWithConf_def by (auto elim: init_steps)
  have s: "ok s" using init_connect_up [OF up st(2)] by simp
  have "ok (d_etcd D1)"
    using st(3) s learn_keys_view [OF up(1), of learn_game "D\<lparr>d_etcd := s, d_client := watchKeys (conf_watch conf) (d_client D)\<rparr>"]
    by (auto simp: learn_game_def split: if_splits)
  from register_up [OF up(1) this st(4)] show ?thesis using that st(1) by simp
qed

text \<open>A node that a starting gateway finds in the registry.\<close>

lemma gateway_learns:
  assumes up: "etcd_up E ok view" "ok (d_etcd D)" "loops (d_tcp D) \<noteq> []"
    and start: "gateway_initWithConf E parse write ips conf D = Some (Inr (True, D'))"
    and key: "pre \<in> set (conf_watch conf)" "prefix pre k" "\<not> is_dir k" "view (d_etcd D) k = Some v"
  shows "\<exists>ret n. DeserializeNodeInfo parse v node_empty = Some (ret, n) \<and> knows D' n \<and> dials D' (ni_ip n) (sint (ni_port n))"
proof -
  obtain me s D1 where st: "etcd_connect E (d_etcd D) = (0, s)"
    "learn_keys E parse learn_gateway (conf_watch conf)
        (D\<lparr>d_etcd := s, d_client := watchKeys (conf_watch conf) (d_client D)\<rparr>) = Some (Inr D1)"
    "d_peers D' = d_peers D1" "d_tcp D' = d_tcp D1"
    using start key(1) unfolding gateway_initWithConf_def by (elim init_steps) (auto split: if_splits)
  let ?D = "D\<lparr>d_etcd := s, d_client := watchKeys (conf_watch conf) (d_client D)\<rparr>"
  have s: "ok (d_etcd ?D)" "view (d_etcd ?D) = view (d_etcd D)" "loops (d_tcp ?D) \<noteq> []"
    using init_connect_up [OF up(1,2) st(1)] up(3) by simp_all
  have "\<exists>ret n. DeserializeNodeInfo parse v node_empty = Some (ret, n) \<and> knows D1 n \<and> dials D1 (ni_ip n) (sint (ni_port n))"
    using learn_keys_up [OF up(1) s(1,3) st(2)] key s(2) by (simp; blast)
  then show ?thesis using st(3,4) by (simp add: knows_def dials_def)
qed

lemma watch_learns:
  assumes "loops (d_tcp D) \<noteq> []" "gateway_onWatchKeyChange parse conf ev key v D = Some D'"
  shows "if ev = PUT \<and> takeWhile (\<lambda>c. c \<noteq> CHR ''/'') key \<in> set (conf_watch conf) \<and>
      (\<exists>n. DeserializeNodeInfo parse v node_empty = Some (True, n))
    then \<exists>n. DeserializeNodeInfo parse v node_empty = Some (True, n) \<and> knows D' n \<and> dials D' (ni_ip n) (sint (ni_port n))
    else D' = D"
  using assms learn_gateway_learns(1,2) [OF assms(1)]
  by (auto simp: gateway_onWatchKeyChange_def Let_def split: if_splits option.splits)

section \<open>Properties\<close>


text \<open>A value under a watched key that cannot be parsed is not skipped: at the start the gateway
  stores a node without a name and dials the empty address at port 0.\<close>

theorem unreadable_value_is_dialled:
  assumes "etcd_up E ok view" "ok (d_etcd D)" "loops (d_tcp D) \<noteq> []"
    "gateway_initWithConf E parse write ips conf D = Some (Inr (True, D'))"
    "pre \<in> set (conf_watch conf)" "prefix pre k" "\<not> is_dir k" "view (d_etcd D) k = Some v" "parse (c_str v) = None"
  shows "knows D' node_empty \<and> dials D' [] 0"
proof -
  have "DeserializeNodeInfo parse v node_empty = Some (False, node_empty)"
    using assms(9) by (simp add: DeserializeNodeInfo_def)
  moreover have "ni_ip node_empty = []" "ni_port node_empty = 0" by (simp_all add: node_empty_def)
  ultimately show ?thesis using gateway_learns [OF assms(1-8)] by auto
qed

text \<open>A start whose registration fails reports success, with nothing registered and no monitor that
  would try again.\<close>

theorem failed_registration_unnoticed:
  assumes "own_node ips conf = Some me" "etcd_head E (d_etcd D) = (0, s)" "leasekeepalive E 20 s = (None, s')"
    "registrations (d_client D) = []" "\<not> monitorRunning (d_client D)"
  shows "\<exists>D'. router_initWithConf E parse write ips conf D = Some (Inr (True, D')) \<and>
    registrations (d_client D') = [] \<and> \<not> monitorRunning (d_client D') \<and>
    monitorLoop E rounds (d_etcd D', d_client D') = monitorLoop E rounds (s', d_client D)"
  using assms
  by (simp add: router_initWithConf_def init_server_def etcd_connect_def registerServer_def keepAlive_def)

section \<open>Concrete servers\<close>

definition ex_etcd :: "(string \<times> string) list etcd_api" where
  "ex_etcd = \<lparr>leasekeepalive = (\<lambda>ttl s. (Some 1, s)), etcd_put = (\<lambda>k v l s. (True, AList.update k v s)),
    leaserevoke = (\<lambda>l s. s), keeper_cancel = (\<lambda>l s. s), etcd_get = (\<lambda>k s. (map_of s k, s)),
    etcd_keys = (\<lambda>p s. (Some (filter (prefix p) (map fst s)), s)), etcd_head = (\<lambda>s. (0, s))\<rparr>"

lemma ex_etcd_up: "etcd_up ex_etcd (\<lambda>s. True) map_of"
  by (auto simp: etcd_up_def ex_etcd_def update_conv' dom_map_of_conv_image_fst)

definition ex_disc :: "(string \<times> string) list \<Rightarrow> (string \<times> string) list disc" where
  "ex_disc s = \<lparr>d_etcd = s, d_client = etcd_client_new, d_peers = peers_empty,
    d_tcp = cl_start (\<lambda>L. L) 1 1 tcp_client_new\<rparr>"

definition ex_game_conf :: disc_conf where
  "ex_game_conf = \<lparr>conf_name = ''c_game.V1'', conf_port = 9100, conf_type = 3, conf_watch = [''c_router.V1'']\<rparr>"

definition ex_gateway_conf :: disc_conf where
  "ex_gateway_conf = \<lparr>conf_name = ''c_gateway.V1'', conf_port = 9000, conf_type = 2, conf_watch = [''c_game.V1'']\<rparr>"

definition ex_own :: node_info where
  "ex_own = node_empty\<lparr>ni_service_id := ''c_game.V1/10.0.0.7:9100'', ni_service_name := ''c_game.V1'',
    ni_ip := ''10.0.0.7'', ni_type := 3, ni_port := 9100\<rparr>"

lemma ex_own_node: "own_node [''10.0.0.7''] ex_game_conf = Some ex_own"
proof -
  have "sint (9100 :: i32) = 9100" by simp
  then show ?thesis
    by (simp add: own_node_def setMySelfInfo_def ex_game_conf_def ex_own_def node_empty_def int_decimal_def dec_digits.simps, code_simp)
qed

definition ex_parse :: "string \<Rightarrow> rj option" where
  "ex_parse s = (if s = ''game'' then Some (node_doc ex_own) else None)"

definition ex_write :: "rj \<Rightarrow> string" where
  "ex_write d = (if d = node_doc ex_own then ''game'' else ''other'')"


lemma ex_etcd_calls [simp]:
  "leasekeepalive ex_etcd ttl s = (Some 1, s)" "etcd_put ex_etcd k v l s = (True, AList.update k v s)"
  "etcd_get ex_etcd k s = (map_of s k, s)" "etcd_keys ex_etcd p s = (Some (filter (prefix p) (map fst s)), s)"
  "etcd_head ex_etcd s = (0, s)"
  by (simp_all add: ex_etcd_def)

lemma ex_disc_fields [simp]:
  "d_etcd (ex_disc s) = s" "d_client (ex_disc s) = etcd_client_new" "d_peers (ex_disc s) = peers_empty"
  by (simp_all add: ex_disc_def)

lemma ex_own_fields [simp]:
  "ni_service_id ex_own = ''c_game.V1/10.0.0.7:9100''" "ni_ip ex_own = ''10.0.0.7''" "ni_port ex_own = 9100"
  "SerializeNodeInfo ex_write ex_own = ''game''"
  by (simp_all add: ex_own_def SerializeNodeInfo_def ex_write_def c_str_def)

lemma ex_game_start:
  "\<exists>G. game_initWithConf ex_etcd ex_parse ex_write [''10.0.0.7''] ex_game_conf (ex_disc []) = Some (Inr (True, G)) \<and>
    d_etcd G = [(''c_game.V1/10.0.0.7:9100'', ''game'')]"
proof -
  have "getServerNode ex_etcd ex_parse ''c_router.V1'' [] = (Some (Inr []), [])"
    by (simp add: getServerNode_def getKeysWithValues_def)
  moreover have "conf_watch ex_game_conf = [''c_router.V1'']" by (simp add: ex_game_conf_def)
  ultimately show ?thesis
    by (simp add: game_initWithConf_def init_server_def ex_own_node etcd_connect_def registerServer_def keepAlive_def Let_def)
qed

lemma ex_own_ok:
  "plain_node ex_own" "ex_parse (c_str (ex_write (node_doc ex_own))) = Some (node_doc ex_own)"
  by (simp_all add: ex_own_def node_empty_def plain_node_def c_string_def ex_parse_def ex_write_def c_str_def)

lemma ex_confs: "conf_name ex_game_conf = ''c_game.V1''" "conf_watch ex_gateway_conf = [''c_game.V1'']"
  by (simp_all add: ex_game_conf_def ex_gateway_conf_def)

lemma ex_gateway_start:
  "\<exists>D'. gateway_initWithConf ex_etcd ex_parse ex_write [''10.0.0.8''] ex_gateway_conf
    (ex_disc [(''c_game.V1/10.0.0.7:9100'', ''game'')]) = Some (Inr (True, D'))"
proof -
  have "DeserializeNodeInfo ex_parse (SerializeNodeInfo ex_write ex_own) node_empty = Some (True, ex_own)"
    using node_reads ex_own_ok by blast
  then have "getServerNode ex_etcd ex_parse ''c_game.V1'' [(''c_game.V1/10.0.0.7:9100'', ''game'')] =
      (Some (Inr [ex_own]), [(''c_game.V1/10.0.0.7:9100'', ''game'')])"
    by (simp add: getServerNode_def getKeysWithValues_def)
  moreover have "conf_watch ex_gateway_conf = [''c_game.V1'']" by (simp add: ex_gateway_conf_def)
  moreover obtain me where "own_node [''10.0.0.8''] ex_gateway_conf = Some me"
    by (simp add: own_node_def setMySelfInfo_def)
  ultimately show ?thesis
    by (simp add: gateway_initWithConf_def init_server_def etcd_connect_def registerServer_def keepAlive_def Let_def)
qed

lemma ex_loops: "loops (d_tcp (ex_disc s)) \<noteq> []"
  by (simp add: ex_disc_def cl_start_def tcp_client_new_def)


theorem unreadable_value_is_dialled_witness:
  "\<exists>D'. gateway_initWithConf ex_etcd (\<lambda>s. None) ex_write [''10.0.0.8''] ex_gateway_conf
      (ex_disc [(''c_game.V1/x'', ''?'')]) = Some (Inr (True, D')) \<and> knows D' node_empty \<and> dials D' [] 0"
proof -
  have "getServerNode ex_etcd (\<lambda>s. None) ''c_game.V1'' [(''c_game.V1/x'', ''?'')] = (Some (Inr [node_empty]), [(''c_game.V1/x'', ''?'')])"
    by (simp add: getServerNode_def getKeysWithValues_def DeserializeNodeInfo_def)
  moreover have w: "conf_watch ex_gateway_conf = [''c_game.V1'']" by (simp add: ex_gateway_conf_def)
  moreover obtain me where "own_node [''10.0.0.8''] ex_gateway_conf = Some me"
    by (simp add: own_node_def setMySelfInfo_def)
  ultimately obtain D' where D': "gateway_initWithConf ex_etcd (\<lambda>s. None) ex_write [''10.0.0.8''] ex_gateway_conf
      (ex_disc [(''c_game.V1/x'', ''?'')]) = Some (Inr (True, D'))"
    by (simp add: gateway_initWithConf_def init_server_def etcd_connect_def registerServer_def keepAlive_def Let_def)
  have "knows D' node_empty \<and> dials D' [] 0"
    by (rule unreadable_value_is_dialled [OF ex_etcd_up _ ex_loops D', of "''c_game.V1''" "''c_game.V1/x''" "''?''"])
      (simp_all add: w is_dir_def)
  then show ?thesis using D' by blast
qed

theorem failed_registration_unnoticed_witness:
  "\<exists>D'. router_initWithConf (ex_etcd\<lparr>leasekeepalive := (\<lambda>ttl s. (None, s))\<rparr>) ex_parse ex_write [''10.0.0.7''] ex_game_conf (ex_disc []) =
    Some (Inr (True, D')) \<and> registrations (d_client D') = []"
proof -
  have "etcd_head (ex_etcd\<lparr>leasekeepalive := (\<lambda>ttl s. (None, s))\<rparr>) (d_etcd (ex_disc [])) = (0, [])"
    "leasekeepalive (ex_etcd\<lparr>leasekeepalive := (\<lambda>ttl s. (None, s))\<rparr>) 20 [] = (None, [])" by simp_all
  then show ?thesis using failed_registration_unnoticed [OF ex_own_node] by (fastforce simp: etcd_client_new_def)
qed

theorem lost_keys_come_back_witness:
  "\<exists>s' C'. monitorLoop ex_etcd [(True, True, \<lambda>s. [])] ([(''g'', ''v'')], etcd_client_new\<lparr>registrations := [(''g'', ''v'', 20)]\<rparr>) = (s', C') \<and>
    map_of s' ''g'' = Some ''v''"
proof -
  let ?C = "etcd_client_new\<lparr>registrations := [(''g'', ''v'', 20)]\<rparr>"
  have "\<exists>s' C'. monitorLoop ex_etcd [(True, True, \<lambda>s. [])] ([(''g'', ''v'')], ?C) = (s', C') \<and>
      map_of (registrations C') = map_of (registrations ?C) \<and>
      (\<forall>k v ttl. map_of (registrations ?C) k = Some (v, ttl) \<longrightarrow> map_of s' k = Some v)"
    by (rule lost_keys_come_back [OF ex_etcd_up]) (auto simp: sorted_keys_def only_loses_def split: if_splits)
  then show ?thesis by auto
qed
end
