(* ===== verification/Simple_Ring.thy ===== *)
theory Simple_Ring
  imports Bounded_Fifo
begin

unbundle bit_operations_syntax

text \<open>
  The generic ring of src/core/common/RingBuffer.hpp: 32-bit indices, one slot kept free,
  loops that copy around the end of the array. The array is a list of elements; the loops are
  partial functions, because nothing in the class itself bounds them for a broken ring.
\<close>

section \<open>State and operations\<close>

record 'a rbuf =
  rs_capacity :: u32
  rs_mod :: u32
  rs_data :: "'a list"
  rs_head :: u32
  rs_tail :: u32

text \<open>The argument of the constructor is not used; \<open>fresh\<close> is what \<open>new T[128]\<close> leaves.\<close>

definition rs_new :: "'a list \<Rightarrow> u32 \<Rightarrow> 'a rbuf" where
  "rs_new fresh n =
    \<lparr>rs_capacity = 128, rs_mod = 128 - 1, rs_data = fresh, rs_head = 0, rs_tail = 0\<rparr>"

definition rs_isEmpty :: "'a rbuf \<Rightarrow> bool" where
  "rs_isEmpty r \<longleftrightarrow> rs_head r = rs_tail r"

definition rs_isFull :: "'a rbuf \<Rightarrow> bool" where
  "rs_isFull r \<longleftrightarrow> (rs_tail r + 1) AND rs_mod r = rs_head r"

definition rs_size :: "'a rbuf \<Rightarrow> u32" where
  "rs_size r = (rs_tail r - rs_head r + rs_capacity r) AND rs_mod r"

definition rs_availableSize :: "'a rbuf \<Rightarrow> u32" where
  "rs_availableSize r = rs_capacity r - rs_size r - 1"

definition rs_headToEndSize :: "'a rbuf \<Rightarrow> u32" where
  "rs_headToEndSize r = rs_capacity r - rs_head r"

definition rs_tailToEndSize :: "'a rbuf \<Rightarrow> u32" where
  "rs_tailToEndSize r = rs_capacity r - rs_tail r"

definition rs_push1 :: "'a \<Rightarrow> 'a rbuf \<Rightarrow> bool \<times> 'a rbuf" where
  "rs_push1 x r =
    (if rs_isFull r then (False, r)
     else (True, r\<lparr>rs_data := (rs_data r)[unat (rs_tail r) := x],
                    rs_tail := (rs_tail r + 1) AND rs_mod r\<rparr>))"

text \<open>The null pointer that an empty ring answers is \<open>None\<close>.\<close>

definition rs_pop1 :: "'a rbuf \<Rightarrow> 'a option \<times> 'a rbuf" where
  "rs_pop1 r =
    (if rs_isEmpty r then (None, r)
     else (Some (rs_data r ! unat (rs_head r)),
           r\<lparr>rs_head := (rs_head r + 1) AND rs_mod r\<rparr>))"

partial_function (option) rs_copy_in :: "'a list \<Rightarrow> u32 \<Rightarrow> u32 \<Rightarrow> 'a rbuf \<Rightarrow> 'a rbuf option" where
  "rs_copy_in xs n copied r =
    (if copied < n then
       let remaining = rs_capacity r - rs_tail r;
           to_copy = min (n - copied) remaining
       in rs_copy_in xs n (copied + to_copy)
            (r\<lparr>rs_data := poke (rs_data r) (unat (rs_tail r))
                           (mem_slice xs (unat copied) (unat to_copy)),
               rs_tail := (rs_tail r + to_copy) AND rs_mod r\<rparr>)
     else Some r)"

definition rs_push :: "'a list \<Rightarrow> u32 \<Rightarrow> 'a rbuf \<Rightarrow> (bool \<times> 'a rbuf) option" where
  "rs_push xs len r =
    (let space_available = rs_availableSize r
     in if space_available < len then Some (False, r)
        else map_option (Pair True) (rs_copy_in xs (min len space_available) 0 r))"

text \<open>The copying loop of the bulk \<open>pop\<close> and of \<open>peek\<close>: what has been written to the buffer
  of the caller, and the index of the head.\<close>

partial_function (option) rs_copy_out ::
  "'a rbuf \<Rightarrow> u32 \<Rightarrow> u32 \<Rightarrow> u32 \<Rightarrow> 'a list \<Rightarrow> ('a list \<times> u32) option"
where
  "rs_copy_out r n copied head out =
    (if copied < n then
       let remaining = rs_capacity r - head;
           to_copy = min (n - copied) remaining
       in rs_copy_out r n (copied + to_copy) ((head + to_copy) AND rs_mod r)
            (out @ mem_slice (rs_data r) (unat head) (unat to_copy))
     else Some (out, head))"

definition rs_pop :: "u32 \<Rightarrow> 'a rbuf \<Rightarrow> ('a list \<times> u32 \<times> 'a rbuf) option" where
  "rs_pop len r =
    (let effectSize = rs_size r
     in if effectSize < len then Some ([], 0, r)
        else let elements_to_pop = min len effectSize
             in map_option (\<lambda>(out, head). (out, elements_to_pop, r\<lparr>rs_head := head\<rparr>))
                  (rs_copy_out r elements_to_pop 0 (rs_head r) []))"

text \<open>\<open>peek\<close> computes with \<open>int\<close>; its loop compares the \<open>unsigned\<close> counter with it, which
  converts the \<open>int\<close>.\<close>

definition rs_peek :: "i32 \<Rightarrow> 'a rbuf \<Rightarrow> ('a list \<times> bool) option" where
  "rs_peek len r =
    (let validLen = (rs_size r :: i32)
     in if sint validLen < sint len then Some ([], False)
        else let effective_length = (if sint validLen < sint len then validLen else len)
             in map_option (\<lambda>(out, head). (out, True))
                  (rs_copy_out r effective_length 0 (rs_head r) []))"

section \<open>Indices as numbers\<close>

lemma unat_and_mask: "unat ((w::'a::len word) AND mask k) = unat w mod 2 ^ k" if "k \<le> LENGTH('a)"
  using that by (simp flip: take_bit_eq_mask take_bit_eq_mod add: unsigned_take_bit_eq)

lemma and_127: "unat ((w::u32) AND 127) = unat w mod 128"
proof -
  have "(127::u32) = mask 7" by (simp add: mask_eq_exp_minus_1)
  then show ?thesis using unat_and_mask [of 7 w] by simp
qed

lemma add_127:
  assumes "unat (a::u32) < 128" "unat (b::u32) \<le> 128"
  shows "unat ((a + b) AND 127) = (unat a + unat b) mod 128"
proof -
  have "unat (a + b) = unat a + unat b" using assms by (simp add: unat_word_ariths)
  then show ?thesis by (simp add: and_127)
qed

section \<open>The ring as a queue\<close>

definition rs_ok :: "'a rbuf \<Rightarrow> bool" where
  "rs_ok r \<longleftrightarrow> rs_capacity r = 128 \<and> rs_mod r = 127 \<and> length (rs_data r) = 128 \<and>
    unat (rs_head r) < 128 \<and> unat (rs_tail r) < 128"

definition rs_contents :: "'a rbuf \<Rightarrow> 'a list" where
  "rs_contents r = window (rs_data r) (unat (rs_head r))
    (ring_dist 128 (unat (rs_head r)) (unat (rs_tail r)))"

lemma rs_okD:
  assumes "rs_ok r"
  shows "rs_capacity r = 128" "rs_mod r = 127" "length (rs_data r) = 128"
    "unat (rs_head r) < 128" "unat (rs_tail r) < 128"
  using assms by (simp_all add: rs_ok_def)

lemma rs_new_ok: "length fresh = 128 \<Longrightarrow> rs_ok (rs_new fresh n) \<and> rs_contents (rs_new fresh n) = []"
  by (simp add: rs_ok_def rs_new_def rs_contents_def)

lemma unat_rs_size:
  assumes "rs_ok r"
  shows "unat (rs_size r) = ring_dist 128 (unat (rs_head r)) (unat (rs_tail r))"
proof -
  have h: "unat (rs_head r) < 128" "unat (rs_tail r) < 128" using assms by (simp_all add: rs_ok_def)
  have "unat (rs_tail r - rs_head r + 128) mod 128 =
      (unat (rs_tail r) + 128 - unat (rs_head r)) mod 128"
  proof (cases "unat (rs_head r) \<le> unat (rs_tail r)")
    case True
    then have "unat (rs_tail r - rs_head r) = unat (rs_tail r) - unat (rs_head r)"
      by (simp add: unat_sub_if')
    then have "unat (rs_tail r - rs_head r + 128) = unat (rs_tail r) - unat (rs_head r) + 128"
      using h by (simp add: unat_word_ariths)
    then show ?thesis using True by simp
  next
    case False
    have e: "rs_tail r - rs_head r + 128 = (rs_tail r + 128) - rs_head r" by simp
    have t: "unat (rs_tail r + 128) = unat (rs_tail r) + 128"
      using h by (simp add: unat_word_ariths)
    have "unat (rs_tail r + 128 - rs_head r) = unat (rs_tail r + 128) - unat (rs_head r)"
      using h t by (intro unat_sub) (simp add: word_le_nat_alt)
    then have "unat (rs_tail r - rs_head r + 128) = unat (rs_tail r) + 128 - unat (rs_head r)"
      by (simp only: e t)
    then show ?thesis by simp
  qed
  then show ?thesis
    using assms by (simp add: rs_size_def and_127 ring_dist_def rs_okD)
qed

lemma length_rs_contents: "rs_ok r \<Longrightarrow> length (rs_contents r) = unat (rs_size r)"
  by (simp add: rs_contents_def unat_rs_size)

lemma rs_size_less: "rs_ok r \<Longrightarrow> unat (rs_size r) < 128"
  by (simp add: unat_rs_size ring_dist_less)

lemma unat_rs_available:
  assumes "rs_ok r"
  shows "unat (rs_availableSize r) = 127 - unat (rs_size r)"
proof -
  have s: "unat (rs_size r) < 128" by (rule rs_size_less [OF assms])
  then have "unat (128 - rs_size r) = 128 - unat (rs_size r)" by (simp add: unat_sub_if')
  then have "unat (128 - rs_size r - 1) = 128 - unat (rs_size r) - 1"
    using s by (simp add: unat_sub_if' del: diff_diff_left)
  then show ?thesis using assms by (simp add: rs_availableSize_def rs_okD)
qed

subsection \<open>The loops\<close>

text \<open>Copying out terminates whatever the length, and walks around the ring as often as the
  length asks for.\<close>

lemma copy_step:
  assumes "unat (h::u32) < 128" "c < (n::u32)"
  defines "k \<equiv> min (n - c) (128 - h)"
  shows "0 < unat k" "unat k \<le> unat n - unat c" "unat k \<le> 128 - unat h"
    "unat (c + k) = unat c + unat k" "unat ((h + k) AND 127) = (unat h + unat k) mod 128"
proof -
  have cn: "unat c < unat n" using assms(2) by (simp add: word_less_nat_alt)
  have nc: "unat (n - c) = unat n - unat c" using cn by (simp add: unat_sub_if')
  have r: "unat (128 - h) = 128 - unat h" using assms(1) by (simp add: unat_sub_if')
  have k: "unat k = min (unat n - unat c) (128 - unat h)"
    by (simp add: k_def unat_min nc r)
  show "0 < unat k" "unat k \<le> unat n - unat c" and k2: "unat k \<le> 128 - unat h"
    using k cn assms(1) by simp_all
  have n: "unat n < 2 ^ 32" using unsigned_less [of n] by simp
  have "unat c + unat k < 2 ^ 32" using k cn n by linarith
  then show "unat (c + k) = unat c + unat k" by (simp add: unat_word_ariths)
  show "unat ((h + k) AND 127) = (unat h + unat k) mod 128"
    using assms(1) k2 by (intro add_127) simp_all
qed

lemma copy_out_window:
  assumes "rs_ok r" "unat head < 128" "copied \<le> n"
  shows "\<exists>h'. rs_copy_out r n copied head out =
      Some (out @ window (rs_data r) (unat head) (unat n - unat copied), h') \<and>
    unat h' = (unat head + (unat n - unat copied)) mod 128"
  using assms(2,3)
proof (induction "unat n - unat copied" arbitrary: copied head out rule: less_induct)
  case less
  note r = rs_okD [OF assms(1)]
  show ?case
  proof (cases "copied < n")
    case False
    then have "copied = n" using less.prems(2) by simp
    then show ?thesis using less.prems(1) by (subst rs_copy_out.simps) simp
  next
    case True
    define k where "k = min (n - copied) (128 - head)"
    note s = copy_step [OF less.prems(1) True, folded k_def]
    let ?h = "(head + k) AND 127"
    have cn: "unat copied < unat n" using True by (simp add: word_less_nat_alt)
    have h: "unat ?h < 128" by (simp add: s(5))
    have le: "copied + k \<le> n" using s(2,4) cn by (simp add: word_le_nat_alt)
    have m: "unat n - unat (copied + k) < unat n - unat copied" using s(1,2,4) cn by linarith
    have sl: "mem_slice (rs_data r) (unat head) (unat k) = window (rs_data r) (unat head) (unat k)"
      using s(3) r less.prems(1) by (intro window_slice [symmetric]) simp
    have w: "window (rs_data r) (unat head) (unat n - unat copied) =
        window (rs_data r) (unat head) (unat k) @
        window (rs_data r) (unat ?h) (unat n - unat (copied + k))"
      using window_append [of "rs_data r" "unat head" "unat k" "unat n - unat (copied + k)"]
        s(2,4,5) r(3) cn by simp
    obtain h' where IH: "rs_copy_out r n (copied + k) ?h
          (out @ mem_slice (rs_data r) (unat head) (unat k)) =
        Some ((out @ mem_slice (rs_data r) (unat head) (unat k)) @
          window (rs_data r) (unat ?h) (unat n - unat (copied + k)), h')"
      "unat h' = (unat ?h + (unat n - unat (copied + k))) mod 128"
      using less.hyps [OF m h le] by blast
    have "rs_copy_out r n copied head out =
        Some (out @ window (rs_data r) (unat head) (unat n - unat copied), h')"
      by (subst rs_copy_out.simps) (simp add: True r Let_def IH(1) [unfolded sl append_assoc] w sl flip: k_def)
    moreover have "unat n - unat copied = unat k + (unat n - unat (copied + k))"
      using s(2,4) cn by linarith
    then have "unat h' = (unat head + (unat n - unat copied)) mod 128"
      unfolding IH(2) s(5) by (simp only: mod_add_left_eq add.assoc)
    ultimately show ?thesis by blast
  qed
qed

text \<open>Copying in at most the free room takes one round, or two when it meets the end.\<close>

lemma copy_in_poke:
  assumes "rs_ok r" "length xs = unat n" "unat n < 128"
  shows "\<exists>t'. rs_copy_in xs n 0 r =
      Some (r\<lparr>rs_data := ring_poke (rs_data r) (unat (rs_tail r)) xs, rs_tail := t'\<rparr>) \<and>
    unat t' = (unat (rs_tail r) + unat n) mod 128"
proof (cases "n = 0")
  case True
  then show ?thesis using assms rs_okD [OF assms(1)]
    by (subst rs_copy_in.simps) (auto simp: ring_poke_def intro: exI [of _ "rs_tail r"])
next
  case False
  note r = rs_okD [OF assms(1)]
  define k where "k = min n (128 - rs_tail r)"
  have n0: "0 < n" using False by (simp add: word_neq_0_conv)
  note s = copy_step [OF r(5) n0, simplified, folded k_def]
  let ?t = "(rs_tail r + k) AND 127"
  have tr: "unat (128 - rs_tail r) = 128 - unat (rs_tail r)" using r(5) by (simp add: unat_sub_if')
  have ku: "unat k = min (unat n) (128 - unat (rs_tail r))" by (simp add: k_def unat_min tr)
  have sl: "mem_slice xs 0 (unat k) = take (unat k) xs" by (simp add: mem_slice_def)
  let ?r = "r\<lparr>rs_data := poke (rs_data r) (unat (rs_tail r)) (take (unat k) xs), rs_tail := ?t\<rparr>"
  have first: "rs_copy_in xs n 0 r = rs_copy_in xs n k ?r"
    by (subst rs_copy_in.simps) (simp add: n0 r Let_def sl flip: k_def)
  have f: "min (length xs) (length (rs_data r) - unat (rs_tail r)) = unat k"
    using assms(2) r(3) ku by simp
  show ?thesis
  proof (cases "k < n")
    case False
    moreover have "k \<le> n" by (simp add: k_def)
    ultimately have kn: "k = n" by simp
    then have "rs_copy_in xs n k ?r = Some ?r" by (subst rs_copy_in.simps) simp
    moreover have "poke (rs_data r) (unat (rs_tail r)) (take (unat k) xs) =
        ring_poke (rs_data r) (unat (rs_tail r)) xs"
      unfolding ring_poke_def Let_def f using kn assms(2) by simp
    ultimately show ?thesis using first s(5) by (intro exI [of _ ?t]) (simp add: kn)
  next
    case True
    have kk: "unat k = 128 - unat (rs_tail r)" using True ku
      by (simp add: word_less_nat_alt min_def split: if_splits)
    then have t0: "unat ?t = 0" using s r(5) by simp
    then have t: "?t = 0" by (simp only: unat_eq_0)
    have nk: "unat (n - k) = unat n - unat k"
      using True by (simp add: word_less_nat_alt unat_sub_if')
    have "n - k \<le> 128" using nk assms(3) by (simp add: word_le_nat_alt)
    then have second: "min (n - k) (128 - ?t) = n - k" by (simp add: t min_def)
    have rest: "mem_slice xs (unat k) (unat (n - k)) = drop (unat k) xs"
      using assms(2) nk by (simp add: mem_slice_def)
    have step: "rs_copy_in xs n k ?r = rs_copy_in xs n (k + (n - k))
        (?r\<lparr>rs_data := poke (rs_data ?r) (unat ?t) (drop (unat k) xs),
            rs_tail := (?t + (n - k)) AND 127\<rparr>)"
      by (subst rs_copy_in.simps) (simp add: True r Let_def second [simplified] rest)
    have last: "rs_copy_in xs n (k + (n - k)) q = Some q" for q :: "'a rbuf"
      by (subst rs_copy_in.simps) simp
    have "poke (poke (rs_data r) (unat (rs_tail r)) (take (unat k) xs)) 0 (drop (unat k) xs) =
        ring_poke (rs_data r) (unat (rs_tail r)) xs"
      unfolding ring_poke_def Let_def f ..
    then have "rs_copy_in xs n 0 r =
        Some (r\<lparr>rs_data := ring_poke (rs_data r) (unat (rs_tail r)) xs,
                rs_tail := (?t + (n - k)) AND 127\<rparr>)"
      using first step last t0 by simp
    moreover have "unat ((?t + (n - k)) AND 127) = (unat (rs_tail r) + unat n) mod 128"
    proof -
      have "unat (rs_tail r) + unat n = 128 + (unat n - unat k)" using kk r(5) True
        by (simp add: word_less_nat_alt)
      then show ?thesis using nk assms(3) by (simp add: t and_127)
    qed
    ultimately show ?thesis by blast
  qed
qed

subsection \<open>The operations on the queue\<close>

lemma push_eq:
  assumes "rs_ok r" "length xs < 2 ^ 32"
  shows "\<exists>r'. rs_push xs (word_of_nat (length xs)) r =
      Some (length (rs_contents r) + length xs \<le> 127, r') \<and> rs_ok r' \<and>
    rs_contents r' = rs_contents r @ (if length (rs_contents r) + length xs \<le> 127 then xs else [])"
proof -
  let ?n = "word_of_nat (length xs) :: u32"
  have n: "unat ?n = length xs" using assms(2) by (rule unat_word_of_nat_u32)
  note r = rs_okD [OF assms(1)] and sz = rs_size_less [OF assms(1)]
  have c: "length (rs_contents r) = unat (rs_size r)" by (rule length_rs_contents [OF assms(1)])
  have full: "rs_availableSize r < ?n \<longleftrightarrow> \<not> length (rs_contents r) + length xs \<le> 127"
    using sz by (simp add: word_less_nat_alt unat_rs_available [OF assms(1)] n c) linarith
  show ?thesis
  proof (cases "rs_availableSize r < ?n")
    case True
    then show ?thesis using assms(1) full by (simp add: rs_push_def Let_def)
  next
    case False
    then have room: "length (rs_contents r) + length xs \<le> 127" using full by simp
    have m: "min ?n (rs_availableSize r) = ?n" using False by (simp add: min_absorb1 not_less)
    have n128: "unat ?n < 128" using room n by simp
    obtain t' where t: "rs_copy_in xs ?n 0 r =
        Some (r\<lparr>rs_data := ring_poke (rs_data r) (unat (rs_tail r)) xs, rs_tail := t'\<rparr>)"
      "unat t' = (unat (rs_tail r) + unat ?n) mod 128"
      using copy_in_poke [OF assms(1) n [symmetric] n128] by blast
    let ?r = "r\<lparr>rs_data := ring_poke (rs_data r) (unat (rs_tail r)) xs, rs_tail := t'\<rparr>"
    let ?d = "ring_dist 128 (unat (rs_head r)) (unat (rs_tail r))"
    have ok: "rs_ok ?r" using r t(2) n room by (simp add: rs_ok_def)
    have d: "?d + length xs < 128" using room c unat_rs_size [OF assms(1)] by simp
    have tail: "unat (rs_tail r) = (unat (rs_head r) + ?d) mod length (rs_data r)"
      using ring_dist_add [OF r(4,5)] r(3) by simp
    have "rs_contents ?r = window (ring_poke (rs_data r) (unat (rs_tail r)) xs) (unat (rs_head r))
        (?d + length xs)"
      using ring_dist_tail [OF r(4,5) d] t(2) n by (simp add: rs_contents_def)
    also have "\<dots> = window (rs_data r) (unat (rs_head r)) ?d @ xs"
      by (subst tail, rule window_ring_poke) (use r d in simp_all)
    finally have "rs_contents ?r = rs_contents r @ xs" by (simp add: rs_contents_def)
    moreover have "rs_push xs ?n r = Some (True, ?r)"
      using False by (simp add: rs_push_def Let_def m t(1))
    ultimately show ?thesis using ok room by simp
  qed
qed

lemma pop_eq:
  assumes "rs_ok r" "n < 2 ^ 32"
  defines "m \<equiv> (if n \<le> length (rs_contents r) then n else 0)"
  shows "\<exists>r'. rs_pop (word_of_nat n) r = Some (take m (rs_contents r), word_of_nat m, r') \<and>
    rs_ok r' \<and> rs_contents r' = drop m (rs_contents r)"
proof -
  let ?n = "word_of_nat n :: u32"
  have n: "unat ?n = n" using assms(2) by (rule unat_word_of_nat_u32)
  note r = rs_okD [OF assms(1)]
  let ?d = "ring_dist 128 (unat (rs_head r)) (unat (rs_tail r))"
  have c: "length (rs_contents r) = ?d" by (simp add: rs_contents_def)
  have few: "rs_size r < ?n \<longleftrightarrow> \<not> n \<le> length (rs_contents r)"
    by (simp add: word_less_nat_alt n c unat_rs_size [OF assms(1)] not_le)
  show ?thesis
  proof (cases "rs_size r < ?n")
    case True
    then show ?thesis using assms(1) few by (simp add: rs_pop_def Let_def m_def)
  next
    case False
    then have le: "n \<le> ?d" using few c by simp
    have mn: "min ?n (rs_size r) = ?n" using False by (simp add: min_absorb1 not_less)
    obtain h' where h: "rs_copy_out r ?n 0 (rs_head r) [] =
        Some ([] @ window (rs_data r) (unat (rs_head r)) (unat ?n - unat (0::u32)), h')"
      "unat h' = (unat (rs_head r) + (unat ?n - unat (0::u32))) mod 128"
      using copy_out_window [OF assms(1) r(4), of 0 ?n "[]"] by auto
    have "rs_pop ?n r = Some (window (rs_data r) (unat (rs_head r)) n, ?n, r\<lparr>rs_head := h'\<rparr>)"
      using False h(1) n by (simp add: rs_pop_def Let_def mn)
    moreover have "window (rs_data r) (unat (rs_head r)) n = take n (rs_contents r)"
      using le by (simp add: rs_contents_def take_window)
    moreover have "rs_ok (r\<lparr>rs_head := h'\<rparr>)" using r h(2) by (simp add: rs_ok_def)
    moreover have "rs_contents (r\<lparr>rs_head := h'\<rparr>) = drop n (rs_contents r)"
      using le r h(2) n ring_dist_head [OF r(4,5) le]
      by (simp add: rs_contents_def drop_window)
    ultimately show ?thesis using le c by (simp add: m_def)
  qed
qed

section \<open>The contract\<close>

definition rs_put :: "'a list \<Rightarrow> 'a rbuf \<Rightarrow> bool \<times> 'a rbuf" where
  "rs_put xs r = the (rs_push xs (word_of_nat (length xs)) r)"

definition rs_get :: "nat \<Rightarrow> 'a rbuf \<Rightarrow> 'a list \<times> 'a rbuf" where
  "rs_get n r = (case the (rs_pop (word_of_nat n) r) of (out, _, r') \<Rightarrow> (out, r'))"

interpretation simple_ring: bounded_fifo rs_ok rs_contents "\<lambda>_. 127" rs_put rs_get "2 ^ 32"
proof unfold_locales
  fix r :: "'a rbuf" and xs :: "'a list" and n :: nat
  assume ok: "rs_ok r"
  show "length (rs_contents r) \<le> 127"
    using rs_size_less [OF ok] by (simp add: length_rs_contents [OF ok])
  {
    assume xs: "length xs < 2 ^ 32"
    note p = push_eq [OF ok xs]
    show "rs_ok (snd (rs_put xs r))"
      "fst (rs_put xs r) \<longleftrightarrow> length (rs_contents r) + length xs \<le> 127"
      "rs_contents (snd (rs_put xs r)) = rs_contents r @ (if fst (rs_put xs r) then xs else [])"
      using p by (auto simp: rs_put_def)
  next
    assume n: "n < 2 ^ 32"
    note p = pop_eq [OF ok n]
    show "rs_ok (snd (rs_get n r))" "fst (rs_get n r) @ rs_contents (snd (rs_get n r)) = rs_contents r"
      "length (fst (rs_get n r)) \<le> n"
      "n \<le> length (rs_contents r) \<Longrightarrow> length (fst (rs_get n r)) = n"
      using p by (auto simp: rs_get_def)
  }
qed simp_all

subsection \<open>Single elements\<close>

lemma isEmpty_iff: "rs_ok r \<Longrightarrow> rs_isEmpty r \<longleftrightarrow> rs_contents r = []"
proof -
  assume ok: "rs_ok r"
  note r = rs_okD [OF ok]
  have "ring_dist 128 (unat (rs_head r)) (unat (rs_tail r)) = 0 \<longleftrightarrow>
      unat (rs_head r) = unat (rs_tail r)"
    using r by (auto simp: ring_dist_cases)
  then show ?thesis by (simp add: rs_isEmpty_def rs_contents_def window_def word_unat_eq_iff)
qed

lemma isFull_iff:
  assumes "rs_ok r"
  shows "rs_isFull r \<longleftrightarrow> length (rs_contents r) = 127"
proof -
  note r = rs_okD [OF assms]
  have "unat ((rs_tail r + 1) AND 127) = (unat (rs_tail r) + 1) mod 128"
    using add_127 [of "rs_tail r" 1] r by simp
  then have "rs_isFull r \<longleftrightarrow> (unat (rs_tail r) + 1) mod 128 = unat (rs_head r)"
    by (simp add: rs_isFull_def r word_unat_eq_iff [of _ "rs_head r"])
  then show ?thesis using r by (auto simp: rs_contents_def ring_dist_cases mod_below_twice)
qed

text \<open>The single-element operations are the bulk ones at length one.\<close>

lemma push1_eq:
  assumes "rs_ok r"
  shows "rs_ok (snd (rs_push1 x r)) \<and> fst (rs_push1 x r) = (length (rs_contents r) < 127) \<and>
    rs_contents (snd (rs_push1 x r)) = rs_contents r @ (if length (rs_contents r) < 127 then [x] else [])"
proof (cases "rs_isFull r")
  case True
  then show ?thesis using assms by (simp add: rs_push1_def isFull_iff)
next
  case False
  note r = rs_okD [OF assms]
  let ?d = "ring_dist 128 (unat (rs_head r)) (unat (rs_tail r))"
  have len: "length (rs_contents r) = ?d" by (simp add: rs_contents_def)
  have d: "?d + 1 < 128"
    using False rs_size_less [OF assms] length_rs_contents [OF assms]
    by (simp add: isFull_iff [OF assms] len)
  have t: "unat ((rs_tail r + 1) AND 127) = (unat (rs_tail r) + 1) mod 128"
    using add_127 [of "rs_tail r" 1] r by simp
  have upd: "(rs_data r)[unat (rs_tail r) := x] = ring_poke (rs_data r) (unat (rs_tail r)) [x]"
    using r by (simp add: ring_poke_def Let_def poke_def upd_conv_take_nth_drop min_def)
  have tail: "unat (rs_tail r) = (unat (rs_head r) + ?d) mod length (rs_data r)"
    using ring_dist_add [OF r(4,5)] r(3) by simp
  have "rs_contents (snd (rs_push1 x r)) =
      window (ring_poke (rs_data r) (unat (rs_tail r)) [x]) (unat (rs_head r)) (?d + length [x])"
    using False t ring_dist_tail [OF r(4,5) d] by (simp add: rs_push1_def rs_contents_def upd r)
  also have "\<dots> = window (rs_data r) (unat (rs_head r)) ?d @ [x]"
    by (subst tail, rule window_ring_poke) (use r d in simp_all)
  finally have "rs_contents (snd (rs_push1 x r)) = rs_contents r @ [x]" by (simp add: rs_contents_def)
  moreover have "rs_ok (snd (rs_push1 x r))" using False r t by (simp add: rs_push1_def rs_ok_def)
  ultimately show ?thesis using False d len by (simp add: rs_push1_def)
qed

lemma pop1_eq:
  assumes "rs_ok r"
  shows "rs_ok (snd (rs_pop1 r)) \<and>
    fst (rs_pop1 r) = (case rs_contents r of [] \<Rightarrow> None | x # _ \<Rightarrow> Some x) \<and>
    rs_contents (snd (rs_pop1 r)) = tl (rs_contents r)"
proof (cases "rs_isEmpty r")
  case True
  then show ?thesis using assms by (simp add: rs_pop1_def isEmpty_iff)
next
  case False
  note r = rs_okD [OF assms]
  let ?d = "ring_dist 128 (unat (rs_head r)) (unat (rs_tail r))"
  have ne: "rs_contents r \<noteq> []" using False by (simp add: isEmpty_iff [OF assms])
  then have d: "1 \<le> ?d" by (cases "?d") (simp_all add: rs_contents_def)
  have h: "unat ((rs_head r + 1) AND 127) = (unat (rs_head r) + 1) mod 128"
    using add_127 [of "rs_head r" 1] r by simp
  have hd: "rs_data r ! unat (rs_head r) = hd (rs_contents r)"
    using d r by (subst hd_conv_nth [OF ne]) (simp add: rs_contents_def nth_window)
  have "rs_contents (snd (rs_pop1 r)) = drop 1 (rs_contents r)"
    using False r h d ring_dist_head [OF r(4,5) d]
    by (simp add: rs_pop1_def rs_contents_def drop_window)
  moreover have "rs_ok (snd (rs_pop1 r))" using False r h by (simp add: rs_pop1_def rs_ok_def)
  ultimately show ?thesis using False ne
    by (cases "rs_contents r") (simp_all add: rs_pop1_def hd)
qed

subsection \<open>Peeking\<close>

lemma peek_eq:
  assumes "rs_ok r"
  shows "rs_peek len r = Some
    (if sint (rs_size r) < sint len then ([], False)
     else (window (rs_data r) (unat (rs_head r)) (unat len), True))"
proof -
  note r = rs_okD [OF assms]
  obtain h' where "rs_copy_out r len 0 (rs_head r) [] =
      Some ([] @ window (rs_data r) (unat (rs_head r)) (unat len - unat (0::u32)), h')"
    using copy_out_window [OF assms r(4), of 0 len "[]"] by auto
  then show ?thesis by (simp add: rs_peek_def Let_def)
qed

lemma sint_rs_size: "rs_ok r \<Longrightarrow> sint (rs_size r) = int (length (rs_contents r))"
  using rs_size_less [of r] by (subst sint_small) (simp_all add: length_rs_contents)

lemma peek_contents:
  assumes "rs_ok r" "n \<le> length (rs_contents r)"
  shows "rs_peek (word_of_nat n) r = Some (take n (rs_contents r), True)"
proof -
  have n: "n < 128" using assms rs_size_less [OF assms(1)] by (simp add: length_rs_contents)
  then have u: "unat (word_of_nat n :: u32) = n" by (intro unat_word_of_nat_u32) simp
  then have "sint (word_of_nat n :: i32) = int n" using n by (subst sint_small) simp_all
  then show ?thesis using assms u by (simp add: peek_eq sint_rs_size rs_contents_def take_window)
qed

text \<open>A negative length passes the check of \<open>peek\<close>, and the loop then writes almost four
  thousand million elements to the buffer of the caller.\<close>

lemma uint_negative: "sint (w::i32) < 0 \<Longrightarrow> uint w = 2 ^ 32 + sint w"
proof -
  assume neg: "sint w < 0"
  have w: "take_bit (Suc 31) (uint w) = uint w"
    using uint_lt2p [of w] by (simp add: take_bit_eq_mod)
  have "sint w = signed_take_bit 31 (uint w)" by (simp add: sint_uint)
  also have "\<dots> = uint w - 2 ^ Suc 31 * of_bool (bit (uint w) 31)"
    unfolding signed_take_bit_eq_take_bit_minus w ..
  finally show ?thesis using neg by (cases "bit (uint w) 31") simp_all
qed

lemma peek_negative:
  assumes "rs_ok r" "sint len < 0"
  shows "\<exists>out. rs_peek len r = Some (out, True) \<and> int (length out) = 2 ^ 32 + sint len"
  using assms by (simp add: peek_eq sint_rs_size uint_negative)

section \<open>Properties\<close>

definition small_ring :: "nat rbuf" where
  "small_ring = rs_new (replicate 128 0) 10"

lemma small_ring_ok: "rs_ok small_ring" "rs_contents small_ring = []"
  using rs_new_ok [of "replicate 128 (0::nat)" 10] by (simp_all add: small_ring_def)

text \<open>The generic ring keeps the contract of the byte ring: whatever sequence of bulk writes and
  reads is driven through it, what it accepted comes out unchanged and in order. It never holds
  more than 127 elements, whatever capacity it was asked for.\<close>

theorem simple_ring_fifo:
  assumes "length fresh = 128" "\<forall>c \<in> set cs. cmd_size c < 2 ^ 32"
    "fifo_run rs_put rs_get cs (rs_new fresh n) = (accepted, delivered, r')"
  shows "accepted = delivered @ rs_contents r' \<and> length (rs_contents r') \<le> 127"
proof -
  have "rs_ok (rs_new fresh n)" "rs_contents (rs_new fresh n) = []"
    using rs_new_ok [OF assms(1)] by simp_all
  then show ?thesis
    using simple_ring.run_fifo [OF _ assms(2,3)] simple_ring.contents_limit [of r'] by simp
qed

theorem simple_ring_fifo_witness:
  "\<exists>accepted delivered r'. fifo_run rs_put rs_get [Put [1, 2, 3], Get 2, Put [4]] small_ring =
      (accepted, delivered, r') \<and> accepted = delivered @ rs_contents r'"
proof -
  obtain accepted delivered r'
    where e: "fifo_run rs_put rs_get [Put [1, 2, 3], Get 2, Put [4]] small_ring =
      (accepted, delivered, r')" by (metis prod_cases3)
  show ?thesis
    using simple_ring_fifo [OF _ _ e [unfolded small_ring_def]] e by auto
qed

text \<open>Where the bulk \<open>peek\<close> is given a negative length it reports success after writing
  \<open>2 ^ 32\<close> plus that length elements to the buffer of the caller.\<close>

theorem peek_overruns:
  assumes "rs_ok r" "sint len < 0"
  shows "\<exists>out. rs_peek len r = Some (out, True) \<and> int (length out) = 2 ^ 32 + sint len"
  using peek_negative [OF assms] .

theorem peek_overruns_witness:
  "\<exists>out. rs_peek (- 1) small_ring = Some (out, True) \<and> int (length out) = 2 ^ 32 - 1"
  using peek_overruns [OF small_ring_ok(1), of "- 1"] by simp

end
