(* ===== verification/Text_Utils.thy ===== *)
theory Text_Utils
  imports Athena_Prelude
begin

unbundle bit_operations_syntax

text \<open>
  The helpers of src/core/common that work on text and tables: HttpParam (query strings),
  CsvParser (tables with a header line), Tools and XTime. Text is a list of characters; the
  content of a file is an argument, \<open>None\<close> where it cannot be opened.
\<close>

section \<open>Cutting text\<close>

text \<open>\<open>HttpParam::splite\<close>: the pieces between the occurrences of \<open>sep\<close>, one at least.\<close>

function splite :: "char \<Rightarrow> string \<Rightarrow> string list" where
  "splite sep s =
    (case dropWhile (\<lambda>c. c \<noteq> sep) s of
       [] \<Rightarrow> [s]
     | _ # rest \<Rightarrow> takeWhile (\<lambda>c. c \<noteq> sep) s # splite sep rest)"
  by pat_completeness auto
termination
proof (relation "measure (\<lambda>(sep, s). length s)")
  fix sep s c rest
  assume "dropWhile (\<lambda>c. c \<noteq> sep) s = c # rest"
  then have "length (c # rest) \<le> length s" by (metis length_dropWhile_le)
  then show "((sep, rest), (sep, s)) \<in> measure (\<lambda>(sep, s). length s)" by simp
qed simp

declare splite.simps [simp del]

fun join_with :: "char \<Rightarrow> string list \<Rightarrow> string" where
  "join_with sep [] = []"
| "join_with sep [s] = s"
| "join_with sep (s # ss) = s @ sep # join_with sep ss"

lemma join_with_Cons: "ss \<noteq> [] \<Longrightarrow> join_with sep (s # ss) = s @ sep # join_with sep ss"
  by (cases ss) simp_all

lemma splite_not_Nil: "splite sep s \<noteq> []"
  by (subst splite.simps) (simp split: list.splits)

lemma splite_plain: "sep \<notin> set s \<Longrightarrow> splite sep s = [s]"
proof -
  assume "sep \<notin> set s"
  then have "dropWhile (\<lambda>c. c \<noteq> sep) s = []" by auto
  then show ?thesis by (subst splite.simps) (simp only: list.case)
qed

lemma splite_first: "sep \<notin> set s \<Longrightarrow> splite sep (s @ sep # rest) = s # splite sep rest"
proof -
  assume "sep \<notin> set s"
  then have "dropWhile (\<lambda>c. c \<noteq> sep) (s @ sep # rest) = sep # rest"
    "takeWhile (\<lambda>c. c \<noteq> sep) (s @ sep # rest) = s"
    by (induction s) auto
  then show ?thesis by (subst splite.simps) simp
qed

lemma join_splite: "join_with sep (splite sep s) = s"
proof (induction sep s rule: splite.induct)
  case (1 sep s)
  show ?case
  proof (cases "dropWhile (\<lambda>c. c \<noteq> sep) s")
    case Nil
    then have "sep \<notin> set s" by auto
    then show ?thesis by (simp add: splite_plain)
  next
    case (Cons c rest)
    then have "c = sep" by (metis (mono_tags, lifting) hd_dropWhile list.discI list.sel(1))
    then have s: "takeWhile (\<lambda>c. c \<noteq> sep) s @ sep # rest = s"
      using Cons by (metis takeWhile_dropWhile_id)
    have "join_with sep (splite sep s) = takeWhile (\<lambda>c. c \<noteq> sep) s @ sep # rest"
      using Cons 1 [OF Cons] by (subst splite.simps) (simp add: join_with_Cons splite_not_Nil)
    then show ?thesis by (simp only: s)
  qed
qed

lemma splite_join:
  "ss \<noteq> [] \<Longrightarrow> \<forall>s \<in> set ss. sep \<notin> set s \<Longrightarrow> splite sep (join_with sep ss) = ss"
proof (induction ss rule: join_with.induct)
  case (3 sep s s' ss)
  then show ?case by (simp add: splite_first)
qed (simp_all add: splite_plain)

lemma splite_pieces: "p \<in> set (splite sep s) \<Longrightarrow> sep \<notin> set p"
proof (induction sep s rule: splite.induct)
  case (1 sep s)
  show ?case
  proof (cases "dropWhile (\<lambda>c. c \<noteq> sep) s")
    case Nil
    then have "sep \<notin> set s" by auto
    then show ?thesis using 1(2) by (simp add: splite_plain)
  next
    case (Cons c rest)
    then have "p = takeWhile (\<lambda>c. c \<noteq> sep) s \<or> p \<in> set (splite sep rest)"
      using 1(2) by (subst (asm) splite.simps) simp
    then show ?thesis using 1(1) [OF Cons] by (auto dest: set_takeWhileD)
  qed
qed

section \<open>Query parameters\<close>

type_synonym params = "string \<rightharpoonup> string"

definition param_step :: "string \<Rightarrow> params \<Rightarrow> params" where
  "param_step sub params =
    (case splite CHR ''='' sub of
       [k, v] \<Rightarrow> params(k \<mapsto> v)
     | _ \<Rightarrow> params)"

definition httpParam :: "string \<Rightarrow> char \<Rightarrow> params" where
  "httpParam s sep = fold param_step (splite sep s) Map.empty"

definition param_find :: "string \<Rightarrow> params \<Rightarrow> bool" where
  "param_find key params \<longleftrightarrow> params key \<noteq> None"

text \<open>\<open>operator[]\<close> of the map inserts an empty value for a key it does not have.\<close>

definition param_getStr :: "string \<Rightarrow> params \<Rightarrow> string \<times> params" where
  "param_getStr key params =
    (case params key of
       Some v \<Rightarrow> (v, params)
     | None \<Rightarrow> ([], params(key \<mapsto> [])))"

datatype stoi_error = Invalid_argument | Out_of_range

definition c_space :: "char \<Rightarrow> bool" where
  "c_space c \<longleftrightarrow> c = CHR '' '' \<or> (9 \<le> (of_char c :: nat) \<and> of_char c \<le> (13 :: nat))"

definition c_digit :: "char \<Rightarrow> bool" where
  "c_digit c \<longleftrightarrow> 48 \<le> (of_char c :: nat) \<and> of_char c \<le> (57 :: nat)"

definition digits_value :: "string \<Rightarrow> int" where
  "digits_value ds = foldl (\<lambda>a d. a * 10 + (of_char d - 48)) 0 ds"

text \<open>What \<open>strtol\<close> to base ten reads: spaces, a sign, digits; \<open>None\<close> without a digit.\<close>

definition c_strtol :: "string \<Rightarrow> int option" where
  "c_strtol s =
    (let s = dropWhile c_space s;
         (negative, s) = (case s of
            c # t \<Rightarrow> if c = CHR ''-'' then (True, t) else if c = CHR ''+'' then (False, t) else (False, s)
          | [] \<Rightarrow> (False, s));
         ds = takeWhile c_digit s
     in if ds = [] then None else Some (if negative then - digits_value ds else digits_value ds))"

definition c_stoi :: "string \<Rightarrow> stoi_error + int" where
  "c_stoi s =
    (case c_strtol s of
       None \<Rightarrow> Inl Invalid_argument
     | Some i \<Rightarrow> if - (2 ^ 31) \<le> i \<and> i < 2 ^ 31 then Inr i else Inl Out_of_range)"

definition param_getInt :: "string \<Rightarrow> params \<Rightarrow> (stoi_error + int) \<times> params" where
  "param_getInt key params = (case param_getStr key params of (s, params) \<Rightarrow> (c_stoi s, params))"

lemma fold_param_step:
  assumes "\<forall>(k, v) \<in> set kvs. CHR ''='' \<notin> set k \<and> CHR ''='' \<notin> set v"
  shows "fold param_step (map (\<lambda>(k, v). join_with CHR ''='' [k, v]) kvs) m = m ++ map_of (rev kvs)"
  using assms
proof (induction kvs arbitrary: m)
  case (Cons kv kvs)
  obtain k v where kv: "kv = (k, v)" by fastforce
  then have "splite CHR ''='' (join_with CHR ''='' [k, v]) = [k, v]"
    using Cons.prems by (intro splite_join) auto
  then have "param_step (join_with CHR ''='' [k, v]) m = m(k \<mapsto> v)" by (simp add: param_step_def)
  then show ?case using Cons kv by simp
qed simp

lemma httpParam_of_pairs:
  assumes "kvs \<noteq> []" "sep \<noteq> CHR ''=''"
    "\<forall>(k, v) \<in> set kvs. CHR ''='' \<notin> set k \<and> CHR ''='' \<notin> set v \<and> sep \<notin> set k \<and> sep \<notin> set v"
  shows "httpParam (join_with sep (map (\<lambda>(k, v). join_with CHR ''='' [k, v]) kvs)) sep =
    map_of (rev kvs)"
proof -
  let ?subs = "map (\<lambda>(k, v). join_with CHR ''='' [k, v]) kvs"
  have "splite sep (join_with sep ?subs) = ?subs"
    using assms by (intro splite_join) auto
  moreover have "\<forall>(k, v) \<in> set kvs. CHR ''='' \<notin> set k \<and> CHR ''='' \<notin> set v" using assms(3) by auto
  ultimately show ?thesis using fold_param_step [of kvs Map.empty] by (simp add: httpParam_def)
qed

lemma getStr_then_find: "param_find key (snd (param_getStr key params))"
  by (simp add: param_getStr_def param_find_def split: option.splits)

section \<open>Tables\<close>

text \<open>The items \<open>getline\<close> reads from a line: the last piece is no item when it is empty.\<close>

definition line_items :: "char \<Rightarrow> string \<Rightarrow> string list" where
  "line_items sep line =
    (let ps = splite sep line in if last ps = [] then butlast ps else ps)"

record csv =
  csv_sep :: char
  csv_header :: "string list"
  csv_content :: "string list list"

definition csv_parseHeader :: "string \<Rightarrow> csv \<Rightarrow> csv" where
  "csv_parseHeader line P = P\<lparr>csv_header := csv_header P @ line_items (csv_sep P) line\<rparr>"

definition csv_parseContent :: "string \<Rightarrow> csv \<Rightarrow> csv" where
  "csv_parseContent line P = P\<lparr>csv_content := csv_content P @ [line_items (csv_sep P) line]\<rparr>"

text \<open>One round of the reading loop: \<open>startline\<close>, the number of rows so far and the table.\<close>

definition csv_line :: "string \<Rightarrow> int \<times> nat \<times> csv \<Rightarrow> int \<times> nat \<times> csv" where
  "csv_line line st =
    (case st of (startline, row, P) \<Rightarrow>
       if line = [] then st
       else let startline' = (if startline \<noteq> 0 then startline - 1 else startline)
            in if startline \<noteq> 0 \<and> startline' \<noteq> 0 then (startline', row, P)
               else (startline', row + 1,
                     if row + 1 = 1 then csv_parseHeader line P else csv_parseContent line P))"

definition csvParser :: "string option \<Rightarrow> int \<Rightarrow> char \<Rightarrow> csv" where
  "csvParser file startline sep =
    (let P = \<lparr>csv_sep = sep, csv_header = [], csv_content = []\<rparr>
     in case file of
          None \<Rightarrow> P
        | Some text \<Rightarrow> snd (snd (fold csv_line (splite CHR 0x0A text) (startline, 0, P))))"

definition csv_row :: "csv \<Rightarrow> nat" where
  "csv_row P = length (csv_content P)"

text \<open>Reading a cell: the loop over the header finds the column; the two vector accesses are
  not checked. \<open>conv\<close> is the extraction from the text of a cell to the type asked for.\<close>

datatype 'v cell = Cell 'v | Outside

definition csvRow_getValue :: "(string \<Rightarrow> 'v \<Rightarrow> 'v) \<Rightarrow> string list \<Rightarrow> nat \<Rightarrow> 'v \<Rightarrow> 'v cell" where
  "csvRow_getValue conv vals idx defvalue =
    (if idx < length vals then Cell (conv (vals ! idx) defvalue) else Outside)"

fun find_column :: "string \<Rightarrow> string list \<Rightarrow> nat \<Rightarrow> nat option" where
  "find_column name [] i = None"
| "find_column name (h # hs) i = (if name = h then Some i else find_column name hs (i + 1))"

definition csv_getValue :: "(string \<Rightarrow> 'v \<Rightarrow> 'v) \<Rightarrow> 'v \<Rightarrow> int \<Rightarrow> string \<Rightarrow> 'v \<Rightarrow> csv \<Rightarrow> 'v cell" where
  "csv_getValue conv zero row name defvalue P =
    (case find_column name (csv_header P) 0 of
       None \<Rightarrow> Cell zero
     | Some i \<Rightarrow>
         if 0 \<le> row - 1 \<and> nat (row - 1) < length (csv_content P)
         then csvRow_getValue conv (csv_content P ! nat (row - 1)) i defvalue
         else Outside)"

text \<open>Extraction to a string takes the first word, and leaves the default where there is none.\<close>

definition conv_string :: "string \<Rightarrow> string \<Rightarrow> string" where
  "conv_string s defvalue =
    (let t = takeWhile (\<lambda>c. \<not> c_space c) (dropWhile c_space s) in if t = [] then defvalue else t)"

lemma line_items_join:
  assumes "ss \<noteq> []" "\<forall>s \<in> set ss. sep \<notin> set s" "last ss \<noteq> []"
  shows "line_items sep (join_with sep ss) = ss"
  using assms by (simp add: line_items_def Let_def splite_join)

lemma line_items_cut:
  assumes "ss \<noteq> []" "\<forall>s \<in> set ss. sep \<notin> set s"
  shows "line_items sep (join_with sep (ss @ [[]])) = ss"
  using assms by (simp add: line_items_def Let_def splite_join)

lemma find_column_nth:
  assumes "distinct hs" "j < length hs"
  shows "find_column (hs ! j) hs i = Some (i + j)"
  using assms
proof (induction hs arbitrary: i j)
  case (Cons h hs)
  then show ?case by (cases j) (auto simp: nth_Cons')
qed simp

lemma find_column_header:
  "find_column name hs i = Some j \<Longrightarrow> i \<le> j \<and> j < i + length hs \<and> hs ! (j - i) = name"
proof (induction hs arbitrary: i)
  case (Cons h hs)
  show ?case
  proof (cases "name = h")
    case False
    then have "Suc i \<le> j \<and> j < Suc i + length hs \<and> hs ! (j - Suc i) = name"
      using Cons.IH [of "i + 1"] Cons.prems by simp
    moreover from this have "j - i = Suc (j - Suc i)" by linarith
    ultimately show ?thesis by simp
  qed (use Cons.prems in simp)
qed simp

lemma csv_lines_after_header:
  assumes "\<forall>l \<in> set ls. l \<noteq> []" "0 < row"
  shows "fold csv_line ls (0, row, P) =
    (0, row + length ls, P\<lparr>csv_content := csv_content P @ map (line_items (csv_sep P)) ls\<rparr>)"
  using assms
proof (induction ls arbitrary: row P)
  case (Cons l ls)
  then show ?case by (simp add: csv_line_def csv_parseContent_def)
qed simp

text \<open>A table written with its header and rows and read from the first line.\<close>

lemma csvParser_table:
  assumes "h \<noteq> []" "\<forall>l \<in> set (h # ls). CHR 0x0A \<notin> set l" "\<forall>l \<in> set ls. l \<noteq> []"
  shows "csvParser (Some (join_with CHR 0x0A (h # ls))) 1 sep =
    \<lparr>csv_sep = sep, csv_header = line_items sep h, csv_content = map (line_items sep) ls\<rparr>"
proof -
  have "splite CHR 0x0A (join_with CHR 0x0A (h # ls)) = h # ls"
    using assms(2) by (intro splite_join) auto
  then show ?thesis
    using assms(1) csv_lines_after_header [OF assms(3)]
    by (simp add: csvParser_def csv_line_def csv_parseHeader_def)
qed

section \<open>Tools\<close>

text \<open>A C string is the list of bytes of its buffer up to the first zero.\<close>

definition c_strlen :: "byte list \<Rightarrow> nat" where
  "c_strlen buf = length (takeWhile (\<lambda>b. b \<noteq> 0) buf)"

text \<open>\<open>None\<close> is the division by a zero length of the key.\<close>

definition encrypt :: "byte list \<Rightarrow> byte list \<Rightarrow> byte list option" where
  "encrypt buf key =
    (let bufLen = c_strlen buf; keyLen = c_strlen key
     in if bufLen \<noteq> 0 \<and> keyLen = 0 then None
        else Some (fold (\<lambda>i b. b[i := b ! i XOR key ! (i mod keyLen)]) [0..<bufLen] buf))"

definition charCount :: "byte list \<Rightarrow> byte \<Rightarrow> nat" where
  "charCount str c = fold (\<lambda>b n. if b = c then n + 1 else n) (takeWhile (\<lambda>b. b \<noteq> 0) str) 0"

function bs_loop :: "int list \<Rightarrow> int \<Rightarrow> int \<Rightarrow> int \<Rightarrow> int" where
  "bs_loop arr findX left right =
    (if left \<le> right then
       let middle = (left + right) div 2
       in if findX = arr ! nat middle then middle
          else if findX > arr ! nat middle then bs_loop arr findX (middle + 1) right
          else bs_loop arr findX left (middle - 1)
     else - 1)"
  by pat_completeness auto
termination by (relation "measure (\<lambda>(arr, findX, left, right). nat (right - left + 1))") auto

declare bs_loop.simps [simp del]

definition binarySearch :: "int list \<Rightarrow> int \<Rightarrow> int" where
  "binarySearch arr findX = bs_loop arr findX 0 (int (length arr) - 1)"

text \<open>\<open>rnd\<close> is what \<open>rand\<close> returns.\<close>

definition tools_random :: "int \<Rightarrow> int \<Rightarrow> int \<Rightarrow> int" where
  "tools_random rnd b e = rnd mod (e - b + 1) + b"

section \<open>Calendar\<close>

definition isLeapYear :: "int \<Rightarrow> bool" where
  "isLeapYear year \<longleftrightarrow> year mod 4 = 0 \<and> (year mod 400 = 0 \<or> year mod 100 \<noteq> 0)"

definition yearMonthDays :: "int \<Rightarrow> int \<Rightarrow> int" where
  "yearMonthDays year month =
    (if month \<in> {1, 3, 5, 7, 8, 10, 12} then 31
     else if month \<in> {4, 6, 9, 11} then 30
     else if month = 2 then (if isLeapYear year then 29 else 28)
     else 0)"

text \<open>Readings of the clock are pairs of seconds and microseconds.\<close>

definition currentTimeMillis :: "int \<times> int \<Rightarrow> int" where
  "currentTimeMillis t = (case t of (sec, usec) \<Rightarrow> sec * 1000 + usec div 1000)"

definition microStamp :: "int \<times> int \<Rightarrow> int" where
  "microStamp t = (case t of (sec, usec) \<Rightarrow> sec * 1000000 + usec)"

subsection \<open>Encryption\<close>

lemma fold_update_nth:
  assumes "n \<le> length buf"
  shows "fold (\<lambda>i b. b[i := f i (b ! i)]) [0..<n] buf =
    map (\<lambda>i. f i (buf ! i)) [0..<n] @ drop n buf"
  using assms
proof (induction n)
  case (Suc n)
  then have n: "n < length buf" by simp
  have "fold (\<lambda>i b. b[i := f i (b ! i)]) [0..<Suc n] buf =
      (map (\<lambda>i. f i (buf ! i)) [0..<n] @ drop n buf)
        [n := f n ((map (\<lambda>i. f i (buf ! i)) [0..<n] @ drop n buf) ! n)]"
    using Suc by simp
  also have "\<dots> = map (\<lambda>i. f i (buf ! i)) [0..<Suc n] @ drop (Suc n) buf"
    using n by (simp add: nth_append list_update_append Cons_nth_drop_Suc [symmetric])
  finally show ?case .
qed simp

lemma c_strlen_le: "c_strlen buf \<le> length buf"
  by (simp add: c_strlen_def length_takeWhile_le)

lemma c_strlen_nonzero: "i < c_strlen buf \<Longrightarrow> buf ! i \<noteq> 0"
proof -
  assume i: "i < c_strlen buf"
  then have "takeWhile (\<lambda>b. b \<noteq> 0) buf ! i \<in> set (takeWhile (\<lambda>b. b \<noteq> 0) buf)"
    by (simp add: c_strlen_def)
  then show "buf ! i \<noteq> 0" using i by (auto simp: c_strlen_def takeWhile_nth dest: set_takeWhileD)
qed

lemma c_strlen_append:
  assumes "\<forall>b \<in> set xs. b \<noteq> 0"
  shows "c_strlen (xs @ ys) = length xs + c_strlen ys"
  using assms by (simp add: c_strlen_def takeWhile_append2)

lemma c_strlen_drop: "c_strlen (drop (c_strlen buf) buf) = 0"
proof -
  have "takeWhile P (dropWhile P xs) = []" for P and xs :: "byte list" by (induction xs) auto
  then show ?thesis by (simp add: c_strlen_def flip: dropWhile_eq_drop)
qed

definition xored :: "byte list \<Rightarrow> byte list \<Rightarrow> nat \<Rightarrow> byte list" where
  "xored buf key n = map (\<lambda>i. buf ! i XOR key ! (i mod c_strlen key)) [0..<n]"

lemma encrypt_eq:
  assumes "c_strlen key \<noteq> 0"
  shows "encrypt buf key = Some (xored buf key (c_strlen buf) @ drop (c_strlen buf) buf)"
  using assms fold_update_nth [OF c_strlen_le [of buf], of "\<lambda>i b. b XOR key ! (i mod c_strlen key)"]
  by (simp add: encrypt_def Let_def xored_def)

lemma encrypt_length: "encrypt buf key = Some buf' \<Longrightarrow> length buf' = length buf"
proof (cases "c_strlen key = 0")
  case True
  then show "encrypt buf key = Some buf' \<Longrightarrow> length buf' = length buf"
    by (auto simp: encrypt_def Let_def split: if_splits)
next
  case False
  then show "encrypt buf key = Some buf' \<Longrightarrow> length buf' = length buf"
    using c_strlen_le [of buf] by (auto simp: encrypt_eq xored_def)
qed

lemma xor_twice: "(a XOR b) XOR b = (a::byte)"
  by (simp add: xor.assoc)

lemma xor_zeroD: "a XOR b = 0 \<Longrightarrow> a = (b::byte)"
  using xor_twice [of a b] by simp

text \<open>Encrypting twice gives the text back where no byte of it equals the byte of the key it
  meets; where one does, the first such byte becomes the end of the string.\<close>

lemma encrypt_clear:
  assumes "c_strlen key \<noteq> 0" "\<forall>i < c_strlen buf. buf ! i \<noteq> key ! (i mod c_strlen key)"
    "encrypt buf key = Some buf'"
  shows "c_strlen buf' = c_strlen buf \<and> encrypt buf' key = Some buf"
proof -
  let ?n = "c_strlen buf"
  have b: "buf' = xored buf key ?n @ drop ?n buf" using assms(1,3) by (simp add: encrypt_eq)
  have nz: "\<forall>b \<in> set (xored buf key ?n). b \<noteq> 0"
    using assms(2) by (auto simp: xored_def dest: xor_zeroD)
  then have len: "c_strlen buf' = ?n"
    unfolding b by (simp add: c_strlen_append c_strlen_drop) (simp add: xored_def)
  have "xored buf' key ?n = take ?n buf"
    using c_strlen_le [of buf] by (intro nth_equalityI) (auto simp: xored_def b nth_append xor_twice)
  then have "xored buf' key ?n @ drop ?n buf' = buf" by (simp add: b) (simp add: xored_def)
  then show ?thesis using len assms(1) by (simp add: encrypt_eq)
qed

lemma encrypt_cuts:
  assumes "c_strlen key \<noteq> 0" "i < c_strlen buf" "buf ! i = key ! (i mod c_strlen key)"
    "encrypt buf key = Some buf'"
  shows "c_strlen buf' \<le> i"
proof (rule ccontr)
  assume "\<not> c_strlen buf' \<le> i"
  then have "buf' ! i \<noteq> 0" by (intro c_strlen_nonzero) simp
  moreover have "buf' ! i = 0" using assms by (auto simp: encrypt_eq xored_def nth_append)
  ultimately show False by simp
qed

lemma charCount_count: "charCount str c = count_list (takeWhile (\<lambda>b. b \<noteq> 0) str) c"
proof -
  have "fold (\<lambda>b n. if b = c then n + 1 else n) xs k = k + count_list xs c" for xs k
    by (induction xs arbitrary: k) auto
  then show ?thesis by (simp add: charCount_def)
qed

subsection \<open>Searching\<close>

text \<open>The search reads only inside the array, and finds what a sorted array holds.\<close>

lemma bs_loop_spec:
  assumes "sorted arr" "0 \<le> left" "right < int (length arr)"
  shows "(bs_loop arr x left right = - 1 \<and> (\<forall>i. left \<le> int i \<longrightarrow> int i \<le> right \<longrightarrow> arr ! i \<noteq> x)) \<or>
    (left \<le> bs_loop arr x left right \<and> bs_loop arr x left right \<le> right \<and>
      arr ! nat (bs_loop arr x left right) = x)"
  using assms
proof (induction arr x left right rule: bs_loop.induct)
  case (1 arr x left right)
  show ?case
  proof (cases "left \<le> right")
    case False
    then show ?thesis by (subst (1 2 3 4) bs_loop.simps) simp
  next
    case True
    define m where "m = (left + right) div 2"
    have m: "left \<le> m" "m \<le> right" using True by (simp_all add: m_def)
    have unfold: "bs_loop arr x left right = (if x = arr ! nat m then m
        else if x > arr ! nat m then bs_loop arr x (m + 1) right else bs_loop arr x left (m - 1))"
      using True by (subst bs_loop.simps) (simp add: m_def Let_def)
    have mono: "int i \<le> int j \<Longrightarrow> int j < int (length arr) \<Longrightarrow> arr ! i \<le> arr ! j" for i j
      using 1(3) by (simp add: sorted_nth_mono)
    consider "x = arr ! nat m" | "x > arr ! nat m" | "x < arr ! nat m" by linarith
    then show ?thesis
    proof cases
      case 1
      then have "bs_loop arr x left right = m" using unfold by simp
      then show ?thesis using m 1 by simp
    next
      case 2
      have IH: "(bs_loop arr x (m + 1) right = - 1 \<and>
            (\<forall>i. m + 1 \<le> int i \<longrightarrow> int i \<le> right \<longrightarrow> arr ! i \<noteq> x)) \<or>
          (m + 1 \<le> bs_loop arr x (m + 1) right \<and> bs_loop arr x (m + 1) right \<le> right \<and>
            arr ! nat (bs_loop arr x (m + 1) right) = x)"
        using "1.IH"(1) [OF True m_def] 2 "1.prems" m by (simp add: m_def)
      have "arr ! i \<noteq> x" if "int i \<le> m" for i
        using mono [of i "nat m"] that 2 m "1.prems" by fastforce
      then show ?thesis using IH 2 m by (force simp: unfold)
    next
      case 3
      have IH: "(bs_loop arr x left (m - 1) = - 1 \<and>
            (\<forall>i. left \<le> int i \<longrightarrow> int i \<le> m - 1 \<longrightarrow> arr ! i \<noteq> x)) \<or>
          (left \<le> bs_loop arr x left (m - 1) \<and> bs_loop arr x left (m - 1) \<le> m - 1 \<and>
            arr ! nat (bs_loop arr x left (m - 1)) = x)"
        using "1.IH"(2) [OF True m_def] 3 "1.prems" m by (simp add: m_def)
      have "arr ! i \<noteq> x" if "m \<le> int i" "int i \<le> right" for i
        using mono [of "nat m" i] that 3 m "1.prems" by fastforce
      then show ?thesis using IH 3 m by (force simp: unfold)
    qed
  qed
qed

subsection \<open>The calendar\<close>

definition year_days :: "int \<Rightarrow> int" where
  "year_days year = sum_list (map (yearMonthDays year) [1, 2, 3, 4, 5, 6, 7, 8, 9, 10, 11, 12])"

lemma year_days_eq: "year_days year = (if isLeapYear year then 366 else 365)"
  by (simp add: year_days_def yearMonthDays_def)

lemma isLeapYear_period: "isLeapYear (year + 400) = isLeapYear year"
proof -
  have "(year + 400) mod 4 = year mod 4" "(year + 400) mod 100 = year mod 100"
    "(year + 400) mod 400 = year mod 400"
    using mod_mult_self1 [of year 100 4] mod_mult_self1 [of year 4 100] by simp_all
  then show ?thesis by (simp add: isLeapYear_def)
qed

lemma random_in_range: "0 \<le> rnd \<Longrightarrow> b \<le> e \<Longrightarrow> b \<le> tools_random rnd b e \<and> tools_random rnd b e \<le> e"
  using pos_mod_bound [of "e - b + 1" rnd] pos_mod_sign [of "e - b + 1" rnd]
  by (simp add: tools_random_def)

lemma millis_of_micros: "currentTimeMillis t = microStamp t div 1000"
  by (cases t) (simp add: currentTimeMillis_def microStamp_def)

section \<open>Properties\<close>

text \<open>A query string made of pairs gives each key the value of its last pair and no other key a
  value, where no text contains a delimiter.\<close>

theorem query_roundtrip:
  assumes "kvs \<noteq> []" "sep \<noteq> CHR ''=''"
    "\<forall>(k, v) \<in> set kvs. CHR ''='' \<notin> set k \<and> CHR ''='' \<notin> set v \<and> sep \<notin> set k \<and> sep \<notin> set v"
  shows "httpParam (join_with sep (map (\<lambda>(k, v). join_with CHR ''='' [k, v]) kvs)) sep =
    map_of (rev kvs)"
  using httpParam_of_pairs [OF assms] .

theorem query_roundtrip_witness:
  "httpParam ''a=1&b=2&a=3'' CHR ''&'' = [''b'' \<mapsto> ''2'', ''a'' \<mapsto> ''3'']"
  using query_roundtrip [of "[(''a'', ''1''), (''b'', ''2''), (''a'', ''3'')]" "CHR ''&''"]
  by (simp add: fun_upd_twist)

text \<open>A table of rows is read back cell by cell: row \<open>r\<close> and the \<open>j\<close>-th column of a header of
  different names give the \<open>j\<close>-th item of that row, when the row has it. A row whose last cell
  is empty is cut short, and reading that cell is an access past the end of the row.\<close>

theorem table_cells:
  assumes "distinct hs" "j < length hs" "\<forall>s \<in> set hs. sep \<notin> set s \<and> CHR 0x0A \<notin> set s"
    "last hs \<noteq> []" "sep \<noteq> CHR 0x0A"
    "\<forall>ss \<in> set rows. 1 < length ss \<and> (\<forall>s \<in> set ss. sep \<notin> set s \<and> CHR 0x0A \<notin> set s)"
    "r < length rows"
  defines "P \<equiv> csvParser (Some (join_with CHR 0x0A (map (join_with sep) (hs # rows)))) 1 sep"
  shows "csv_getValue conv zero (int r + 1) (hs ! j) dflt P =
    (let row = rows ! r; row = (if last row = [] then butlast row else row)
     in if j < length row then Cell (conv (row ! j) dflt) else Outside)"
proof -
  have plain: "CHR 0x0A \<notin> set (join_with sep ss)" if "\<forall>s \<in> set ss. CHR 0x0A \<notin> set s" for ss
    using that assms(5) by (induction sep ss rule: join_with.induct) auto
  have ne: "join_with sep ss \<noteq> []" if "1 < length ss" for ss
    using that by (cases ss rule: remdups_adj.cases) auto
  have "hs \<noteq> []" using assms(2) by auto
  then have hd: "line_items sep (join_with sep hs) = hs"
    using assms(3,4) by (intro line_items_join) auto
  then have "join_with sep hs \<noteq> []" using assms(4) \<open>hs \<noteq> []\<close>
    by (cases hs rule: remdups_adj.cases) auto
  then have P: "P = \<lparr>csv_sep = sep, csv_header = hs, csv_content = map (line_items sep \<circ> join_with sep) rows\<rparr>"
    using csvParser_table [of "join_with sep hs" "map (join_with sep) rows" sep] assms(3,6) plain ne hd
    by (force simp: P_def)
  let ?row = "rows ! r"
  have row: "?row \<noteq> []" "\<forall>s \<in> set ?row. sep \<notin> set s" using assms(6,7) by (force dest: nth_mem)+
  then have "line_items sep (join_with sep ?row) = (if last ?row = [] then butlast ?row else ?row)"
    by (simp add: line_items_def Let_def splite_join)
  then show ?thesis
    using assms(2,7) find_column_nth [OF assms(1,2), of 0]
    by (simp add: P csv_getValue_def csvRow_getValue_def Let_def)
qed

theorem table_cells_witness:
  "csv_getValue conv_string [] 1 ''name'' []
     (csvParser (Some (join_with CHR 0x0A (map (join_with CHR 0x09)
        [[''id'', ''name''], [''1'', ''ann'']]))) 1 CHR 0x09) = Cell ''ann'' \<and>
   csv_getValue conv_string [] 1 ''name'' []
     (csvParser (Some (join_with CHR 0x0A (map (join_with CHR 0x09)
        [[''id'', ''name''], [''1'', []]]))) 1 CHR 0x09) = Outside"
  using table_cells [of "[''id'', ''name'']" 1 "CHR 0x09" "[[''1'', ''ann'']]" 0 conv_string "[]" "[]"]
    table_cells [of "[''id'', ''name'']" 1 "CHR 0x09" "[[''1'', []]]" 0 conv_string "[]" "[]"]
  by (simp add: conv_string_def c_space_def)

text \<open>The binary search answers \<open>-1\<close> exactly where a sorted array does not hold the number, and
  an index of it otherwise.\<close>

theorem binarySearch_spec:
  assumes "sorted arr"
  shows "(binarySearch arr x = - 1 \<and> x \<notin> set arr) \<or>
    (0 \<le> binarySearch arr x \<and> binarySearch arr x < int (length arr) \<and>
      arr ! nat (binarySearch arr x) = x)"
  using bs_loop_spec [OF assms, of 0 "int (length arr) - 1" x]
  by (auto simp: binarySearch_def in_set_conv_nth)

theorem binarySearch_spec_witness:
  "0 \<le> binarySearch [2, 5, 7, 9] 7 \<and> [2, 5, 7, 9] ! nat (binarySearch [2, 5, 7, 9] 7) = (7::int)"
  using binarySearch_spec [of "[2, 5, 7, 9]" 7] by auto

text \<open>Encrypting twice with one key restores a text unless a byte of it equals the byte of the
  key it meets; the first such byte becomes the end of the encrypted string.\<close>

theorem encrypt_twice:
  assumes "c_strlen key \<noteq> 0" "encrypt buf key = Some buf'"
  shows "if \<forall>i < c_strlen buf. buf ! i \<noteq> key ! (i mod c_strlen key)
    then c_strlen buf' = c_strlen buf \<and> encrypt buf' key = Some buf
    else c_strlen buf' < c_strlen buf"
proof (cases "\<forall>i < c_strlen buf. buf ! i \<noteq> key ! (i mod c_strlen key)")
  case True
  then show ?thesis using encrypt_clear [OF assms(1) True assms(2)] by simp
next
  case False
  then obtain i where i: "i < c_strlen buf" "buf ! i = key ! (i mod c_strlen key)" by blast
  then show ?thesis using encrypt_cuts [OF assms(1) i assms(2)] False by auto
qed

theorem encrypt_twice_witness:
  "encrypt [1, 2, 3, 0] [7, 6, 0] = Some [6, 4, 4, 0] \<and>
    encrypt [6, 4, 4, 0] [7, 6, 0] = Some [1, 2, 3, 0]"
proof -
  have e: "encrypt [1, 2, 3, 0 :: byte] [7, 6, 0] = Some [6, 4, 4, 0]" by code_simp
  have "c_strlen [7, 6, 0 :: byte] \<noteq> 0" by code_simp
  moreover have "\<forall>i < c_strlen [1, 2, 3, 0]. [1, 2, 3, 0 :: byte] ! i \<noteq> [7, 6, 0] ! (i mod c_strlen [7, 6, 0])"
    by code_simp
  ultimately show ?thesis using encrypt_twice [OF _ e] e by simp
qed

end
