(* ===== verification/Idl_Token.thy ===== *)
theory Idl_Token
  imports Text_Utils
begin

text \<open>
  The lexer of the serialization compiler, src/core/serialization: FBuffer (a file in memory with
  a pointer into it), Keyword (codes and the table of keywords) and Token (the scanner).
  Characters are signed, as \<open>char\<close> is on the platforms the project builds for; a token is an
  \<open>int\<close>, either a code of \<open>KeyEnum\<close> or the character itself.
\<close>

section \<open>The buffer\<close>

text \<open>The loaded bytes are followed by one terminating zero. A read at a later index would leave
  the block; here it gives zero as well, and it is proved below that no such read happens.\<close>

record fbuffer =
  fb_buffer :: string
  fb_p :: nat
  fb_lastp :: nat
  fb_nline :: int
  fb_filename :: string

definition fb_at :: "string \<Rightarrow> nat \<Rightarrow> char" where
  "fb_at b i = (if i < length b then b ! i else CHR 0x00)"

definition fb_current :: "fbuffer \<Rightarrow> char" where
  "fb_current F = fb_at (fb_buffer F) (fb_p F)"

text \<open>\<open>files\<close> is the file system, \<open>None\<close> for what cannot be opened.\<close>

definition fb_load :: "(string \<Rightarrow> string option) \<Rightarrow> string \<Rightarrow> fbuffer option" where
  "fb_load files path =
    map_option (\<lambda>text. \<lparr>fb_buffer = text, fb_p = 0, fb_lastp = 0, fb_nline = 1, fb_filename = path\<rparr>)
      (files path)"

definition fb_next :: "fbuffer \<Rightarrow> fbuffer" where
  "fb_next F = F\<lparr>fb_p := fb_p F + 1\<rparr>"

definition fb_updateLast :: "fbuffer \<Rightarrow> fbuffer" where
  "fb_updateLast F = F\<lparr>fb_lastp := fb_p F\<rparr>"

definition is_newline :: "char \<Rightarrow> bool" where
  "is_newline c \<longleftrightarrow> c = CHR 0x0A \<or> c = CHR 0x0D"

definition fb_currIsNewline :: "fbuffer \<Rightarrow> bool" where
  "fb_currIsNewline F = is_newline (fb_current F)"

definition fb_nextline :: "fbuffer \<Rightarrow> fbuffer" where
  "fb_nextline F =
    (let old = fb_current F;
         F = fb_next F;
         F = (if fb_currIsNewline F \<and> fb_current F \<noteq> old then fb_next F else F)
     in F\<lparr>fb_nline := fb_nline F + 1\<rparr>)"

text \<open>\<open>rfind\<close> of one character.\<close>

definition str_rfind :: "char \<Rightarrow> string \<Rightarrow> nat option" where
  "str_rfind c s =
    (if c \<in> set s then Some (length s - 1 - length (takeWhile (\<lambda>x. x \<noteq> c) (rev s))) else None)"

definition last_separator :: "string \<Rightarrow> nat option" where
  "last_separator path =
    (case str_rfind CHR 0x5C path of None \<Rightarrow> str_rfind CHR ''/'' path | Some i \<Rightarrow> Some i)"

text \<open>\<open>npos + 1\<close> is zero. The length handed to \<open>substr\<close> is an unsigned difference: where the last
  dot stands before the separator, or there is none, it is so large that all the rest is taken.\<close>

definition getFileNameByFilePath :: "string \<Rightarrow> string" where
  "getFileNameByFilePath path =
    (let start = (case last_separator path of None \<Rightarrow> 0 | Some i \<Rightarrow> i + 1)
     in case str_rfind CHR ''.'' path of
          None \<Rightarrow> drop start path
        | Some r \<Rightarrow> if start \<le> r then take (r - start) (drop start path) else drop start path)"

definition getFileDir :: "string \<Rightarrow> string" where
  "getFileDir path = take (case last_separator path of None \<Rightarrow> 0 | Some i \<Rightarrow> i + 1) path"

section \<open>Keywords\<close>

abbreviation eKw_EOF :: int where "eKw_EOF \<equiv> 0"
abbreviation eKw_NUM :: int where "eKw_NUM \<equiv> 128"
abbreviation eKw_DECIMALS :: int where "eKw_DECIMALS \<equiv> 129"
abbreviation eKw_INT8 :: int where "eKw_INT8 \<equiv> 130"
abbreviation eKw_UINT8 :: int where "eKw_UINT8 \<equiv> 131"
abbreviation eKw_INT16 :: int where "eKw_INT16 \<equiv> 132"
abbreviation eKw_UINT16 :: int where "eKw_UINT16 \<equiv> 133"
abbreviation eKw_INT32 :: int where "eKw_INT32 \<equiv> 134"
abbreviation eKw_UINT32 :: int where "eKw_UINT32 \<equiv> 135"
abbreviation eKw_INT64 :: int where "eKw_INT64 \<equiv> 136"
abbreviation eKw_UINT64 :: int where "eKw_UINT64 \<equiv> 137"
abbreviation eKw_FLOAT :: int where "eKw_FLOAT \<equiv> 138"
abbreviation eKw_DOUBLE :: int where "eKw_DOUBLE \<equiv> 139"
abbreviation eKw_STRING :: int where "eKw_STRING \<equiv> 140"
abbreviation eKw_READ :: int where "eKw_READ \<equiv> 141"
abbreviation eKw_WRITE :: int where "eKw_WRITE \<equiv> 142"
abbreviation eKw_STRUCT :: int where "eKw_STRUCT \<equiv> 143"
abbreviation eKw_TYPEDEF :: int where "eKw_TYPEDEF \<equiv> 144"
abbreviation eKw_IF :: int where "eKw_IF \<equiv> 145"
abbreviation eKw_ELSE :: int where "eKw_ELSE \<equiv> 146"
abbreviation eKw_VECTOR :: int where "eKw_VECTOR \<equiv> 147"
abbreviation eKw_IMPORT :: int where "eKw_IMPORT \<equiv> 148"
abbreviation eKw_EQ :: int where "eKw_EQ \<equiv> 149"
abbreviation eKw_NE :: int where "eKw_NE \<equiv> 150"
abbreviation eKw_AND :: int where "eKw_AND \<equiv> 151"
abbreviation eKw_OR :: int where "eKw_OR \<equiv> 152"
abbreviation eKw_LE :: int where "eKw_LE \<equiv> 153"
abbreviation eKw_GE :: int where "eKw_GE \<equiv> 154"
abbreviation eKw_SHL :: int where "eKw_SHL \<equiv> 155"
abbreviation eKw_SHR :: int where "eKw_SHR \<equiv> 156"
abbreviation eKw_VAR :: int where "eKw_VAR \<equiv> 157"

definition kw_table :: "(string \<times> int) list" where
  "kw_table =
    [(''if'', eKw_IF), (''else'', eKw_ELSE), (''struct'', eKw_STRUCT), (''typedef'', eKw_TYPEDEF),
     (''vector'', eKw_VECTOR), (''read'', eKw_READ), (''write'', eKw_WRITE), (''import'', eKw_IMPORT),
     (''int8'', eKw_INT8), (''uint8'', eKw_UINT8), (''int16'', eKw_INT16), (''uint16'', eKw_UINT16),
     (''int32'', eKw_INT32), (''uint32'', eKw_UINT32), (''int64'', eKw_INT64),
     (''uint64'', eKw_UINT64), (''float'', eKw_FLOAT), (''double'', eKw_DOUBLE),
     (''string'', eKw_STRING)]"

definition getKeyword :: "string \<Rightarrow> int" where
  "getKeyword name = (case map_of kw_table name of None \<Rightarrow> 0 | Some k \<Rightarrow> k)"

definition isBaseType :: "int \<Rightarrow> bool" where
  "isBaseType k \<longleftrightarrow> k \<in> {eKw_INT8, eKw_UINT8, eKw_INT16, eKw_UINT16, eKw_INT32, eKw_UINT32,
    eKw_INT64, eKw_UINT64, eKw_FLOAT, eKw_DOUBLE}"

definition isStrType :: "int \<Rightarrow> bool" where
  "isStrType k \<longleftrightarrow> k = eKw_STRING"

section \<open>The scanner\<close>

datatype idl_error =
    Syntax_error string int string
  | Unterminated_comment
  | Read_past_end
  | Load_error string
  | Depth_exceeded
  | Fuel_exceeded

record token =
  tk_buf :: fbuffer
  tk_name :: string
  tk_i :: int
  tk_f :: string
  tk_token :: int

text \<open>The constructor sets the buffer only; the other fields have any values.\<close>

definition tk_new :: "fbuffer \<Rightarrow> string \<Rightarrow> int \<Rightarrow> string \<Rightarrow> int \<Rightarrow> token" where
  "tk_new F name i f t = \<lparr>tk_buf = F, tk_name = name, tk_i = i, tk_f = f, tk_token = t\<rparr>"

definition between :: "char \<Rightarrow> char \<Rightarrow> char \<Rightarrow> bool" where
  "between lo hi c \<longleftrightarrow> (of_char lo :: nat) \<le> of_char c \<and> of_char c \<le> (of_char hi :: nat)"

definition isNum :: "char \<Rightarrow> bool" where
  "isNum c \<longleftrightarrow> between CHR ''0'' CHR ''9'' c"

definition isLetter :: "char \<Rightarrow> bool" where
  "isLetter c \<longleftrightarrow> between CHR ''a'' CHR ''z'' c \<or> between CHR ''A'' CHR ''Z'' c"

definition isVarChar :: "char \<Rightarrow> bool" where
  "isVarChar c \<longleftrightarrow> between CHR ''a'' CHR ''z'' c \<or> between CHR ''A'' CHR ''Z'' c \<or>
    between CHR ''0'' CHR ''9'' c \<or> c = CHR ''_''"

text \<open>A character as an \<open>int\<close>.\<close>

definition signed_char :: "char \<Rightarrow> int" where
  "signed_char c =
    (let n = of_char c :: nat in if n < 128 then int n else int n - 256)"

lemma fb_at_nonzero: "fb_at b i \<noteq> CHR 0x00 \<Longrightarrow> i < length b"
  by (simp add: fb_at_def split: if_splits)

lemma fb_next_simps [simp]:
  "fb_buffer (fb_next F) = fb_buffer F" "fb_p (fb_next F) = fb_p F + 1"
  "fb_lastp (fb_next F) = fb_lastp F" "fb_nline (fb_next F) = fb_nline F"
  "fb_filename (fb_next F) = fb_filename F"
  by (simp_all add: fb_next_def)

lemma not_var_zero [simp]: "\<not> isVarChar CHR 0x00" "\<not> isNum CHR 0x00" "\<not> isLetter CHR 0x00"
  by (simp_all add: isVarChar_def isNum_def isLetter_def between_def)

subsection \<open>Names and numbers\<close>

function skip_var :: "fbuffer \<Rightarrow> fbuffer" where
  "skip_var F = (if isVarChar (fb_current F) then skip_var (fb_next F) else F)"
  by pat_completeness auto
termination
  by (relation "measure (\<lambda>F. length (fb_buffer F) - fb_p F)")
    (auto simp: fb_current_def fb_at_def split: if_splits)

declare skip_var.simps [simp del]

definition text_between :: "fbuffer \<Rightarrow> nat \<Rightarrow> string" where
  "text_between F start = take (fb_p F - start) (drop start (fb_buffer F))"

definition read_var :: "token \<Rightarrow> int \<times> token" where
  "read_var T =
    (let F = skip_var (tk_buf T);
         name = text_between F (fb_p (tk_buf T));
         tk = getKeyword name
     in (if tk \<noteq> 0 then tk else eKw_VAR, T\<lparr>tk_buf := F, tk_name := name\<rparr>))"

function skip_num :: "bool \<Rightarrow> fbuffer \<Rightarrow> bool \<times> fbuffer" where
  "skip_num isfloat F =
    (if isNum (fb_current F) \<or> fb_current F = CHR ''.''
     then skip_num (isfloat \<or> fb_current F = CHR ''.'') (fb_next F)
     else (isfloat, F))"
  by pat_completeness auto
termination
  by (relation "measure (\<lambda>(_, F). length (fb_buffer F) - fb_p F)")
    (auto simp: fb_current_def fb_at_def split: if_splits)

declare skip_num.simps [simp del]

text \<open>A decimal keeps its text; the value \<open>atof\<close> makes of it is not used by the parser.\<close>

definition read_num :: "token \<Rightarrow> int \<times> token" where
  "read_num T =
    (case skip_num False (tk_buf T) of (isfloat, F) \<Rightarrow>
       let name = text_between F (fb_p (tk_buf T));
           T = T\<lparr>tk_buf := F, tk_name := name\<rparr>
       in if isfloat then (eKw_DECIMALS, T\<lparr>tk_f := name\<rparr>)
          else (eKw_NUM, T\<lparr>tk_i := (case c_strtol name of None \<Rightarrow> 0 | Some i \<Rightarrow> i)\<rparr>))"

subsection \<open>Comments\<close>

function skip_line :: "fbuffer \<Rightarrow> fbuffer" where
  "skip_line F =
    (if \<not> fb_currIsNewline F \<and> fb_current F \<noteq> CHR 0x00 then skip_line (fb_next F) else F)"
  by pat_completeness auto
termination
  by (relation "measure (\<lambda>F. length (fb_buffer F) - fb_p F)")
    (auto simp: fb_current_def fb_at_def split: if_splits)

declare skip_line.simps [simp del]

definition check_next :: "char \<Rightarrow> fbuffer \<Rightarrow> bool \<times> fbuffer" where
  "check_next c F = (if fb_current F = c then (True, fb_next F) else (False, F))"

lemma fb_nextline_simps [simp]:
  "fb_buffer (fb_nextline F) = fb_buffer F" "fb_filename (fb_nextline F) = fb_filename F"
  by (simp_all add: fb_nextline_def Let_def)

lemma fb_nextline_p: "fb_p F < fb_p (fb_nextline F)"
  by (simp add: fb_nextline_def Let_def)

text \<open>The end of the text is a failed assertion. The case of the asterisk has no \<open>break\<close>: when no
  slash follows, the default case moves on by one character more.\<close>

function read_long_string :: "fbuffer \<Rightarrow> idl_error + fbuffer" where
  "read_long_string F =
    (if length (fb_buffer F) < fb_p F then Inl Read_past_end
     else if fb_current F = CHR 0x00 then Inl Unterminated_comment
     else if fb_current F = CHR 0x0A \<or> fb_current F = CHR 0x0D then read_long_string (fb_nextline F)
     else if fb_current F = CHR ''*'' then
       (case check_next CHR ''/'' (fb_next F) of
          (True, F) \<Rightarrow> Inr F
        | (False, F) \<Rightarrow> read_long_string (fb_next F))
     else read_long_string (fb_next F))"
  by pat_completeness auto
termination
proof (relation "measure (\<lambda>F. length (fb_buffer F) - fb_p F)", simp_all add: check_next_def split: if_splits)
  fix F
  assume "fb_current F = CHR 0x0A \<or> fb_current F = CHR 0x0D"
  then have "fb_p F < length (fb_buffer F)" by (auto simp: fb_current_def intro!: fb_at_nonzero)
  then show "length (fb_buffer F) - fb_p (fb_nextline F) < length (fb_buffer F) - fb_p F"
    using fb_nextline_p [of F] by simp
qed (auto simp: fb_current_def fb_at_def split: if_splits)

declare read_long_string.simps [simp del]

subsection \<open>What the loops leave unchanged\<close>

lemma skip_var_simps [simp]:
  "fb_buffer (skip_var F) = fb_buffer F" "fb_filename (skip_var F) = fb_filename F"
  "fb_lastp (skip_var F) = fb_lastp F" "fb_nline (skip_var F) = fb_nline F"
  by (induction F rule: skip_var.induct; subst skip_var.simps; simp)+

lemma skip_var_p: "fb_p F \<le> fb_p (skip_var F)"
  by (induction F rule: skip_var.induct) (subst skip_var.simps, force)

lemma skip_num_simps [simp]:
  "fb_buffer (snd (skip_num b F)) = fb_buffer F" "fb_filename (snd (skip_num b F)) = fb_filename F"
  by (induction b F rule: skip_num.induct; subst skip_num.simps; simp)+

lemma skip_num_p: "fb_p F \<le> fb_p (snd (skip_num b F))"
  by (induction b F rule: skip_num.induct) (subst skip_num.simps, force)

lemma skip_line_simps [simp]:
  "fb_buffer (skip_line F) = fb_buffer F" "fb_filename (skip_line F) = fb_filename F"
  by (induction F rule: skip_line.induct; subst skip_line.simps; simp)+

lemma skip_line_p: "fb_p F \<le> fb_p (skip_line F)"
  by (induction F rule: skip_line.induct) (subst skip_line.simps, force)

lemma check_next_cases:
  "check_next c F = (b, F') \<Longrightarrow> (b \<and> fb_current F = c \<and> F' = fb_next F) \<or> (\<not> b \<and> fb_current F \<noteq> c \<and> F' = F)"
  by (auto simp: check_next_def split: if_splits)

lemma read_long_string_eq:
  "read_long_string F =
    (if length (fb_buffer F) < fb_p F then Inl Read_past_end
     else if fb_current F = CHR 0x00 then Inl Unterminated_comment
     else if is_newline (fb_current F) then read_long_string (fb_nextline F)
     else if fb_current F \<noteq> CHR ''*'' then read_long_string (fb_next F)
     else if fb_current (fb_next F) = CHR ''/'' then Inr (fb_next (fb_next F))
     else read_long_string (fb_next (fb_next F)))"
  by (subst read_long_string.simps) (simp add: check_next_def is_newline_def)

lemma fb_current_nonzero: "fb_current F \<noteq> CHR 0x00 \<Longrightarrow> fb_p F < length (fb_buffer F)"
  by (auto simp: fb_current_def intro: fb_at_nonzero)

text \<open>Induction over the loop, with the cases as they are read.\<close>

lemma long_string_induct [case_names past zero line skip close star]:
  assumes past: "\<And>F. length (fb_buffer F) < fb_p F \<Longrightarrow> P F"
    and zero: "\<And>F. fb_p F \<le> length (fb_buffer F) \<Longrightarrow> fb_current F = CHR 0x00 \<Longrightarrow> P F"
    and line: "\<And>F. fb_current F \<noteq> CHR 0x00 \<Longrightarrow> is_newline (fb_current F) \<Longrightarrow> P (fb_nextline F) \<Longrightarrow> P F"
    and skip: "\<And>F. fb_current F \<noteq> CHR 0x00 \<Longrightarrow> \<not> is_newline (fb_current F) \<Longrightarrow> fb_current F \<noteq> CHR ''*'' \<Longrightarrow>
      P (fb_next F) \<Longrightarrow> P F"
    and close: "\<And>F. fb_current F = CHR ''*'' \<Longrightarrow> fb_current (fb_next F) = CHR ''/'' \<Longrightarrow> P F"
    and star: "\<And>F. fb_current F = CHR ''*'' \<Longrightarrow> fb_current (fb_next F) \<noteq> CHR ''/'' \<Longrightarrow>
      P (fb_next (fb_next F)) \<Longrightarrow> P F"
  shows "P F"
proof (induction "length (fb_buffer F) - fb_p F" arbitrary: F rule: less_induct)
  case less
  show ?case
  proof (cases "fb_current F = CHR 0x00 \<or> length (fb_buffer F) < fb_p F")
    case True
    then show ?thesis using past zero by (metis not_le)
  next
    case False
    then have p: "fb_p F < length (fb_buffer F)" by (simp add: fb_current_nonzero)
    have "P (fb_nextline F)" "P (fb_next F)" "P (fb_next (fb_next F))"
      using p fb_nextline_p [of F] by (auto intro!: less.hyps)
    then show ?thesis using line skip close star False by blast
  qed
qed

lemma read_long_string_p:
  "read_long_string F = Inr F' \<Longrightarrow>
    fb_p F < fb_p F' \<and> fb_buffer F' = fb_buffer F \<and> fb_filename F' = fb_filename F"
proof (induction F rule: long_string_induct)
  case (past F)
  then show ?case using read_long_string_eq [of F] by simp
next
  case (zero F)
  then show ?case using read_long_string_eq [of F] by simp
next
  case (line F)
  then have "read_long_string (fb_nextline F) = Inr F'"
    using read_long_string_eq [of F] by (simp split: if_splits)
  then show ?case using line.IH fb_nextline_p [of F] by simp
next
  case (skip F)
  then have "read_long_string (fb_next F) = Inr F'"
    using read_long_string_eq [of F] by (simp split: if_splits)
  then show ?case using skip.IH by simp
next
  case (close F)
  then show ?case using read_long_string_eq [of F] by (auto simp: is_newline_def split: if_splits)
next
  case (star F)
  then have "read_long_string (fb_next (fb_next F)) = Inr F'"
    using read_long_string_eq [of F] by (simp add: is_newline_def split: if_splits)
  then show ?case using star.IH by simp
qed

subsection \<open>Symbols\<close>

text \<open>A character that may be followed by another: the alternatives are tried in order.\<close>

fun sym_alt :: "(char \<times> int) list \<Rightarrow> int \<Rightarrow> fbuffer \<Rightarrow> int \<times> fbuffer" where
  "sym_alt [] t F = (t, F)"
| "sym_alt ((c, k) # alts) t F =
    (case check_next c F of
       (True, F) \<Rightarrow> (k, F)
     | (False, F) \<Rightarrow> sym_alt alts t F)"

definition operators :: "char \<Rightarrow> (char \<times> int) list option" where
  "operators c =
    (if c = CHR ''='' then Some [(CHR ''='', eKw_EQ)]
     else if c = CHR ''!'' then Some [(CHR ''='', eKw_NE)]
     else if c = CHR ''&'' then Some [(CHR ''&'', eKw_AND)]
     else if c = CHR ''|'' then Some [(CHR ''|'', eKw_OR)]
     else if c = CHR ''<'' then Some [(CHR ''='', eKw_LE), (CHR ''<'', eKw_SHL)]
     else if c = CHR ''>'' then Some [(CHR ''='', eKw_GE), (CHR ''>'', eKw_SHR)]
     else None)"

definition is_blank :: "char \<Rightarrow> bool" where
  "is_blank c \<longleftrightarrow> c = CHR '' '' \<or> c = CHR 0x0C \<or> c = CHR 0x09 \<or> c = CHR 0x0B"

function symbol :: "token \<Rightarrow> idl_error + (int \<times> token)" where
  "symbol T =
    (let F = tk_buf T; curr = fb_current F
     in if curr = CHR 0x00 then Inr (eKw_EOF, T)
        else if is_newline curr then symbol (T\<lparr>tk_buf := fb_nextline F\<rparr>)
        else if is_blank curr then symbol (T\<lparr>tk_buf := fb_next F\<rparr>)
        else if isNum curr then Inr (read_num T)
        else if curr = CHR ''/'' then
          (case check_next CHR ''/'' (fb_next F) of
             (True, F) \<Rightarrow> symbol (T\<lparr>tk_buf := skip_line F\<rparr>)
           | (False, F) \<Rightarrow>
             (case check_next CHR ''*'' F of
                (True, F) \<Rightarrow>
                  (case read_long_string F of
                     Inl e \<Rightarrow> Inl e
                   | Inr F \<Rightarrow> symbol (T\<lparr>tk_buf := F\<rparr>))
              | (False, F) \<Rightarrow> Inr (signed_char CHR ''/'', T\<lparr>tk_buf := F\<rparr>)))
        else
          (case operators curr of
             Some alts \<Rightarrow>
               (case sym_alt alts (signed_char curr) (fb_next F) of (k, F) \<Rightarrow> Inr (k, T\<lparr>tk_buf := F\<rparr>))
           | None \<Rightarrow>
               if isLetter curr then Inr (read_var T)
               else Inr (signed_char curr, T\<lparr>tk_buf := fb_next F\<rparr>)))"
  by pat_completeness auto
termination
proof -
  let ?m = "\<lambda>T. length (fb_buffer (tk_buf T)) - fb_p (tk_buf T)"
  have less: "(T\<lparr>tk_buf := G\<rparr>, T) \<in> measure ?m"
    if "fb_current (tk_buf T) \<noteq> CHR 0x00" "fb_buffer G = fb_buffer (tk_buf T)"
      "fb_p (tk_buf T) < fb_p G" for T :: token and G
    using that fb_current_nonzero [of "tk_buf T"] by simp
  show ?thesis
    apply (relation "measure ?m")
        apply simp
    subgoal using fb_nextline_p by (intro less) auto
    subgoal by (intro less) auto
    subgoal for T F curr _ G
      using skip_line_p [of G] by (intro less) (auto dest!: check_next_cases [OF sym])
    subgoal by (intro less) (auto dest!: check_next_cases [OF sym] read_long_string_p)
    done
qed

declare symbol.simps [simp del]

definition nextToken :: "token \<Rightarrow> idl_error + token" where
  "nextToken T =
    (case symbol (T\<lparr>tk_buf := fb_updateLast (tk_buf T)\<rparr>) of
       Inl e \<Rightarrow> Inl e
     | Inr (k, T) \<Rightarrow> Inr (T\<lparr>tk_token := k\<rparr>))"

section \<open>How far the scanner moves\<close>

lemma of_char_zero: "(of_char c :: nat) = 0 \<longleftrightarrow> c = CHR 0x00"
  using of_char_eq_iff [of c "CHR 0x00", where 'a = nat] by simp

lemma getKeyword_nonneg: "getKeyword name \<noteq> 0 \<Longrightarrow> 0 < getKeyword name"
  by (auto simp: getKeyword_def kw_table_def split: option.splits if_splits)

lemma signed_char_zero: "signed_char c = 0 \<longleftrightarrow> c = CHR 0x00"
proof -
  have "(of_char c :: nat) \<noteq> 256" by (metis nat_of_char_less_256 less_irrefl)
  then show ?thesis using of_char_zero [of c] by (auto simp: signed_char_def Let_def)
qed

lemma read_var_simps [simp]:
  "fb_buffer (tk_buf (snd (read_var T))) = fb_buffer (tk_buf T)"
  "fb_filename (tk_buf (snd (read_var T))) = fb_filename (tk_buf T)"
  "fst (read_var T) \<noteq> 0"
  by (simp_all add: read_var_def Let_def)

lemma read_num_simps [simp]:
  "fb_buffer (tk_buf (snd (read_num T))) = fb_buffer (tk_buf T)"
  "fb_filename (tk_buf (snd (read_num T))) = fb_filename (tk_buf T)"
  "fst (read_num T) \<noteq> 0"
proof -
  obtain b F where e: "skip_num False (tk_buf T) = (b, F)" by fastforce
  then have "fb_buffer F = fb_buffer (tk_buf T)" "fb_filename F = fb_filename (tk_buf T)"
    using skip_num_simps [of False "tk_buf T"] by simp_all
  then show "fb_buffer (tk_buf (snd (read_num T))) = fb_buffer (tk_buf T)"
    "fb_filename (tk_buf (snd (read_num T))) = fb_filename (tk_buf T)" "fst (read_num T) \<noteq> 0"
    using e by (auto simp: read_num_def Let_def)
qed

lemma read_var_p: "isVarChar (fb_current (tk_buf T)) \<Longrightarrow> fb_p (tk_buf T) < fb_p (tk_buf (snd (read_var T)))"
  using skip_var_p [of "fb_next (tk_buf T)"]
  by (simp add: read_var_def Let_def skip_var.simps [of "tk_buf T"])

lemma read_num_p:
  assumes "isNum (fb_current (tk_buf T))"
  shows "fb_p (tk_buf T) < fb_p (tk_buf (snd (read_num T)))"
proof -
  obtain b F where e: "skip_num False (tk_buf T) = (b, F)" by fastforce
  then have "skip_num (fb_current (tk_buf T) = CHR ''.'') (fb_next (tk_buf T)) = (b, F)"
    using assms by (simp add: skip_num.simps [of False "tk_buf T"])
  then have "fb_p (fb_next (tk_buf T)) \<le> fb_p F"
    using skip_num_p [of "fb_next (tk_buf T)" "fb_current (tk_buf T) = CHR ''.''"] by simp
  then show ?thesis using e by (auto simp: read_num_def Let_def)
qed

lemma letter_var: "isLetter c \<Longrightarrow> isVarChar c"
  by (auto simp: isLetter_def isVarChar_def)

lemma sym_alt_simps [simp]:
  "fb_buffer (snd (sym_alt alts t F)) = fb_buffer F" "fb_filename (snd (sym_alt alts t F)) = fb_filename F"
  by (induction alts arbitrary: F) (auto simp: check_next_def)

lemma sym_alt_p: "fb_p F \<le> fb_p (snd (sym_alt alts t F))"
  by (induction alts arbitrary: F) (auto simp: check_next_def)

lemma sym_alt_code: "fst (sym_alt alts t F) = t \<or> fst (sym_alt alts t F) \<in> snd ` set alts"
proof (induction alts arbitrary: F)
  case (Cons a alts)
  then show ?case by (cases a) (simp add: check_next_def, blast)
qed simp

lemma operators_codes: "operators c = Some alts \<Longrightarrow> 0 \<notin> snd ` set alts"
  by (auto simp: operators_def split: if_splits)

text \<open>A call moves the pointer unless it answers the end of the text, where it stands on a zero.\<close>

definition moved :: "fbuffer \<Rightarrow> int \<Rightarrow> fbuffer \<Rightarrow> bool" where
  "moved F k G \<longleftrightarrow> fb_buffer G = fb_buffer F \<and> fb_filename G = fb_filename F \<and> fb_p F \<le> fb_p G \<and>
    (k \<noteq> eKw_EOF \<longrightarrow> fb_p F < fb_p G) \<and> (k = eKw_EOF \<longrightarrow> fb_current G = CHR 0x00)"

lemma moved_trans:
  "fb_buffer G = fb_buffer F \<Longrightarrow> fb_filename G = fb_filename F \<Longrightarrow> fb_p F \<le> fb_p G \<Longrightarrow>
    moved G k H \<Longrightarrow> moved F k H"
  by (auto simp: moved_def)

text \<open>The scanner, with its tests read as conditions.\<close>

lemma symbol_eq:
  "symbol T =
    (let F = tk_buf T; curr = fb_current F
     in if curr = CHR 0x00 then Inr (eKw_EOF, T)
        else if is_newline curr then symbol (T\<lparr>tk_buf := fb_nextline F\<rparr>)
        else if is_blank curr then symbol (T\<lparr>tk_buf := fb_next F\<rparr>)
        else if isNum curr then Inr (read_num T)
        else if curr = CHR ''/'' then
          (if fb_current (fb_next F) = CHR ''/'' then
             symbol (T\<lparr>tk_buf := skip_line (fb_next (fb_next F))\<rparr>)
           else if fb_current (fb_next F) = CHR ''*'' then
             (case read_long_string (fb_next (fb_next F)) of
                Inl e \<Rightarrow> Inl e
              | Inr F \<Rightarrow> symbol (T\<lparr>tk_buf := F\<rparr>))
           else Inr (signed_char CHR ''/'', T\<lparr>tk_buf := fb_next F\<rparr>))
        else
          (case operators curr of
             Some alts \<Rightarrow>
               Inr (fst (sym_alt alts (signed_char curr) (fb_next F)),
                    T\<lparr>tk_buf := snd (sym_alt alts (signed_char curr) (fb_next F))\<rparr>)
           | None \<Rightarrow>
               if isLetter curr then Inr (read_var T)
               else Inr (signed_char curr, T\<lparr>tk_buf := fb_next F\<rparr>)))"
  by (subst symbol.simps) (simp add: check_next_def Let_def split: prod.splits option.splits)

lemma symbol_induct [case_names zero line blank skip comment other]:
  assumes "\<And>T. fb_current (tk_buf T) = CHR 0x00 \<Longrightarrow> P T"
    and "\<And>T. fb_current (tk_buf T) \<noteq> CHR 0x00 \<Longrightarrow> is_newline (fb_current (tk_buf T)) \<Longrightarrow>
      P (T\<lparr>tk_buf := fb_nextline (tk_buf T)\<rparr>) \<Longrightarrow> P T"
    and "\<And>T. fb_current (tk_buf T) \<noteq> CHR 0x00 \<Longrightarrow> \<not> is_newline (fb_current (tk_buf T)) \<Longrightarrow>
      is_blank (fb_current (tk_buf T)) \<Longrightarrow> P (T\<lparr>tk_buf := fb_next (tk_buf T)\<rparr>) \<Longrightarrow> P T"
    and "\<And>T. fb_current (tk_buf T) = CHR ''/'' \<Longrightarrow> fb_current (fb_next (tk_buf T)) = CHR ''/'' \<Longrightarrow>
      P (T\<lparr>tk_buf := skip_line (fb_next (fb_next (tk_buf T)))\<rparr>) \<Longrightarrow> P T"
    and "\<And>T. fb_current (tk_buf T) = CHR ''/'' \<Longrightarrow> fb_current (fb_next (tk_buf T)) = CHR ''*'' \<Longrightarrow>
      (\<And>G. read_long_string (fb_next (fb_next (tk_buf T))) = Inr G \<Longrightarrow> P (T\<lparr>tk_buf := G\<rparr>)) \<Longrightarrow> P T"
    and "\<And>T. fb_current (tk_buf T) \<noteq> CHR 0x00 \<Longrightarrow> \<not> is_newline (fb_current (tk_buf T)) \<Longrightarrow>
      \<not> is_blank (fb_current (tk_buf T)) \<Longrightarrow>
      \<not> (fb_current (tk_buf T) = CHR ''/'' \<and> fb_current (fb_next (tk_buf T)) \<in> {CHR ''/'', CHR ''*''}) \<Longrightarrow> P T"
  shows "P T"
proof (induction "length (fb_buffer (tk_buf T)) - fb_p (tk_buf T)" arbitrary: T rule: less_induct)
  case less
  let ?F = "tk_buf T"
  show ?case
  proof (cases "fb_current ?F = CHR 0x00")
    case False
    then have p: "fb_p ?F < length (fb_buffer ?F)" by (rule fb_current_nonzero)
    have 1: "P (T\<lparr>tk_buf := fb_nextline ?F\<rparr>)" "P (T\<lparr>tk_buf := fb_next ?F\<rparr>)"
      using p fb_nextline_p [of ?F] by (auto intro!: less.hyps)
    have 2: "P (T\<lparr>tk_buf := skip_line (fb_next (fb_next ?F))\<rparr>)"
      using p skip_line_p [of "fb_next (fb_next ?F)"] by (intro less.hyps) simp
    have 3: "P (T\<lparr>tk_buf := G\<rparr>)" if "read_long_string (fb_next (fb_next ?F)) = Inr G" for G
    proof -
      have "fb_p ?F < fb_p G" "fb_buffer G = fb_buffer ?F" using read_long_string_p [OF that] by simp_all
      then show ?thesis using p by (intro less.hyps) simp
    qed
    show ?thesis using assms(2-6) 1 2 3 False by blast
  qed (rule assms(1))
qed

lemma symbol_zero: "fb_current (tk_buf T) = CHR 0x00 \<Longrightarrow> symbol T = Inr (eKw_EOF, T)"
  by (rule trans [OF symbol_eq]) (simp add: Let_def)

lemma symbol_line:
  "is_newline (fb_current (tk_buf T)) \<Longrightarrow> symbol T = symbol (T\<lparr>tk_buf := fb_nextline (tk_buf T)\<rparr>)"
  by (rule trans [OF symbol_eq]) (auto simp: Let_def is_newline_def)

lemma symbol_blank:
  "is_blank (fb_current (tk_buf T)) \<Longrightarrow> symbol T = symbol (T\<lparr>tk_buf := fb_next (tk_buf T)\<rparr>)"
  by (rule trans [OF symbol_eq]) (auto simp: Let_def is_newline_def is_blank_def)

lemma symbol_skip:
  "fb_current (tk_buf T) = CHR ''/'' \<Longrightarrow> fb_current (fb_next (tk_buf T)) = CHR ''/'' \<Longrightarrow>
    symbol T = symbol (T\<lparr>tk_buf := skip_line (fb_next (fb_next (tk_buf T)))\<rparr>)"
  by (rule trans [OF symbol_eq]) (simp add: Let_def is_newline_def is_blank_def isNum_def between_def)

lemma symbol_comment:
  "fb_current (tk_buf T) = CHR ''/'' \<Longrightarrow> fb_current (fb_next (tk_buf T)) = CHR ''*'' \<Longrightarrow>
    symbol T = (case read_long_string (fb_next (fb_next (tk_buf T))) of
      Inl e \<Rightarrow> Inl e | Inr F \<Rightarrow> symbol (T\<lparr>tk_buf := F\<rparr>))"
  by (rule trans [OF symbol_eq]) (simp add: Let_def is_newline_def is_blank_def isNum_def between_def)

text \<open>What remains is one of five kinds of token.\<close>

definition read_other :: "token \<Rightarrow> int \<times> token" where
  "read_other T =
    (let F = tk_buf T; c = fb_current F; t = signed_char c
     in if isNum c then read_num T
        else case (if c = CHR ''/'' then None else operators c) of
            Some alts \<Rightarrow> (fst (sym_alt alts t (fb_next F)), T\<lparr>tk_buf := snd (sym_alt alts t (fb_next F))\<rparr>)
          | None \<Rightarrow> if isLetter c then read_var T else (t, T\<lparr>tk_buf := fb_next F\<rparr>))"

lemma symbol_other:
  "fb_current (tk_buf T) \<noteq> CHR 0x00 \<Longrightarrow> \<not> is_newline (fb_current (tk_buf T)) \<Longrightarrow>
    \<not> is_blank (fb_current (tk_buf T)) \<Longrightarrow>
    \<not> (fb_current (tk_buf T) = CHR ''/'' \<and> fb_current (fb_next (tk_buf T)) \<in> {CHR ''/'', CHR ''*''}) \<Longrightarrow>
    symbol T = Inr (read_other T)"
  by (rule trans [OF symbol_eq])
    (auto simp: Let_def read_other_def isLetter_def between_def split: option.splits)

lemma read_other_moved:
  assumes "fb_current (tk_buf T) \<noteq> CHR 0x00"
  shows "moved (tk_buf T) (fst (read_other T)) (tk_buf (snd (read_other T)))"
proof -
  let ?c = "fb_current (tk_buf T)" and ?F = "fb_next (tk_buf T)"
  have t: "signed_char ?c \<noteq> 0" using assms by (simp add: signed_char_zero)
  consider (num) "isNum ?c"
    | (op) alts where "\<not> isNum ?c" "?c \<noteq> CHR ''/''" "operators ?c = Some alts"
    | (var) "\<not> isNum ?c" "?c = CHR ''/'' \<or> operators ?c = None" "isLetter ?c"
    | (char) "\<not> isNum ?c" "?c = CHR ''/'' \<or> operators ?c = None" "\<not> isLetter ?c"
    by (cases "operators ?c") blast+
  then show ?thesis
  proof cases
    case num
    then show ?thesis using read_num_p [OF num] by (simp add: read_other_def Let_def moved_def)
  next
    case op
    have "fst (sym_alt alts (signed_char ?c) ?F) \<noteq> 0"
      using sym_alt_code [of alts "signed_char ?c" ?F] operators_codes [OF op(3)] t by metis
    then show ?thesis using op sym_alt_p [of ?F alts "signed_char ?c"]
      by (simp add: read_other_def Let_def moved_def)
  next
    case var
    then show ?thesis using read_var_p [of T] letter_var by (auto simp: read_other_def Let_def moved_def)
  next
    case char
    then show ?thesis using t by (auto simp: read_other_def Let_def moved_def)
  qed
qed

lemma symbol_moved: "symbol T = Inr (k, T') \<Longrightarrow> moved (tk_buf T) k (tk_buf T')"
proof (induction T rule: symbol_induct)
  case (zero T)
  then show ?case by (simp add: symbol_zero moved_def)
next
  case (line T)
  then show ?case using fb_nextline_p [of "tk_buf T"]
    by - (rule moved_trans [of "fb_nextline (tk_buf T)"]; simp add: symbol_line)
next
  case (blank T)
  then show ?case by - (rule moved_trans [of "fb_next (tk_buf T)"]; simp add: symbol_blank)
next
  case (skip T)
  then show ?case using skip_line_p [of "fb_next (fb_next (tk_buf T))"]
    by - (rule moved_trans [of "skip_line (fb_next (fb_next (tk_buf T)))"]; simp add: symbol_skip)
next
  case (comment T)
  then obtain G where G: "read_long_string (fb_next (fb_next (tk_buf T))) = Inr G"
      "symbol (T\<lparr>tk_buf := G\<rparr>) = Inr (k, T')"
    by (auto simp: symbol_comment split: sum.splits)
  then show ?case using comment.IH read_long_string_p [OF G(1)]
    by - (rule moved_trans [of G]; simp)
next
  case (other T)
  then show ?case using read_other_moved [of T] by (simp add: symbol_other)
qed

section \<open>Names\<close>

text \<open>What \<open>getName\<close> gives is made of the characters of names and numbers.\<close>

definition plain_text :: "string \<Rightarrow> bool" where
  "plain_text s \<longleftrightarrow> list_all (\<lambda>c. isVarChar c \<or> c = CHR ''.'') s"

lemma skip_var_chars:
  "fb_p F \<le> i \<Longrightarrow> i < fb_p (skip_var F) \<Longrightarrow> isVarChar (fb_at (fb_buffer F) i)"
proof (induction F rule: skip_var.induct)
  case (1 F)
  then show ?case
    by (cases "i = fb_p F"; cases "isVarChar (fb_current F)")
      (auto simp: skip_var.simps [of F] fb_current_def)
qed

lemma skip_num_chars:
  "fb_p F \<le> i \<Longrightarrow> i < fb_p (snd (skip_num b F)) \<Longrightarrow>
    isNum (fb_at (fb_buffer F) i) \<or> fb_at (fb_buffer F) i = CHR ''.''"
proof (induction b F rule: skip_num.induct)
  case (1 b F)
  then show ?case
    by (cases "i = fb_p F"; cases "isNum (fb_current F) \<or> fb_current F = CHR ''.''")
      (auto simp: skip_num.simps [of b F] fb_current_def)
qed

lemma text_between_chars:
  assumes "\<And>i. start \<le> i \<Longrightarrow> i < fb_p F \<Longrightarrow> P (fb_at (fb_buffer F) i)"
  shows "list_all P (text_between F start)"
proof -
  have "P (text_between F start ! j)" if "j < length (text_between F start)" for j
  proof -
    have "j < length (fb_buffer F) - start" "j < fb_p F - start" using that by (simp_all add: text_between_def)
    then have "start + j < length (fb_buffer F)" "start + j < fb_p F" by linarith+
    then show ?thesis using assms [of "start + j"] by (simp add: text_between_def fb_at_def)
  qed
  then show ?thesis by (simp add: list_all_length)
qed

lemma num_var: "isNum c \<Longrightarrow> isVarChar c"
  by (simp add: isNum_def isVarChar_def)

lemma read_other_name:
  assumes "plain_text (tk_name T)"
  shows "plain_text (tk_name (snd (read_other T)))"
proof -
  have v: "plain_text (tk_name (snd (read_var T)))"
    using text_between_chars [of "fb_p (tk_buf T)" "skip_var (tk_buf T)" "\<lambda>c. isVarChar c \<or> c = CHR ''.''"]
      skip_var_chars [of "tk_buf T"]
    by (simp add: read_var_def Let_def plain_text_def)
  obtain b F where e: "skip_num False (tk_buf T) = (b, F)" by fastforce
  have "list_all (\<lambda>c. isVarChar c \<or> c = CHR ''.'') (text_between F (fb_p (tk_buf T)))"
    using skip_num_chars [of "tk_buf T" _ False] skip_num_simps(1) [of False "tk_buf T"] e num_var
    by (intro text_between_chars) force
  then have n: "plain_text (tk_name (snd (read_num T)))"
    using e by (auto simp: read_num_def Let_def plain_text_def)
  show ?thesis using assms v n by (auto simp: read_other_def Let_def split: option.splits)
qed

lemma symbol_name: "symbol T = Inr (k, T') \<Longrightarrow> plain_text (tk_name T) \<Longrightarrow> plain_text (tk_name T')"
proof (induction T rule: symbol_induct)
  case (comment T)
  then show ?case by (auto simp: symbol_comment split: sum.splits)
next
  case (other T)
  then show ?case using read_other_name [of T] by (simp add: symbol_other)
qed (simp_all add: symbol_zero symbol_line symbol_blank symbol_skip)

lemma nextToken_name: "nextToken T = Inr T' \<Longrightarrow> plain_text (tk_name T) \<Longrightarrow> plain_text (tk_name T')"
  using symbol_name [of "T\<lparr>tk_buf := fb_updateLast (tk_buf T)\<rparr>"]
  by (force simp: nextToken_def split: sum.splits)

section \<open>The scanner stays in the buffer\<close>

definition in_buf :: "fbuffer \<Rightarrow> bool" where
  "in_buf F \<longleftrightarrow> fb_p F \<le> length (fb_buffer F)"

lemma in_buf_next: "fb_current F \<noteq> CHR 0x00 \<Longrightarrow> in_buf (fb_next F)"
  using fb_current_nonzero [of F] by (simp add: in_buf_def)

lemma in_buf_nextline: "fb_current F \<noteq> CHR 0x00 \<Longrightarrow> in_buf (fb_nextline F)"
proof -
  assume c: "fb_current F \<noteq> CHR 0x00"
  have "fb_p (fb_nextline F) = (if fb_currIsNewline (fb_next F) \<and> fb_current (fb_next F) \<noteq> fb_current F
      then fb_p F + 2 else fb_p F + 1)"
    by (simp add: fb_nextline_def Let_def)
  moreover have "fb_p F + 2 \<le> length (fb_buffer F)" if "fb_currIsNewline (fb_next F)"
    using that fb_current_nonzero [of "fb_next F"] by (auto simp: fb_currIsNewline_def is_newline_def)
  ultimately show ?thesis using c fb_current_nonzero [of F] by (auto simp: in_buf_def)
qed

lemma in_buf_skip_var: "in_buf F \<Longrightarrow> in_buf (skip_var F)"
proof (induction F rule: skip_var.induct)
  case (1 F)
  show ?case
  proof (cases "isVarChar (fb_current F)")
    case True
    then have "fb_current F \<noteq> CHR 0x00" by auto
    then show ?thesis using 1 True in_buf_next [of F] by (subst skip_var.simps) simp
  qed (use 1 in \<open>subst skip_var.simps, simp\<close>)
qed

lemma in_buf_skip_num: "in_buf F \<Longrightarrow> in_buf (snd (skip_num b F))"
proof (induction b F rule: skip_num.induct)
  case (1 b F)
  show ?case
  proof (cases "isNum (fb_current F) \<or> fb_current F = CHR ''.''")
    case True
    then have "fb_current F \<noteq> CHR 0x00" by auto
    then show ?thesis using 1 True in_buf_next [of F] by (subst skip_num.simps) simp
  qed (use 1 in \<open>subst skip_num.simps, simp\<close>)
qed

lemma in_buf_skip_line: "in_buf F \<Longrightarrow> in_buf (skip_line F)"
proof (induction F rule: skip_line.induct)
  case (1 F)
  show ?case
  proof (cases "\<not> fb_currIsNewline F \<and> fb_current F \<noteq> CHR 0x00")
    case True
    then show ?thesis using 1 in_buf_next [of F] by (subst skip_line.simps) simp
  qed (use 1 in \<open>subst skip_line.simps, auto\<close>)
qed

lemma in_buf_sym_alt:
  "\<forall>(c, k) \<in> set alts. c \<noteq> CHR 0x00 \<Longrightarrow> in_buf F \<Longrightarrow> in_buf (snd (sym_alt alts t F))"
  by (induction alts arbitrary: F) (auto simp: check_next_def intro: in_buf_next)

lemma operators_chars: "operators c = Some alts \<Longrightarrow> \<forall>(c, k) \<in> set alts. c \<noteq> CHR 0x00"
  by (auto simp: operators_def split: if_splits)

lemma in_buf_long_string: "read_long_string F = Inr F' \<Longrightarrow> in_buf F'"
proof (induction F rule: long_string_induct)
  case (past F)
  then show ?case using read_long_string_eq [of F] by simp
next
  case (zero F)
  then show ?case using read_long_string_eq [of F] by simp
next
  case (line F)
  then show ?case using read_long_string_eq [of F] by (simp split: if_splits)
next
  case (skip F)
  then show ?case using read_long_string_eq [of F] by (simp split: if_splits)
next
  case (close F)
  then have "F' = fb_next (fb_next F)"
    using read_long_string_eq [of F] by (auto simp: is_newline_def split: if_splits)
  then show ?case using close in_buf_next [of "fb_next F"] by simp
next
  case (star F)
  then show ?case using read_long_string_eq [of F] by (simp add: is_newline_def split: if_splits)
qed

lemma in_buf_other:
  assumes "in_buf (tk_buf T)" "fb_current (tk_buf T) \<noteq> CHR 0x00"
  shows "in_buf (tk_buf (snd (read_other T)))"
proof -
  have 1: "in_buf (tk_buf (snd (read_num T)))"
    using in_buf_skip_num [OF assms(1), of False]
    by (cases "skip_num False (tk_buf T)") (auto simp: read_num_def Let_def)
  have 2: "in_buf (tk_buf (snd (read_var T)))"
    using in_buf_skip_var [OF assms(1)] by (simp add: read_var_def Let_def)
  have 3: "in_buf (snd (sym_alt alts t (fb_next (tk_buf T))))" if "operators c = Some alts" for alts c t
    using in_buf_sym_alt [OF operators_chars [OF that] in_buf_next [OF assms(2)]] .
  show ?thesis using 1 2 3 in_buf_next [OF assms(2)]
    by (auto simp: read_other_def Let_def split: option.splits if_splits)
qed

lemma symbol_in_buf: "symbol T = Inr (k, T') \<Longrightarrow> in_buf (tk_buf T) \<Longrightarrow> in_buf (tk_buf T')"
proof (induction T rule: symbol_induct)
  case (zero T)
  then show ?case by (simp add: symbol_zero)
next
  case (line T)
  then show ?case using in_buf_nextline [of "tk_buf T"] by (simp add: symbol_line)
next
  case (blank T)
  then show ?case using in_buf_next [of "tk_buf T"] by (simp add: symbol_blank)
next
  case (skip T)
  then show ?case using in_buf_skip_line [OF in_buf_next [of "fb_next (tk_buf T)"]]
    by (simp add: symbol_skip)
next
  case (comment T)
  then show ?case by (auto simp: symbol_comment in_buf_long_string split: sum.splits)
next
  case (other T)
  then show ?case using in_buf_other [of T] by (simp add: symbol_other)
qed

lemma nextToken_in_buf: "nextToken T = Inr T' \<Longrightarrow> in_buf (tk_buf T) \<Longrightarrow> in_buf (tk_buf T')"
  using symbol_in_buf [of "T\<lparr>tk_buf := fb_updateLast (tk_buf T)\<rparr>"]
  by (force simp: nextToken_def in_buf_def fb_updateLast_def split: sum.splits)

section \<open>The text that is left\<close>

definition fb_rest :: "fbuffer \<Rightarrow> string" where
  "fb_rest F = drop (fb_p F) (fb_buffer F)"

lemma fb_rest_next [simp]: "fb_rest (fb_next F) = tl (fb_rest F)"
  by (simp add: fb_rest_def drop_Suc tl_drop)

lemma fb_current_rest: "fb_current F = (case fb_rest F of [] \<Rightarrow> CHR 0x00 | c # _ \<Rightarrow> c)"
  by (cases "fb_p F < length (fb_buffer F)")
    (simp_all add: fb_current_def fb_at_def fb_rest_def flip: Cons_nth_drop_Suc)

lemma fb_current_Cons [simp]: "fb_rest F = c # s \<Longrightarrow> fb_current F = c"
  by (simp add: fb_current_rest)

lemma fb_rest_p: "fb_p F < length (fb_buffer F) \<longleftrightarrow> fb_rest F \<noteq> []"
  by (auto simp: fb_rest_def)

lemma fb_rest_nextline:
  "fb_rest F = c # s \<Longrightarrow> fb_rest (fb_nextline F) =
    (case s of [] \<Rightarrow> [] | d # s' \<Rightarrow> if is_newline d \<and> d \<noteq> c then s' else s)"
proof -
  assume r: "fb_rest F = c # s"
  have "fb_rest (G\<lparr>fb_nline := n\<rparr>) = fb_rest G" for G n by (simp add: fb_rest_def)
  then show ?thesis using r
    by (cases s) (simp_all add: fb_nextline_def Let_def fb_currIsNewline_def fb_current_rest is_newline_def)
qed

lemma fb_rest_skip_var: "fb_rest (skip_var F) = dropWhile isVarChar (fb_rest F)"
proof (induction F rule: skip_var.induct)
  case (1 F)
  then show ?case
    by (subst skip_var.simps) (cases "fb_rest F"; simp add: fb_current_rest)
qed

lemma fb_rest_skip_line: "fb_rest (skip_line F) =
    dropWhile (\<lambda>c. \<not> is_newline c \<and> c \<noteq> CHR 0x00) (fb_rest F)"
proof (induction F rule: skip_line.induct)
  case (1 F)
  then show ?case
    by (subst skip_line.simps)
      (cases "fb_rest F"; simp add: fb_current_rest fb_currIsNewline_def is_newline_def)
qed

lemma skip_num_rest: "fb_rest (snd (skip_num b F)) = dropWhile (\<lambda>c. isNum c \<or> c = CHR ''.'') (fb_rest F) \<and>
    fst (skip_num b F) = (b \<or> CHR ''.'' \<in> set (takeWhile (\<lambda>c. isNum c \<or> c = CHR ''.'') (fb_rest F)))"
proof (induction b F rule: skip_num.induct)
  case (1 b F)
  then show ?case
    by (subst (1 2) skip_num.simps) (cases "fb_rest F"; auto simp: fb_current_rest)
qed

text \<open>The text between two pointers, of which the second was reached by dropping characters.\<close>

lemma text_between_take:
  assumes "fb_buffer G = fb_buffer F" "fb_p F \<le> fb_p G" "in_buf G" "fb_rest F = w @ fb_rest G"
  shows "text_between G (fb_p F) = w"
proof -
  have "length (fb_rest F) = length (fb_buffer F) - fb_p F"
    "length (fb_rest G) = length (fb_buffer F) - fb_p G"
    using assms(1) by (simp_all add: fb_rest_def)
  then have "length w = fb_p G - fb_p F" using assms by (simp add: in_buf_def)
  moreover have "text_between G (fb_p F) = take (fb_p G - fb_p F) (fb_rest F)"
    by (simp add: text_between_def fb_rest_def assms(1))
  ultimately show ?thesis using assms(4) by simp
qed

section \<open>Reading a text back\<close>

text \<open>What may stand between two tokens, and the tokens, as they are written.\<close>

datatype gap = Blank char | Newline char | Line_comment string | Block_comment string

fun gap_text :: "gap \<Rightarrow> string" where
  "gap_text (Blank c) = [c]"
| "gap_text (Newline c) = [c]"
| "gap_text (Line_comment s) = ''//'' @ s @ [CHR 0x0A]"
| "gap_text (Block_comment s) = ''/*'' @ s @ ''*/''"

fun gap_ok :: "gap \<Rightarrow> bool" where
  "gap_ok (Blank c) = is_blank c"
| "gap_ok (Newline c) = is_newline c"
| "gap_ok (Line_comment s) = (\<forall>c \<in> set s. \<not> is_newline c \<and> c \<noteq> CHR 0x00)"
| "gap_ok (Block_comment s) = (\<forall>c \<in> set s. c \<noteq> CHR ''*'' \<and> c \<noteq> CHR 0x00)"

definition gaps_text :: "gap list \<Rightarrow> string" where
  "gaps_text gs = concat (map gap_text gs)"

lemma gaps_text_simps [simp]:
  "gaps_text [] = []" "gaps_text (g # gs) = gap_text g @ gaps_text gs"
  by (simp_all add: gaps_text_def)

text \<open>A block comment without an asterisk is skipped as a whole.\<close>

lemma long_string_closes:
  assumes "fb_rest F = body @ ''*/'' @ s" "\<forall>c \<in> set body. c \<noteq> CHR ''*'' \<and> c \<noteq> CHR 0x00"
  shows "\<exists>G. read_long_string F = Inr G \<and> fb_rest G = s"
  using assms
proof (induction "length body" arbitrary: F body rule: less_induct)
  case less
  have p: "\<not> length (fb_buffer F) < fb_p F"
    using less.prems(1) fb_rest_p [of F] by auto
  show ?case
  proof (cases body)
    case Nil
    then show ?thesis using less.prems p fb_current_rest [of "fb_next F"]
      by (subst read_long_string_eq) (simp add: is_newline_def)
  next
    case (Cons c cs)
    then have c: "fb_current F = c" "c \<noteq> CHR 0x00" "c \<noteq> CHR ''*''" using less.prems by auto
    show ?thesis
    proof (cases "is_newline c")
      case False
      have "fb_rest (fb_next F) = cs @ ''*/'' @ s" using less.prems(1) Cons by simp
      then obtain G where "read_long_string (fb_next F) = Inr G" "fb_rest G = s"
        using less.hyps [of cs "fb_next F"] less.prems(2) Cons by auto
      then show ?thesis using p c False by (subst read_long_string_eq) simp
    next
      case True
      have nl: "fb_rest (fb_nextline F) =
          (case cs @ ''*/'' @ s of [] \<Rightarrow> [] | d # s' \<Rightarrow> if is_newline d \<and> d \<noteq> c then s' else cs @ ''*/'' @ s)"
        using fb_rest_nextline [of F c "cs @ ''*/'' @ s"] less.prems(1) Cons by simp
      obtain cs' where cs': "fb_rest (fb_nextline F) = cs' @ ''*/'' @ s" "set cs' \<subseteq> set body"
        "length cs' < length body"
      proof (cases cs)
        case Nil
        then show ?thesis using nl that [of "[]"] Cons by (simp add: is_newline_def)
      next
        case (Cons d ds)
        then show ?thesis using nl that [of ds] that [of cs] \<open>body = c # cs\<close>
          by (cases "is_newline d \<and> d \<noteq> c") auto
      qed
      then obtain G where "read_long_string (fb_nextline F) = Inr G" "fb_rest G = s"
        using less.hyps [of cs' "fb_nextline F"] less.prems(2) by blast
      then show ?thesis using p c True by (subst read_long_string_eq) simp
    qed
  qed
qed

lemma symbol_gaps:
  assumes "fb_rest (tk_buf T) = gaps_text gs @ s" "\<forall>g \<in> set gs. gap_ok g"
    "s = [] \<or> \<not> is_newline (hd s)"
  shows "\<exists>F. symbol T = symbol (T\<lparr>tk_buf := F\<rparr>) \<and> fb_rest F = s"
  using assms
proof (induction "length (gaps_text gs)" arbitrary: T gs rule: less_induct)
  case less
  let ?F = "tk_buf T"
  have again: ?case if "symbol T = symbol (T\<lparr>tk_buf := G\<rparr>)" "fb_rest G = gaps_text gs' @ s"
      "\<forall>g \<in> set gs'. gap_ok g" "length (gaps_text gs') < length (gaps_text gs)" for G gs'
    using less.hyps [of gs' "T\<lparr>tk_buf := G\<rparr>"] that less.prems(3) by auto
  have line: "\<exists>gs''. fb_rest (fb_nextline G) = gaps_text gs'' @ s \<and> (\<forall>g \<in> set gs''. gap_ok g) \<and>
      length (gaps_text gs'') \<le> length (gaps_text gs')"
    if "fb_rest G = c # gaps_text gs' @ s" "\<forall>g \<in> set gs'. gap_ok g" "is_newline c" for G c gs'
  proof -
    have nl: "fb_rest (fb_nextline G) = (case gaps_text gs' @ s of [] \<Rightarrow> []
        | d # s' \<Rightarrow> if is_newline d \<and> d \<noteq> c then s' else gaps_text gs' @ s)"
      by (rule fb_rest_nextline [OF that(1)])
    show ?thesis
    proof (cases gs')
      case Nil
      then have "fb_rest (fb_nextline G) = s" using nl less.prems(3) by (cases s) auto
      then show ?thesis using Nil by (intro exI [of _ "[]"]) simp
    next
      case (Cons g gs2)
      show ?thesis
      proof (cases "\<exists>d. g = Newline d \<and> d \<noteq> c")
        case True
        then have "fb_rest (fb_nextline G) = gaps_text gs2 @ s" using nl Cons that(2) by auto
        then show ?thesis using Cons that(2) by (intro exI [of _ gs2]) auto
      next
        case False
        then have "fb_rest (fb_nextline G) = gaps_text gs' @ s"
          using nl Cons that(2) by (cases g) (auto simp: is_blank_def is_newline_def)
        then show ?thesis using that(2) by (intro exI [of _ gs']) auto
      qed
    qed
  qed
  show ?case
  proof (cases gs)
    case Nil
    then show ?thesis using less.prems(1) by (intro exI [of _ ?F]) simp
  next
    case (Cons g gs')
    have ok: "gap_ok g" "\<forall>g \<in> set gs'. gap_ok g" using less.prems(2) Cons by auto
    show ?thesis
    proof (cases g)
      case (Blank c)
      then have "symbol T = symbol (T\<lparr>tk_buf := fb_next ?F\<rparr>)"
        using less.prems(1) Cons ok by (intro symbol_blank) simp
      then show ?thesis using less.prems(1) Cons Blank ok by (intro again [of "fb_next ?F" gs']) simp_all
    next
      case (Newline c)
      then have r: "fb_rest ?F = c # gaps_text gs' @ s" "is_newline c" using less.prems(1) Cons ok by auto
      then have "symbol T = symbol (T\<lparr>tk_buf := fb_nextline ?F\<rparr>)" by (intro symbol_line) simp
      then show ?thesis using line [OF r(1) ok(2) r(2)] Cons Newline again by fastforce
    next
      case (Line_comment t)
      let ?G = "skip_line (fb_next (fb_next ?F))"
      have r: "fb_rest ?F = CHR ''/'' # CHR ''/'' # t @ CHR 0x0A # gaps_text gs' @ s"
        using less.prems(1) Cons Line_comment by simp
      have G: "fb_rest ?G = CHR 0x0A # gaps_text gs' @ s"
        using ok Line_comment by (simp add: fb_rest_skip_line r dropWhile_append3 is_newline_def)
      have "symbol T = symbol (T\<lparr>tk_buf := ?G\<rparr>)"
        using r fb_current_rest [of "fb_next ?F"] by (intro symbol_skip) simp_all
      moreover have "symbol (T\<lparr>tk_buf := ?G\<rparr>) = symbol (T\<lparr>tk_buf := fb_nextline ?G\<rparr>)"
        using symbol_line [of "T\<lparr>tk_buf := ?G\<rparr>"] G by (simp add: is_newline_def)
      ultimately have "symbol T = symbol (T\<lparr>tk_buf := fb_nextline ?G\<rparr>)" by simp
      then show ?thesis using line [OF G ok(2)] Cons Line_comment again
        by (fastforce simp: is_newline_def)
    next
      case (Block_comment t)
      have r: "fb_rest ?F = CHR ''/'' # CHR ''*'' # t @ ''*/'' @ gaps_text gs' @ s"
        using less.prems(1) Cons Block_comment by simp
      obtain G where G: "read_long_string (fb_next (fb_next ?F)) = Inr G" "fb_rest G = gaps_text gs' @ s"
        using long_string_closes [of "fb_next (fb_next ?F)" t "gaps_text gs' @ s"] r ok Block_comment by auto
      have "symbol T = symbol (T\<lparr>tk_buf := G\<rparr>)"
        using symbol_comment [of T] r G(1) fb_current_rest [of "fb_next ?F"] by simp
      then show ?thesis using G(2) ok Cons Block_comment by (intro again [of G gs']) simp_all
    qed
  qed
qed

text \<open>Tokens as they are written, the code they have and the text that \<open>getName\<close> then gives.\<close>

datatype lexeme = L_name string | L_int string | L_dec string | L_char char | L_op string

definition op_table :: "(string \<times> int) list" where
  "op_table = [(''=='', eKw_EQ), (''!='', eKw_NE), (''&&'', eKw_AND), (''||'', eKw_OR), (''<='', eKw_LE),
    (''<<'', eKw_SHL), (''>='', eKw_GE), (''>>'', eKw_SHR)]"

fun lex_text :: "lexeme \<Rightarrow> string" where
  "lex_text (L_name w) = w"
| "lex_text (L_int w) = w"
| "lex_text (L_dec w) = w"
| "lex_text (L_char c) = [c]"
| "lex_text (L_op w) = w"

fun lex_ok :: "lexeme \<Rightarrow> bool" where
  "lex_ok (L_name w) = (w \<noteq> [] \<and> isLetter (hd w) \<and> list_all isVarChar w)"
| "lex_ok (L_int w) = (w \<noteq> [] \<and> list_all isNum w)"
| "lex_ok (L_dec w) = (w \<noteq> [] \<and> isNum (hd w) \<and> list_all (\<lambda>c. isNum c \<or> c = CHR ''.'') w \<and> CHR ''.'' \<in> set w)"
| "lex_ok (L_char c) = (c \<noteq> CHR 0x00 \<and> \<not> is_newline c \<and> \<not> is_blank c \<and> \<not> isNum c \<and> \<not> isLetter c)"
| "lex_ok (L_op w) = (w \<in> fst ` set op_table)"

fun lex_code :: "lexeme \<Rightarrow> int" where
  "lex_code (L_name w) = (if getKeyword w \<noteq> 0 then getKeyword w else eKw_VAR)"
| "lex_code (L_int w) = eKw_NUM"
| "lex_code (L_dec w) = eKw_DECIMALS"
| "lex_code (L_char c) = signed_char c"
| "lex_code (L_op w) = the (map_of op_table w)"

fun lex_name :: "string \<Rightarrow> lexeme \<Rightarrow> string" where
  "lex_name prev (L_name w) = w"
| "lex_name prev (L_int w) = w"
| "lex_name prev (L_dec w) = w"
| "lex_name prev l = prev"

text \<open>A token ends at the end of the text or at white space.\<close>

definition ends_token :: "string \<Rightarrow> bool" where
  "ends_token s \<longleftrightarrow> s = [] \<or> is_blank (hd s) \<or> is_newline (hd s)"

lemma letter_plain:
  "isLetter c \<Longrightarrow> c \<noteq> CHR 0x00 \<and> \<not> is_newline c \<and> \<not> is_blank c \<and> \<not> isNum c \<and> c \<noteq> CHR ''/'' \<and> operators c = None"
proof -
  assume l: "isLetter c"
  have "c \<notin> {CHR 0x00, CHR 0x0A, CHR 0x0D, CHR '' '', CHR 0x0C, CHR 0x09, CHR 0x0B, CHR ''/'', CHR ''='',
      CHR ''!'', CHR ''&'', CHR ''|'', CHR ''<'', CHR ''>''}"
  proof
    assume "c \<in> {CHR 0x00, CHR 0x0A, CHR 0x0D, CHR '' '', CHR 0x0C, CHR 0x09, CHR 0x0B, CHR ''/'', CHR ''='',
      CHR ''!'', CHR ''&'', CHR ''|'', CHR ''<'', CHR ''>''}"
    then show False using l by (elim insertE) (simp_all add: isLetter_def between_def)
  qed
  moreover have "\<not> isNum c" using l by (auto simp: isLetter_def isNum_def between_def)
  ultimately show ?thesis by (simp add: is_newline_def is_blank_def operators_def)
qed

lemma num_plain: "isNum c \<Longrightarrow> c \<noteq> CHR 0x00 \<and> \<not> is_newline c \<and> \<not> is_blank c \<and> c \<noteq> CHR ''/''"
  by (auto simp: isNum_def between_def is_newline_def is_blank_def)

lemma white_plain:
  "is_blank c \<or> is_newline c \<Longrightarrow> \<not> isVarChar c \<and> \<not> isNum c \<and> c \<noteq> CHR ''.'' \<and>
    c \<notin> {CHR ''='', CHR ''&'', CHR ''|'', CHR ''<'', CHR ''>'', CHR ''/'', CHR ''*''}"
  by (auto simp: isVarChar_def isNum_def between_def is_newline_def is_blank_def)

lemma ends_token_current:
  "fb_rest F = s \<Longrightarrow> ends_token s \<Longrightarrow>
    fb_current F \<notin> {CHR ''='', CHR ''&'', CHR ''|'', CHR ''<'', CHR ''>'', CHR ''/'', CHR ''*''}"
  using white_plain [of "hd s"] by (cases s) (auto simp: ends_token_def fb_current_rest)

lemma dropWhile_token:
  assumes "list_all P w" "s = [] \<or> \<not> P (hd s)"
  shows "dropWhile P (w @ s) = s" "takeWhile P (w @ s) = w"
proof -
  have s: "dropWhile P s = s" "takeWhile P s = []" using assms(2) by (cases s; simp)+
  show "dropWhile P (w @ s) = s" using assms(1) s by (induction w) simp_all
  show "takeWhile P (w @ s) = w" using assms(1) s by (induction w) simp_all
qed

lemma ends_token_stops:
  "ends_token s \<Longrightarrow> s = [] \<or> \<not> isVarChar (hd s)"
  "ends_token s \<Longrightarrow> s = [] \<or> \<not> (isNum (hd s) \<or> hd s = CHR ''.'')"
  using white_plain [of "hd s"] by (auto simp: ends_token_def)

lemma in_buf_rest: "fb_rest F \<noteq> [] \<Longrightarrow> in_buf F"
  using fb_rest_p [of F] by (simp add: in_buf_def)

lemma read_var_lex:
  assumes "fb_rest (tk_buf T) = w @ s" "w \<noteq> []" "list_all isVarChar w" "ends_token s"
  shows "fst (read_var T) = lex_code (L_name w) \<and> fb_rest (tk_buf (snd (read_var T))) = s \<and>
    tk_name (snd (read_var T)) = w"
proof -
  let ?F = "tk_buf T" and ?G = "skip_var (tk_buf T)"
  have G: "fb_rest ?G = s" using dropWhile_token(1) [OF assms(3) ends_token_stops(1) [OF assms(4)]]
    by (simp add: fb_rest_skip_var assms(1))
  have "text_between ?G (fb_p ?F) = w"
    using in_buf_skip_var [OF in_buf_rest, of ?F] assms skip_var_p [of ?F] G
    by (intro text_between_take) simp_all
  then show ?thesis using G by (simp add: read_var_def Let_def)
qed

lemma read_num_lex:
  assumes "fb_rest (tk_buf T) = w @ s" "w \<noteq> []" "list_all (\<lambda>c. isNum c \<or> c = CHR ''.'') w" "ends_token s"
  shows "fst (read_num T) = (if CHR ''.'' \<in> set w then eKw_DECIMALS else eKw_NUM) \<and>
    fb_rest (tk_buf (snd (read_num T))) = s \<and> tk_name (snd (read_num T)) = w"
proof -
  let ?F = "tk_buf T"
  obtain b G where e: "skip_num False ?F = (b, G)" by fastforce
  note d = dropWhile_token [OF assms(3) ends_token_stops(2) [OF assms(4)]]
  have G: "fb_rest G = s" "b = (CHR ''.'' \<in> set w)"
    using skip_num_rest [of False ?F] e d by (simp_all add: assms(1))
  have "fb_buffer G = fb_buffer ?F" "fb_p ?F \<le> fb_p G" "in_buf G"
    using skip_num_simps(1) [of False ?F] skip_num_p [of ?F False] in_buf_skip_num [of ?F False] e
      in_buf_rest [of ?F] assms(1,2) by simp_all
  then have "text_between G (fb_p ?F) = w"
    using assms(1) G(1) by (intro text_between_take) simp_all
  then show ?thesis using G e by (simp add: read_num_def Let_def)
qed

lemma sym_alt_none:
  "fb_current F \<notin> fst ` set alts \<Longrightarrow> sym_alt alts t F = (t, F)"
  by (induction alts) (auto simp: check_next_def)

lemma operators_second: "operators c = Some alts \<Longrightarrow>
  fst ` set alts \<subseteq> {CHR ''='', CHR ''&'', CHR ''|'', CHR ''<'', CHR ''>'', CHR ''/'', CHR ''*''}"
  by (auto simp: operators_def split: if_splits)

lemma symbol_lexeme:
  assumes "fb_rest (tk_buf T) = lex_text l @ s" "lex_ok l" "ends_token s"
  shows "\<exists>T'. symbol T = Inr (lex_code l, T') \<and> fb_rest (tk_buf T') = s \<and> tk_name T' = lex_name (tk_name T) l"
proof (cases l)
  case (L_name w)
  then obtain c cs where w: "w = c # cs" "isLetter c" "list_all isVarChar w" using assms(2) by (cases w) auto
  then have c: "fb_current (tk_buf T) = c" using assms(1) L_name by simp
  have "symbol T = Inr (read_other T)" using letter_plain [OF w(2)] c by (intro symbol_other) auto
  also have "read_other T = read_var T" using letter_plain [OF w(2)] c w(2) by (simp add: read_other_def Let_def)
  finally show ?thesis using read_var_lex [of T w s] assms(1,3) w L_name
    by (intro exI [of _ "snd (read_var T)"]) (simp add: prod_eq_iff)
next
  case (L_int w)
  then obtain c cs where w: "w = c # cs" "isNum c" "list_all isNum w" using assms(2) by (cases w) auto
  then have c: "fb_current (tk_buf T) = c" using assms(1) L_int by simp
  have n: "list_all (\<lambda>c. isNum c \<or> c = CHR ''.'') w" "CHR ''.'' \<notin> set w"
    using w(3) by (auto simp: list_all_iff isNum_def between_def)
  have "symbol T = Inr (read_other T)" using num_plain [OF w(2)] c by (intro symbol_other) auto
  also have "read_other T = read_num T" using c w(2) by (simp add: read_other_def Let_def)
  finally show ?thesis using read_num_lex [of T w s] assms(1,3) w n L_int
    by (intro exI [of _ "snd (read_num T)"]) (simp add: prod_eq_iff)
next
  case (L_dec w)
  then obtain c cs where w: "w = c # cs" "isNum c" using assms(2) by (cases w) auto
  then have c: "fb_current (tk_buf T) = c" using assms(1) L_dec by simp
  have "symbol T = Inr (read_other T)" using num_plain [OF w(2)] c by (intro symbol_other) auto
  also have "read_other T = read_num T" using c w(2) by (simp add: read_other_def Let_def)
  finally show ?thesis using read_num_lex [of T w s] assms w(1) L_dec
    by (intro exI [of _ "snd (read_num T)"]) (simp add: prod_eq_iff)
next
  case (L_char c)
  then have r: "fb_rest (tk_buf T) = c # s" "fb_rest (fb_next (tk_buf T)) = s" using assms(1) by simp_all
  note e = ends_token_current [OF r(2) assms(3)]
  have "symbol T = Inr (read_other T)" using assms(2) L_char r(1) e by (intro symbol_other) auto
  also have "read_other T = (signed_char c, T\<lparr>tk_buf := fb_next (tk_buf T)\<rparr>)"
  proof (cases "if c = CHR ''/'' then None else operators c")
    case (Some alts)
    then have "sym_alt alts (signed_char c) (fb_next (tk_buf T)) = (signed_char c, fb_next (tk_buf T))"
      using e operators_second [of c alts] by (intro sym_alt_none) (auto split: if_splits)
    then show ?thesis using Some assms(2) L_char r(1) by (simp add: read_other_def Let_def split: if_splits)
  qed (use assms(2) L_char r(1) in \<open>auto simp: read_other_def Let_def\<close>)
  finally show ?thesis using r L_char by (intro exI [of _ "T\<lparr>tk_buf := fb_next (tk_buf T)\<rparr>"]) simp
next
  case (L_op w)
  then consider "w = ''==''" | "w = ''!=''" | "w = ''&&''" | "w = ''||''" | "w = ''<=''" | "w = ''<<''"
    | "w = ''>=''" | "w = ''>>''" using assms(2) by (auto simp: op_table_def)
  then have "symbol T = Inr (lex_code l, T\<lparr>tk_buf := fb_next (fb_next (tk_buf T))\<rparr>) \<and>
      fb_rest (fb_next (fb_next (tk_buf T))) = s"
    using assms(1) L_op
    by cases (subst symbol_other, auto simp: fb_current_rest is_newline_def is_blank_def read_other_def
      Let_def isNum_def between_def operators_def check_next_def op_table_def)+
  then show ?thesis using L_op by (intro exI [of _ "T\<lparr>tk_buf := fb_next (fb_next (tk_buf T))\<rparr>"]) simp
qed

text \<open>Calling for tokens again and again: their codes and what \<open>getName\<close> gives after each.\<close>

primrec scan :: "nat \<Rightarrow> token \<Rightarrow> idl_error + ((int \<times> string) list \<times> token)" where
  "scan 0 T = Inr ([], T)"
| "scan (Suc n) T =
    (case nextToken T of
       Inl e \<Rightarrow> Inl e
     | Inr T \<Rightarrow>
       (case scan n T of
          Inl e \<Rightarrow> Inl e
        | Inr (ks, T') \<Rightarrow> Inr ((tk_token T, tk_name T) # ks, T')))"

primrec lex_expected :: "string \<Rightarrow> lexeme list \<Rightarrow> (int \<times> string) list" where
  "lex_expected prev [] = []"
| "lex_expected prev (l # ls) = (lex_code l, lex_name prev l) # lex_expected (lex_name prev l) ls"

text \<open>A token and the gaps after it; after the last one there may be none.\<close>

definition item_text :: "lexeme \<times> gap list \<Rightarrow> string" where
  "item_text i = lex_text (fst i) @ gaps_text (snd i)"

fun white_first :: "gap list \<Rightarrow> bool" where
  "white_first (Blank c # gs) = True"
| "white_first (Newline c # gs) = True"
| "white_first gs = False"

lemma white_first_ends:
  "white_first gs \<Longrightarrow> \<forall>g \<in> set gs. gap_ok g \<Longrightarrow> ends_token (gaps_text gs @ s)"
  by (cases gs rule: white_first.cases) (auto simp: ends_token_def)

fun items_ok :: "(lexeme \<times> gap list) list \<Rightarrow> bool" where
  "items_ok [] = True"
| "items_ok [(l, gs)] = (lex_ok l \<and> (\<forall>g \<in> set gs. gap_ok g) \<and> (gs = [] \<or> white_first gs))"
| "items_ok ((l, gs) # its) = (lex_ok l \<and> (\<forall>g \<in> set gs. gap_ok g) \<and> white_first gs \<and> items_ok its)"

lemma lex_head:
  assumes "lex_ok l"
  shows "lex_text l \<noteq> [] \<and> \<not> is_newline (hd (lex_text l))"
  using assms
proof (cases l)
  case (L_op w)
  then show ?thesis using assms by (auto simp: op_table_def is_newline_def)
qed (use letter_plain num_plain in \<open>auto simp: neq_Nil_conv\<close>)

lemma items_start:
  "items_ok its \<Longrightarrow> concat (map item_text its) = [] \<or> \<not> is_newline (hd (concat (map item_text its)))"
proof (cases its rule: items_ok.cases)
  case (2 l gs)
  assume "items_ok its"
  then show ?thesis using 2 lex_head [of l] by (cases "lex_text l") (auto simp: item_text_def)
next
  case (3 l gs i its')
  assume "items_ok its"
  then show ?thesis using 3 lex_head [of l] by (cases "lex_text l") (auto simp: item_text_def)
qed simp

lemma items_ok_Cons:
  assumes "items_ok ((l, gs) # its)"
  shows "lex_ok l" "\<forall>g \<in> set gs. gap_ok g" "items_ok its"
    "ends_token (gaps_text gs @ concat (map item_text its))"
proof -
  show "lex_ok l" "\<forall>g \<in> set gs. gap_ok g" "items_ok its" using assms by (cases its; simp)+
  show "ends_token (gaps_text gs @ concat (map item_text its))"
  proof (cases its)
    case Nil
    then show ?thesis using assms white_first_ends [of gs "[]"] by (auto simp: ends_token_def)
  next
    case (Cons i its')
    then show ?thesis using assms white_first_ends [of gs] by simp
  qed
qed

lemma nextToken_gaps:
  assumes "fb_rest (tk_buf T) = gaps_text gs @ s" "\<forall>g \<in> set gs. gap_ok g" "s = [] \<or> \<not> is_newline (hd s)"
  shows "\<exists>F. symbol (T\<lparr>tk_buf := fb_updateLast (tk_buf T)\<rparr>) = symbol (T\<lparr>tk_buf := F\<rparr>) \<and> fb_rest F = s"
  using symbol_gaps [of "T\<lparr>tk_buf := fb_updateLast (tk_buf T)\<rparr>" gs s] assms
  by (simp add: fb_updateLast_def fb_rest_def)

lemma nextToken_lexeme:
  assumes "fb_rest (tk_buf T) = gaps_text gs @ lex_text l @ s" "\<forall>g \<in> set gs. gap_ok g" "lex_ok l" "ends_token s"
  shows "\<exists>T'. nextToken T = Inr T' \<and> fb_rest (tk_buf T') = s \<and> tk_token T' = lex_code l \<and>
    tk_name T' = lex_name (tk_name T) l \<and> fb_filename (tk_buf T') = fb_filename (tk_buf T)"
proof -
  let ?T = "T\<lparr>tk_buf := fb_updateLast (tk_buf T)\<rparr>"
  have "lex_text l @ s = [] \<or> \<not> is_newline (hd (lex_text l @ s))" using lex_head [OF assms(3)] by simp
  then obtain F where F: "symbol ?T = symbol (T\<lparr>tk_buf := F\<rparr>)" "fb_rest F = lex_text l @ s"
    using nextToken_gaps [OF assms(1,2)] by blast
  obtain T' where T': "symbol (T\<lparr>tk_buf := F\<rparr>) = Inr (lex_code l, T')" "fb_rest (tk_buf T') = s"
      "tk_name T' = lex_name (tk_name T) l"
    using symbol_lexeme [of "T\<lparr>tk_buf := F\<rparr>" l s] F(2) assms(3,4) by auto
  have "fb_filename (tk_buf T') = fb_filename (tk_buf T)"
    using symbol_moved [of ?T] F(1) T'(1) by (simp add: moved_def fb_updateLast_def)
  then show ?thesis using F(1) T' by (simp add: nextToken_def)
qed

lemma scan_items:
  assumes "fb_rest (tk_buf T) = gaps_text gs @ concat (map item_text its)" "\<forall>g \<in> set gs. gap_ok g" "items_ok its"
  shows "\<exists>T' T''. scan (length its) T = Inr (lex_expected (tk_name T) (map fst its), T') \<and>
    nextToken T' = Inr T'' \<and> tk_token T'' = eKw_EOF"
  using assms
proof (induction its arbitrary: T gs)
  case Nil
  obtain F where F: "symbol (T\<lparr>tk_buf := fb_updateLast (tk_buf T)\<rparr>) = symbol (T\<lparr>tk_buf := F\<rparr>)" "fb_rest F = []"
    using nextToken_gaps [OF Nil(1) Nil(2)] by auto
  then have "symbol (T\<lparr>tk_buf := F\<rparr>) = Inr (eKw_EOF, T\<lparr>tk_buf := F\<rparr>)"
    by (intro symbol_zero) (simp add: fb_current_rest)
  then show ?case using F(1) by (simp add: nextToken_def)
next
  case (Cons i its)
  obtain l gs' where i: "i = (l, gs')" by fastforce
  note ok = items_ok_Cons [OF Cons.prems(3) [unfolded i]]
  let ?s = "gaps_text gs' @ concat (map item_text its)"
  have tx: "concat (map item_text (i # its)) = lex_text l @ ?s" by (simp add: i item_text_def)
  obtain F where F: "symbol (T\<lparr>tk_buf := fb_updateLast (tk_buf T)\<rparr>) = symbol (T\<lparr>tk_buf := F\<rparr>)"
      "fb_rest F = lex_text l @ ?s"
    using nextToken_gaps [OF Cons.prems(1,2) items_start [OF Cons.prems(3)]] tx by auto
  obtain T1 where T1: "symbol (T\<lparr>tk_buf := F\<rparr>) = Inr (lex_code l, T1)" "fb_rest (tk_buf T1) = ?s"
      "tk_name T1 = lex_name (tk_name T) l"
    using symbol_lexeme [of "T\<lparr>tk_buf := F\<rparr>" l ?s] F(2) ok(1,4) by auto
  obtain T' T'' where "scan (length its) (T1\<lparr>tk_token := lex_code l\<rparr>) =
      Inr (lex_expected (tk_name T1) (map fst its), T')" "nextToken T' = Inr T''" "tk_token T'' = eKw_EOF"
    using Cons.IH [of "T1\<lparr>tk_token := lex_code l\<rparr>" gs'] T1(2) ok(2,3) by auto
  then show ?case using F(1) T1 i by (simp add: nextToken_def)
qed

section \<open>Comments that end in an asterisk\<close>

text \<open>Up to the first asterisk a comment is passed over, one or two characters at a time.\<close>

lemma long_string_to_star:
  assumes "fb_rest F = body @ CHR ''*'' # s" "\<forall>c \<in> set body. c \<noteq> CHR ''*'' \<and> c \<noteq> CHR 0x00"
  shows "\<exists>G. read_long_string F = read_long_string G \<and> fb_rest G = CHR ''*'' # s \<and> fb_buffer G = fb_buffer F"
  using assms
proof (induction "length body" arbitrary: F body rule: less_induct)
  case less
  have p: "\<not> length (fb_buffer F) < fb_p F" using less.prems(1) fb_rest_p [of F] by auto
  show ?case
  proof (cases body)
    case Nil
    then show ?thesis using less.prems by (intro exI [of _ F]) simp
  next
    case (Cons c cs)
    then have c: "fb_current F = c" "c \<noteq> CHR 0x00" "c \<noteq> CHR ''*''" using less.prems by auto
    let ?G = "if is_newline c then fb_nextline F else fb_next F"
    have step: "read_long_string F = read_long_string ?G"
      using p c by (subst read_long_string_eq) simp
    have "\<exists>cs'. fb_rest ?G = cs' @ CHR ''*'' # s \<and> set cs' \<subseteq> set body \<and> length cs' < length body"
    proof (cases "is_newline c")
      case False
      then show ?thesis using less.prems(1) Cons by (intro exI [of _ cs]) auto
    next
      case True
      have nl: "fb_rest (fb_nextline F) = (case cs @ CHR ''*'' # s of [] \<Rightarrow> []
          | d # s' \<Rightarrow> if is_newline d \<and> d \<noteq> c then s' else cs @ CHR ''*'' # s)"
        using less.prems(1) Cons by (intro fb_rest_nextline) simp
      show ?thesis
      proof (cases cs)
        case Nil
        then show ?thesis using nl True Cons by (intro exI [of _ "[]"]) (simp add: is_newline_def)
      next
        case (Cons d ds)
        then show ?thesis using nl True \<open>body = c # cs\<close>
          by (intro exI [of _ "if is_newline d \<and> d \<noteq> c then ds else cs"]) auto
      qed
    qed
    then obtain cs' where "fb_rest ?G = cs' @ CHR ''*'' # s" "set cs' \<subseteq> set body" "length cs' < length body"
      by blast
    then obtain G where "read_long_string ?G = read_long_string G" "fb_rest G = CHR ''*'' # s"
        "fb_buffer G = fb_buffer F"
      using less.hyps [of cs' ?G] less.prems(2) by (auto split: if_splits)
    then show ?thesis using step by auto
  qed
qed

text \<open>An asterisk that is not followed by a slash takes the next character with it, whatever it is.\<close>

lemma long_string_star:
  assumes "fb_rest F = CHR ''*'' # c # s" "c \<noteq> CHR ''/''"
  shows "read_long_string F = read_long_string (fb_next (fb_next F)) \<and> fb_rest (fb_next (fb_next F)) = s"
proof -
  have "\<not> length (fb_buffer F) < fb_p F" using assms(1) fb_rest_p [of F] by auto
  moreover have "fb_current F = CHR ''*''" "fb_current (fb_next F) = c"
    using assms(1) fb_current_rest [of "fb_next F"] by simp_all
  ultimately show ?thesis
    using assms by (subst read_long_string_eq) (simp add: is_newline_def)
qed

lemma long_string_star_last:
  assumes "fb_rest F = [CHR ''*'']"
  shows "read_long_string F = Inl Read_past_end"
proof -
  have p: "fb_p F + 1 = length (fb_buffer F)"
    using arg_cong [OF assms, of length] by (auto simp: fb_rest_def)
  have c: "fb_current F = CHR ''*''" "fb_current (fb_next F) = CHR 0x00"
    using assms fb_current_rest [of "fb_next F"] by simp_all
  have "read_long_string F = read_long_string (fb_next (fb_next F))"
    using p c by (subst read_long_string_eq) (simp add: is_newline_def)
  also have "\<dots> = Inl Read_past_end" using p by (subst read_long_string_eq) simp
  finally show ?thesis .
qed

lemma long_string_no_star:
  assumes "in_buf F" "CHR ''*'' \<notin> set (fb_rest F)"
  shows "read_long_string F = Inl Unterminated_comment"
  using assms
proof (induction F rule: long_string_induct)
  case (past F)
  then show ?case by (simp add: in_buf_def)
next
  case (zero F)
  then show ?case by (subst read_long_string_eq) simp
next
  case (line F)
  have p: "\<not> length (fb_buffer F) < fb_p F" using fb_current_nonzero [OF line.hyps(1)] by simp
  obtain c s where r: "fb_rest F = c # s"
    using line.hyps(1) by (cases "fb_rest F") (simp_all add: fb_current_rest)
  then have "CHR ''*'' \<notin> set (fb_rest (fb_nextline F))"
    using fb_rest_nextline [OF r] line.prems(2) r by (cases s) (auto split: if_splits)
  moreover have "read_long_string F = read_long_string (fb_nextline F)"
    using line.hyps p by (subst read_long_string_eq) simp
  ultimately show ?case using line.IH [OF in_buf_nextline [OF line.hyps(1)]] by simp
next
  case (skip F)
  have p: "\<not> length (fb_buffer F) < fb_p F" using fb_current_nonzero [OF skip.hyps(1)] by simp
  have "CHR ''*'' \<notin> set (fb_rest (fb_next F))"
    using skip.prems(2) by (cases "fb_rest F") auto
  moreover have "read_long_string F = read_long_string (fb_next F)"
    using skip.hyps p by (subst read_long_string_eq) simp
  ultimately show ?case using skip.IH [OF in_buf_next [OF skip.hyps(1)]] by simp
next
  case (close F)
  then show ?case by (cases "fb_rest F") (auto simp: fb_current_rest)
next
  case (star F)
  then show ?case by (cases "fb_rest F") (auto simp: fb_current_rest)
qed

lemma long_string_error: "read_long_string F = Inl e \<Longrightarrow> e = Unterminated_comment \<or> e = Read_past_end"
proof (induction F rule: long_string_induct)
  case (past F)
  then show ?case using read_long_string_eq [of F] by simp
next
  case (zero F)
  then show ?case using read_long_string_eq [of F] by simp
next
  case (line F)
  then show ?case using read_long_string_eq [of F] by (simp split: if_splits)
next
  case (skip F)
  then show ?case using read_long_string_eq [of F] by (simp split: if_splits)
next
  case (close F)
  then show ?case using read_long_string_eq [of F] by (simp add: is_newline_def split: if_splits)
next
  case (star F)
  then show ?case using read_long_string_eq [of F] by (simp add: is_newline_def split: if_splits)
qed

lemma symbol_at_comment:
  assumes "fb_rest (tk_buf T) = ''/*'' @ s"
  shows "\<exists>F. fb_rest F = s \<and> fb_buffer F = fb_buffer (tk_buf T) \<and>
    symbol T = (case read_long_string F of Inl e \<Rightarrow> Inl e | Inr F \<Rightarrow> symbol (T\<lparr>tk_buf := F\<rparr>))"
proof -
  have "fb_current (tk_buf T) = CHR ''/''" "fb_current (fb_next (tk_buf T)) = CHR ''*''"
    using assms fb_current_rest [of "fb_next (tk_buf T)"] by simp_all
  then show ?thesis using assms symbol_comment [of T]
    by (intro exI [of _ "fb_next (fb_next (tk_buf T))"]) simp
qed

section \<open>Properties\<close>

text \<open>C31. The scanner reads a text back: whatever tokens are written one after the other, separated by
  white space and any further white space and comments without an asterisk, come back with their
  codes and names, followed by the end of the text.\<close>

theorem tokens_read_back:
  assumes "files path = Some (gaps_text gs @ concat (map item_text its))" "\<forall>g \<in> set gs. gap_ok g" "items_ok its"
  shows "\<exists>F T' T''. fb_load files path = Some F \<and>
    scan (length its) (tk_new F name i f t) = Inr (lex_expected name (map fst its), T') \<and>
    nextToken T' = Inr T'' \<and> tk_token T'' = eKw_EOF"
proof -
  let ?F = "\<lparr>fb_buffer = gaps_text gs @ concat (map item_text its), fb_p = 0, fb_lastp = 0, fb_nline = 1, fb_filename = path\<rparr>"
  have "fb_load files path = Some ?F" using assms(1) by (simp add: fb_load_def)
  moreover have "fb_rest (tk_buf (tk_new ?F name i f t)) = gaps_text gs @ concat (map item_text its)"
    by (simp add: fb_rest_def tk_new_def)
  ultimately show ?thesis
    using scan_items [of "tk_new ?F name i f t" gs its] assms(2,3) by (auto simp: tk_new_def)
qed

theorem tokens_read_back_witness:
  "\<exists>F T' T''. fb_load [''a.x'' \<mapsto> ''/* id */ typedef int32 ID ;''] ''a.x'' = Some F \<and>
    scan 4 (tk_new F [] 0 [] 0) =
      Inr ([(eKw_TYPEDEF, ''typedef''), (eKw_INT32, ''int32''), (eKw_VAR, ''ID''), (59, ''ID'')], T') \<and>
    nextToken T' = Inr T'' \<and> tk_token T'' = eKw_EOF"
proof -
  let ?its = "[(L_name ''typedef'', [Blank CHR '' '']), (L_name ''int32'', [Blank CHR '' '']),
    (L_name ''ID'', [Blank CHR '' '']), (L_char CHR '';'', [])]"
  let ?gs = "[Block_comment '' id '', Blank CHR '' '']"
  have t: "[''a.x'' \<mapsto> ''/* id */ typedef int32 ID ;''] ''a.x'' = Some (gaps_text ?gs @ concat (map item_text ?its))"
    by (simp add: item_text_def)
  have ok: "\<forall>g \<in> set ?gs. gap_ok g" "items_ok ?its"
    by (simp_all add: is_blank_def isLetter_def isVarChar_def isNum_def between_def is_newline_def)
  have e: "lex_expected [] (map fst ?its) =
      [(eKw_TYPEDEF, ''typedef''), (eKw_INT32, ''int32''), (eKw_VAR, ''ID''), (59, ''ID'')]"
    by (simp add: getKeyword_def kw_table_def signed_char_def Let_def)
  have n: "length ?its = 4" by simp
  show ?thesis using tokens_read_back [where files = "[''a.x'' \<mapsto> ''/* id */ typedef int32 ID ;'']" and path = "''a.x''"
      and gs = ?gs and its = ?its, OF t ok, of "[]" 0 "[]" 0]
    unfolding e n .
qed

text \<open>The scanner never reads past the terminating zero: as long as it answers, its pointer is inside
  the buffer, and it answers unless a block comment is not closed.\<close>

theorem scanner_in_bounds:
  assumes "nextToken T = r" "in_buf (tk_buf T)"
  shows "case r of Inr T' \<Rightarrow> in_buf (tk_buf T') \<and> fb_buffer (tk_buf T') = fb_buffer (tk_buf T)
    | Inl e \<Rightarrow> e = Unterminated_comment \<or> e = Read_past_end"
proof -
  let ?T = "T\<lparr>tk_buf := fb_updateLast (tk_buf T)\<rparr>"
  have sym: "symbol S = Inl e \<Longrightarrow> e = Unterminated_comment \<or> e = Read_past_end" for S e
    by (induction S rule: symbol_induct)
      (auto simp: symbol_zero symbol_line symbol_blank symbol_skip symbol_comment symbol_other
        split: sum.splits dest: long_string_error)
  show ?thesis
  proof (cases "symbol ?T")
    case (Inl e)
    then show ?thesis using assms(1) sym by (auto simp: nextToken_def)
  next
    case (Inr kT)
    then obtain k T' where "symbol ?T = Inr (k, T')" by (cases kT) auto
    then show ?thesis using assms symbol_moved [of ?T k T'] nextToken_in_buf [of T "T'\<lparr>tk_token := k\<rparr>"]
      by (auto simp: nextToken_def moved_def fb_updateLast_def)
  qed
qed

definition comment_token :: "string \<Rightarrow> token" where
  "comment_token s = tk_new \<lparr>fb_buffer = s, fb_p = 0, fb_lastp = 0, fb_nline = 1, fb_filename = ''a.x''\<rparr> [] 0 [] 0"

lemma comment_token_rest: "fb_rest (tk_buf (comment_token s)) = s" "in_buf (tk_buf (comment_token s))"
  "fb_buffer (tk_buf (comment_token s)) = s"
  by (simp_all add: comment_token_def tk_new_def fb_rest_def in_buf_def)

theorem scanner_in_bounds_witness:
  "case nextToken (comment_token ''a'') of Inr T' \<Rightarrow> in_buf (tk_buf T') \<and> fb_buffer (tk_buf T') = ''a''
    | Inl e \<Rightarrow> e = Unterminated_comment \<or> e = Read_past_end"
  using scanner_in_bounds [OF refl comment_token_rest(2), of "''a''"]
  by (simp only: comment_token_rest(3))

text \<open>A comment whose text ends in an asterisk goes wrong. Closed by two asterisks and a slash it is not
  closed, and the scanner fails on a text that holds no other comment; and where the text ends
  after the asterisk, the scanner steps over the terminating zero and reads past the buffer.\<close>

theorem asterisk_comments:
  assumes "\<forall>c \<in> set body. c \<noteq> CHR ''*'' \<and> c \<noteq> CHR 0x00" "CHR ''*'' \<notin> set s"
  shows "symbol (comment_token (''/*'' @ body @ ''**/'' @ s)) = Inl Unterminated_comment \<and>
    symbol (comment_token (''/*'' @ body @ ''*'')) = Inl Read_past_end"
proof
  let ?T = "comment_token (''/*'' @ body @ ''**/'' @ s)"
  obtain F where F: "fb_rest F = body @ CHR ''*'' # CHR ''*'' # CHR ''/'' # s"
      "symbol ?T = (case read_long_string F of Inl e \<Rightarrow> Inl e | Inr F \<Rightarrow> symbol (?T\<lparr>tk_buf := F\<rparr>))"
    using symbol_at_comment [of ?T "body @ ''**/'' @ s"] by (auto simp: comment_token_rest)
  obtain G where G: "read_long_string F = read_long_string G" "fb_rest G = CHR ''*'' # CHR ''*'' # CHR ''/'' # s"
    using long_string_to_star [OF F(1) assms(1)] by blast
  note st = long_string_star [OF G(2), simplified]
  have "read_long_string (fb_next (fb_next G)) = Inl Unterminated_comment"
    using st assms(2) by (intro long_string_no_star in_buf_rest) auto
  then show "symbol ?T = Inl Unterminated_comment" using F(2) G(1) st by simp
next
  let ?T = "comment_token (''/*'' @ body @ ''*'')"
  obtain F where F: "fb_rest F = body @ CHR ''*'' # []"
      "symbol ?T = (case read_long_string F of Inl e \<Rightarrow> Inl e | Inr F \<Rightarrow> symbol (?T\<lparr>tk_buf := F\<rparr>))"
    using symbol_at_comment [of ?T "body @ ''*''"] by (auto simp: comment_token_rest)
  obtain G where G: "read_long_string F = read_long_string G" "fb_rest G = [CHR ''*'']"
    using long_string_to_star [OF F(1) assms(1)] by blast
  show "symbol ?T = Inl Read_past_end" using F(2) G(1) long_string_star_last [OF G(2)] by simp
qed

theorem asterisk_comments_witness:
  "symbol (comment_token ''/* a **/ x'') = Inl Unterminated_comment \<and>
    symbol (comment_token ''/* a *'') = Inl Read_past_end"
  using asterisk_comments [of "'' a ''" "'' x''"] by simp

end
