(* ===== verification/Idl_Parser.thy ===== *)
theory Idl_Parser
  imports Idl_Token
begin

text \<open>
  The parser of the serialization compiler, src/core/serialization/Parser.cpp with Common.cpp and
  Typedef.cpp. The tables of the compiler (typedefs, structures, the fields of the structure being
  read) are globals of the program and part of the state; what the parser reports to an
  \<open>Event\<close> object is the list of the calls. Every failed check is an assertion, so it ends the run with
  an error. The loops have fuel, which is shown to suffice.
\<close>

section \<open>Types, events and the state\<close>

record typeinfo =
  ti_type :: int
  ti_value :: int
  ti_name :: string
  ti_vec_name :: string

text \<open>The constructor leaves \<open>value\<close> alone; it is set before it is read.\<close>

definition ti_new :: typeinfo where
  "ti_new = \<lparr>ti_type = 0, ti_value = 0, ti_name = [], ti_vec_name = []\<rparr>"

datatype event =
    OnTypedef typeinfo string
  | OnEnterStruct string
  | OnExitStruct
  | OnVariable typeinfo string string
  | OnEnterRead
  | OnExitRead
  | OnEnterWrite
  | OnExitWrite
  | OnValue string string
  | OnReadWriteVar typeinfo string
  | OnEnterIf
  | OnElseIf
  | OnIfCond string
  | OnElse
  | OnExitIf
  | OnImport string

text \<open>\<open>pr_sink\<close>: the parser has an \<open>Event\<close> object; \<open>pr_lua\<close>: it is a \<open>ParserLua\<close>.\<close>

record idl =
  pr_tok :: token
  pr_sink :: bool
  pr_lua :: bool
  typedefs :: "string \<rightharpoonup> typeinfo"
  structs :: "string list"
  gvars :: "string \<rightharpoonup> typeinfo"
  pr_events :: "event list"

definition isVector :: "string \<Rightarrow> idl \<Rightarrow> bool" where
  "isVector name S = (case typedefs S name of None \<Rightarrow> False | Some info \<Rightarrow> ti_type info \<noteq> 0)"

definition isStruct :: "string \<Rightarrow> idl \<Rightarrow> bool" where
  "isStruct name S \<longleftrightarrow> name \<in> set (structs S)"

definition addStruct :: "string \<Rightarrow> idl \<Rightarrow> idl" where
  "addStruct name S = S\<lparr>structs := List.insert name (structs S)\<rparr>"

definition addTypeInfo :: "string \<Rightarrow> typeinfo \<Rightarrow> idl \<Rightarrow> idl" where
  "addTypeInfo name info S = S\<lparr>typedefs := (typedefs S)(name \<mapsto> info)\<rparr>"

definition emit_ev :: "event \<Rightarrow> idl \<Rightarrow> idl" where
  "emit_ev e S = (if pr_sink S then S\<lparr>pr_events := pr_events S @ [e]\<rparr> else S)"

section \<open>Reading tokens\<close>

definition chain :: "'e + 'a \<Rightarrow> ('a \<Rightarrow> 'e + 'b) \<Rightarrow> 'e + 'b" where
  "chain m f = (case m of Inl e \<Rightarrow> Inl e | Inr x \<Rightarrow> f x)"

lemma chain_simps [simp]: "chain (Inl e) f = Inl e" "chain (Inr x) f = f x"
  by (simp_all add: chain_def)

lemma chain_Inr: "chain m f = Inr y \<longleftrightarrow> (\<exists>x. m = Inr x \<and> f x = Inr y)"
  by (cases m) simp_all

lemma chain_Inl: "chain m f = Inl e \<longleftrightarrow> m = Inl e \<or> (\<exists>x. m = Inr x \<and> f x = Inl e)"
  by (cases m) simp_all

definition tok :: "idl \<Rightarrow> int" where
  "tok S = tk_token (pr_tok S)"

definition name_of :: "idl \<Rightarrow> string" where
  "name_of S = tk_name (pr_tok S)"

lemma name_of_update [simp]:
  "name_of (S\<lparr>pr_events := es\<rparr>) = name_of S" "name_of (S\<lparr>typedefs := t\<rparr>) = name_of S"
  "name_of (S\<lparr>gvars := g\<rparr>) = name_of S" "name_of (S\<lparr>structs := ss\<rparr>) = name_of S"
  "name_of (S\<lparr>pr_sink := b\<rparr>) = name_of S" "name_of (S\<lparr>pr_lua := b\<rparr>) = name_of S"
  "name_of (S\<lparr>pr_tok := T\<rparr>) = tk_name T"
  by (simp_all add: name_of_def)

definition next_tok :: "idl \<Rightarrow> idl_error + idl" where
  "next_tok S = chain (nextToken (pr_tok S)) (\<lambda>T. Inr (S\<lparr>pr_tok := T\<rparr>))"

definition token_error :: "idl \<Rightarrow> idl_error + 'a" where
  "token_error S =
    (let F = tk_buf (pr_tok S)
     in Inl (Syntax_error (fb_filename F) (fb_nline F) (text_between F (fb_lastp F))))"

definition matching :: "int \<Rightarrow> idl \<Rightarrow> idl_error + idl" where
  "matching t S = (if tok S = t then next_tok S else token_error S)"

definition testToken :: "int \<Rightarrow> idl \<Rightarrow> idl_error + (bool \<times> idl)" where
  "testToken t S = (if tok S = t then chain (next_tok S) (\<lambda>S. Inr (True, S)) else Inr (False, S))"

text \<open>What is left to read: nothing at the end, otherwise the current token and the characters after
  it. The loops get twice as much fuel.\<close>

definition left :: "idl \<Rightarrow> nat" where
  "left S = (if tok S = eKw_EOF then 0
    else Suc (length (fb_buffer (tk_buf (pr_tok S))) - fb_p (tk_buf (pr_tok S))))"

definition fuel :: "idl \<Rightarrow> nat" where
  "fuel S = 2 * left S + 1"

section \<open>Expressions\<close>

datatype oper =
    Opr_Add | Opr_Sub | Opr_Mul | Opr_Mod | Opr_Pow | Opr_Div | Opr_Band | Opr_Bor | Opr_LT | Opr_GT
  | Opr_EQ | Opr_NE | Opr_AND | Opr_OR | Opr_LE | Opr_GE | Opr_SHL | Opr_SHR | Opr_None

definition getOper :: "int \<Rightarrow> oper" where
  "getOper t =
    (if t = signed_char CHR ''+'' then Opr_Add
     else if t = signed_char CHR ''-'' then Opr_Sub
     else if t = signed_char CHR ''*'' then Opr_Mul
     else if t = signed_char CHR ''%'' then Opr_Mod
     else if t = signed_char CHR ''^'' then Opr_Pow
     else if t = signed_char CHR ''/'' then Opr_Div
     else if t = signed_char CHR ''&'' then Opr_Band
     else if t = signed_char CHR ''|'' then Opr_Bor
     else if t = signed_char CHR ''<'' then Opr_LT
     else if t = signed_char CHR ''>'' then Opr_GT
     else if t = eKw_EQ then Opr_EQ
     else if t = eKw_NE then Opr_NE
     else if t = eKw_AND then Opr_AND
     else if t = eKw_OR then Opr_OR
     else if t = eKw_LE then Opr_LE
     else if t = eKw_GE then Opr_GE
     else if t = eKw_SHL then Opr_SHL
     else if t = eKw_SHR then Opr_SHR
     else Opr_None)"

fun getOperStr :: "oper \<Rightarrow> string" where
  "getOperStr Opr_Add = ''+''"
| "getOperStr Opr_Sub = ''-''"
| "getOperStr Opr_Mul = ''*''"
| "getOperStr Opr_Mod = ''%''"
| "getOperStr Opr_Pow = ''^''"
| "getOperStr Opr_Div = ''/''"
| "getOperStr Opr_Band = ''&''"
| "getOperStr Opr_Bor = ''|''"
| "getOperStr Opr_LT = ''<''"
| "getOperStr Opr_GT = ''>''"
| "getOperStr Opr_EQ = ''==''"
| "getOperStr Opr_NE = ''!=''"
| "getOperStr Opr_AND = ''&&''"
| "getOperStr Opr_OR = ''||''"
| "getOperStr Opr_LE = ''<=''"
| "getOperStr Opr_GE = ''>=''"
| "getOperStr Opr_SHL = ''<<''"
| "getOperStr Opr_SHR = ''>>''"
| "getOperStr Opr_None = []"

fun lua_getOperStr :: "oper \<Rightarrow> string" where
  "lua_getOperStr Opr_NE = ''~=''"
| "lua_getOperStr Opr_AND = '' and ''"
| "lua_getOperStr Opr_OR = '' or ''"
| "lua_getOperStr op = getOperStr op"

definition oper_text :: "oper \<Rightarrow> idl \<Rightarrow> string" where
  "oper_text op S = (if pr_lua S then lua_getOperStr op else getOperStr op)"

definition lua_getExpreVar :: "string \<Rightarrow> idl \<Rightarrow> string" where
  "lua_getExpreVar var S = (if gvars S var \<noteq> None then ''self.'' @ var else var)"

definition var_text :: "string \<Rightarrow> idl \<Rightarrow> string" where
  "var_text var S = (if pr_lua S then lua_getExpreVar var S else var)"

fun expre_loop :: "nat \<Rightarrow> string \<Rightarrow> idl \<Rightarrow> idl_error + (string \<times> idl)" where
  "expre_loop 0 str S = Inl Fuel_exceeded"
| "expre_loop (Suc n) str S =
    (if tok S = eKw_VAR \<or> tok S = eKw_NUM \<or> tok S = eKw_DECIMALS then
       let str = str @ var_text (name_of S) S
       in chain (next_tok S) (\<lambda>S.
            let op = getOper (tok S)
            in if op = Opr_None then Inr (str, S)
               else let str = str @ oper_text op S
                    in chain (next_tok S) (expre_loop n str))
     else token_error S)"

definition expre :: "idl \<Rightarrow> idl_error + (string \<times> idl)" where
  "expre S =
    chain (testToken (signed_char CHR ''-'') S) (\<lambda>(minus, S).
      expre_loop (fuel S) (if minus then ''-'' else []) S)"

section \<open>Types\<close>

definition baseType :: "idl \<Rightarrow> typeinfo \<Rightarrow> idl_error + typeinfo" where
  "baseType S tinfo =
    (let tinfo = tinfo\<lparr>ti_value := tok S, ti_name := name_of S\<rparr>
     in if isBaseType (tok S) \<or> isStrType (tok S) then Inr tinfo
        else if tok S = eKw_VAR then
          (case typedefs S (name_of S) of
             Some info \<Rightarrow>
               if ti_type info = 1 then Inr (info\<lparr>ti_vec_name := name_of S\<rparr>)
               else Inr (tinfo\<lparr>ti_type := ti_type info, ti_value := ti_value info\<rparr>)
           | None \<Rightarrow>
               if isStruct (ti_name tinfo) S then Inr (tinfo\<lparr>ti_value := eKw_STRUCT\<rparr>)
               else token_error S)
        else token_error S)"

definition dataType :: "idl \<Rightarrow> typeinfo \<Rightarrow> idl_error + (typeinfo \<times> idl)" where
  "dataType S tinfo =
    (if tok S = eKw_VECTOR then
       chain (next_tok S) (\<lambda>S.
       chain (matching (signed_char CHR ''<'') S) (\<lambda>S.
       chain (baseType S tinfo) (\<lambda>tinfo.
         if ti_type tinfo = 1 then token_error S
         else chain (next_tok S) (\<lambda>S.
              chain (matching (signed_char CHR ''>'') S) (\<lambda>S.
                Inr (tinfo\<lparr>ti_type := 1\<rparr>, S))))))
     else
       chain (baseType S tinfo) (\<lambda>tinfo.
       chain (next_tok S) (\<lambda>S. Inr (tinfo, S))))"

definition p_typedef :: "idl \<Rightarrow> idl_error + idl" where
  "p_typedef S =
    chain (next_tok S) (\<lambda>S.
    chain (dataType S ti_new) (\<lambda>(tinfo, S).
      if tok S = eKw_VAR then
        next_tok (emit_ev (OnTypedef tinfo (name_of S)) (addTypeInfo (name_of S) tinfo S))
      else token_error S))"

section \<open>The bodies of the read and write functions\<close>

fun rw_list :: "nat \<Rightarrow> idl \<Rightarrow> idl_error + idl" where
  "rw_list 0 S = Inl Fuel_exceeded"
| "rw_list (Suc n) S =
    (if tok S = eKw_VAR then
       (case gvars S (name_of S) of
          None \<Rightarrow> token_error S
        | Some tinfo \<Rightarrow>
            let varname = name_of S
            in chain (next_tok S) (\<lambda>S.
                 let S = emit_ev (OnReadWriteVar tinfo varname) S
                 in if tok S = signed_char CHR '']'' then Inr S
                    else chain (matching (signed_char CHR '','') S) (rw_list n)))
     else token_error S)"

text \<open>\<open>if_cond\<close> and \<open>if_area\<close> are the labels the code jumps to.\<close>

fun p_function :: "nat \<Rightarrow> idl \<Rightarrow> idl_error + idl"
  and if_cond :: "nat \<Rightarrow> idl \<Rightarrow> idl_error + idl"
  and if_area :: "nat \<Rightarrow> idl \<Rightarrow> idl_error + idl" where
  "p_function 0 S = Inl Fuel_exceeded"
| "p_function (Suc n) S =
    (if tok S = signed_char CHR '';'' then chain (next_tok S) (p_function n)
     else if tok S = signed_char CHR ''['' then
       chain (next_tok S) (\<lambda>S.
       chain (rw_list (fuel S) S) (\<lambda>S.
       chain (next_tok S) (p_function n)))
     else if tok S = eKw_VAR then
       (let varname = name_of S
        in if gvars S varname = None then token_error S
           else chain (next_tok S) (\<lambda>S.
                chain (matching (signed_char CHR ''='') S) (\<lambda>S.
                chain (expre S) (\<lambda>(e, S).
                  p_function n (emit_ev (OnValue varname e) S)))))
     else if tok S = eKw_IF then
       chain (if_cond n (emit_ev OnEnterIf S)) (\<lambda>S. p_function n (emit_ev OnExitIf S))
     else Inr S)"
| "if_cond 0 S = Inl Fuel_exceeded"
| "if_cond (Suc n) S =
    chain (next_tok S) (\<lambda>S.
    chain (matching (signed_char CHR ''('') S) (\<lambda>S.
    chain (expre S) (\<lambda>(e, S).
    chain (matching (signed_char CHR '')'') S) (\<lambda>S.
      if_area n (emit_ev (OnIfCond e) S)))))"
| "if_area 0 S = Inl Fuel_exceeded"
| "if_area (Suc n) S =
    chain (matching (signed_char CHR ''{'') S) (\<lambda>S.
    chain (p_function n S) (\<lambda>S.
    chain (matching (signed_char CHR ''}'') S) (\<lambda>S.
      if tok S = eKw_ELSE then
        chain (next_tok S) (\<lambda>S.
          if tok S = eKw_IF then if_cond n (emit_ev OnElseIf S)
          else if_area n (emit_ev OnElse S))
      else Inr S)))"

definition rw_block :: "event \<Rightarrow> event \<Rightarrow> idl \<Rightarrow> idl_error + idl" where
  "rw_block enter leave S =
    chain (next_tok S) (\<lambda>S.
    chain (matching (signed_char CHR ''{'') S) (\<lambda>S.
    let S = emit_ev enter S in
    chain (p_function (fuel S) S) (\<lambda>S.
      matching (signed_char CHR ''}'') (emit_ev leave S))))"

section \<open>Structures\<close>

definition p_field :: "idl \<Rightarrow> idl_error + idl" where
  "p_field S =
    chain (dataType S ti_new) (\<lambda>(tinfo, S).
      if tok S = eKw_VAR then
        let varname = name_of S; S = S\<lparr>gvars := (gvars S)(varname \<mapsto> tinfo)\<rparr>
        in chain (next_tok S) (\<lambda>S.
             if tok S = signed_char CHR ''='' then
               chain (next_tok S) (\<lambda>S.
               chain (expre S) (\<lambda>(e, S). Inr (emit_ev (OnVariable tinfo varname e) S)))
             else Inr (emit_ev (OnVariable tinfo varname []) S))
      else token_error S)"

fun struct_loop :: "nat \<Rightarrow> idl \<Rightarrow> idl_error + idl" where
  "struct_loop 0 S = Inl Fuel_exceeded"
| "struct_loop (Suc n) S =
    (if tok S = signed_char CHR '';'' then chain (next_tok S) (struct_loop n)
     else if tok S = signed_char CHR ''}'' then Inr S
     else if tok S = eKw_READ then chain (rw_block OnEnterRead OnExitRead S) (struct_loop n)
     else if tok S = eKw_WRITE then chain (rw_block OnEnterWrite OnExitWrite S) (struct_loop n)
     else chain (p_field S) (struct_loop n))"

definition p_struct :: "idl \<Rightarrow> idl_error + idl" where
  "p_struct S =
    chain (next_tok S) (\<lambda>S.
      if tok S = eKw_VAR then
        let S = emit_ev (OnEnterStruct (name_of S)) (addStruct (name_of S) S)
        in chain (next_tok S) (\<lambda>S.
           chain (matching (signed_char CHR ''{'') S) (\<lambda>S.
           let S = S\<lparr>gvars := Map.empty\<rparr> in
           chain (struct_loop (fuel S) S) (\<lambda>S.
             next_tok (emit_ev OnExitStruct S))))
      else token_error S)"

section \<open>Imports and the whole file\<close>

fun import_path :: "nat \<Rightarrow> string \<Rightarrow> idl \<Rightarrow> idl_error + (string \<times> idl)" where
  "import_path 0 path S = Inl Fuel_exceeded"
| "import_path (Suc n) path S =
    chain (next_tok S) (\<lambda>S.
      if tok S = eKw_VAR then import_path n (path @ name_of S) S
      else if tok S = signed_char CHR ''.'' then import_path n (path @ ''.'') S
      else if tok S = signed_char CHR ''/'' then import_path n (path @ ''/'') S
      else Inr (path, S))"

text \<open>The imported file is read by a parser of its own, which reports to nobody and shares the tables.\<close>

definition p_import :: "(idl \<Rightarrow> idl_error + idl) \<Rightarrow> (string \<Rightarrow> string option) \<Rightarrow> idl \<Rightarrow> idl_error + idl" where
  "p_import run files S =
    chain (import_path (fuel S) [] S) (\<lambda>(path, S).
      let filename = getFileDir (fb_filename (tk_buf (pr_tok S))) @ path
      in case fb_load files filename of
           None \<Rightarrow> Inl (Load_error filename)
         | Some F \<Rightarrow>
             chain (run (S\<lparr>pr_tok := tk_new F [] 0 [] 0, pr_sink := False, pr_lua := False\<rparr>)) (\<lambda>I.
               Inr (emit_ev (OnImport (getFileNameByFilePath filename))
                 (S\<lparr>typedefs := typedefs I, structs := structs I, gvars := gvars I\<rparr>))))"

fun start_loop :: "(idl \<Rightarrow> idl_error + idl) \<Rightarrow> nat \<Rightarrow> idl \<Rightarrow> idl_error + idl" where
  "start_loop imp 0 S = Inl Fuel_exceeded"
| "start_loop imp (Suc n) S =
    (if tok S = signed_char CHR '';'' then chain (next_tok S) (start_loop imp n)
     else if tok S = eKw_EOF then Inr S
     else if tok S = eKw_TYPEDEF then chain (p_typedef S) (start_loop imp n)
     else if tok S = eKw_STRUCT then chain (p_struct S) (start_loop imp n)
     else if tok S = eKw_IMPORT then chain (imp S) (start_loop imp n)
     else token_error S)"

text \<open>The first argument bounds the depth of imports, which the code does not do.\<close>

fun start :: "nat \<Rightarrow> (string \<Rightarrow> string option) \<Rightarrow> idl \<Rightarrow> idl_error + idl" where
  "start 0 files S = Inl Depth_exceeded"
| "start (Suc d) files S =
    chain (next_tok S) (\<lambda>S. start_loop (p_import (start d files) files) (fuel S) S)"

text \<open>\<open>main\<close>: the file, a parser with empty tables, and its run.\<close>

definition parser_new :: "bool \<Rightarrow> fbuffer \<Rightarrow> idl" where
  "parser_new lua F = \<lparr>pr_tok = tk_new F [] 0 [] 0, pr_sink = True, pr_lua = lua,
    typedefs = Map.empty, structs = [], gvars = Map.empty, pr_events = []\<rparr>"

definition compile_events :: "nat \<Rightarrow> bool \<Rightarrow> (string \<Rightarrow> string option) \<Rightarrow> string \<Rightarrow> idl_error + event list" where
  "compile_events d lua files path =
    (case fb_load files path of
       None \<Rightarrow> Inl (Load_error path)
     | Some F \<Rightarrow> chain (start d files (parser_new lua F)) (\<lambda>S. Inr (pr_events S)))"

section \<open>What a run of the parser satisfies\<close>

text \<open>\<open>fine r P\<close>: the loops had enough fuel, and what was answered satisfies \<open>P\<close>.\<close>

definition fine :: "idl_error + 'a \<Rightarrow> ('a \<Rightarrow> bool) \<Rightarrow> bool" where
  "fine r P \<longleftrightarrow> r \<noteq> Inl Fuel_exceeded \<and> (\<forall>x. r = Inr x \<longrightarrow> P x)"

lemma fine_Inr [simp]: "fine (Inr x) P = P x"
  by (simp add: fine_def)

lemma fine_chain: "fine m (\<lambda>x. fine (f x) P) \<Longrightarrow> fine (chain m f) P"
  by (cases m) (simp_all add: fine_def)

lemma fine_mono: "fine r P \<Longrightarrow> (\<And>x. P x \<Longrightarrow> Q x) \<Longrightarrow> fine r Q"
  by (auto simp: fine_def)

lemma fine_error [simp]: "fine (token_error S) P"
  by (simp add: fine_def token_error_def Let_def)

lemma fineD: "fine r P \<Longrightarrow> r = Inr x \<Longrightarrow> P x"
  by (simp add: fine_def)

text \<open>Nothing but the scanner moves, and it stays on its file.\<close>

definition same_file :: "idl \<Rightarrow> idl \<Rightarrow> bool" where
  "same_file S S' \<longleftrightarrow> pr_sink S' = pr_sink S \<and> pr_lua S' = pr_lua S \<and>
    fb_filename (tk_buf (pr_tok S')) = fb_filename (tk_buf (pr_tok S))"

lemma same_file_refl [simp]: "same_file S S"
  by (simp add: same_file_def)

lemma same_file_trans: "same_file S S' \<Longrightarrow> same_file S' S'' \<Longrightarrow> same_file S S''"
  by (simp add: same_file_def)

lemma nextToken_error: "nextToken T = Inl e \<Longrightarrow> e = Unterminated_comment \<or> e = Read_past_end"
proof -
  have "symbol S = Inl e \<Longrightarrow> e = Unterminated_comment \<or> e = Read_past_end" for S
    by (induction S rule: symbol_induct)
      (auto simp: symbol_zero symbol_line symbol_blank symbol_skip symbol_comment symbol_other
        split: sum.splits dest: long_string_error)
  then show "nextToken T = Inl e \<Longrightarrow> ?thesis" by (auto simp: nextToken_def split: sum.splits prod.splits)
qed

lemma fine_next:
  assumes "tok S \<noteq> eKw_EOF"
    and "\<And>T. left (S\<lparr>pr_tok := T\<rparr>) < left S \<Longrightarrow>
      fb_filename (tk_buf T) = fb_filename (tk_buf (pr_tok S)) \<Longrightarrow>
      (plain_text (tk_name (pr_tok S)) \<Longrightarrow> plain_text (tk_name T)) \<Longrightarrow> P (S\<lparr>pr_tok := T\<rparr>)"
  shows "fine (next_tok S) P"
proof (cases "nextToken (pr_tok S)")
  case (Inl e)
  then show ?thesis using nextToken_error [OF Inl] by (auto simp: next_tok_def fine_def)
next
  case (Inr T)
  let ?U = "(pr_tok S)\<lparr>tk_buf := fb_updateLast (tk_buf (pr_tok S))\<rparr>"
  obtain k U where U: "symbol ?U = Inr (k, U)" "T = U\<lparr>tk_token := k\<rparr>"
    using Inr by (auto simp: nextToken_def split: sum.splits)
  note m = symbol_moved [OF U(1), unfolded moved_def]
  have "left (S\<lparr>pr_tok := T\<rparr>) < left S"
  proof (cases "k = eKw_EOF")
    case True
    then show ?thesis using assms(1) U(2) by (simp add: left_def tok_def)
  next
    case False
    have "fb_current (tk_buf ?U) \<noteq> CHR 0x00" using False symbol_zero [of ?U] U(1) by auto
    then have "fb_p (tk_buf ?U) < length (fb_buffer (tk_buf ?U))" by (rule fb_current_nonzero)
    then show ?thesis using assms(1) False U(2) m
      by (auto simp: left_def tok_def fb_updateLast_def)
  qed
  moreover have "fb_filename (tk_buf T) = fb_filename (tk_buf (pr_tok S))"
    using m U(2) by (simp add: fb_updateLast_def)
  ultimately show ?thesis using assms(2) Inr nextToken_name [OF Inr] by (simp add: next_tok_def)
qed

lemma fine_matching:
  assumes "t \<noteq> eKw_EOF"
    and "\<And>T. left (S\<lparr>pr_tok := T\<rparr>) < left S \<Longrightarrow>
      fb_filename (tk_buf T) = fb_filename (tk_buf (pr_tok S)) \<Longrightarrow>
      (plain_text (tk_name (pr_tok S)) \<Longrightarrow> plain_text (tk_name T)) \<Longrightarrow> P (S\<lparr>pr_tok := T\<rparr>)"
  shows "fine (matching t S) P"
  unfolding matching_def using assms by (auto intro: fine_next)

lemma left_emit [simp]: "left (emit_ev e S) = left S" "tok (emit_ev e S) = tok S"
  "name_of (emit_ev e S) = name_of S" "pr_tok (emit_ev e S) = pr_tok S" "gvars (emit_ev e S) = gvars S"
  "typedefs (emit_ev e S) = typedefs S" "structs (emit_ev e S) = structs S"
  "pr_sink (emit_ev e S) = pr_sink S" "pr_lua (emit_ev e S) = pr_lua S"
  by (simp_all add: emit_ev_def left_def tok_def name_of_def)

lemma same_file_emit [simp]: "same_file S (emit_ev e S') = same_file S S'" "same_file (emit_ev e S) S' = same_file S S'"
  by (simp_all add: same_file_def)

lemma same_file_tok: "fb_filename (tk_buf T) = fb_filename (tk_buf (pr_tok S)) \<Longrightarrow> same_file S (S\<lparr>pr_tok := T\<rparr>)"
  by (simp add: same_file_def)

section \<open>The calls of the event object\<close>

text \<open>Types that are reported and stored: a base type, the string, or a structure; the value is the
  code of the element for a vector, and only a vector has the name of a vector type.\<close>

definition ti_ok :: "typeinfo \<Rightarrow> bool" where
  "ti_ok ti \<longleftrightarrow> (ti_type ti = 0 \<or> ti_type ti = 1) \<and>
    (isBaseType (ti_value ti) \<or> isStrType (ti_value ti) \<or> ti_value ti = eKw_STRUCT) \<and>
    (ti_type ti = 0 \<longrightarrow> ti_vec_name ti = []) \<and> plain_text (ti_name ti) \<and> plain_text (ti_vec_name ti)"

text \<open>Texts without braces.\<close>

definition text_ok :: "string \<Rightarrow> bool" where
  "text_ok s \<longleftrightarrow> CHR ''{'' \<notin> set s \<and> CHR ''}'' \<notin> set s"

lemma text_ok_append [simp]: "text_ok (s @ t) \<longleftrightarrow> text_ok s \<and> text_ok t"
  by (auto simp: text_ok_def)

lemma text_ok_simps [simp]: "text_ok []" "text_ok (c # s) \<longleftrightarrow> c \<noteq> CHR ''{'' \<and> c \<noteq> CHR ''}'' \<and> text_ok s"
  by (auto simp: text_ok_def)

lemma plain_text_ok: "plain_text s \<Longrightarrow> text_ok s"
  by (auto simp: plain_text_def text_ok_def list_all_iff isVarChar_def between_def)

fun ev_ok :: "event \<Rightarrow> bool" where
  "ev_ok (OnTypedef ti name) = (ti_ok ti \<and> plain_text name)"
| "ev_ok (OnVariable ti name e) = (ti_ok ti \<and> plain_text name \<and> text_ok e)"
| "ev_ok (OnReadWriteVar ti name) = (ti_ok ti \<and> plain_text name)"
| "ev_ok (OnEnterStruct name) = plain_text name"
| "ev_ok (OnValue name e) = (plain_text name \<and> text_ok e)"
| "ev_ok (OnIfCond e) = text_ok e"
| "ev_ok (OnImport name) = text_ok name"
| "ev_ok e = True"

text \<open>Where in a file the parser is, from the inside out.\<close>

datatype place = In_struct | In_fun bool | At_cond | In_body

fun code_place :: "place list \<Rightarrow> bool" where
  "code_place (In_fun r # cs) = True"
| "code_place (In_body # cs) = True"
| "code_place cs = False"

fun ev_step :: "place list \<Rightarrow> event \<Rightarrow> place list option" where
  "ev_step cs (OnTypedef ti name) = (if cs = [] then Some cs else None)"
| "ev_step cs (OnImport name) = (if cs = [] then Some cs else None)"
| "ev_step cs (OnEnterStruct name) = (if cs = [] then Some [In_struct] else None)"
| "ev_step cs OnExitStruct = (if cs = [In_struct] then Some [] else None)"
| "ev_step cs (OnVariable ti name e) = (if cs = [In_struct] then Some cs else None)"
| "ev_step cs OnEnterRead = (if cs = [In_struct] then Some [In_fun True, In_struct] else None)"
| "ev_step cs OnExitRead = (if cs = [In_fun True, In_struct] then Some [In_struct] else None)"
| "ev_step cs OnEnterWrite = (if cs = [In_struct] then Some [In_fun False, In_struct] else None)"
| "ev_step cs OnExitWrite = (if cs = [In_fun False, In_struct] then Some [In_struct] else None)"
| "ev_step cs (OnValue name e) = (if code_place cs then Some cs else None)"
| "ev_step cs (OnReadWriteVar ti name) = (if code_place cs then Some cs else None)"
| "ev_step cs OnEnterIf = (if code_place cs then Some (At_cond # cs) else None)"
| "ev_step cs (OnIfCond e) = (case cs of At_cond # cs' \<Rightarrow> Some (In_body # cs') | _ \<Rightarrow> None)"
| "ev_step cs OnElseIf = (case cs of In_body # cs' \<Rightarrow> Some (At_cond # cs') | _ \<Rightarrow> None)"
| "ev_step cs OnElse = (case cs of In_body # cs' \<Rightarrow> Some cs | _ \<Rightarrow> None)"
| "ev_step cs OnExitIf = (case cs of In_body # cs' \<Rightarrow> Some cs' | _ \<Rightarrow> None)"

definition ev_run :: "event list \<Rightarrow> place list \<Rightarrow> place list option" where
  "ev_run es cs = fold (\<lambda>e c. Option.bind c (\<lambda>c. ev_step c e)) es (Some cs)"

lemma ev_run_append1 [simp]: "ev_run (es @ [e]) cs = Option.bind (ev_run es cs) (\<lambda>c. ev_step c e)"
  by (simp add: ev_run_def)

definition pr_inv :: "place list \<Rightarrow> idl \<Rightarrow> bool" where
  "pr_inv cs S \<longleftrightarrow> (pr_sink S \<longrightarrow> ev_run (pr_events S) [] = Some cs) \<and>
    (\<forall>e \<in> set (pr_events S). ev_ok e) \<and> plain_text (name_of S) \<and>
    (\<forall>ti \<in> ran (typedefs S). ti_ok ti) \<and> (\<forall>ti \<in> ran (gvars S). ti_ok ti)"

lemma pr_inv_tok: "pr_inv cs S \<Longrightarrow> plain_text (tk_name T) \<Longrightarrow> pr_inv cs (S\<lparr>pr_tok := T\<rparr>)"
  by (simp add: pr_inv_def name_of_def)

lemma pr_inv_name: "pr_inv cs S \<Longrightarrow> plain_text (name_of S)"
  by (simp add: pr_inv_def)

lemma pr_inv_emit: "pr_inv cs S \<Longrightarrow> ev_step cs e = Some cs' \<Longrightarrow> ev_ok e \<Longrightarrow> pr_inv cs' (emit_ev e S)"
  by (auto simp: pr_inv_def emit_ev_def)

lemma signed_char_codes:
  "signed_char CHR '';'' = 59" "signed_char CHR ''['' = 91" "signed_char CHR '']'' = 93" "signed_char CHR '','' = 44"
  "signed_char CHR ''='' = 61" "signed_char CHR ''('' = 40" "signed_char CHR '')'' = 41" "signed_char CHR ''{'' = 123"
  "signed_char CHR ''}'' = 125" "signed_char CHR ''<'' = 60" "signed_char CHR ''>'' = 62" "signed_char CHR ''-'' = 45"
  "signed_char CHR ''.'' = 46" "signed_char CHR ''/'' = 47" "signed_char CHR ''+'' = 43" "signed_char CHR ''*'' = 42"
  "signed_char CHR ''%'' = 37" "signed_char CHR ''^'' = 94" "signed_char CHR ''&'' = 38" "signed_char CHR ''|'' = 124"
  by (simp_all add: signed_char_def Let_def)

section \<open>Every part of the parser\<close>

text \<open>Reading on in the same file, with nothing else changed.\<close>

definition advance :: "idl \<Rightarrow> idl \<Rightarrow> bool" where
  "advance S S' \<longleftrightarrow> S' = S\<lparr>pr_tok := pr_tok S'\<rparr> \<and> left S' < left S \<and> same_file S S' \<and>
    (plain_text (name_of S) \<longrightarrow> plain_text (name_of S'))"

lemma advance_trans: "advance S S' \<Longrightarrow> advance S' S'' \<Longrightarrow> advance S S''"
  by (cases S; cases S'; cases S'') (auto simp: advance_def same_file_def)

lemma advanceD:
  assumes "advance S S'"
  shows "left S' < left S" "same_file S S'" "gvars S' = gvars S" "typedefs S' = typedefs S"
    "structs S' = structs S" "pr_events S' = pr_events S" "pr_sink S' = pr_sink S" "pr_lua S' = pr_lua S"
    "pr_inv cs S \<Longrightarrow> pr_inv cs S'"
proof -
  obtain T where T: "S' = S\<lparr>pr_tok := T\<rparr>" using assms by (auto simp: advance_def)
  then show "gvars S' = gvars S" "typedefs S' = typedefs S"
    "structs S' = structs S" "pr_events S' = pr_events S" "pr_sink S' = pr_sink S" "pr_lua S' = pr_lua S"
    by simp_all
  show "pr_inv cs S \<Longrightarrow> pr_inv cs S'"
    using assms T by (simp add: advance_def pr_inv_def name_of_def)
qed (use assms in \<open>simp_all add: advance_def\<close>)

lemma advance_plain: "advance S S' \<Longrightarrow> plain_text (name_of S) \<Longrightarrow> plain_text (name_of S')"
  by (simp add: advance_def)

lemma advance_tok: "left (S\<lparr>pr_tok := T\<rparr>) < left S \<Longrightarrow>
    fb_filename (tk_buf T) = fb_filename (tk_buf (pr_tok S)) \<Longrightarrow>
    (plain_text (tk_name (pr_tok S)) \<Longrightarrow> plain_text (tk_name T)) \<Longrightarrow> advance S (S\<lparr>pr_tok := T\<rparr>)"
  by (simp add: advance_def same_file_def name_of_def)

lemma fine_next_adv: "tok S \<noteq> eKw_EOF \<Longrightarrow> (\<And>S'. advance S S' \<Longrightarrow> P S') \<Longrightarrow> fine (next_tok S) P"
  by (rule fine_next) (auto intro: advance_tok)

lemma fine_matching_adv: "t \<noteq> eKw_EOF \<Longrightarrow> (\<And>S'. advance S S' \<Longrightarrow> P S') \<Longrightarrow> fine (matching t S) P"
  by (rule fine_matching) (auto intro: advance_tok)

text \<open>The texts of operators and variables have no braces.\<close>

lemma oper_text_ok: "text_ok (oper_text op S)"
  by (cases op) (simp_all add: oper_text_def)

lemma var_text_ok: "plain_text v \<Longrightarrow> text_ok (var_text v S)"
  by (simp add: var_text_def lua_getExpreVar_def plain_text_ok)

definition read_text :: "idl \<Rightarrow> string \<Rightarrow> string \<times> idl \<Rightarrow> bool" where
  "read_text S str q \<longleftrightarrow> advance S (snd q) \<and> (plain_text (name_of S) \<longrightarrow> text_ok str \<longrightarrow> text_ok (fst q))"

lemma read_text_later:
  assumes "advance S S'" "plain_text (name_of S) \<Longrightarrow> text_ok str \<Longrightarrow> text_ok str'" "read_text S' str' q"
  shows "read_text S str q"
  using assms advance_plain [OF assms(1)] by (auto simp: read_text_def intro: advance_trans)

lemma read_textI: "advance S S' \<Longrightarrow> (plain_text (name_of S) \<Longrightarrow> text_ok str \<Longrightarrow> text_ok e) \<Longrightarrow> read_text S str (e, S')"
  by (simp add: read_text_def)

lemma fine_expre_loop: "left S < n \<Longrightarrow> fine (expre_loop n str S) (read_text S str)"
proof (induction n arbitrary: str S)
  case (Suc n)
  let ?v = "str @ var_text (name_of S) S"
  have v: "plain_text (name_of S) \<Longrightarrow> text_ok str \<Longrightarrow> text_ok ?v" by (simp add: var_text_ok)
  have rec: "fine (expre_loop n (?v @ oper_text op S') S'') (read_text S str)"
    if "advance S S'" "advance S' S''" for S' S'' op
  proof -
    have "left S'' < n" using advanceD(1) [OF that(2)] advanceD(1) [OF that(1)] Suc.prems by simp
    then show ?thesis
      by (rule fine_mono [OF Suc.IH], intro read_text_later [OF advance_trans [OF that]])
        (simp_all add: v [simplified] oper_text_ok)
  qed
  have last: "read_text S str (?v, S')" if "advance S S'" for S' by (rule read_textI [OF that v])
  have "getOper eKw_EOF = Opr_None" by (simp add: getOper_def signed_char_codes)
  then show ?case using rec last
    by (auto simp: Let_def intro!: fine_chain fine_next_adv)
qed simp

lemma fine_expre: "fine (expre S) (read_text S [])"
proof -
  have "fine (expre_loop (fuel S) [] S) (read_text S [])"
    by (rule fine_expre_loop) (simp add: fuel_def)
  moreover have "fine (expre_loop (fuel S') ''-'' S') (read_text S [])" if "advance S S'" for S'
    by (rule fine_mono [OF fine_expre_loop]) (use read_text_later [OF that, of "[]" "''-''"] in \<open>simp_all add: fuel_def\<close>)
  ultimately show ?thesis
    by (auto simp: expre_def testToken_def signed_char_codes intro!: fine_chain fine_next_adv)
qed

lemma fine_baseType:
  assumes "pr_inv cs S" "ti_type ti = 0" "ti_vec_name ti = []"
  shows "fine (baseType S ti) (\<lambda>ti. ti_ok ti \<and> tok S \<noteq> eKw_EOF)"
proof -
  have known: "ti_ok info" if "typedefs S name = Some info" for name info
    using assms(1) that by (auto simp: pr_inv_def ran_def)
  have eof: "\<not> isBaseType eKw_EOF" "\<not> isStrType eKw_EOF" by (simp_all add: isBaseType_def isStrType_def)
  have p: "plain_text (name_of S)" "plain_text []" using assms(1) by (simp_all add: pr_inv_def plain_text_def)
  show ?thesis
  proof (cases "isBaseType (tok S) \<or> isStrType (tok S)")
    case True
    then show ?thesis using assms(2,3) eof p by (auto simp: baseType_def Let_def ti_ok_def)
  next
    case False
    then show ?thesis using assms(2,3) known p
      by (auto simp: baseType_def Let_def ti_ok_def split: option.splits)
  qed
qed

lemma fine_dataType:
  assumes "pr_inv cs S"
  shows "fine (dataType S ti_new) (\<lambda>(ti, S'). ti_ok ti \<and> advance S S')"
proof (cases "tok S = eKw_VECTOR")
  case True
  have base: "fine (baseType S' ti_new) (\<lambda>ti. ti_ok ti \<and> tok S' \<noteq> eKw_EOF)" if "advance S S'" for S'
    using fine_baseType [of cs S' ti_new] assms advanceD(9) [OF that] by (simp add: ti_new_def)
  have rest: "fine (chain (next_tok S') (\<lambda>S. chain (matching (signed_char CHR ''>'') S) (\<lambda>S. Inr (ti\<lparr>ti_type := 1\<rparr>, S))))
      (\<lambda>(ti, S'). ti_ok ti \<and> advance S S')"
    if "advance S S'" "ti_ok ti \<and> tok S' \<noteq> eKw_EOF" for S' ti
  proof -
    have "ti_ok (ti\<lparr>ti_type := 1\<rparr>)" using that(2) by (simp add: ti_ok_def)
    moreover have "advance S S2" if "advance S' S1" "advance S1 S2" for S1 S2
      using \<open>advance S S'\<close> that by (blast intro: advance_trans)
    ultimately show ?thesis using that
      by (auto simp: signed_char_codes intro!: fine_chain fine_next_adv fine_matching_adv)
  qed
  have body: "fine (chain (baseType S' ti_new) (\<lambda>tinfo. if ti_type tinfo = 1 then token_error S'
        else chain (next_tok S') (\<lambda>S. chain (matching (signed_char CHR ''>'') S) (\<lambda>S. Inr (tinfo\<lparr>ti_type := 1\<rparr>, S)))))
      (\<lambda>(ti, S'). ti_ok ti \<and> advance S S')" if "advance S S'" for S'
    by (rule fine_chain, rule fine_mono [OF base [OF that]]) (use rest that in auto)
  show ?thesis unfolding dataType_def if_P [OF True]
    apply (rule fine_chain)
    apply (rule fine_next_adv)
    subgoal using True by simp
    apply (rule fine_chain)
    apply (rule fine_matching_adv)
    subgoal by (simp add: signed_char_codes)
    by (rule body) (blast intro: advance_trans)
next
  case False
  have "fine (baseType S ti_new) (\<lambda>ti. ti_ok ti \<and> tok S \<noteq> eKw_EOF)"
    using fine_baseType [OF assms, of ti_new] by (simp add: ti_new_def)
  then have "fine (baseType S ti_new) (\<lambda>ti. fine (chain (next_tok S) (\<lambda>S. Inr (ti, S))) (\<lambda>(ti, S'). ti_ok ti \<and> advance S S'))"
    by (rule fine_mono) (auto intro!: fine_chain fine_next_adv)
  then show ?thesis using False by (auto simp: dataType_def intro: fine_chain)
qed

definition ends :: "place list \<Rightarrow> idl \<Rightarrow> idl \<Rightarrow> bool" where
  "ends cs S S' \<longleftrightarrow> pr_inv cs S' \<and> same_file S S' \<and> left S' < left S"

text \<open>As \<open>ends\<close>, where nothing need have been read.\<close>

definition stays :: "place list \<Rightarrow> idl \<Rightarrow> idl \<Rightarrow> bool" where
  "stays cs S S' \<longleftrightarrow> pr_inv cs S' \<and> same_file S S' \<and> left S' \<le> left S"

lemma ends_advance: "pr_inv cs S \<Longrightarrow> advance S S' \<Longrightarrow> ends cs S S'"
  by (simp add: ends_def advanceD)

lemma ends_trans: "ends cs S S' \<Longrightarrow> ends cs' S' S'' \<Longrightarrow> ends cs' S S''"
  by (auto simp: ends_def intro: same_file_trans)

lemma ends_stays: "ends cs S S' \<Longrightarrow> stays cs S S'"
  by (simp add: ends_def stays_def)

lemma stays_refl: "pr_inv cs S \<Longrightarrow> stays cs S S"
  by (simp add: stays_def)

lemma ends_stays_trans: "ends cs S S' \<Longrightarrow> stays cs' S' S'' \<Longrightarrow> ends cs' S S''"
  by (auto simp: ends_def stays_def intro: same_file_trans)

lemma stays_ends_trans: "stays cs S S' \<Longrightarrow> ends cs' S' S'' \<Longrightarrow> ends cs' S S''"
  by (auto simp: ends_def stays_def intro: same_file_trans)

lemma ends_emit:
  "ends cs S S' \<Longrightarrow> ev_step cs e = Some cs' \<Longrightarrow> ev_ok e \<Longrightarrow> ends cs' S (emit_ev e S')"
  by (auto simp: ends_def intro: pr_inv_emit)

lemma ends_inv: "ends cs S S' \<Longrightarrow> pr_inv cs S'"
  by (simp add: ends_def)

lemma fine_next_ends: "pr_inv cs S \<Longrightarrow> tok S \<noteq> eKw_EOF \<Longrightarrow> (\<And>S'. ends cs S S' \<Longrightarrow> P S') \<Longrightarrow> fine (next_tok S) P"
  by (rule fine_next_adv) (auto intro: ends_advance)

lemma fine_matching_ends:
  "pr_inv cs S \<Longrightarrow> t \<noteq> eKw_EOF \<Longrightarrow> (\<And>S'. ends cs S S' \<Longrightarrow> P S') \<Longrightarrow> fine (matching t S) P"
  by (rule fine_matching_adv) (auto intro: ends_advance)

lemma fine_expre_ends:
  assumes "pr_inv cs S" "\<And>e S'. text_ok e \<Longrightarrow> ends cs S S' \<Longrightarrow> P (e, S')"
  shows "fine (expre S) P"
proof (rule fine_mono [OF fine_expre])
  fix q
  assume "read_text S [] q"
  then have "text_ok (fst q)" "ends cs S (snd q)"
    using assms(1) by (simp_all add: read_text_def pr_inv_name ends_advance)
  then show "P q" using assms(2) [of "fst q" "snd q"] by simp
qed

lemma fine_dataType_ends:
  "pr_inv cs S \<Longrightarrow> (\<And>ti S'. ti_ok ti \<Longrightarrow> ends cs S S' \<Longrightarrow> P (ti, S')) \<Longrightarrow> fine (dataType S ti_new) P"
  by (rule fine_mono [OF fine_dataType]) (auto intro: ends_advance)

lemma fine_typedef:
  assumes "pr_inv [] S" "tok S \<noteq> eKw_EOF"
  shows "fine (p_typedef S) (ends [] S)"
proof -
  have step: "fine (next_tok (emit_ev (OnTypedef ti (name_of S')) (addTypeInfo (name_of S') ti S'))) (ends [] S)"
    if "ends [] S S'" "ti_ok ti" "tok S' = eKw_VAR" for S' ti
  proof -
    let ?S = "addTypeInfo (name_of S') ti S'"
    have "pr_inv [] ?S" using that
      by (auto simp: ends_def pr_inv_def addTypeInfo_def ran_def)
    moreover have f: "left ?S = left S'" "same_file S ?S" "tok ?S = tok S'"
      using that(1) by (simp_all add: ends_def addTypeInfo_def left_def tok_def same_file_def)
    moreover have "pr_inv [] (emit_ev (OnTypedef ti (name_of S')) ?S)"
      by (rule pr_inv_emit [of "[]"]) (use \<open>pr_inv [] ?S\<close> that in \<open>simp_all add: ends_def pr_inv_name [of "[]"]\<close>)
    ultimately have e: "ends [] S (emit_ev (OnTypedef ti (name_of S')) ?S)"
      using that by (simp add: ends_def)
    show ?thesis
      by (rule fine_next_ends [OF ends_inv [OF e]]) (use that(3) f(3) ends_trans [OF e] in auto)
  qed
  show ?thesis unfolding p_typedef_def
    apply (rule fine_chain, rule fine_next_ends [OF assms])
    apply (rule fine_chain, rule fine_dataType_ends, erule ends_inv)
    apply (simp split: if_splits)
    by (intro impI step) (blast intro: ends_trans)+
qed

lemma fine_rw_list:
  "left S < n \<Longrightarrow> pr_inv cs S \<Longrightarrow> code_place cs \<Longrightarrow>
    fine (rw_list n S) (\<lambda>S'. ends cs S S' \<and> tok S' \<noteq> eKw_EOF)"
proof (induction n arbitrary: S)
  case (Suc n)
  show ?case
  proof (cases "tok S = eKw_VAR \<and> gvars S (name_of S) \<noteq> None")
    case False
    then show ?thesis by (auto split: option.splits)
  next
    case True
    then obtain ti where ti: "tok S = eKw_VAR" "gvars S (name_of S) = Some ti" by auto
    then have ok: "ev_ok (OnReadWriteVar ti (name_of S))"
      using Suc.prems(2) by (auto simp: pr_inv_def ran_def name_of_def)
    have rec: "fine (rw_list n S'') (\<lambda>S'. ends cs S S' \<and> tok S' \<noteq> eKw_EOF)"
      if "ends cs S S'" "ends cs S' S''" for S' S''
    proof -
      have "left S'' < n" using that Suc.prems(1) by (simp add: ends_def)
      then show ?thesis
        by (rule fine_mono [OF Suc.IH [OF _ ends_inv [OF that(2)] Suc.prems(3)]])
          (use ends_trans [OF ends_trans [OF that]] in auto)
    qed
    have after: "fine (if tok S' = signed_char CHR '']''
          then Inr (emit_ev (OnReadWriteVar ti (name_of S)) S')
          else chain (matching (signed_char CHR '','') (emit_ev (OnReadWriteVar ti (name_of S)) S')) (rw_list n))
        (\<lambda>S'. ends cs S S' \<and> tok S' \<noteq> eKw_EOF)" if "ends cs S S'" for S'
    proof -
      have e: "ends cs S (emit_ev (OnReadWriteVar ti (name_of S)) S')"
        using that Suc.prems(3) ok by (intro ends_emit [of cs S S' _ cs]) simp_all
      show ?thesis
      proof (cases "tok S' = signed_char CHR '']''")
        case True
        then show ?thesis using e by (simp add: signed_char_codes)
      next
        case False
        then show ?thesis
          by (auto simp: signed_char_codes intro!: fine_chain fine_matching_ends [OF ends_inv [OF e]] rec [OF e])
      qed
    qed
    show ?thesis
      apply (simp add: ti Let_def)
      apply (rule fine_chain)
      apply (rule fine_next_ends [OF Suc.prems(2)])
      subgoal using ti by simp
      by (rule after)
  qed
qed simp

lemma left_pos: "tok S \<noteq> eKw_EOF \<Longrightarrow> 0 < left S"
  by (simp add: left_def)

lemma ends_left: "ends cs S S' \<Longrightarrow> left S' < left S"
  by (simp add: ends_def)

text \<open>The three labels at fuel \<open>n\<close>.\<close>

definition code_fine :: "nat \<Rightarrow> bool" where
  "code_fine n \<longleftrightarrow>
    (\<forall>S cs. 2 * left S + 1 \<le> n \<longrightarrow> pr_inv cs S \<longrightarrow> code_place cs \<longrightarrow> fine (p_function n S) (stays cs S)) \<and>
    (\<forall>S cs. 1 \<le> n \<longrightarrow> 2 * left S \<le> n \<longrightarrow> tok S \<noteq> eKw_EOF \<longrightarrow> pr_inv (At_cond # cs) S \<longrightarrow>
      fine (if_cond n S) (ends (In_body # cs) S)) \<and>
    (\<forall>S cs. 1 \<le> n \<longrightarrow> 2 * left S \<le> n \<longrightarrow> pr_inv (In_body # cs) S \<longrightarrow>
      fine (if_area n S) (ends (In_body # cs) S))"

lemma code_fineD:
  assumes "code_fine n"
  shows "2 * left S + 1 \<le> n \<Longrightarrow> pr_inv cs S \<Longrightarrow> code_place cs \<Longrightarrow> fine (p_function n S) (stays cs S)"
    "1 \<le> n \<Longrightarrow> 2 * left S \<le> n \<Longrightarrow> tok S \<noteq> eKw_EOF \<Longrightarrow> pr_inv (At_cond # cs) S \<Longrightarrow>
      fine (if_cond n S) (ends (In_body # cs) S)"
    "1 \<le> n \<Longrightarrow> 2 * left S \<le> n \<Longrightarrow> pr_inv (In_body # cs) S \<Longrightarrow>
      fine (if_area n S) (ends (In_body # cs) S)"
  using assms by (simp_all add: code_fine_def)

lemma function_step:
  assumes "code_fine n" "2 * left S \<le> n" "pr_inv cs S" "code_place cs"
  shows "fine (p_function (Suc n) S) (stays cs S)"
proof -
  have again: "fine (p_function n S') (stays cs S)" if "ends cs S S'" for S'
  proof -
    have "2 * left S' + 1 \<le> n" using ends_left [OF that] assms(2) by linarith
    then show ?thesis
      by (rule fine_mono [OF code_fineD(1) [OF assms(1) _ ends_inv [OF that] assms(4)]])
        (blast intro: ends_stays ends_stays_trans that)
  qed
  consider (semi) "tok S = signed_char CHR '';''" | (list) "tok S = signed_char CHR ''[''"
    | (var) "tok S = eKw_VAR" | (cond) "tok S = eKw_IF"
    | (other) "tok S \<notin> {signed_char CHR '';'', signed_char CHR ''['', eKw_VAR, eKw_IF}" by blast
  then show ?thesis
  proof cases
    case semi
    show ?thesis unfolding p_function.simps if_P [OF semi]
      by (rule fine_chain, rule fine_next_ends [OF assms(3)]) (use semi again in \<open>auto simp: signed_char_codes\<close>)
  next
    case list
    have next_after: "fine (next_tok S2) (\<lambda>S3. fine (p_function n S3) (stays cs S))"
      if "ends cs S S2" "tok S2 \<noteq> eKw_EOF" for S2
      by (rule fine_next_ends [OF ends_inv [OF that(1)] that(2)]) (blast intro: again ends_trans that(1))
    have "fine (chain (rw_list (fuel S1) S1) (\<lambda>S. chain (next_tok S) (p_function n))) (stays cs S)"
      if "ends cs S S1" for S1
      by (rule fine_chain, rule fine_mono [OF fine_rw_list [OF _ ends_inv [OF that] assms(4)]])
        (auto simp: fuel_def intro!: fine_chain next_after intro: ends_trans [OF that])
    then show ?thesis using list
      by (auto simp: signed_char_codes intro!: fine_chain [of "next_tok S"] fine_next_ends [OF assms(3)])
  next
    case var
    have plain: "plain_text (name_of S)" using assms(3) by (rule pr_inv_name)
    have ev: "fine (p_function n (emit_ev (OnValue (name_of S) e) S')) (stays cs S)"
      if "text_ok e" "ends cs S S'" for e S'
      using assms(4) that(1) plain by (intro again ends_emit [OF that(2)]) simp_all
    have body: "fine (chain (matching (signed_char CHR ''='') S1) (\<lambda>S. chain (expre S) (\<lambda>(e, S).
        p_function n (emit_ev (OnValue name e) S)))) (stays cs S)" if "ends cs S S1" "name = name_of S" for S1 name
      apply (rule fine_chain, rule fine_matching_ends [OF ends_inv [OF that(1)]])
      subgoal by (simp add: signed_char_codes)
      apply (rule fine_chain, rule fine_expre_ends, erule ends_inv)
      apply (simp only: case_prod_conv)
      unfolding that(2) by (rule ev) (blast intro: ends_trans that(1))+
    show ?thesis
      by (cases "gvars S (name_of S) = None")
        (use var body in \<open>auto simp: signed_char_codes Let_def
          intro!: fine_chain [of "next_tok S"] fine_next_ends [OF assms(3)]\<close>)
  next
    case cond
    let ?S = "emit_ev OnEnterIf S"
    have inv: "pr_inv (At_cond # cs) ?S" using assms(3,4) by (intro pr_inv_emit [of cs]) simp_all
    have "1 \<le> n" using left_pos [of S] cond assms(2) by simp
    then have "fine (if_cond n ?S) (ends (In_body # cs) ?S)"
      using code_fineD(2) [OF assms(1), of ?S cs] assms(2) cond inv by simp
    then have "fine (if_cond n ?S) (\<lambda>S'. fine (p_function n (emit_ev OnExitIf S')) (stays cs S))"
    proof (rule fine_mono)
      fix S'
      assume e: "ends (In_body # cs) ?S S'"
      have "ends cs ?S (emit_ev OnExitIf S')" by (rule ends_emit [OF e]) simp_all
      then have "ends cs S (emit_ev OnExitIf S')" by (simp add: ends_def)
      then show "fine (p_function n (emit_ev OnExitIf S')) (stays cs S)" by (rule again)
    qed
    then show ?thesis using cond by (simp add: signed_char_codes fine_chain)
  next
    case other
    then show ?thesis using assms(3) by (simp add: stays_refl)
  qed
qed

lemma if_cond_step:
  assumes "code_fine n" "2 * left S \<le> Suc n" "tok S \<noteq> eKw_EOF" "pr_inv (At_cond # cs) S"
  shows "fine (if_cond (Suc n) S) (ends (In_body # cs) S)"
proof -
  have area: "fine (if_area n (emit_ev (OnIfCond e) S')) (ends (In_body # cs) S)"
    if t: "text_ok e" and that: "ends (At_cond # cs) S S'" for e S'
  proof -
    have e: "ends (In_body # cs) S (emit_ev (OnIfCond e) S')" by (rule ends_emit [OF that]) (simp_all add: t)
    have "1 \<le> n" "2 * left (emit_ev (OnIfCond e) S') \<le> n"
      using ends_left [OF that] left_pos [OF assms(3)] assms(2) by simp_all
    then show ?thesis
      by (rule fine_mono [OF code_fineD(3) [OF assms(1) _ _ ends_inv [OF e]]]) (rule ends_trans [OF e])
  qed
  show ?thesis unfolding if_cond.simps
    apply (rule fine_chain, rule fine_next_ends [OF assms(4,3)])
    apply (rule fine_chain, rule fine_matching_ends, erule ends_inv)
    subgoal by (simp add: signed_char_codes)
    apply (rule fine_chain, rule fine_expre_ends, erule ends_inv)
    apply (simp only: case_prod_conv)
    apply (rule fine_chain, rule fine_matching_ends, erule ends_inv)
    subgoal by (simp add: signed_char_codes)
    by (rule area, assumption) (blast intro: ends_trans)
qed

lemma if_area_step:
  assumes "code_fine n" "2 * left S \<le> Suc n" "pr_inv (In_body # cs) S"
  shows "fine (if_area (Suc n) S) (ends (In_body # cs) S)"
proof -
  let ?cs = "In_body # cs"
  have else_part: "fine (if tok S4 = eKw_IF then if_cond n (emit_ev OnElseIf S4) else if_area n (emit_ev OnElse S4)) (ends ?cs S)"
    if "ends ?cs S S4" for S4
  proof -
    have n: "1 \<le> n" "2 * left S4 \<le> n" using ends_left [OF that] assms(2) by simp_all
    show ?thesis
    proof (cases "tok S4 = eKw_IF")
      case True
      have e: "ends (At_cond # cs) S (emit_ev OnElseIf S4)" by (rule ends_emit [OF that]) simp_all
      have "fine (if_cond n (emit_ev OnElseIf S4)) (ends ?cs S)"
        by (rule fine_mono [OF code_fineD(2) [OF assms(1) n(1) _ _ ends_inv [OF e]]])
          (use n True ends_trans [OF e] in auto)
      then show ?thesis using True by simp
    next
      case False
      have e: "ends ?cs S (emit_ev OnElse S4)" by (rule ends_emit [OF that]) simp_all
      have "fine (if_area n (emit_ev OnElse S4)) (ends ?cs S)"
        by (rule fine_mono [OF code_fineD(3) [OF assms(1) n(1) _ ends_inv [OF e]]])
          (use n ends_trans [OF e] in auto)
      then show ?thesis using False by simp
    qed
  qed
  have after: "fine (if tok S3 = eKw_ELSE then chain (next_tok S3) (\<lambda>S. if tok S = eKw_IF then if_cond n (emit_ev OnElseIf S)
        else if_area n (emit_ev OnElse S)) else Inr S3) (ends ?cs S)" if "ends ?cs S S3" for S3
  proof (cases "tok S3 = eKw_ELSE")
    case True
    show ?thesis unfolding if_P [OF True]
      apply (rule fine_chain, rule fine_next_ends [OF ends_inv [OF that]])
      subgoal using True by simp
      by (rule else_part) (blast intro: ends_trans that)
  qed (use that in simp)
  have body: "fine (p_function n S1) (\<lambda>S2. fine (chain (matching (signed_char CHR ''}'') S2) (\<lambda>S.
      if tok S = eKw_ELSE then chain (next_tok S) (\<lambda>S. if tok S = eKw_IF then if_cond n (emit_ev OnElseIf S)
        else if_area n (emit_ev OnElse S)) else Inr S)) (ends ?cs S))" if "ends ?cs S S1" for S1
  proof -
    have "2 * left S1 + 1 \<le> n" using ends_left [OF that] assms(2) by linarith
    then show ?thesis
    proof (rule fine_mono [OF code_fineD(1) [OF assms(1) _ ends_inv [OF that]]])
      fix S2
      assume s: "stays ?cs S1 S2"
      then have e: "ends ?cs S S2" by (rule ends_stays_trans [OF that])
      show "fine (chain (matching (signed_char CHR ''}'') S2) (\<lambda>S.
          if tok S = eKw_ELSE then chain (next_tok S) (\<lambda>S. if tok S = eKw_IF then if_cond n (emit_ev OnElseIf S)
            else if_area n (emit_ev OnElse S)) else Inr S)) (ends ?cs S)"
        apply (rule fine_chain, rule fine_matching_ends [OF ends_inv [OF e]])
        subgoal by (simp add: signed_char_codes)
        by (rule after) (blast intro: ends_trans e)
    qed simp
  qed
  show ?thesis unfolding if_area.simps
    apply (rule fine_chain, rule fine_matching_ends [OF assms(3)])
    subgoal by (simp add: signed_char_codes)
    by (rule fine_chain, erule body)
qed

lemma code_fine: "code_fine n"
proof (induction n)
  case 0
  then show ?case by (simp add: code_fine_def)
next
  case (Suc n)
  then show ?case
    using function_step [OF Suc] if_cond_step [OF Suc] if_area_step [OF Suc]
    by (auto simp: code_fine_def simp del: p_function.simps if_cond.simps if_area.simps)
qed

lemma fine_rw_block:
  assumes "pr_inv [In_struct] S" "tok S \<noteq> eKw_EOF"
    and "ev_step [In_struct] enter = Some [In_fun r, In_struct]" "ev_ok enter"
    and "ev_step [In_fun r, In_struct] leave = Some [In_struct]" "ev_ok leave"
  shows "fine (rw_block enter leave S) (ends [In_struct] S)"
proof -
  have after: "fine (matching (signed_char CHR ''}'') (emit_ev leave S2)) (ends [In_struct] S)"
    if "ends [In_fun r, In_struct] S S2" for S2
  proof -
    note e = ends_emit [OF that assms(5,6)]
    show ?thesis by (rule fine_matching_ends [OF ends_inv [OF e]])
      (use ends_trans [OF e] in \<open>auto simp: signed_char_codes\<close>)
  qed
  have body: "fine (p_function (fuel (emit_ev enter S1)) (emit_ev enter S1))
      (\<lambda>S2. fine (matching (signed_char CHR ''}'') (emit_ev leave S2)) (ends [In_struct] S))"
    if "ends [In_struct] S S1" for S1
  proof -
    note e = ends_emit [OF that assms(3,4)]
    show ?thesis
      by (rule fine_mono [OF code_fineD(1) [OF code_fine _ ends_inv [OF e]]])
        (auto simp: fuel_def intro!: after intro: ends_stays_trans [OF e])
  qed
  show ?thesis unfolding rw_block_def Let_def
    apply (rule fine_chain, rule fine_next_ends [OF assms(1,2)])
    apply (rule fine_chain, rule fine_matching_ends, erule ends_inv)
    subgoal by (simp add: signed_char_codes)
    by (rule fine_chain, rule body) (blast intro: ends_trans)
qed

lemma fine_field:
  assumes "pr_inv [In_struct] S"
  shows "fine (p_field S) (ends [In_struct] S)"
proof -
  have var: "ends [In_struct] S (emit_ev (OnVariable ti name e) S')"
    if "ends [In_struct] S S'" "ti_ok ti" "plain_text name" "text_ok e" for S' ti name e
    using that(2-4) by (intro ends_emit [OF that(1)]) simp_all
  have body: "fine (let varname = name_of S1; S = S1\<lparr>gvars := (gvars S1)(varname \<mapsto> ti)\<rparr>
        in chain (next_tok S) (\<lambda>S. if tok S = signed_char CHR ''='' then
             chain (next_tok S) (\<lambda>S. chain (expre S) (\<lambda>(e, S). Inr (emit_ev (OnVariable ti varname e) S)))
             else Inr (emit_ev (OnVariable ti varname []) S))) (ends [In_struct] S)"
    if "ends [In_struct] S S1" "ti_ok ti" "tok S1 = eKw_VAR" for S1 ti
  proof -
    let ?S = "S1\<lparr>gvars := (gvars S1)(name_of S1 \<mapsto> ti)\<rparr>"
    have e: "ends [In_struct] S ?S" using that(1,2)
      by (auto simp: ends_def pr_inv_def ran_def same_file_def left_def tok_def)
    have t: "tok ?S \<noteq> eKw_EOF" using that(3) by (simp add: tok_def)
    have plain: "plain_text (name_of S1)" using that(1) by (simp add: ends_def pr_inv_name [of "[In_struct]"])
    have "fine (if tok S2 = signed_char CHR ''='' then
             chain (next_tok S2) (\<lambda>S. chain (expre S) (\<lambda>(e, S). Inr (emit_ev (OnVariable ti (name_of S1) e) S)))
             else Inr (emit_ev (OnVariable ti (name_of S1) []) S2)) (ends [In_struct] S)"
      if "ends [In_struct] S S2" for S2
    proof (cases "tok S2 = signed_char CHR ''=''")
      case True
      show ?thesis unfolding if_P [OF True]
        apply (rule fine_chain, rule fine_next_ends [OF ends_inv [OF that]])
        subgoal using True by (simp add: signed_char_codes)
        apply (rule fine_chain, rule fine_expre_ends, erule ends_inv)
        apply simp
        by (rule var) (blast intro: ends_trans that \<open>ti_ok ti\<close> plain)+
    qed (use var that \<open>ti_ok ti\<close> plain in simp)
    then show ?thesis unfolding Let_def
      by (intro fine_chain fine_next_ends [OF ends_inv [OF e] t]) (blast intro: ends_trans e)
  qed
  show ?thesis unfolding p_field_def
    by (rule fine_chain, rule fine_dataType_ends [OF assms]) (use body in auto)
qed

lemma fine_struct_loop:
  "left S < n \<Longrightarrow> pr_inv [In_struct] S \<Longrightarrow>
    fine (struct_loop n S) (\<lambda>S'. stays [In_struct] S S' \<and> tok S' = signed_char CHR ''}'')"
proof (induction n arbitrary: S)
  case (Suc n)
  have again: "fine (struct_loop n S') (\<lambda>S'. stays [In_struct] S S' \<and> tok S' = signed_char CHR ''}'')"
    if "ends [In_struct] S S'" for S'
  proof -
    have "left S' < n" using ends_left [OF that] Suc.prems(1) by simp
    then show ?thesis
      by (rule fine_mono [OF Suc.IH [OF _ ends_inv [OF that]]]) (blast intro: ends_stays ends_stays_trans that)
  qed
  have rw: "fine (rw_block OnEnterRead OnExitRead S) (ends [In_struct] S)"
    "fine (rw_block OnEnterWrite OnExitWrite S) (ends [In_struct] S)" if "tok S \<noteq> eKw_EOF"
    using fine_rw_block [OF Suc.prems(2) that, of OnEnterRead True OnExitRead]
      fine_rw_block [OF Suc.prems(2) that, of OnEnterWrite False OnExitWrite] by simp_all
  show ?case
    using Suc.prems(2) rw fine_field [OF Suc.prems(2)]
    by (auto simp: stays_refl signed_char_codes intro!: fine_chain fine_next_ends [OF Suc.prems(2)]
      elim!: fine_mono intro: again [unfolded signed_char_codes])
qed simp

lemma fine_struct:
  assumes "pr_inv [] S" "tok S \<noteq> eKw_EOF"
  shows "fine (p_struct S) (ends [] S)"
proof -
  have close: "fine (next_tok (emit_ev OnExitStruct S3)) (ends [] S)"
    if "ends [In_struct] S S3" "tok S3 = signed_char CHR ''}''" for S3
  proof -
    have e: "ends [] S (emit_ev OnExitStruct S3)" by (rule ends_emit [OF that(1)]) simp_all
    show ?thesis by (rule fine_next_ends [OF ends_inv [OF e]])
      (use that(2) ends_trans [OF e] in \<open>auto simp: signed_char_codes\<close>)
  qed
  have loop: "fine (struct_loop (fuel (S2\<lparr>gvars := Map.empty\<rparr>)) (S2\<lparr>gvars := Map.empty\<rparr>))
      (\<lambda>S3. fine (next_tok (emit_ev OnExitStruct S3)) (ends [] S))" if "ends [In_struct] S S2" for S2
  proof -
    let ?S = "S2\<lparr>gvars := Map.empty\<rparr>"
    have e: "ends [In_struct] S ?S" using that
      by (auto simp: ends_def pr_inv_def same_file_def left_def tok_def)
    show ?thesis
      by (rule fine_mono [OF fine_struct_loop [OF _ ends_inv [OF e]]])
        (auto simp: fuel_def intro!: close intro: ends_stays_trans [OF e])
  qed
  have body: "fine (let S = emit_ev (OnEnterStruct (name_of S1)) (addStruct (name_of S1) S1)
        in chain (next_tok S) (\<lambda>S. chain (matching (signed_char CHR ''{'') S) (\<lambda>S.
           let S = S\<lparr>gvars := Map.empty\<rparr> in
           chain (struct_loop (fuel S) S) (\<lambda>S. next_tok (emit_ev OnExitStruct S))))) (ends [] S)"
    if "ends [] S S1" "tok S1 = eKw_VAR" for S1
  proof -
    let ?A = "addStruct (name_of S1) S1"
    have "ends [] S ?A" "tok ?A = tok S1" using that(1)
      by (auto simp: ends_def pr_inv_def same_file_def left_def tok_def addStruct_def)
    moreover have "plain_text (name_of S1)" using that(1) by (simp add: ends_def pr_inv_name [of "[]"])
    ultimately have e: "ends [In_struct] S (emit_ev (OnEnterStruct (name_of S1)) ?A)"
        "tok (emit_ev (OnEnterStruct (name_of S1)) ?A) \<noteq> eKw_EOF"
      using that by (auto intro!: ends_emit [where cs = "[]"])
    show ?thesis unfolding Let_def
      apply (rule fine_chain, rule fine_next_ends [OF ends_inv [OF e(1)] e(2)])
      apply (rule fine_chain, rule fine_matching_ends, erule ends_inv)
      subgoal by (simp add: signed_char_codes)
      by (rule fine_chain, rule loop) (blast intro: ends_trans e(1))
  qed
  show ?thesis unfolding p_struct_def
    by (rule fine_chain, rule fine_next_ends [OF assms]) (use body in auto)
qed

lemma fine_import_path:
  "left S \<le> n \<Longrightarrow> tok S \<noteq> eKw_EOF \<Longrightarrow> fine (import_path n path S) (read_text S path)"
proof (induction n arbitrary: path S)
  case 0
  then show ?case using left_pos [of S] by simp
next
  case (Suc n)
  have again: "fine (import_path n path' S') (read_text S path)"
    if "advance S S'" "tok S' \<noteq> eKw_EOF" "plain_text (name_of S') \<Longrightarrow> text_ok path \<Longrightarrow> text_ok path'" for path' S'
  proof -
    have "left S' \<le> n" using advanceD(1) [OF that(1)] Suc.prems(1) by simp
    then show ?thesis
      by (rule fine_mono [OF Suc.IH [OF _ that(2)]])
        (rule read_text_later [OF that(1)], use that(3) advance_plain [OF that(1)] in simp_all)
  qed
  show ?case
    by (auto simp: signed_char_codes plain_text_ok intro!: fine_chain fine_next_adv [OF Suc.prems(2)] again read_textI)
qed

text \<open>The name of an imported file is taken from the path in the file that imports it.\<close>

lemma str_rfind_last:
  assumes "i < length s" "s ! i = c"
  shows "\<exists>r. str_rfind c s = Some r \<and> i \<le> r"
proof -
  let ?n = "length (takeWhile (\<lambda>x. x \<noteq> c) (rev s))"
  have "c \<in> set s" using assms by auto
  moreover have "?n \<le> length s - 1 - i"
  proof (rule ccontr)
    assume "\<not> ?n \<le> length s - 1 - i"
    then have "takeWhile (\<lambda>x. x \<noteq> c) (rev s) ! (length s - 1 - i) = c" "length s - 1 - i < ?n"
      using assms by (simp_all add: takeWhile_nth rev_nth)
    then show False by (metis (mono_tags, lifting) nth_mem set_takeWhileD)
  qed
  ultimately show ?thesis using assms(1) by (auto simp: str_rfind_def)
qed

lemma str_rfind_at: "str_rfind c s = Some r \<Longrightarrow> r < length s \<and> s ! r = c"
proof -
  assume r: "str_rfind c s = Some r"
  let ?n = "length (takeWhile (\<lambda>x. x \<noteq> c) (rev s))"
  have c: "c \<in> set s" "r = length s - 1 - ?n" using r by (auto simp: str_rfind_def split: if_splits)
  then have "?n \<noteq> length (rev s)"
    by (metis (mono_tags, lifting) length_rev set_rev takeWhile_eq_all_conv takeWhile_eq_take take_all_iff order_refl)
  then have "?n < length (rev s)" using length_takeWhile_le [of "\<lambda>x. x \<noteq> c" "rev s"] by linarith
  then have "rev s ! ?n = c" using nth_length_takeWhile [of "\<lambda>x. x \<noteq> c" "rev s"] by simp
  then show ?thesis using c(2) \<open>?n < length (rev s)\<close> by (simp add: rev_nth)
qed

lemma dir_before_name:
  "length (getFileDir f) \<le> (case last_separator (getFileDir f @ p) of None \<Rightarrow> 0 | Some i \<Rightarrow> i + 1)"
proof (cases "last_separator f")
  case None
  then show ?thesis by (simp add: getFileDir_def)
next
  case (Some i)
  then obtain c where c: "str_rfind c f = Some i" "c = CHR 0x5C \<or> c = CHR ''/'' \<and> CHR 0x5C \<notin> set f"
    by (auto simp: last_separator_def str_rfind_def split: option.splits if_splits)
  have i: "i < length f" "f ! i = c" using str_rfind_at [OF c(1)] by simp_all
  have dir: "getFileDir f = take (i + 1) f" using Some by (simp add: getFileDir_def)
  have at: "i < length (getFileDir f @ p)" "(getFileDir f @ p) ! i = c" using i dir by (simp_all add: nth_append)
  obtain r where r: "str_rfind c (getFileDir f @ p) = Some r" "i \<le> r" using str_rfind_last [OF at] by blast
  have "\<exists>k \<ge> i. last_separator (getFileDir f @ p) = Some k"
  proof (cases "str_rfind CHR 0x5C (getFileDir f @ p)")
    case None
    then have "c = CHR ''/''" using r c(2) by auto
    then show ?thesis using None r by (auto simp: last_separator_def)
  next
    case (Some k)
    have k: "k < length (getFileDir f @ p)" "(getFileDir f @ p) ! k = CHR 0x5C" using str_rfind_at [OF Some] by simp_all
    have "i \<le> k"
    proof (cases "c = CHR 0x5C")
      case False
      then have "CHR 0x5C \<notin> set (getFileDir f)" using c(2) dir by (auto dest: in_set_takeD)
      then have "k < length (getFileDir f) \<Longrightarrow> False" using k(2) nth_mem [of k "getFileDir f"] by (simp add: nth_append)
      then have "\<not> k < Suc i" using dir i(1) by auto
      then show ?thesis by simp
    qed (use r Some in simp)
    then show ?thesis using Some by (auto simp: last_separator_def)
  qed
  then show ?thesis using dir i(1) by auto
qed

lemma import_name_ok: "text_ok p \<Longrightarrow> text_ok (getFileNameByFilePath (getFileDir f @ p))"
proof -
  let ?s = "case last_separator (getFileDir f @ p) of None \<Rightarrow> 0 | Some i \<Rightarrow> i + 1"
  have "set (drop ?s (getFileDir f @ p)) \<subseteq> set p" using dir_before_name [of f p] by (auto dest: in_set_dropD)
  then have "set (getFileNameByFilePath (getFileDir f @ p)) \<subseteq> set p"
    by (auto simp: getFileNameByFilePath_def Let_def dest!: in_set_takeD split: option.splits if_splits)
  then show "text_ok p \<Longrightarrow> ?thesis" by (auto simp: text_ok_def)
qed

lemma fine_import:
  assumes "\<And>I. pr_inv [] I \<Longrightarrow> fine (run I) (pr_inv [])" "pr_inv [] S" "tok S \<noteq> eKw_EOF"
  shows "fine (p_import run files S) (ends [] S)"
proof -
  have load: "fine (case fb_load files f of None \<Rightarrow> Inl (Load_error f)
         | Some F \<Rightarrow> chain (run (S1\<lparr>pr_tok := tk_new F [] 0 [] 0, pr_sink := False, pr_lua := False\<rparr>)) (\<lambda>I.
               Inr (emit_ev (OnImport g) (S1\<lparr>typedefs := typedefs I, structs := structs I, gvars := gvars I\<rparr>)))) (ends [] S)"
    if "advance S S1" "text_ok g" for S1 f g
  proof (cases "fb_load files f")
    case None
    then show ?thesis by (simp add: fine_def)
  next
    case (Some F)
    let ?I = "S1\<lparr>pr_tok := tk_new F [] 0 [] 0, pr_sink := False, pr_lua := False\<rparr>"
    have s: "ends [] S S1" by (rule ends_advance [OF assms(2) that(1)])
    then have "pr_inv [] ?I" by (auto simp: ends_def pr_inv_def tk_new_def plain_text_def)
    then have "fine (run ?I) (\<lambda>I. ends [] S (emit_ev (OnImport g)
        (S1\<lparr>typedefs := typedefs I, structs := structs I, gvars := gvars I\<rparr>)))"
    proof (rule fine_mono [OF assms(1)])
      fix I
      assume "pr_inv [] I"
      then have "ends [] S (S1\<lparr>typedefs := typedefs I, structs := structs I, gvars := gvars I\<rparr>)"
        using s by (auto simp: ends_def pr_inv_def same_file_def left_def tok_def)
      then show "ends [] S (emit_ev (OnImport g)
          (S1\<lparr>typedefs := typedefs I, structs := structs I, gvars := gvars I\<rparr>))"
        by (rule ends_emit) (simp_all add: that(2))
    qed
    then show ?thesis using Some by (auto intro!: fine_chain)
  qed
  show ?thesis unfolding p_import_def Let_def
    by (rule fine_chain, rule fine_mono [OF fine_import_path [OF _ assms(3)]])
      (use load assms(2) in \<open>auto simp: fuel_def read_text_def pr_inv_name import_name_ok\<close>)
qed

lemma fine_start_loop:
  assumes "\<And>S. pr_inv [] S \<Longrightarrow> tok S \<noteq> eKw_EOF \<Longrightarrow> fine (imp S) (ends [] S)"
  shows "left S < n \<Longrightarrow> pr_inv [] S \<Longrightarrow> fine (start_loop imp n S) (\<lambda>S'. pr_inv [] S' \<and> same_file S S')"
proof (induction n arbitrary: S)
  case (Suc n)
  have again: "fine (start_loop imp n S') (\<lambda>S'. pr_inv [] S' \<and> same_file S S')" if "ends [] S S'" for S'
  proof -
    have "left S' < n" using ends_left [OF that] Suc.prems(1) by simp
    then show ?thesis
      by (rule fine_mono [OF Suc.IH [OF _ ends_inv [OF that]]])
        (use that in \<open>auto simp: ends_def intro: same_file_trans\<close>)
  qed
  show ?case
    using Suc.prems(2) fine_typedef [OF Suc.prems(2)] fine_struct [OF Suc.prems(2)] assms [OF Suc.prems(2)]
    by (auto simp: signed_char_codes intro!: fine_chain fine_next_ends [OF Suc.prems(2)]
      elim!: fine_mono intro: again)
qed simp

lemma fine_next_any:
  assumes "\<And>T. fb_filename (tk_buf T) = fb_filename (tk_buf (pr_tok S)) \<Longrightarrow>
      (plain_text (name_of S) \<Longrightarrow> plain_text (tk_name T)) \<Longrightarrow> P (S\<lparr>pr_tok := T\<rparr>)"
  shows "fine (next_tok S) P"
proof (cases "nextToken (pr_tok S)")
  case (Inl e)
  then show ?thesis using nextToken_error [OF Inl] by (auto simp: next_tok_def fine_def)
next
  case (Inr T)
  then show ?thesis
    using assms nextToken_name [OF Inr] symbol_moved [of "(pr_tok S)\<lparr>tk_buf := fb_updateLast (tk_buf (pr_tok S))\<rparr>"]
    by (fastforce simp: next_tok_def name_of_def nextToken_def moved_def fb_updateLast_def split: sum.splits)
qed

lemma fine_start: "pr_inv [] S \<Longrightarrow> fine (start d files S) (\<lambda>S'. pr_inv [] S' \<and> same_file S S')"
proof (induction d arbitrary: S)
  case 0
  then show ?case by (simp add: fine_def)
next
  case (Suc d)
  have run: "fine (start d files I) (pr_inv [])" if "pr_inv [] I" for I
    by (rule fine_mono [OF Suc.IH [OF that]]) simp
  have "fine (start_loop (p_import (start d files) files) (fuel (S\<lparr>pr_tok := T\<rparr>)) (S\<lparr>pr_tok := T\<rparr>))
      (\<lambda>S'. pr_inv [] S' \<and> same_file S S')"
    if "fb_filename (tk_buf T) = fb_filename (tk_buf (pr_tok S))"
      "plain_text (name_of S) \<Longrightarrow> plain_text (tk_name T)" for T
    by (rule fine_mono [OF fine_start_loop [OF fine_import [OF run]]])
      (use Suc.prems same_file_tok [OF that(1)] that(2) in
        \<open>auto simp: fuel_def pr_inv_name intro: same_file_trans pr_inv_tok\<close>)
  then show ?case by (auto intro!: fine_chain fine_next_any)
qed

lemma fine_compile:
  "fine (compile_events d lua files path) (\<lambda>es. ev_run es [] = Some [] \<and> (\<forall>e \<in> set es. ev_ok e))"
proof (cases "fb_load files path")
  case None
  then show ?thesis by (simp add: compile_events_def fine_def)
next
  case (Some F)
  have "pr_inv [] (parser_new lua F)"
    by (simp add: pr_inv_def parser_new_def ev_run_def name_of_def tk_new_def plain_text_def)
  from fine_start [OF this, of d files] show ?thesis
    using Some by (auto simp: compile_events_def pr_inv_def same_file_def parser_new_def
      intro!: fine_chain elim!: fine_mono)
qed

lemma compiled_events:
  "compile_events d lua files path = Inr es \<Longrightarrow> ev_run es [] = Some [] \<and> (\<forall>e \<in> set es. ev_ok e)"
  using fine_compile by (rule fineD)

section \<open>The two languages\<close>

text \<open>What an event says apart from the text of an expression.\<close>

fun skeleton :: "event \<Rightarrow> event" where
  "skeleton (OnVariable ti name e) = OnVariable ti name []"
| "skeleton (OnValue name e) = OnValue name []"
| "skeleton (OnIfCond e) = OnIfCond []"
| "skeleton ev = ev"

definition alike :: "idl \<Rightarrow> idl \<Rightarrow> bool" where
  "alike S S' \<longleftrightarrow> pr_tok S' = pr_tok S \<and> pr_sink S' = pr_sink S \<and> typedefs S' = typedefs S \<and>
    structs S' = structs S \<and> gvars S' = gvars S \<and>
    map skeleton (pr_events S') = map skeleton (pr_events S)"

definition alike2 :: "'a \<times> idl \<Rightarrow> 'a \<times> idl \<Rightarrow> bool" where
  "alike2 p q \<longleftrightarrow> fst p = fst q \<and> alike (snd p) (snd q)"

text \<open>Expressions have texts of their own.\<close>

definition alike_text :: "string \<times> idl \<Rightarrow> string \<times> idl \<Rightarrow> bool" where
  "alike_text p q \<longleftrightarrow> alike (snd p) (snd q)"

lemma rel_chain:
  "rel_sum (=) R m m' \<Longrightarrow> (\<And>x y. R x y \<Longrightarrow> rel_sum (=) Q (f x) (g y)) \<Longrightarrow>
    rel_sum (=) Q (chain m f) (chain m' g)"
  by (cases m; cases m') auto

lemma rel_sum_wider: "rel_sum (=) R m m' \<Longrightarrow> (\<And>x y. R x y \<Longrightarrow> Q x y) \<Longrightarrow> rel_sum (=) Q m m'"
  by (cases m; cases m') auto

lemma alikeD:
  assumes "alike S S'"
  shows "tok S' = tok S" "name_of S' = name_of S" "gvars S' = gvars S" "typedefs S' = typedefs S"
    "structs S' = structs S" "fuel S' = fuel S" "pr_tok S' = pr_tok S" "pr_sink S' = pr_sink S"
  using assms by (simp_all add: alike_def tok_def name_of_def fuel_def left_def)

lemma alike_refl: "alike S S"
  by (simp add: alike_def)

lemma alike_emit: "alike S S' \<Longrightarrow> skeleton e' = skeleton e \<Longrightarrow> alike (emit_ev e S) (emit_ev e' S')"
  by (simp add: alike_def emit_ev_def)

lemma rel_next: "alike S S' \<Longrightarrow> rel_sum (=) alike (next_tok S) (next_tok S')"
  by (cases "nextToken (pr_tok S)") (simp_all add: next_tok_def alike_def)

lemma rel_error: "alike S S' \<Longrightarrow> rel_sum (=) R (token_error S) (token_error S')"
  by (simp add: token_error_def alike_def Let_def)

lemma rel_matching: "alike S S' \<Longrightarrow> rel_sum (=) alike (matching t S) (matching t S')"
  by (simp add: matching_def alikeD rel_next rel_error)

lemma rel_expre_loop:
  "alike S S' \<Longrightarrow> rel_sum (=) alike_text (expre_loop n str S) (expre_loop n str' S')"
proof (induction n arbitrary: str str' S S')
  case (Suc n)
  then show ?case
    by (auto simp: alikeD Let_def rel_error alike_text_def intro!: rel_chain [OF rel_next])
qed simp

lemma rel_expre: "alike S S' \<Longrightarrow> rel_sum (=) alike_text (expre S) (expre S')"
proof -
  assume a: "alike S S'"
  then have "rel_sum (=) alike2 (testToken (signed_char CHR ''-'') S) (testToken (signed_char CHR ''-'') S')"
    by (auto simp: testToken_def alikeD alike2_def intro!: rel_chain [OF rel_next])
  then show ?thesis unfolding expre_def
    by (rule rel_chain) (auto simp: alike2_def alikeD intro!: rel_expre_loop)
qed

lemma rel_baseType: "alike S S' \<Longrightarrow> rel_sum (=) (=) (baseType S ti) (baseType S' ti)"
  by (auto simp: baseType_def alikeD isStruct_def Let_def rel_error split: option.splits)

lemma rel_dataType: "alike S S' \<Longrightarrow> rel_sum (=) alike2 (dataType S ti) (dataType S' ti)"
  by (auto simp: dataType_def alikeD alike2_def rel_error
    intro!: rel_chain [OF rel_next] rel_chain [OF rel_matching] rel_chain [OF rel_baseType])

lemma rel_typedef: "alike S S' \<Longrightarrow> rel_sum (=) alike (p_typedef S) (p_typedef S')"
proof -
  have add: "alike T T' \<Longrightarrow> alike (addTypeInfo name ti T) (addTypeInfo name ti T')" for T T' name ti
    by (simp add: alike_def addTypeInfo_def)
  show "alike S S' \<Longrightarrow> ?thesis"
    by (auto simp: p_typedef_def alike2_def alikeD rel_error
      intro!: rel_chain [OF rel_next] rel_chain [OF rel_dataType] rel_next alike_emit add)
qed

lemma rel_rw_list: "alike S S' \<Longrightarrow> rel_sum (=) alike (rw_list n S) (rw_list n S')"
proof (induction n arbitrary: S S')
  case (Suc n)
  then show ?case
    by (auto simp: alikeD rel_error Let_def alike_emit split: option.splits
      intro!: rel_chain [OF rel_next] rel_chain [OF rel_matching])
qed simp

lemma rel_code:
  "(\<forall>S S'. alike S S' \<longrightarrow> rel_sum (=) alike (p_function n S) (p_function n S')) \<and>
   (\<forall>S S'. alike S S' \<longrightarrow> rel_sum (=) alike (if_cond n S) (if_cond n S')) \<and>
   (\<forall>S S'. alike S S' \<longrightarrow> rel_sum (=) alike (if_area n S) (if_area n S'))"
proof (induction n)
  case (Suc n)
  then have IH: "alike S S' \<Longrightarrow> rel_sum (=) alike (p_function n S) (p_function n S')"
    "alike S S' \<Longrightarrow> rel_sum (=) alike (if_cond n S) (if_cond n S')"
    "alike S S' \<Longrightarrow> rel_sum (=) alike (if_area n S) (if_area n S')" for S S' by auto
  have 1: "rel_sum (=) alike (p_function (Suc n) S) (p_function (Suc n) S')" if "alike S S'" for S S'
    using that
    by (auto simp: alikeD rel_error Let_def alike_text_def intro!: rel_chain [OF rel_next]
      rel_chain [OF rel_matching] rel_chain [OF rel_expre] rel_chain [OF rel_rw_list] rel_chain [OF IH(2)] IH alike_emit)
  have 2: "rel_sum (=) alike (if_cond (Suc n) S) (if_cond (Suc n) S')" if "alike S S'" for S S'
    using that
    by (auto simp: alike_text_def intro!: rel_chain [OF rel_next]
      rel_chain [OF rel_matching] rel_chain [OF rel_expre] IH alike_emit)
  have 3: "rel_sum (=) alike (if_area (Suc n) S) (if_area (Suc n) S')" if "alike S S'" for S S'
    using that
    by (auto simp: alikeD intro!: rel_chain [OF rel_next] rel_chain [OF rel_matching]
      rel_chain [OF IH(1)] IH alike_emit)
  show ?case using 1 2 3 by blast
qed simp

lemma rel_function: "alike S S' \<Longrightarrow> rel_sum (=) alike (p_function (fuel S) S) (p_function (fuel S') S')"
  using rel_code [of "fuel S"] by (simp add: alikeD(6))

lemma rel_rw_block: "alike S S' \<Longrightarrow> rel_sum (=) alike (rw_block enter leave S) (rw_block enter leave S')"
  unfolding rw_block_def Let_def
  by (intro rel_chain [OF rel_next] rel_chain [OF rel_matching] rel_chain [OF rel_function]
    rel_matching alike_emit) simp_all

lemma rel_field: "alike S S' \<Longrightarrow> rel_sum (=) alike (p_field S) (p_field S')"
proof -
  have add: "alike T T' \<Longrightarrow> alike (T\<lparr>gvars := g\<rparr>) (T'\<lparr>gvars := g\<rparr>)" for T T' g
    by (simp add: alike_def)
  have upd: "tok (T\<lparr>gvars := g\<rparr>) = tok T" for T g by (simp add: tok_def)
  show "alike S S' \<Longrightarrow> ?thesis"
    by (auto simp: p_field_def Let_def alike2_def alike_text_def alikeD upd rel_error
      intro!: rel_chain [OF rel_dataType] rel_chain [OF rel_next] rel_chain [OF rel_expre] add alike_emit)
qed

lemma rel_struct_loop: "alike S S' \<Longrightarrow> rel_sum (=) alike (struct_loop n S) (struct_loop n S')"
proof (induction n arbitrary: S S')
  case (Suc n)
  then show ?case
    by (auto simp: alikeD intro!: rel_chain [OF rel_next] rel_chain [OF rel_rw_block] rel_chain [OF rel_field])
qed simp

lemma rel_struct: "alike S S' \<Longrightarrow> rel_sum (=) alike (p_struct S) (p_struct S')"
proof -
  have add: "alike T T' \<Longrightarrow> alike (addStruct name T) (addStruct name T')"
    "alike T T' \<Longrightarrow> alike (T\<lparr>gvars := g\<rparr>) (T'\<lparr>gvars := g\<rparr>)" for T T' name g
    by (simp_all add: alike_def addStruct_def)
  have loop: "rel_sum (=) alike (struct_loop (fuel T) T) (struct_loop (fuel T') T')" if "alike T T'" for T T'
    using rel_struct_loop [OF that] by (simp add: alikeD [OF that])
  show "alike S S' \<Longrightarrow> ?thesis"
    by (auto simp: p_struct_def Let_def alikeD rel_error
      intro!: rel_chain [OF rel_next] rel_chain [OF rel_matching] rel_chain [OF loop] rel_next alike_emit add)
qed

lemma rel_import_path: "alike S S' \<Longrightarrow> rel_sum (=) alike2 (import_path n path S) (import_path n path S')"
proof (induction n arbitrary: path S S')
  case (Suc n)
  then show ?case by (auto simp: alikeD alike2_def intro!: rel_chain [OF rel_next])
qed simp

lemma rel_import:
  assumes "\<And>I I'. alike I I' \<Longrightarrow> rel_sum (=) alike (run I) (run I')" "alike S S'"
  shows "rel_sum (=) alike (p_import run files S) (p_import run files S')"
proof -
  have inner: "alike (T\<lparr>pr_tok := t, pr_sink := False, pr_lua := False\<rparr>) (T'\<lparr>pr_tok := t, pr_sink := False, pr_lua := False\<rparr>)"
    if "alike T T'" for T T' t using that by (simp add: alike_def)
  have outer: "alike (T\<lparr>typedefs := typedefs I, structs := structs I, gvars := gvars I\<rparr>)
      (T'\<lparr>typedefs := typedefs I', structs := structs I', gvars := gvars I'\<rparr>)"
    if "alike T T'" "alike I I'" for T T' I I' using that by (simp add: alike_def)
  have path: "rel_sum (=) alike2 (import_path (fuel S) [] S) (import_path (fuel S') [] S')"
    using rel_import_path [OF assms(2)] by (simp add: alikeD [OF assms(2)])
  show ?thesis unfolding p_import_def Let_def
    by (rule rel_chain [OF path])
      (auto simp: alike2_def alikeD split: option.splits intro!: rel_chain [OF assms(1)] inner outer alike_emit alike_refl)
qed

lemma rel_start_loop:
  assumes "\<And>S S'. alike S S' \<Longrightarrow> rel_sum (=) alike (imp S) (imp S')"
  shows "alike S S' \<Longrightarrow> rel_sum (=) alike (start_loop imp n S) (start_loop imp n S')"
proof (induction n arbitrary: S S')
  case (Suc n)
  then show ?case
    by (auto simp: alikeD rel_error
      intro!: rel_chain [OF rel_next] rel_chain [OF rel_typedef] rel_chain [OF rel_struct] rel_chain [OF assms])
qed simp

lemma rel_start: "alike S S' \<Longrightarrow> rel_sum (=) alike (start d files S) (start d files S')"
proof (induction d arbitrary: S S')
  case (Suc d)
  have loop: "rel_sum (=) alike (start_loop (p_import (start d files) files) (fuel T) T)
      (start_loop (p_import (start d files) files) (fuel T') T')" if "alike T T'" for T T'
    using rel_start_loop [OF rel_import [OF Suc.IH] that] by (simp add: alikeD [OF that])
  show ?case using Suc.prems by (auto intro!: rel_chain [OF rel_next] loop)
qed simp

section \<open>The depth of imports\<close>

text \<open>Once the depth suffices, a greater one changes nothing.\<close>

lemma chain_depth:
  "(\<And>x. m = Inr x \<Longrightarrow> f x \<noteq> Inl Depth_exceeded \<Longrightarrow> g x = f x) \<Longrightarrow>
    chain m f \<noteq> Inl Depth_exceeded \<Longrightarrow> chain m g = chain m f"
  by (cases m) simp_all

lemma import_deeper:
  assumes "\<And>I. run I \<noteq> Inl Depth_exceeded \<Longrightarrow> run' I = run I" "p_import run files S \<noteq> Inl Depth_exceeded"
  shows "p_import run' files S = p_import run files S"
  using assms(2) unfolding p_import_def
proof (rule chain_depth [rotated])
  fix x
  assume "(case x of (path, S) \<Rightarrow> let filename = getFileDir (fb_filename (tk_buf (pr_tok S))) @ path
      in case fb_load files filename of None \<Rightarrow> Inl (Load_error filename)
         | Some F \<Rightarrow> chain (run (S\<lparr>pr_tok := tk_new F [] 0 [] 0, pr_sink := False, pr_lua := False\<rparr>))
             (\<lambda>I. Inr (emit_ev (OnImport (getFileNameByFilePath filename))
               (S\<lparr>typedefs := typedefs I, structs := structs I, gvars := gvars I\<rparr>)))) \<noteq> Inl Depth_exceeded"
  then show "(case x of (path, S) \<Rightarrow> let filename = getFileDir (fb_filename (tk_buf (pr_tok S))) @ path
      in case fb_load files filename of None \<Rightarrow> Inl (Load_error filename)
         | Some F \<Rightarrow> chain (run' (S\<lparr>pr_tok := tk_new F [] 0 [] 0, pr_sink := False, pr_lua := False\<rparr>))
             (\<lambda>I. Inr (emit_ev (OnImport (getFileNameByFilePath filename))
               (S\<lparr>typedefs := typedefs I, structs := structs I, gvars := gvars I\<rparr>)))) =
    (case x of (path, S) \<Rightarrow> let filename = getFileDir (fb_filename (tk_buf (pr_tok S))) @ path
      in case fb_load files filename of None \<Rightarrow> Inl (Load_error filename)
         | Some F \<Rightarrow> chain (run (S\<lparr>pr_tok := tk_new F [] 0 [] 0, pr_sink := False, pr_lua := False\<rparr>))
             (\<lambda>I. Inr (emit_ev (OnImport (getFileNameByFilePath filename))
               (S\<lparr>typedefs := typedefs I, structs := structs I, gvars := gvars I\<rparr>))))"
    using assms(1) by (auto simp: Let_def chain_Inl split: prod.splits option.splits)
qed

lemma start_loop_deeper:
  assumes "\<And>S. imp S \<noteq> Inl Depth_exceeded \<Longrightarrow> imp' S = imp S"
  shows "start_loop imp n S \<noteq> Inl Depth_exceeded \<Longrightarrow> start_loop imp' n S = start_loop imp n S"
proof (induction n arbitrary: S)
  case (Suc n)
  have c: "chain m (start_loop imp' n) = chain m (start_loop imp n)" if "chain m (start_loop imp n) \<noteq> Inl Depth_exceeded" for m
    by (rule chain_depth [OF Suc.IH that])
  have i: "chain (imp' S) (start_loop imp' n) = chain (imp S) (start_loop imp n)"
    if "chain (imp S) (start_loop imp n) \<noteq> Inl Depth_exceeded"
  proof -
    have "imp S \<noteq> Inl Depth_exceeded" using that by (auto simp: chain_Inl)
    then show ?thesis using assms c [OF that] by simp
  qed
  show ?case using Suc.prems c i by (auto split: if_splits)
qed simp

lemma start_deeper: "start d files S \<noteq> Inl Depth_exceeded \<Longrightarrow> start (d + k) files S = start d files S"
proof (induction d arbitrary: S)
  case (Suc d)
  have "start_loop (p_import (start (d + k) files) files) n T = start_loop (p_import (start d files) files) n T"
    if "start_loop (p_import (start d files) files) n T \<noteq> Inl Depth_exceeded" for n T
    by (rule start_loop_deeper [OF import_deeper [OF Suc.IH] that])
  then show ?case using Suc.prems by (auto intro!: chain_depth)
qed simp

text \<open>A file that begins by importing itself.\<close>

definition self_import :: "string \<Rightarrow> string \<Rightarrow> string" where
  "self_import w s = ''import '' @ w @ '' ;'' @ s"

lemma plain_name_dir:
  assumes "list_all isVarChar w"
  shows "getFileDir w = []"
proof -
  have "c \<notin> set w" if "\<not> isVarChar c" for c using assms that by (auto simp: list_all_iff)
  then have "CHR 0x5C \<notin> set w" "CHR ''/'' \<notin> set w"
    by (simp_all add: isVarChar_def between_def)
  then show ?thesis by (simp add: getFileDir_def last_separator_def str_rfind_def)
qed

lemma self_import_depth:
  assumes "lex_ok (L_name w)" "getKeyword w = 0" "ends_token s" "files w = Some (self_import w s)"
    and "fb_load files w = Some F"
  shows "pr_tok S = tk_new F [] 0 [] 0 \<Longrightarrow> start d files S = Inl Depth_exceeded"
proof (induction d arbitrary: S)
  case (Suc d)
  have F: "fb_rest F = self_import w s" "fb_filename F = w"
    using assms(4,5) by (auto simp: fb_load_def fb_rest_def)
  have gap: "fb_rest (tk_buf (pr_tok S)) = gaps_text [] @ lex_text (L_name ''import'') @ CHR '' '' # w @ '' ;'' @ s"
    using Suc.prems F(1) by (simp add: tk_new_def self_import_def)
  obtain T1 where T1: "nextToken (pr_tok S) = Inr T1" "fb_rest (tk_buf T1) = CHR '' '' # w @ '' ;'' @ s"
      "tk_token T1 = eKw_IMPORT" "fb_filename (tk_buf T1) = w"
    using nextToken_lexeme [OF gap] Suc.prems F(2)
    by (auto simp: isLetter_def isVarChar_def between_def ends_token_def is_blank_def getKeyword_def kw_table_def
      tk_new_def)
  have "fb_rest (tk_buf T1) = gaps_text [Blank CHR '' ''] @ lex_text (L_name w) @ '' ;'' @ s" using T1(2) by simp
  then obtain T2 where T2: "nextToken T1 = Inr T2" "fb_rest (tk_buf T2) = '' ;'' @ s" "tk_token T2 = eKw_VAR"
      "tk_name T2 = w" "fb_filename (tk_buf T2) = w"
    using nextToken_lexeme [OF _ _ assms(1), of T1 "[Blank CHR '' '']" "'' ;'' @ s"] T1(4) assms(2)
    by (auto simp: ends_token_def is_blank_def)
  have "fb_rest (tk_buf T2) = gaps_text [Blank CHR '' ''] @ lex_text (L_char CHR '';'') @ s" using T2(2) by simp
  then obtain T3 where T3: "nextToken T2 = Inr T3" "tk_token T3 = signed_char CHR '';''" "fb_filename (tk_buf T3) = w"
    using nextToken_lexeme [of T2 "[Blank CHR '' '']" "L_char CHR '';''" s] T2(5) assms(3)
    by (auto simp: is_blank_def is_newline_def isLetter_def isNum_def between_def)
  let ?S1 = "S\<lparr>pr_tok := T1\<rparr>" and ?S3 = "S\<lparr>pr_tok := T3\<rparr>"
  have n1: "next_tok S = Inr ?S1" "next_tok ?S1 = Inr (S\<lparr>pr_tok := T2\<rparr>)" "next_tok (S\<lparr>pr_tok := T2\<rparr>) = Inr ?S3"
    using T1(1) T2(1) T3(1) by (simp_all add: next_tok_def)
  have tk: "tok ?S1 = eKw_IMPORT" "tok (S\<lparr>pr_tok := T2\<rparr>) = eKw_VAR" "tok ?S3 = 59" "name_of (S\<lparr>pr_tok := T2\<rparr>) = w"
    using T1(3) T2(3,4) T3(2) by (simp_all add: tok_def name_of_def signed_char_codes)
  have "2 \<le> left ?S1" using T1(2) fb_rest_p [of "tk_buf T1"] tk(1)
    by (simp add: left_def)
  then obtain n where n: "fuel ?S1 = Suc (Suc n)" by (cases "fuel ?S1" rule: nat.exhaust; cases "fuel ?S1 - 1") (auto simp: fuel_def)
  have path: "import_path (fuel ?S1) [] ?S1 = Inr (w, ?S3)"
    unfolding n using n1(2,3) tk by (simp add: signed_char_codes)
  have dir: "getFileDir w = []" using assms(1) by (intro plain_name_dir) simp
  have "p_import (start d files) files ?S1 = Inl Depth_exceeded"
    using Suc.IH by (simp add: p_import_def path T3(3) dir assms(5))
  then have "start_loop (p_import (start d files) files) (fuel ?S1) ?S1 = Inl Depth_exceeded"
    unfolding n using tk(1) by (simp add: signed_char_codes)
  then show ?case using n1(1) by simp
qed simp

section \<open>Properties\<close>


definition sample_files :: "string \<Rightarrow> string option" where
  "sample_files = [''a.x'' \<mapsto> ''struct A{int32 a=1;read{[a];if(a==1){a=a+2}else{}}}'']"

definition sample_int :: typeinfo where
  "sample_int = \<lparr>ti_type = 0, ti_value = eKw_INT32, ti_name = ''int32'', ti_vec_name = []\<rparr>"

lemma sample_lua: "compile_events 1 True sample_files ''a.x'' =
  Inr [OnEnterStruct ''A'', OnVariable sample_int ''a'' ''1'', OnEnterRead, OnReadWriteVar sample_int ''a'',
    OnEnterIf, OnIfCond ''self.a==1'', OnValue ''a'' ''self.a+2'', OnElse, OnExitIf, OnExitRead, OnExitStruct]"
  by code_simp


text \<open>C35. The parsers for the two languages do the same: they fail alike, and report the same calls but for
  the texts of expressions.\<close>

theorem languages_agree:
  "rel_sum (=) (\<lambda>es es'. map skeleton es = map skeleton es')
    (compile_events d False files path) (compile_events d True files path)"
proof (cases "fb_load files path")
  case None
  then show ?thesis by (simp add: compile_events_def)
next
  case (Some F)
  have "alike (parser_new False F) (parser_new True F)" by (simp add: alike_def parser_new_def)
  from rel_start [OF this, of d files] show ?thesis using Some
    by (auto simp: compile_events_def alike_def intro!: rel_chain)
qed

text \<open>C36. A file that imports itself is read again and again: whatever depth of imports the machine
  allows, it is exceeded.\<close>

theorem self_import_never_ends:
  assumes "lex_ok (L_name w)" "getKeyword w = 0" "ends_token s" "files w = Some (self_import w s)"
  shows "compile_events d lua files w = Inl Depth_exceeded"
proof -
  obtain F where F: "fb_load files w = Some F" using assms(4) by (auto simp: fb_load_def)
  have "start d files (parser_new lua F) = Inl Depth_exceeded"
    by (rule self_import_depth [OF assms F]) (simp add: parser_new_def)
  then show ?thesis using F by (simp add: compile_events_def)
qed

theorem self_import_never_ends_witness:
  "compile_events 100 False [''common'' \<mapsto> ''import common ;''] ''common'' = Inl Depth_exceeded"
  using self_import_never_ends [of "''common''" "[]" "[''common'' \<mapsto> ''import common ;'']" 100 False]
  by (simp add: self_import_def ends_token_def getKeyword_def kw_table_def isLetter_def isVarChar_def between_def)

end
