(* ===== verification/Idl_Gen.thy ===== *)
theory Idl_Gen
  imports Idl_Parser Json
begin

text \<open>
  The back ends of the serialization compiler, src/core/serialization/Generate.cpp (C++) and
  GenerateLua.cpp, and its main program. A generator is the object behind the \<open>Event\<close> interface; the
  texts it has written so far are strings of its state. On an error the program ends before any file
  is written, so running the generator on the whole list of calls gives the files of the code.
\<close>

abbreviation NL :: string where "NL \<equiv> [CHR 0x0A]"
abbreviation DQ :: string where "DQ \<equiv> [CHR 0x22]"

section \<open>The C++ generator\<close>

record cpp_gen =
  cg_h :: string
  cg_cpp :: string
  cg_structName :: string
  cg_isRead :: bool
  cg_depth :: int

definition put_h :: "string \<Rightarrow> cpp_gen \<Rightarrow> cpp_gen" where
  "put_h s G = G\<lparr>cg_h := cg_h G @ s\<rparr>"

definition put_cpp :: "string \<Rightarrow> cpp_gen \<Rightarrow> cpp_gen" where
  "put_cpp s G = G\<lparr>cg_cpp := cg_cpp G @ s\<rparr>"

definition cpp_setDepth :: "int \<Rightarrow> cpp_gen \<Rightarrow> cpp_gen" where
  "cpp_setDepth dep G = put_cpp (replicate (nat (cg_depth G + dep)) CHR 0x09) G"

definition cpp_nest :: "int \<Rightarrow> cpp_gen \<Rightarrow> cpp_gen" where
  "cpp_nest k G = G\<lparr>cg_depth := cg_depth G + k\<rparr>"

definition getStdName :: "string \<Rightarrow> string" where
  "getStdName name = (if name = ''string'' then ''std::string'' else name)"

definition cpp_init :: "string \<Rightarrow> cpp_gen" where
  "cpp_init filename = \<lparr>
    cg_h = ''#pragma once '' @ NL @ NL @ ''#include '' @ DQ @ ''BaseType.h'' @ DQ @ '' '' @ NL @
      ''#include <vector> '' @ NL @ ''class ByteBuffer;'' @ NL @ NL,
    cg_cpp = ''#include '' @ DQ @ filename @ ''.h'' @ DQ @ '' '' @ NL @
      ''#include '' @ DQ @ ''ByteBuffer.h'' @ DQ @ '' '' @ NL,
    cg_structName = [], cg_isRead = False, cg_depth = 0\<rparr>"

definition cpp_onTypedef :: "typeinfo \<Rightarrow> string \<Rightarrow> cpp_gen \<Rightarrow> cpp_gen" where
  "cpp_onTypedef tinfo name G =
    (if ti_type tinfo \<noteq> 0 then
       if ti_vec_name tinfo \<noteq> [] then put_h (''typedef '' @ ti_vec_name tinfo @ '' '' @ name @ '';'' @ NL) G
       else put_h (''typedef std::vector<'' @ getStdName (ti_name tinfo) @ ''> '' @ name @ '';'' @ NL) G
     else put_h (''typedef '' @ getStdName (ti_name tinfo) @ '' '' @ name @ '';'' @ NL) G)"

definition cpp_onEnterStruct :: "string \<Rightarrow> cpp_gen \<Rightarrow> cpp_gen" where
  "cpp_onEnterStruct name G =
    put_h (''public:'' @ NL) (put_h (''struct '' @ name @ NL @ ''{'' @ NL) (G\<lparr>cg_structName := name\<rparr>))"

definition cpp_onExitStruct :: "cpp_gen \<Rightarrow> cpp_gen" where
  "cpp_onExitStruct G = put_h (''}; '' @ NL) G"

definition cpp_onVariable :: "typeinfo \<Rightarrow> string \<Rightarrow> string \<Rightarrow> cpp_gen \<Rightarrow> cpp_gen" where
  "cpp_onVariable tinfo varName e G =
    (let G = put_h [CHR 0x09] G;
         G = (if ti_type tinfo = 1 then
                if ti_vec_name tinfo \<noteq> [] then put_h (ti_vec_name tinfo @ '' '' @ varName) G
                else put_h (''std::vector<'' @ getStdName (ti_name tinfo) @ ''> '' @ varName) G
              else
                let G = put_h (getStdName (ti_name tinfo) @ '' '' @ varName) G
                in if e \<noteq> [] then put_h e (put_h '' = '' G) else G)
     in put_h (''; '' @ NL) G)"

definition cpp_onEnterRead :: "cpp_gen \<Rightarrow> cpp_gen" where
  "cpp_onEnterRead G =
    (let G = G\<lparr>cg_isRead := True\<rparr>;
         G = put_h [CHR 0x09] G;
         G = put_h (''bool read(ByteBuffer * buffer);'' @ NL) G;
         G = put_cpp (''bool '' @ cg_structName G @ ''::read(ByteBuffer * buffer)'' @ NL @ ''{'' @ NL) G
     in cpp_nest 1 G)"

definition cpp_onExitRead :: "cpp_gen \<Rightarrow> cpp_gen" where
  "cpp_onExitRead G =
    (let G = cpp_setDepth 0 G;
         G = put_cpp (''return true;'' @ NL) G;
         G = put_cpp (''}'' @ NL) G
     in cpp_nest (- 1) G)"

definition cpp_onEnterWrite :: "cpp_gen \<Rightarrow> cpp_gen" where
  "cpp_onEnterWrite G =
    (let G = G\<lparr>cg_isRead := False\<rparr>;
         G = put_h [CHR 0x09] G;
         G = put_h (''void write(ByteBuffer * buffer);'' @ NL) G;
         G = put_cpp (''void '' @ cg_structName G @ ''::write(ByteBuffer * buffer)'' @ NL @ ''{'' @ NL) G
     in cpp_nest 1 G)"

definition cpp_onExitWrite :: "cpp_gen \<Rightarrow> cpp_gen" where
  "cpp_onExitWrite G = cpp_nest (- 1) (put_cpp (''}'' @ NL) G)"

definition cpp_onValue :: "string \<Rightarrow> string \<Rightarrow> cpp_gen \<Rightarrow> cpp_gen" where
  "cpp_onValue varName e G =
    (let G = cpp_setDepth 0 G;
         G = put_cpp varName G;
         G = put_cpp '' = '' G;
         G = put_cpp e G
     in put_cpp (''; '' @ NL) G)"

definition cpp_genRead :: "int \<Rightarrow> string \<Rightarrow> int \<Rightarrow> cpp_gen \<Rightarrow> cpp_gen" where
  "cpp_genRead val varName depth G =
    (let G = (if isBaseType val then
                let G = put_cpp (''if(sizeof('' @ varName @ '') + buffer->rpos() > buffer->wpos()) return false;'' @ NL) G;
                    G = cpp_setDepth depth G
                in put_cpp (''*buffer >> '' @ varName) G
              else if isStrType val then put_cpp (''*buffer >> '' @ varName) G
              else put_cpp (''if('' @ varName @ ''.read(buffer) == false) return false'') G)
     in put_cpp ('';'' @ NL) G)"

definition cpp_genReadVar :: "typeinfo \<Rightarrow> string \<Rightarrow> cpp_gen \<Rightarrow> cpp_gen" where
  "cpp_genReadVar tinfo varName G =
    (if ti_type tinfo = 1 then
       let len_var = ''len_'' @ varName;
           r_var = ''temp_'' @ varName;
           G = cpp_setDepth 0 G;
           G = put_cpp (''int '' @ len_var @ '';'' @ NL) G;
           G = cpp_setDepth 0 G;
           G = cpp_genRead eKw_INT32 len_var 0 G;
           G = cpp_setDepth 0 G;
           G = put_cpp (''for( int i = 0; i< '' @ len_var @ ''; ++i) { '' @ NL) G;
           G = cpp_setDepth 1 G;
           G = put_cpp (getStdName (ti_name tinfo) @ '' '' @ r_var @ '';'' @ NL) G;
           G = cpp_setDepth 1 G;
           G = cpp_genRead (ti_value tinfo) r_var 1 G;
           G = cpp_setDepth 1 G;
           G = put_cpp (varName @ ''.push_back('' @ r_var @ '');'' @ NL) G;
           G = cpp_setDepth 0 G
       in put_cpp (''}'' @ NL) G
     else cpp_genRead (ti_value tinfo) varName 0 (cpp_setDepth 0 G))"

definition cpp_genWrite :: "int \<Rightarrow> string \<Rightarrow> cpp_gen \<Rightarrow> cpp_gen" where
  "cpp_genWrite val varName G =
    put_cpp ('';'' @ NL)
      (if isBaseType val \<or> isStrType val then put_cpp (''*buffer << '' @ varName) G
       else put_cpp (varName @ ''.write(buffer)'') G)"

definition cpp_genWriteVar :: "typeinfo \<Rightarrow> string \<Rightarrow> cpp_gen \<Rightarrow> cpp_gen" where
  "cpp_genWriteVar tinfo varName G =
    (if ti_type tinfo = 1 then
       let len_var = ''len_'' @ varName;
           G = cpp_setDepth 0 G;
           G = put_cpp (''int '' @ len_var @ '' = '' @ varName @ ''.size();'' @ NL) G;
           G = cpp_setDepth 0 G;
           G = cpp_genWrite eKw_INT32 len_var G;
           G = cpp_setDepth 0 G;
           G = put_cpp (''for( int i = 0; i< '' @ len_var @ ''; ++i) { '' @ NL) G;
           w_var = varName @ ''[i]'';
           G = cpp_setDepth 1 G;
           G = cpp_genWrite (ti_value tinfo) w_var G;
           G = cpp_setDepth 0 G
       in put_cpp (''}'' @ NL) G
     else cpp_genWrite (ti_value tinfo) varName (cpp_setDepth 0 G))"

definition cpp_onReadWriteVar :: "typeinfo \<Rightarrow> string \<Rightarrow> cpp_gen \<Rightarrow> cpp_gen" where
  "cpp_onReadWriteVar tinfo varName G =
    (if cg_isRead G then cpp_genReadVar tinfo varName G else cpp_genWriteVar tinfo varName G)"

definition cpp_onEnterIf :: "cpp_gen \<Rightarrow> cpp_gen" where
  "cpp_onEnterIf G = put_cpp ''if'' (cpp_setDepth 0 G)"

definition cpp_onElseIf :: "cpp_gen \<Rightarrow> cpp_gen" where
  "cpp_onElseIf G = put_cpp ''} else if'' (cpp_setDepth 0 (cpp_nest (- 1) G))"

definition cpp_onIfCond :: "string \<Rightarrow> cpp_gen \<Rightarrow> cpp_gen" where
  "cpp_onIfCond cond G =
    (let G = put_cpp ''('' G;
         G = put_cpp cond G;
         G = put_cpp ('')'' @ NL) G;
         G = cpp_setDepth 0 G;
         G = put_cpp (''{'' @ NL) G
     in cpp_nest 1 G)"

definition cpp_onElse :: "cpp_gen \<Rightarrow> cpp_gen" where
  "cpp_onElse G =
    (let G = cpp_nest (- 1) G;
         G = put_cpp NL G;
         G = cpp_setDepth 0 G;
         G = put_cpp (''}else{'' @ NL) G
     in cpp_nest 1 G)"

definition cpp_onExitIf :: "cpp_gen \<Rightarrow> cpp_gen" where
  "cpp_onExitIf G = put_cpp (''}'' @ NL) (cpp_setDepth 0 (put_cpp NL (cpp_nest (- 1) G)))"

definition cpp_onImport :: "string \<Rightarrow> cpp_gen \<Rightarrow> cpp_gen" where
  "cpp_onImport filename G = put_h (''.h'' @ DQ @ NL) (put_h filename (put_h (''#include '' @ DQ) G))"

fun cpp_event :: "event \<Rightarrow> cpp_gen \<Rightarrow> cpp_gen" where
  "cpp_event (OnTypedef ti name) = cpp_onTypedef ti name"
| "cpp_event (OnEnterStruct name) = cpp_onEnterStruct name"
| "cpp_event OnExitStruct = cpp_onExitStruct"
| "cpp_event (OnVariable ti name e) = cpp_onVariable ti name e"
| "cpp_event OnEnterRead = cpp_onEnterRead"
| "cpp_event OnExitRead = cpp_onExitRead"
| "cpp_event OnEnterWrite = cpp_onEnterWrite"
| "cpp_event OnExitWrite = cpp_onExitWrite"
| "cpp_event (OnValue name e) = cpp_onValue name e"
| "cpp_event (OnReadWriteVar ti name) = cpp_onReadWriteVar ti name"
| "cpp_event OnEnterIf = cpp_onEnterIf"
| "cpp_event OnElseIf = cpp_onElseIf"
| "cpp_event (OnIfCond e) = cpp_onIfCond e"
| "cpp_event OnElse = cpp_onElse"
| "cpp_event OnExitIf = cpp_onExitIf"
| "cpp_event (OnImport name) = cpp_onImport name"

text \<open>\<open>main\<close> and \<open>start\<close>: the names and the contents of the files written; \<open>endl\<close> ends each.\<close>

definition compile_cpp :: "nat \<Rightarrow> (string \<Rightarrow> string option) \<Rightarrow> string \<Rightarrow> idl_error + (string \<times> string) list" where
  "compile_cpp d files filename =
    (let dir = getFileDir filename; name = getFileNameByFilePath filename
     in chain (compile_events d False files filename) (\<lambda>es.
          let G = fold cpp_event es (cpp_init name)
          in Inr [(dir @ name @ ''.h'', cg_h G @ NL), (dir @ name @ ''.cpp'', cg_cpp G @ NL)]))"

section \<open>The Lua generator\<close>

record lua_gen =
  lg_file :: string
  lg_vecVar :: "string list"
  lg_structName :: string
  lg_isRead :: bool
  lg_depth :: int

definition put_lua :: "string \<Rightarrow> lua_gen \<Rightarrow> lua_gen" where
  "put_lua s G = G\<lparr>lg_file := lg_file G @ s\<rparr>"

definition lua_setDepth :: "int \<Rightarrow> lua_gen \<Rightarrow> lua_gen" where
  "lua_setDepth dep G = put_lua (replicate (nat (lg_depth G + dep)) CHR 0x09) G"

definition lua_nest :: "int \<Rightarrow> lua_gen \<Rightarrow> lua_gen" where
  "lua_nest k G = G\<lparr>lg_depth := lg_depth G + k\<rparr>"

definition lua_new :: lua_gen where
  "lua_new = \<lparr>lg_file = [], lg_vecVar = [], lg_structName = [], lg_isRead = False, lg_depth = 0\<rparr>"

definition readFuncName :: "int \<Rightarrow> string" where
  "readFuncName val =
    (if val = eKw_INT8 then ''getInt8''
     else if val = eKw_UINT8 then ''getUint8''
     else if val = eKw_INT16 then ''getInt16''
     else if val = eKw_UINT16 then ''getUint16''
     else if val = eKw_INT32 then ''getInt32''
     else if val = eKw_UINT32 then ''getUint32''
     else if val = eKw_INT64 then ''getInt64''
     else if val = eKw_UINT64 then ''getUint64''
     else if val = eKw_FLOAT then ''getFloat''
     else if val = eKw_DOUBLE then ''getDouble''
     else if val = eKw_STRING then ''getString''
     else [])"

definition writeFuncName :: "int \<Rightarrow> string" where
  "writeFuncName val =
    (if val = eKw_INT8 then ''pushInt8''
     else if val = eKw_UINT8 then ''pushUint8''
     else if val = eKw_INT16 then ''pushInt16''
     else if val = eKw_UINT16 then ''pushUint16''
     else if val = eKw_INT32 then ''pushInt32''
     else if val = eKw_UINT32 then ''pushUint32''
     else if val = eKw_INT64 then ''pushInt64''
     else if val = eKw_UINT64 then ''pushUint64''
     else if val = eKw_FLOAT then ''pushFloat''
     else if val = eKw_DOUBLE then ''pushDouble''
     else if val = eKw_STRING then ''pushString''
     else [])"

text \<open>\<open>float\<close> has four bytes and \<open>double\<close> eight.\<close>

definition typeSizeof :: "int \<Rightarrow> int" where
  "typeSizeof val =
    (if val = eKw_INT8 \<or> val = eKw_UINT8 then 1
     else if val = eKw_INT16 \<or> val = eKw_UINT16 then 2
     else if val = eKw_INT32 \<or> val = eKw_UINT32 then 4
     else if val = eKw_INT64 \<or> val = eKw_UINT64 then 8
     else if val = eKw_FLOAT then 4
     else if val = eKw_DOUBLE then 8
     else 0)"

definition getInitStr :: "typeinfo \<Rightarrow> string" where
  "getInitStr tinfo =
    (if isBaseType (ti_value tinfo) then ''0''
     else if ti_value tinfo = eKw_STRING then DQ @ DQ
     else ''{}'')"

definition lua_onTypedef :: "typeinfo \<Rightarrow> string \<Rightarrow> lua_gen \<Rightarrow> lua_gen" where
  "lua_onTypedef tinfo name G =
    (if ti_value tinfo = eKw_STRUCT then
       let G = put_lua name G;
           G = put_lua '' = '' G;
           G = put_lua (ti_name tinfo) G
       in put_lua NL G
     else G)"

definition lua_onEnterStruct :: "string \<Rightarrow> lua_gen \<Rightarrow> lua_gen" where
  "lua_onEnterStruct name G =
    (let G = G\<lparr>lg_structName := name, lg_depth := 0\<rparr>;
         G = put_lua name G;
         G = put_lua ('' = {}'' @ NL) G
     in put_lua (lg_structName G @ ''.__index = '' @ lg_structName G @ NL) G)"

definition lua_onExitStruct :: "lua_gen \<Rightarrow> lua_gen" where
  "lua_onExitStruct G =
    (let G = put_lua (''function '' @ lg_structName G @ '':new()'' @ NL) G;
         G = lua_setDepth 1 G;
         G = put_lua (''local o = {}'' @ NL) G;
         G = lua_setDepth 1 G;
         G = put_lua (''setmetatable(o, '' @ lg_structName G @ '')'' @ NL) G;
         G = fold (\<lambda>v G. put_lua (''o.'' @ v @ NL) (lua_setDepth 1 G)) (lg_vecVar G) G;
         G = G\<lparr>lg_vecVar := []\<rparr>;
         G = lua_setDepth 1 G;
         G = put_lua (''return o'' @ NL) G;
         G = put_lua ''end'' G
     in put_lua (NL @ NL) G)"

definition lua_onVariable :: "typeinfo \<Rightarrow> string \<Rightarrow> string \<Rightarrow> lua_gen \<Rightarrow> lua_gen" where
  "lua_onVariable tinfo varName e G =
    (let tempstr =
           (if ti_type tinfo = 1 then varName @ '' = {}''
            else if e \<noteq> [] then varName @ '' = '' @ e
            else varName @ '' = '' @ getInitStr tinfo)
     in G\<lparr>lg_vecVar := lg_vecVar G @ [tempstr]\<rparr>)"

definition lua_onEnterRead :: "lua_gen \<Rightarrow> lua_gen" where
  "lua_onEnterRead G =
    (let G = lua_setDepth 0 G;
         G = G\<lparr>lg_isRead := True\<rparr>;
         G = put_lua (''function '' @ lg_structName G @ '':read(buffer)'' @ NL) G
     in lua_nest 1 G)"

definition lua_onExitRead :: "lua_gen \<Rightarrow> lua_gen" where
  "lua_onExitRead G =
    (let G = lua_setDepth 0 G;
         G = put_lua (''return true;'' @ NL) G;
         G = put_lua (''end'' @ NL) G
     in lua_nest (- 1) G)"

definition lua_onEnterWrite :: "lua_gen \<Rightarrow> lua_gen" where
  "lua_onEnterWrite G =
    (let G = lua_setDepth 0 G;
         G = G\<lparr>lg_isRead := False\<rparr>;
         G = put_lua (''function '' @ lg_structName G @ '':write(buffer)'' @ NL) G
     in lua_nest 1 G)"

definition lua_onExitWrite :: "lua_gen \<Rightarrow> lua_gen" where
  "lua_onExitWrite G = lua_nest (- 1) (put_lua (''end'' @ NL) G)"

definition lua_onValue :: "string \<Rightarrow> string \<Rightarrow> lua_gen \<Rightarrow> lua_gen" where
  "lua_onValue varName e G =
    (let G = lua_setDepth 0 G;
         G = put_lua varName G;
         G = put_lua '' = '' G;
         G = put_lua e G
     in put_lua NL G)"

definition lua_genRead :: "int \<Rightarrow> string \<Rightarrow> int \<Rightarrow> lua_gen \<Rightarrow> lua_gen" where
  "lua_genRead val varName depth G =
    (let G = (if isBaseType val then
                let G = put_lua (''if '' @ int_to_string (typeSizeof val) @
                      '' + buffer:rpos() > buffer:wpos() then return false end'' @ NL) G;
                    G = lua_setDepth depth G
                in put_lua (varName @ '' = buffer:'' @ readFuncName val @ ''()'') G
              else if isStrType val then put_lua (varName @ '' = buffer:'' @ readFuncName val @ ''()'') G
              else put_lua (''if '' @ varName @ '':read(buffer) == false then return false end'') G)
     in put_lua ('';'' @ NL) G)"

definition lua_genWrite :: "int \<Rightarrow> string \<Rightarrow> lua_gen \<Rightarrow> lua_gen" where
  "lua_genWrite val varName G =
    put_lua ('';'' @ NL)
      (if isBaseType val \<or> isStrType val then put_lua (''buffer:'' @ writeFuncName val @ ''('' @ varName @ '')'') G
       else put_lua (varName @ '':write(buffer)'') G)"

definition lua_genReadVar :: "typeinfo \<Rightarrow> string \<Rightarrow> lua_gen \<Rightarrow> lua_gen" where
  "lua_genReadVar tinfo varName G =
    (let self_var = ''self.'' @ varName in
     if ti_type tinfo = 1 then
       let len_var = ''len_'' @ varName;
           r_var = ''temp_'' @ varName;
           G = lua_setDepth 0 G;
           G = put_lua (''local '' @ len_var @ '' = 0'' @ NL) G;
           G = lua_setDepth 0 G;
           G = put_lua (''local '' @ r_var @ '' = nil'' @ NL) G;
           G = lua_setDepth 0 G;
           G = lua_genRead eKw_INT32 len_var 0 G;
           G = lua_setDepth 0 G;
           G = put_lua (''for i = 1, '' @ len_var @ '', 1 do'' @ NL) G;
           G = (if ti_value tinfo = eKw_STRUCT
                then put_lua (r_var @ '' = '' @ ti_name tinfo @ '':new()'' @ NL) (lua_setDepth 1 G) else G);
           G = lua_setDepth 1 G;
           G = lua_genRead (ti_value tinfo) r_var 1 G;
           G = lua_setDepth 1 G;
           G = put_lua (self_var @ ''[i] = '' @ r_var @ NL) G;
           G = lua_setDepth 0 G
       in put_lua (''end'' @ NL) G
     else
       let G = (if ti_value tinfo = eKw_STRUCT
                then put_lua (self_var @ '' = '' @ ti_name tinfo @ '':new()'' @ NL) (lua_setDepth 0 G) else G);
           G = lua_setDepth 0 G
       in lua_genRead (ti_value tinfo) self_var 0 G)"

definition lua_genWriteVar :: "typeinfo \<Rightarrow> string \<Rightarrow> lua_gen \<Rightarrow> lua_gen" where
  "lua_genWriteVar tinfo varName G =
    (let self_var = ''self.'' @ varName in
     if ti_type tinfo = 1 then
       let len_var = ''len_'' @ varName;
           w_var = self_var @ ''[i]'';
           G = lua_setDepth 0 G;
           G = put_lua (''local '' @ len_var @ '' = #'' @ self_var @ NL) G;
           G = lua_setDepth 0 G;
           G = lua_genWrite eKw_INT32 len_var G;
           G = lua_setDepth 0 G;
           G = put_lua (''for i = 1, '' @ len_var @ '', 1 do '' @ NL) G;
           G = lua_setDepth 1 G;
           G = lua_genWrite (ti_value tinfo) w_var G;
           G = lua_setDepth 0 G
       in put_lua (''end'' @ NL) G
     else lua_genWrite (ti_value tinfo) self_var (lua_setDepth 0 G))"

definition lua_onReadWriteVar :: "typeinfo \<Rightarrow> string \<Rightarrow> lua_gen \<Rightarrow> lua_gen" where
  "lua_onReadWriteVar tinfo varName G =
    (if lg_isRead G then lua_genReadVar tinfo varName G else lua_genWriteVar tinfo varName G)"

definition lua_onEnterIf :: "lua_gen \<Rightarrow> lua_gen" where
  "lua_onEnterIf G = put_lua ''if'' (lua_setDepth 0 G)"

definition lua_onElseIf :: "lua_gen \<Rightarrow> lua_gen" where
  "lua_onElseIf G = put_lua ''elseif'' (lua_setDepth 0 (lua_nest (- 1) G))"

definition lua_onIfCond :: "string \<Rightarrow> lua_gen \<Rightarrow> lua_gen" where
  "lua_onIfCond cond G =
    (let G = put_lua '' '' G;
         G = put_lua cond G;
         G = put_lua ('' then'' @ NL) G
     in lua_nest 1 G)"

definition lua_onElse :: "lua_gen \<Rightarrow> lua_gen" where
  "lua_onElse G =
    (let G = lua_nest (- 1) G;
         G = put_lua NL G;
         G = lua_setDepth 0 G;
         G = put_lua (''else'' @ NL) G
     in lua_nest 1 G)"

definition lua_onExitIf :: "lua_gen \<Rightarrow> lua_gen" where
  "lua_onExitIf G = put_lua (''end'' @ NL) (lua_setDepth 0 (put_lua NL (lua_nest (- 1) G)))"

definition lua_onImport :: "string \<Rightarrow> lua_gen \<Rightarrow> lua_gen" where
  "lua_onImport filename G =
    put_lua (DQ @ '')'' @ NL) (put_lua filename (put_lua (''('' @ DQ) (put_lua ''require'' G)))"

fun lua_event :: "event \<Rightarrow> lua_gen \<Rightarrow> lua_gen" where
  "lua_event (OnTypedef ti name) = lua_onTypedef ti name"
| "lua_event (OnEnterStruct name) = lua_onEnterStruct name"
| "lua_event OnExitStruct = lua_onExitStruct"
| "lua_event (OnVariable ti name e) = lua_onVariable ti name e"
| "lua_event OnEnterRead = lua_onEnterRead"
| "lua_event OnExitRead = lua_onExitRead"
| "lua_event OnEnterWrite = lua_onEnterWrite"
| "lua_event OnExitWrite = lua_onExitWrite"
| "lua_event (OnValue name e) = lua_onValue name e"
| "lua_event (OnReadWriteVar ti name) = lua_onReadWriteVar ti name"
| "lua_event OnEnterIf = lua_onEnterIf"
| "lua_event OnElseIf = lua_onElseIf"
| "lua_event (OnIfCond e) = lua_onIfCond e"
| "lua_event OnElse = lua_onElse"
| "lua_event OnExitIf = lua_onExitIf"
| "lua_event (OnImport name) = lua_onImport name"

definition compile_lua :: "nat \<Rightarrow> (string \<Rightarrow> string option) \<Rightarrow> string \<Rightarrow> idl_error + (string \<times> string) list" where
  "compile_lua d files filename =
    (let dir = getFileDir filename; name = getFileNameByFilePath filename
     in chain (compile_events d True files filename) (\<lambda>es.
          let G = fold lua_event es lua_new in Inr [(dir @ name @ ''.lua'', lg_file G @ NL)]))"


section \<open>Braces\<close>

text \<open>How many braces are open after a text, where \<open>n\<close> are open before it; a brace that closes none is an
  error.\<close>

primrec braces :: "string \<Rightarrow> nat \<Rightarrow> nat option" where
  "braces [] n = Some n"
| "braces (c # s) n =
    (if c = CHR ''{'' then braces s (Suc n)
     else if c = CHR ''}'' then (case n of 0 \<Rightarrow> None | Suc m \<Rightarrow> braces s m)
     else braces s n)"

lemma braces_append: "braces (s @ t) n = Option.bind (braces s n) (braces t)"
  by (induction s arbitrary: n) (auto split: nat.splits)

lemma braces_plain [simp]: "text_ok s \<Longrightarrow> braces s n = Some n"
  by (induction s) auto

lemma braces_append_plain [simp]: "text_ok t \<Longrightarrow> braces (s @ t) n = braces s n"
  by (simp add: braces_append cong: option.case_cong) (cases "braces s n"; simp)

lemma text_ok_tabs [simp]: "text_ok (replicate n CHR 0x09)"
  by (induction n) auto

lemma text_ok_std [simp]: "text_ok name \<Longrightarrow> text_ok (getStdName name)"
  by (simp add: getStdName_def)

lemma put_h_simps [simp]:
  "cg_h (put_h s G) = cg_h G @ s" "cg_cpp (put_h s G) = cg_cpp G" "cg_depth (put_h s G) = cg_depth G"
  "cg_structName (put_h s G) = cg_structName G" "cg_isRead (put_h s G) = cg_isRead G"
  by (simp_all add: put_h_def)

lemma put_cpp_simps [simp]:
  "cg_h (put_cpp s G) = cg_h G" "cg_cpp (put_cpp s G) = cg_cpp G @ s" "cg_depth (put_cpp s G) = cg_depth G"
  "cg_structName (put_cpp s G) = cg_structName G" "cg_isRead (put_cpp s G) = cg_isRead G"
  by (simp_all add: put_cpp_def)

lemma cpp_nest_simps [simp]:
  "cg_h (cpp_nest k G) = cg_h G" "cg_cpp (cpp_nest k G) = cg_cpp G" "cg_depth (cpp_nest k G) = cg_depth G + k"
  "cg_structName (cpp_nest k G) = cg_structName G" "cg_isRead (cpp_nest k G) = cg_isRead G"
  by (simp_all add: cpp_nest_def)

lemma cpp_setDepth_simps [simp]:
  "cg_h (cpp_setDepth d G) = cg_h G" "cg_depth (cpp_setDepth d G) = cg_depth G"
  "cg_structName (cpp_setDepth d G) = cg_structName G" "cg_isRead (cpp_setDepth d G) = cg_isRead G"
  "braces (cg_cpp (cpp_setDepth d G)) n = braces (cg_cpp G) n"
  by (simp_all add: cpp_setDepth_def)

text \<open>The generator's state in a place: the open braces of both texts, and the depth.\<close>

definition nest_h :: "place list \<Rightarrow> nat" where
  "nest_h cs = length (filter (\<lambda>p. p = In_struct) cs)"

definition nest_cpp :: "place list \<Rightarrow> nat" where
  "nest_cpp cs = length (filter (\<lambda>p. p \<noteq> In_struct \<and> p \<noteq> At_cond) cs)"

lemma nest_simps [simp]:
  "nest_h [] = 0" "nest_h (p # cs) = (if p = In_struct then 1 else 0) + nest_h cs"
  "nest_cpp [] = 0" "nest_cpp (p # cs) = (if p \<noteq> In_struct \<and> p \<noteq> At_cond then 1 else 0) + nest_cpp cs"
  by (simp_all add: nest_h_def nest_cpp_def)

definition cpp_ok :: "place list \<Rightarrow> cpp_gen \<Rightarrow> bool" where
  "cpp_ok cs G \<longleftrightarrow> braces (cg_h G) 0 = Some (nest_h cs) \<and> braces (cg_cpp G) 0 = Some (nest_cpp cs) \<and>
    cg_depth G = int (nest_cpp cs) \<and> text_ok (cg_structName G)"

text \<open>Code that opens \<open>k\<close> braces and keeps everything else of the state.\<close>

definition cpp_opens :: "nat \<Rightarrow> cpp_gen \<Rightarrow> cpp_gen \<Rightarrow> bool" where
  "cpp_opens k G G' \<longleftrightarrow> cg_h G' = cg_h G \<and> cg_depth G' = cg_depth G \<and> cg_structName G' = cg_structName G \<and>
    braces (cg_cpp G') 0 = map_option (\<lambda>m. m + k) (braces (cg_cpp G) 0)"

lemma cpp_opens_refl [simp]: "cpp_opens 0 G G"
  by (simp add: cpp_opens_def option.map_ident)

lemma cpp_opens_ok: "cpp_opens 0 G G' \<Longrightarrow> cpp_ok cs G \<Longrightarrow> cpp_ok cs G'"
  by (simp add: cpp_ok_def cpp_opens_def)

lemma put_opens [simp]:
  "text_ok s \<Longrightarrow> cpp_opens k G0 (put_cpp s G) = cpp_opens k G0 G"
  "cpp_opens k G0 (cpp_setDepth d G) = cpp_opens k G0 G"
  by (simp_all add: cpp_opens_def)

lemma put_loop: "text_ok u \<Longrightarrow> text_ok v \<Longrightarrow> cpp_opens k G0 G \<Longrightarrow>
    cpp_opens (Suc k) G0 (put_cpp (''for( int i = 0; i< '' @ u @ v @ ''; ++i) { '' @ NL) G)"
  using braces_append [of "cg_cpp G @ ''for( int i = 0; i< '' @ u @ v @ ''; ++i) ''" "CHR ''{'' # '' '' @ NL" 0]
  by (cases "braces (cg_cpp G0) 0") (simp_all add: cpp_opens_def)

lemma put_close: "cpp_opens (Suc k) G0 G \<Longrightarrow> cpp_opens k G0 (put_cpp (''}'' @ NL) G)"
  by (cases "braces (cg_cpp G0) 0") (simp_all add: cpp_opens_def braces_append)

lemma genRead_opens [simp]: "text_ok v \<Longrightarrow> cpp_opens k G0 (cpp_genRead val v d G) = cpp_opens k G0 G"
  by (simp add: cpp_genRead_def Let_def)

lemma genWrite_opens [simp]: "text_ok v \<Longrightarrow> cpp_opens k G0 (cpp_genWrite val v G) = cpp_opens k G0 G"
  by (simp add: cpp_genWrite_def Let_def)

lemma ti_texts: "ti_ok ti \<Longrightarrow> text_ok (ti_name ti) \<and> text_ok (ti_vec_name ti)"
  by (simp add: ti_ok_def plain_text_ok)

lemma readWriteVar_opens:
  assumes "ti_ok ti" "plain_text v"
  shows "cpp_opens 0 G (cpp_onReadWriteVar ti v G)"
proof -
  note t = ti_texts [OF assms(1)] plain_text_ok [OF assms(2)]
  show ?thesis
    by (auto simp: cpp_onReadWriteVar_def cpp_genReadVar_def cpp_genWriteVar_def Let_def t intro!: put_close put_loop
      simp del: append.simps)
qed

lemma ok_cpp_braces:
  "cpp_ok cs G \<Longrightarrow> braces (cg_h G) 0 = Some (nest_h cs)"
  "cpp_ok cs G \<Longrightarrow> braces (cg_cpp G) 0 = Some (nest_cpp cs)"
  by (simp_all add: cpp_ok_def)

lemma typedef_ok: "ti_ok ti \<Longrightarrow> plain_text name \<Longrightarrow> cpp_ok cs G \<Longrightarrow> cpp_ok cs (cpp_onTypedef ti name G)"
  by (auto simp: cpp_onTypedef_def cpp_ok_def dest!: ti_texts plain_text_ok)

lemma variable_ok:
  "ti_ok ti \<Longrightarrow> plain_text name \<Longrightarrow> text_ok e \<Longrightarrow> cpp_ok cs G \<Longrightarrow> cpp_ok cs (cpp_onVariable ti name e G)"
  by (auto simp: cpp_onVariable_def cpp_ok_def Let_def dest!: ti_texts plain_text_ok)

lemma cpp_event_ok:
  assumes "ev_step cs e = Some cs'" "ev_ok e" "cpp_ok cs G"
  shows "cpp_ok cs' (cpp_event e G)"
proof (cases e)
  case (OnTypedef ti name)
  then show ?thesis using assms by (auto intro: typedef_ok split: if_splits)
next
  case (OnEnterStruct name)
  then show ?thesis using assms
    by (auto simp: cpp_onEnterStruct_def cpp_ok_def braces_append plain_text_ok split: if_splits)
next
  case OnExitStruct
  then show ?thesis using assms
    by (auto simp: cpp_onExitStruct_def cpp_ok_def braces_append split: if_splits)
next
  case (OnVariable ti name e)
  then show ?thesis using assms by (auto intro: variable_ok split: if_splits)
next
  case OnEnterRead
  then show ?thesis using assms
    by (auto simp: cpp_onEnterRead_def cpp_ok_def Let_def braces_append split: if_splits)
next
  case OnExitRead
  then show ?thesis using assms
    by (auto simp: cpp_onExitRead_def cpp_ok_def Let_def braces_append split: if_splits)
next
  case OnEnterWrite
  then show ?thesis using assms
    by (auto simp: cpp_onEnterWrite_def cpp_ok_def Let_def braces_append split: if_splits)
next
  case OnExitWrite
  then show ?thesis using assms
    by (auto simp: cpp_onExitWrite_def cpp_ok_def braces_append split: if_splits)
next
  case (OnValue name e)
  then show ?thesis using assms
    by (auto simp: cpp_onValue_def cpp_ok_def Let_def plain_text_ok split: if_splits)
next
  case (OnReadWriteVar ti name)
  then show ?thesis using assms by (auto intro: cpp_opens_ok [OF readWriteVar_opens] split: if_splits)
next
  case OnEnterIf
  then show ?thesis using assms by (auto simp: cpp_onEnterIf_def cpp_ok_def split: if_splits)
next
  case OnElseIf
  then show ?thesis using assms
    by (auto simp: cpp_onElseIf_def cpp_ok_def braces_append split: list.splits place.splits)
next
  case (OnIfCond e)
  then show ?thesis using assms
    by (auto simp: cpp_onIfCond_def cpp_ok_def Let_def braces_append split: list.splits place.splits)
next
  case OnElse
  then show ?thesis using assms
    by (auto simp: cpp_onElse_def cpp_ok_def Let_def braces_append split: list.splits place.splits)
next
  case OnExitIf
  then show ?thesis using assms
    by (auto simp: cpp_onExitIf_def cpp_ok_def braces_append split: list.splits place.splits)
next
  case (OnImport name)
  then show ?thesis using assms
    by (auto simp: cpp_onImport_def cpp_ok_def split: if_splits)
qed


section \<open>The interface of the parser and its generators\<close>

text \<open>What the parser needs of an \<open>Event\<close> object: a relation with the place in the file that every call
  keeps. Both generators provide it.\<close>

locale event_sink =
  fixes handle :: "event \<Rightarrow> 'g \<Rightarrow> 'g"
    and ok :: "place list \<Rightarrow> 'g \<Rightarrow> bool"
  assumes handle_ok: "ev_step cs e = Some cs' \<Longrightarrow> ev_ok e \<Longrightarrow> ok cs G \<Longrightarrow> ok cs' (handle e G)"
begin

lemma run_ok: "ev_run es cs = Some cs' \<Longrightarrow> \<forall>e \<in> set es. ev_ok e \<Longrightarrow> ok cs G \<Longrightarrow> ok cs' (fold handle es G)"
proof (induction es arbitrary: cs' rule: rev_induct)
  case Nil
  then show ?case by (simp add: ev_run_def)
next
  case (snoc e es)
  then obtain c where "ev_run es cs = Some c" "ev_step c e = Some cs'" by (auto simp: Option.bind_eq_Some_conv)
  then show ?case using snoc by (auto intro: handle_ok)
qed

lemma compiled_ok:
  assumes "compile_events d lua files path = Inr es" "ok [] G"
  shows "ok [] (fold handle es G)"
proof -
  have "ev_run es [] = Some []" "\<forall>e \<in> set es. ev_ok e" using compiled_events [OF assms(1)] by simp_all
  then show ?thesis using assms(2) by (rule run_ok)
qed

end

interpretation cpp_sink: event_sink cpp_event cpp_ok
  by unfold_locales (rule cpp_event_ok)

lemma put_lua_simps [simp]:
  "lg_file (put_lua s G) = lg_file G @ s" "lg_depth (put_lua s G) = lg_depth G"
  "lg_vecVar (put_lua s G) = lg_vecVar G" "lg_structName (put_lua s G) = lg_structName G"
  "lg_isRead (put_lua s G) = lg_isRead G"
  by (simp_all add: put_lua_def)

lemma lua_nest_simps [simp]:
  "lg_file (lua_nest k G) = lg_file G" "lg_depth (lua_nest k G) = lg_depth G + k"
  "lg_vecVar (lua_nest k G) = lg_vecVar G" "lg_structName (lua_nest k G) = lg_structName G"
  "lg_isRead (lua_nest k G) = lg_isRead G"
  by (simp_all add: lua_nest_def)

lemma lua_setDepth_simps [simp]:
  "lg_file (lua_setDepth k G) = lg_file G @ replicate (nat (lg_depth G + k)) CHR 0x09"
  "lg_depth (lua_setDepth k G) = lg_depth G"
  "lg_vecVar (lua_setDepth k G) = lg_vecVar G" "lg_structName (lua_setDepth k G) = lg_structName G"
  "lg_isRead (lua_setDepth k G) = lg_isRead G"
  by (simp_all add: lua_setDepth_def)

text \<open>The state of a Lua generator apart from its text.\<close>

definition lua_same :: "lua_gen \<Rightarrow> lua_gen \<Rightarrow> bool" where
  "lua_same G G' \<longleftrightarrow> lg_depth G' = lg_depth G \<and> lg_vecVar G' = lg_vecVar G \<and> lg_structName G' = lg_structName G"

lemma lua_same_simps [simp]:
  "lua_same G G" "lua_same G0 (put_lua s G) = lua_same G0 G" "lua_same G0 (lua_setDepth k G) = lua_same G0 G"
  by (simp_all add: lua_same_def)

lemma lua_same_gen [simp]:
  "lua_same G0 (lua_genRead v name d G) = lua_same G0 G" "lua_same G0 (lua_genWrite v name G) = lua_same G0 G"
  by (simp_all add: lua_genRead_def lua_genWrite_def Let_def)

lemma lua_same_rw: "lua_same G (lua_onReadWriteVar ti name G)"
  by (simp add: lua_onReadWriteVar_def lua_genReadVar_def lua_genWriteVar_def Let_def)

definition lua_ok :: "place list \<Rightarrow> lua_gen \<Rightarrow> bool" where
  "lua_ok cs G \<longleftrightarrow> lg_depth G = int (nest_cpp cs) \<and> (nest_h cs = 0 \<longrightarrow> lg_vecVar G = [])"

lemma lua_same_ok: "lua_same G G' \<Longrightarrow> lua_ok cs G \<Longrightarrow> lua_ok cs G'"
  by (simp add: lua_same_def lua_ok_def)

lemma lua_fields_fold:
  "fold (\<lambda>v G. put_lua (''o.'' @ v @ NL) (lua_setDepth 1 G)) vs G =
    G\<lparr>lg_file := lg_file G @ concat (map (\<lambda>v. replicate (nat (lg_depth G + 1)) CHR 0x09 @ ''o.'' @ v @ NL) vs)\<rparr>"
  by (induction vs arbitrary: G) (simp_all add: put_lua_def lua_setDepth_def)

lemmas lua_handlers = lua_onTypedef_def lua_onEnterStruct_def lua_onExitStruct_def lua_onVariable_def
  lua_onEnterRead_def lua_onExitRead_def lua_onEnterWrite_def lua_onExitWrite_def lua_onValue_def
  lua_onEnterIf_def lua_onElseIf_def lua_onIfCond_def lua_onElse_def lua_onExitIf_def lua_onImport_def

lemma lua_event_ok:
  assumes "ev_step cs e = Some cs'" "ev_ok e" "lua_ok cs G"
  shows "lua_ok cs' (lua_event e G)"
proof (cases e)
  case OnExitStruct
  have "lg_depth (lua_onExitStruct G) = lg_depth G" "lg_vecVar (lua_onExitStruct G) = []"
    unfolding lua_onExitStruct_def Let_def lua_fields_fold by simp_all
  then show ?thesis using assms OnExitStruct by (auto simp: lua_ok_def split: if_splits)
next
  case (OnReadWriteVar ti name)
  then show ?thesis using assms by (auto intro: lua_same_ok [OF lua_same_rw] split: if_splits)
qed (use assms in \<open>auto simp: lua_handlers lua_ok_def Let_def split: if_splits list.splits place.splits\<close>)

interpretation lua_sink: event_sink lua_event lua_ok
  by unfold_locales (rule lua_event_ok)

section \<open>The constructor of a Lua class\<close>

fun struct_event :: "event \<Rightarrow> bool" where
  "struct_event (OnEnterStruct name) = True"
| "struct_event OnExitStruct = True"
| "struct_event e = False"

text \<open>What the constructor sets for every field that is declared.\<close>

fun lua_field :: "event \<Rightarrow> string list" where
  "lua_field (OnVariable ti name e) =
    [name @ '' = '' @ (if ti_type ti = 1 then ''{}'' else if e \<noteq> [] then e else getInitStr ti)]"
| "lua_field e = []"

definition lua_constructor_text :: "string \<Rightarrow> string list \<Rightarrow> string" where
  "lua_constructor_text name vs =
    ''function '' @ name @ '':new()'' @ NL @
    CHR 0x09 # ''local o = {}'' @ NL @
    CHR 0x09 # ''setmetatable(o, '' @ name @ '')'' @ NL @
    concat (map (\<lambda>v. CHR 0x09 # ''o.'' @ v @ NL) vs) @
    CHR 0x09 # ''return o'' @ NL @ ''end'' @ NL @ NL"

lemma lua_inside:
  assumes "\<not> struct_event e"
  shows "lg_structName (lua_event e G) = lg_structName G \<and> lg_vecVar (lua_event e G) = lg_vecVar G @ lua_field e"
proof (cases e)
  case (OnReadWriteVar ti name)
  then show ?thesis using lua_same_rw [of G ti name] by (simp add: lua_same_def)
qed (use assms in \<open>auto simp: lua_handlers Let_def\<close>)

lemma lua_inside_run:
  "\<forall>e \<in> set es. \<not> struct_event e \<Longrightarrow> lg_structName (fold lua_event es G) = lg_structName G \<and>
    lg_vecVar (fold lua_event es G) = lg_vecVar G @ concat (map lua_field es)"
  by (induction es arbitrary: G) (simp_all add: lua_inside)

lemma ev_run_append: "ev_run (es @ es') cs = Option.bind (ev_run es cs) (ev_run es')"
  by (induction es' rule: rev_induct) (simp_all add: ev_run_def Option.bind_assoc flip: append_assoc)

lemma ev_run_Cons: "ev_run (e # es) cs = Option.bind (ev_step cs e) (ev_run es)"
  using ev_run_append [of "[e]" es cs] by (simp add: ev_run_def)

text \<open>C32. Both texts of the C++ generator close every brace they open, for every file that is accepted.\<close>

theorem cpp_braces_balance:
  assumes "compile_cpp d files path = Inr out" "text_ok (getFileNameByFilePath path)"
  shows "\<forall>(name, text) \<in> set out. braces text 0 = Some 0"
proof -
  obtain es where es: "compile_events d False files path = Inr es"
      "out = (let G = fold cpp_event es (cpp_init (getFileNameByFilePath path))
        in [(getFileDir path @ getFileNameByFilePath path @ ''.h'', cg_h G @ NL),
            (getFileDir path @ getFileNameByFilePath path @ ''.cpp'', cg_cpp G @ NL)])"
    using assms(1) by (auto simp: compile_cpp_def Let_def chain_Inr)
  have "cpp_ok [] (cpp_init (getFileNameByFilePath path))"
    using assms(2) by (simp add: cpp_ok_def cpp_init_def)
  then have "cpp_ok [] (fold cpp_event es (cpp_init (getFileNameByFilePath path)))"
    by (rule cpp_sink.compiled_ok [OF es(1)])
  then show ?thesis using es(2) by (simp add: Let_def cpp_ok_def)
qed

abbreviation TAB :: string where "TAB \<equiv> [CHR 0x09]"

lemma sample_cpp: "compile_cpp 1 sample_files ''a.x'' = Inr
  [(''a.h'', concat
     [''#pragma once '' @ NL, NL, ''#include '' @ DQ @ ''BaseType.h'' @ DQ @ '' '' @ NL, ''#include <vector> '' @ NL,
      ''class ByteBuffer;'' @ NL, NL,
      ''struct A'' @ NL, ''{'' @ NL, ''public:'' @ NL, TAB @ ''int32 a = 1; '' @ NL,
      TAB @ ''bool read(ByteBuffer * buffer);'' @ NL, ''}; '' @ NL, NL]),
   (''a.cpp'', concat
     [''#include '' @ DQ @ ''a.h'' @ DQ @ '' '' @ NL, ''#include '' @ DQ @ ''ByteBuffer.h'' @ DQ @ '' '' @ NL,
      ''bool A::read(ByteBuffer * buffer)'' @ NL, ''{'' @ NL,
      TAB @ ''if(sizeof(a) + buffer->rpos() > buffer->wpos()) return false;'' @ NL,
      TAB @ ''*buffer >> a;'' @ NL,
      TAB @ ''if(a==1)'' @ NL, TAB @ ''{'' @ NL, TAB @ TAB @ ''a = a+2; '' @ NL, NL,
      TAB @ ''}else{'' @ NL, NL, TAB @ ''}'' @ NL,
      TAB @ ''return true;'' @ NL, ''}'' @ NL, NL])]"
  by code_simp

theorem cpp_braces_balance_witness:
  "\<exists>out. compile_cpp 1 sample_files ''a.x'' = Inr out \<and> (\<forall>(name, text) \<in> set out. braces text 0 = Some 0)"
proof -
  have "text_ok (getFileNameByFilePath ''a.x'')" by code_simp
  then show ?thesis
    unfolding sample_cpp using cpp_braces_balance [OF sample_cpp] by blast
qed

text \<open>In Lua a field is \<open>self.a\<close> where it is read and in expressions, but \<open>a\<close> where it is assigned.\<close>

lemma sample_lua_file: "compile_lua 1 sample_files ''a.x'' = Inr
  [(''a.lua'', concat
     [''A = {}'' @ NL, ''A.__index = A'' @ NL,
      ''function A:read(buffer)'' @ NL,
      TAB @ ''if 4 + buffer:rpos() > buffer:wpos() then return false end'' @ NL,
      TAB @ ''self.a = buffer:getInt32();'' @ NL,
      TAB @ ''if self.a==1 then'' @ NL, TAB @ TAB @ ''a = self.a+2'' @ NL, NL,
      TAB @ ''else'' @ NL, NL, TAB @ ''end'' @ NL,
      TAB @ ''return true;'' @ NL, ''end'' @ NL,
      ''function A:new()'' @ NL, TAB @ ''local o = {}'' @ NL, TAB @ ''setmetatable(o, A)'' @ NL,
      TAB @ ''o.a = 1'' @ NL, TAB @ ''return o'' @ NL, ''end'' @ NL, NL, NL])]"
  by code_simp

text \<open>C34. For every structure of every accepted file the Lua text gets a constructor that sets each field
  declared in it, in the order of the declarations, indented by one, and nothing of another structure.\<close>

theorem lua_constructor:
  assumes "compile_events d True files path = Inr (pre @ OnEnterStruct name # es @ OnExitStruct # post)"
    and "\<forall>e \<in> set es. \<not> struct_event e"
  shows "lg_file (fold lua_event (pre @ OnEnterStruct name # es @ [OnExitStruct]) lua_new) =
    lg_file (fold lua_event (pre @ OnEnterStruct name # es) lua_new) @
      lua_constructor_text name (concat (map lua_field es))"
proof -
  note compiled = compiled_events [OF assms(1)]
  then have run: "ev_run (pre @ OnEnterStruct name # es @ OnExitStruct # post) [] = Some []" by simp
  then have pre: "ev_run pre [] = Some []" and es: "ev_run es [In_struct] = Some [In_struct]"
    by (auto simp: ev_run_append ev_run_Cons Option.bind_eq_Some_conv split: if_splits)
  let ?P = "fold lua_event pre lua_new"
  have "lua_ok [] ?P"
    by (rule lua_sink.run_ok [OF pre]) (use compiled in \<open>simp_all add: lua_ok_def lua_new_def\<close>)
  then have start: "lua_ok [In_struct] (lua_onEnterStruct name ?P)"
      "lg_structName (lua_onEnterStruct name ?P) = name" "lg_vecVar (lua_onEnterStruct name ?P) = []"
    by (simp_all add: lua_ok_def lua_onEnterStruct_def Let_def)
  let ?G = "fold lua_event es (lua_onEnterStruct name ?P)"
  have "lua_ok [In_struct] ?G"
    by (rule lua_sink.run_ok [OF es]) (use compiled start(1) in simp_all)
  then have "lg_depth ?G = 0" by (simp add: lua_ok_def)
  moreover have "lg_structName ?G = name" "lg_vecVar ?G = concat (map lua_field es)"
    using lua_inside_run [OF assms(2)] start(2,3) by simp_all
  ultimately have "lg_file (lua_onExitStruct ?G) = lg_file ?G @ lua_constructor_text name (concat (map lua_field es))"
    unfolding lua_onExitStruct_def Let_def lua_fields_fold by (simp add: lua_constructor_text_def)
  then show ?thesis by simp
qed

theorem lua_constructor_witness:
  "lua_constructor_text ''A'' [''a = 1''] = concat
     [''function A:new()'' @ NL, TAB @ ''local o = {}'' @ NL, TAB @ ''setmetatable(o, A)'' @ NL,
      TAB @ ''o.a = 1'' @ NL, TAB @ ''return o'' @ NL, ''end'' @ NL, NL] \<and>
   (let es = [OnVariable sample_int ''a'' ''1'', OnEnterRead, OnReadWriteVar sample_int ''a'',
      OnEnterIf, OnIfCond ''self.a==1'', OnValue ''a'' ''self.a+2'', OnElse, OnExitIf, OnExitRead]
    in lg_file (fold lua_event (OnEnterStruct ''A'' # es @ [OnExitStruct]) lua_new) =
      lg_file (fold lua_event (OnEnterStruct ''A'' # es) lua_new) @ lua_constructor_text ''A'' [''a = 1''])"
proof -
  let ?es = "[OnVariable sample_int ''a'' ''1'', OnEnterRead, OnReadWriteVar sample_int ''a'',
      OnEnterIf, OnIfCond ''self.a==1'', OnValue ''a'' ''self.a+2'', OnElse, OnExitIf, OnExitRead]"
  have "lg_file (fold lua_event ([] @ OnEnterStruct ''A'' # ?es @ [OnExitStruct]) lua_new) =
      lg_file (fold lua_event ([] @ OnEnterStruct ''A'' # ?es) lua_new) @
        lua_constructor_text ''A'' (concat (map lua_field ?es))"
    by (rule lua_constructor [where post = "[]" and d = 1 and files = sample_files and path = "''a.x''"]) (use sample_lua in simp_all)
  moreover have "concat (map lua_field ?es) = [''a = 1'']" by (simp add: sample_int_def)
  ultimately show ?thesis by (simp only: Let_def append_Nil) (simp add: lua_constructor_text_def)
qed

end
