(* ===== verification/Sql_Access.thy ===== *)
theory Sql_Access
  imports Byte_Order Text_Utils
begin

text \<open>
  Prepared statements and their results, src/dal/db/SqlPrepare.cpp and SqlResultSet.cpp. Memory is a
  list of bytes; copying more into a buffer than it holds, reading more from it than it has, and an
  index outside an array are undefined (\<open>None\<close>). What the client library of MySQL answers is an
  argument. Lengths are those of strings below 2 GiB, for which the conversions to \<open>int\<close> and back do
  nothing.
\<close>

section \<open>Parameters\<close>

datatype field_type =
    MYSQL_TYPE_DECIMAL | MYSQL_TYPE_TINY | MYSQL_TYPE_SHORT | MYSQL_TYPE_LONG | MYSQL_TYPE_FLOAT
  | MYSQL_TYPE_DOUBLE | MYSQL_TYPE_NULL | MYSQL_TYPE_TIMESTAMP | MYSQL_TYPE_LONGLONG | MYSQL_TYPE_INT24
  | MYSQL_TYPE_DATE | MYSQL_TYPE_TIME | MYSQL_TYPE_DATETIME | MYSQL_TYPE_YEAR | MYSQL_TYPE_BIT
  | MYSQL_TYPE_NEWDECIMAL | MYSQL_TYPE_TINY_BLOB | MYSQL_TYPE_MEDIUM_BLOB | MYSQL_TYPE_LONG_BLOB
  | MYSQL_TYPE_BLOB | MYSQL_TYPE_VAR_STRING | MYSQL_TYPE_STRING | MYSQL_TYPE_OTHER

text \<open>\<open>buffer_length\<close> and the value \<open>length\<close> points to are always set together.\<close>

record param_bind =
  buffer_type :: field_type
  buffer :: "byte list option"
  buffer_length :: nat
  is_unsigned :: bool

record sql_prepare =
  sp_count :: nat
  sp_sql :: "byte list"
  sp_stmt :: bool
  sp_bind :: "param_bind list"
  sp_widx :: nat

text \<open>The bindings are zeroed; type 0 is \<open>MYSQL_TYPE_DECIMAL\<close>.\<close>

definition sql_prepare_new :: "byte list \<Rightarrow> sql_prepare" where
  "sql_prepare_new sqlstr =
    (let n = charCount sqlstr 63
     in \<lparr>sp_count = n, sp_sql = takeWhile (\<lambda>b. b \<noteq> 0) sqlstr, sp_stmt = False,
         sp_bind = replicate n \<lparr>buffer_type = MYSQL_TYPE_DECIMAL, buffer = None, buffer_length = 0, is_unsigned = False\<rparr>,
         sp_widx = 0\<rparr>)"

definition sp_clear :: "sql_prepare \<Rightarrow> sql_prepare" where
  "sp_clear P = P\<lparr>sp_widx := 0\<rparr>"

text \<open>\<open>&m_paramBind[m_widx++]\<close>, and what the function does with it.\<close>

definition with_bind :: "(param_bind \<Rightarrow> param_bind option) \<Rightarrow> sql_prepare \<Rightarrow> sql_prepare option" where
  "with_bind f P =
    (if sp_widx P < length (sp_bind P) then
       map_option (\<lambda>b. P\<lparr>sp_bind := (sp_bind P)[sp_widx P := b], sp_widx := sp_widx P + 1\<rparr>)
         (f (sp_bind P ! sp_widx P))
     else None)"

definition SetParameterValue :: "field_type \<Rightarrow> byte list \<Rightarrow> bool \<Rightarrow> param_bind \<Rightarrow> param_bind" where
  "SetParameterValue t v uns b =
    b\<lparr>buffer_type := t, buffer := Some v, buffer_length := length v, is_unsigned := uns\<rparr>"

definition sp_pushInt8 :: "byte \<Rightarrow> sql_prepare \<Rightarrow> sql_prepare option" where
  "sp_pushInt8 v = with_bind (\<lambda>b. Some (SetParameterValue MYSQL_TYPE_TINY [v] False b))"

definition sp_pushUint8 :: "byte \<Rightarrow> sql_prepare \<Rightarrow> sql_prepare option" where
  "sp_pushUint8 v = with_bind (\<lambda>b. Some (SetParameterValue MYSQL_TYPE_TINY [v] True b))"

definition sp_pushInt16 :: "u16 \<Rightarrow> sql_prepare \<Rightarrow> sql_prepare option" where
  "sp_pushInt16 v = with_bind (\<lambda>b. Some (SetParameterValue MYSQL_TYPE_SHORT (mem16 v) False b))"

definition sp_pushUint16 :: "u16 \<Rightarrow> sql_prepare \<Rightarrow> sql_prepare option" where
  "sp_pushUint16 v = with_bind (\<lambda>b. Some (SetParameterValue MYSQL_TYPE_SHORT (mem16 v) True b))"

definition sp_pushInt32 :: "u32 \<Rightarrow> sql_prepare \<Rightarrow> sql_prepare option" where
  "sp_pushInt32 v = with_bind (\<lambda>b. Some (SetParameterValue MYSQL_TYPE_LONG (mem32 v) False b))"

definition sp_pushUint32 :: "u32 \<Rightarrow> sql_prepare \<Rightarrow> sql_prepare option" where
  "sp_pushUint32 v = with_bind (\<lambda>b. Some (SetParameterValue MYSQL_TYPE_LONG (mem32 v) True b))"

definition sp_pushInt64 :: "u64 \<Rightarrow> sql_prepare \<Rightarrow> sql_prepare option" where
  "sp_pushInt64 v = with_bind (\<lambda>b. Some (SetParameterValue MYSQL_TYPE_LONGLONG (mem64 v) False b))"

definition sp_pushUint64 :: "u64 \<Rightarrow> sql_prepare \<Rightarrow> sql_prepare option" where
  "sp_pushUint64 v = with_bind (\<lambda>b. Some (SetParameterValue MYSQL_TYPE_LONGLONG (mem64 v) True b))"

text \<open>A float is its 32 bits, a double its 64; positive are those without sign, above zero and up to
  infinity.\<close>

definition float_positive :: "u32 \<Rightarrow> bool" where
  "float_positive v \<longleftrightarrow> 0 < v \<and> v \<le> 0x7F800000"

definition double_positive :: "u64 \<Rightarrow> bool" where
  "double_positive v \<longleftrightarrow> 0 < v \<and> v \<le> 0x7FF0000000000000"

definition sp_pushFloat :: "u32 \<Rightarrow> sql_prepare \<Rightarrow> sql_prepare option" where
  "sp_pushFloat v = with_bind (\<lambda>b. Some (SetParameterValue MYSQL_TYPE_FLOAT (mem32 v) (float_positive v) b))"

definition sp_pushDouble :: "u64 \<Rightarrow> sql_prepare \<Rightarrow> sql_prepare option" where
  "sp_pushDouble v = with_bind (\<lambda>b. Some (SetParameterValue MYSQL_TYPE_DOUBLE (mem64 v) (double_positive v) b))"

text \<open>A buffer that is there already is used again, whatever its size.\<close>

definition fill_buffer :: "field_type \<Rightarrow> byte list \<Rightarrow> param_bind \<Rightarrow> param_bind option" where
  "fill_buffer t v b =
    (let b = b\<lparr>buffer_length := length v, buffer_type := t, is_unsigned := False\<rparr>
     in case buffer b of
          None \<Rightarrow> Some (b\<lparr>buffer := Some v\<rparr>)
        | Some old \<Rightarrow> if length v \<le> length old then Some (b\<lparr>buffer := Some (poke old 0 v)\<rparr>) else None)"

definition sp_pushString :: "byte list \<Rightarrow> sql_prepare \<Rightarrow> sql_prepare option" where
  "sp_pushString v = with_bind (fill_buffer MYSQL_TYPE_STRING v)"

definition sp_write :: "byte list \<Rightarrow> sql_prepare \<Rightarrow> sql_prepare option" where
  "sp_write v = with_bind (fill_buffer MYSQL_TYPE_BLOB v)"

definition sp_pushData :: "byte list \<Rightarrow> sql_prepare \<Rightarrow> sql_prepare option" where
  "sp_pushData v = sp_write v"

section \<open>Running a statement\<close>

text \<open>What the library answers while a statement is prepared: whether a handle was made, whether the
  server accepted the text, and how many parameters it found. A wrong number is an assertion.\<close>

definition sp_prepare :: "bool \<Rightarrow> bool \<Rightarrow> nat \<Rightarrow> sql_prepare \<Rightarrow> (int \<times> sql_prepare) option" where
  "sp_prepare made accepted param_count P =
    (let P = P\<lparr>sp_stmt := made\<rparr>
     in if \<not> made then Some (- 1, P)
        else if \<not> accepted then Some (- 1, P)
        else if param_count \<noteq> sp_count P then None
        else Some (0, P))"

text \<open>A parameter as the library reads it: \<open>buffer_length\<close> bytes from the buffer.\<close>

type_synonym sent_param = "field_type \<times> bool \<times> byte list option"

definition sent_param :: "param_bind \<Rightarrow> sent_param" where
  "sent_param b = (buffer_type b, is_unsigned b, map_option (take (buffer_length b)) (buffer b))"

record sql_field =
  fd_type :: field_type
  fd_unsigned :: bool
  fd_length :: nat
  fd_max_length :: nat

text \<open>A cell as a fetch gives it: the null flag, what was put into the bound buffer and the length of
  the value.\<close>

record sql_cell =
  cell_null :: bool
  cell_buffer :: "byte list"
  cell_length :: nat

record sql_reply =
  bind_ok :: bool
  execute_ok :: bool
  metadata :: "sql_field list option"
  store_ok :: bool
  num_rows :: u64
  bind_result_ok :: bool
  fetches :: "(int \<times> sql_cell list) list"
  affected_rows :: u64

text \<open>The size of the buffer for a column; the time structure of the library has 40 bytes.\<close>

definition resultBuffer :: "sql_field \<Rightarrow> nat option" where
  "resultBuffer f =
    (case fd_type f of
       MYSQL_TYPE_TINY \<Rightarrow> Some 1
     | MYSQL_TYPE_YEAR \<Rightarrow> Some 2
     | MYSQL_TYPE_SHORT \<Rightarrow> Some 2
     | MYSQL_TYPE_INT24 \<Rightarrow> Some 4
     | MYSQL_TYPE_LONG \<Rightarrow> Some 4
     | MYSQL_TYPE_LONGLONG \<Rightarrow> Some 8
     | MYSQL_TYPE_FLOAT \<Rightarrow> Some 4
     | MYSQL_TYPE_DOUBLE \<Rightarrow> Some 8
     | MYSQL_TYPE_NEWDECIMAL \<Rightarrow> Some 67
     | MYSQL_TYPE_TIME \<Rightarrow> Some 40
     | MYSQL_TYPE_DATE \<Rightarrow> Some 40
     | MYSQL_TYPE_DATETIME \<Rightarrow> Some 40
     | MYSQL_TYPE_TIMESTAMP \<Rightarrow> Some 40
     | MYSQL_TYPE_STRING \<Rightarrow> Some (fd_length f)
     | MYSQL_TYPE_VAR_STRING \<Rightarrow> Some (fd_length f)
     | MYSQL_TYPE_TINY_BLOB \<Rightarrow> Some (fd_max_length f)
     | MYSQL_TYPE_BLOB \<Rightarrow> Some (fd_max_length f)
     | MYSQL_TYPE_MEDIUM_BLOB \<Rightarrow> Some (fd_max_length f)
     | MYSQL_TYPE_LONG_BLOB \<Rightarrow> Some (fd_max_length f)
     | MYSQL_TYPE_BIT \<Rightarrow> Some 1
     | _ \<Rightarrow> None)"

section \<open>Result sets\<close>

text \<open>A field is null or a buffer of its own.\<close>

record result_set =
  rs_fields :: "byte list option list"
  rs_currRowIdx :: int
  rs_currColIdx :: int
  rs_rowCount :: int
  rs_fieldCount :: int

definition result_set_new :: result_set where
  "result_set_new = \<lparr>rs_fields = [], rs_currRowIdx = - 1, rs_currColIdx = 0, rs_rowCount = 0, rs_fieldCount = 0\<rparr>"

definition field_make :: "byte list \<Rightarrow> nat \<Rightarrow> byte list option" where
  "field_make pdata len = (if len \<le> length pdata then Some (take len pdata) else None)"

definition MYSQL_DATA_TRUNCATED :: int where "MYSQL_DATA_TRUNCATED = 101"

definition row_fetched :: "int \<Rightarrow> bool" where
  "row_fetched code \<longleftrightarrow> code = 0 \<or> code = MYSQL_DATA_TRUNCATED"

text \<open>The indices are 32-bit numbers without sign.\<close>

fun store_cells ::
    "nat \<Rightarrow> nat \<Rightarrow> nat \<Rightarrow> (sql_field \<times> sql_cell) list \<Rightarrow> byte list option list \<Rightarrow> byte list option list option" where
  "store_cells nf row col [] flds = Some flds"
| "store_cells nf row col ((f, c) # cs) flds =
    (let i = (row * nf + col) mod 2 ^ 32;
         bound = (case resultBuffer f of None \<Rightarrow> [] | Some n \<Rightarrow> take n (cell_buffer c));
         pdata = (if \<not> cell_null c then bound else []);
         len = (if \<not> cell_null c then cell_length c else 0)
     in if i < length flds then
          (case field_make pdata len of
             None \<Rightarrow> None
           | Some v \<Rightarrow> store_cells nf row (col + 1) cs (flds[i := Some v]))
        else None)"

fun store_rows ::
    "sql_field list \<Rightarrow> nat \<Rightarrow> (int \<times> sql_cell list) list \<Rightarrow> byte list option list \<Rightarrow> byte list option list option" where
  "store_rows fs row [] flds = Some flds"
| "store_rows fs row ((code, cells) # rest) flds =
    (if row_fetched code
     then Option.bind (store_cells (length fs) row 0 (zip fs cells) flds) (store_rows fs (row + 1) rest)
     else Some flds)"

definition setResult :: "sql_reply \<Rightarrow> sql_field list \<Rightarrow> result_set \<Rightarrow> result_set option" where
  "setResult r fs R =
    (let nf = of_nat (length fs) :: u32;
         R = R\<lparr>rs_rowCount := sint (num_rows r), rs_fieldCount := sint nf\<rparr>
     in if num_rows r = 0 then Some R
        else if \<not> bind_result_ok r then Some R
        else let n = unat (ucast (num_rows r) * nf) in
             map_option (\<lambda>flds. R\<lparr>rs_fields := flds\<rparr>)
               (store_rows fs 0 (fetches r) (take n (rs_fields R) @ replicate (n - length (rs_fields R)) None)))"

definition rs_fetch :: "result_set \<Rightarrow> bool \<times> result_set" where
  "rs_fetch R =
    (if rs_currRowIdx R + 1 \<ge> rs_rowCount R then (False, R)
     else (True, R\<lparr>rs_currRowIdx := rs_currRowIdx R + 1, rs_currColIdx := 0\<rparr>))"

definition rset_isEmpty :: "result_set \<Rightarrow> bool" where
  "rset_isEmpty R \<longleftrightarrow> rs_rowCount R = 0"

definition rs_getRowCount :: "result_set \<Rightarrow> u32" where
  "rs_getRowCount R = of_int (rs_rowCount R)"

definition rs_getFieldsCount :: "result_set \<Rightarrow> u32" where
  "rs_getFieldsCount R = of_int (rs_fieldCount R)"

text \<open>The inner \<open>None\<close> is the null pointer.\<close>

definition getField :: "int \<Rightarrow> result_set \<Rightarrow> byte list option option" where
  "getField idx R =
    (if rs_currRowIdx R < 0 \<or> rs_currRowIdx R \<ge> rs_rowCount R \<or> idx \<ge> rs_fieldCount R then Some None
     else let i = rs_currRowIdx R * rs_fieldCount R + idx
          in if 0 \<le> i \<and> nat i < length (rs_fields R) then Some (rs_fields R ! nat i) else None)"

definition emptyField :: "int \<Rightarrow> result_set \<Rightarrow> bool option" where
  "emptyField idx R = map_option (\<lambda>f. f \<noteq> None) (getField idx R)"

definition next_field :: "result_set \<Rightarrow> (byte list option \<times> result_set) option" where
  "next_field R =
    map_option (\<lambda>f. (f, R\<lparr>rs_currColIdx := rs_currColIdx R + 1\<rparr>)) (getField (rs_currColIdx R) R)"

definition rs_getData :: "result_set \<Rightarrow> (byte list option \<times> result_set) option" where
  "rs_getData R = next_field R"

text \<open>\<open>getValue\<close> copies the size of its type from the buffer.\<close>

definition getValue :: "nat \<Rightarrow> byte list \<Rightarrow> 'a::len word option" where
  "getValue n buf = (if n \<le> length buf then Some (load (take n buf)) else None)"

definition get_number :: "nat \<Rightarrow> result_set \<Rightarrow> ('a::len word \<times> result_set) option" where
  "get_number n R =
    (case next_field R of
       None \<Rightarrow> None
     | Some (None, R) \<Rightarrow> Some (0, R)
     | Some (Some buf, R) \<Rightarrow> map_option (\<lambda>v. (v, R)) (getValue n buf))"

definition rs_getInt8 :: "result_set \<Rightarrow> (byte \<times> result_set) option" where "rs_getInt8 = get_number 1"
definition rs_getUint8 :: "result_set \<Rightarrow> (byte \<times> result_set) option" where "rs_getUint8 = get_number 1"
definition rs_getInt16 :: "result_set \<Rightarrow> (u16 \<times> result_set) option" where "rs_getInt16 = get_number 2"
definition rs_getUint16 :: "result_set \<Rightarrow> (u16 \<times> result_set) option" where "rs_getUint16 = get_number 2"
definition rs_getInt32 :: "result_set \<Rightarrow> (u32 \<times> result_set) option" where "rs_getInt32 = get_number 4"
definition rs_getUint32 :: "result_set \<Rightarrow> (u32 \<times> result_set) option" where "rs_getUint32 = get_number 4"
definition rs_getInt64 :: "result_set \<Rightarrow> (u64 \<times> result_set) option" where "rs_getInt64 = get_number 8"
definition rs_getUint64 :: "result_set \<Rightarrow> (u64 \<times> result_set) option" where "rs_getUint64 = get_number 8"
definition rs_getFloat :: "result_set \<Rightarrow> (u32 \<times> result_set) option" where "rs_getFloat = get_number 4"
definition rs_getDouble :: "result_set \<Rightarrow> (u64 \<times> result_set) option" where "rs_getDouble = get_number 8"

definition rs_getString :: "result_set \<Rightarrow> (byte list \<times> result_set) option" where
  "rs_getString R = map_option (\<lambda>(f, R). (case f of None \<Rightarrow> [] | Some v \<Rightarrow> v, R)) (next_field R)"

text \<open>The view of \<open>getStrview\<close> has the same bytes.\<close>

definition rs_getStrview :: "result_set \<Rightarrow> (byte list \<times> result_set) option" where
  "rs_getStrview R = map_option (\<lambda>(f, R). (case f of None \<Rightarrow> [] | Some v \<Rightarrow> v, R)) (next_field R)"

text \<open>\<open>query\<close> is what the library and the server answer to the parameters they are sent.\<close>

definition sp_execute ::
    "(sent_param list \<Rightarrow> sql_reply) \<Rightarrow> sql_prepare \<Rightarrow> result_set option \<Rightarrow> (int \<times> result_set option) option" where
  "sp_execute query P R =
    (let r = query (map sent_param (sp_bind P))
     in if sp_bind P \<noteq> [] \<and> \<not> bind_ok r then Some (- 1, R)
        else if \<not> execute_ok r then Some (- 1, R)
        else case (metadata r, R) of
          (Some fs, Some R') \<Rightarrow>
            if \<not> store_ok r then Some (- 1, R)
            else map_option (\<lambda>R'. (sint (ucast (affected_rows r) :: u32), Some R'))
                   (setResult r fs R')
        | _ \<Rightarrow> Some (sint (ucast (affected_rows r) :: u32), R))"


section \<open>Values pushed into a statement\<close>

datatype sql_value =
    V_int8 byte | V_uint8 byte | V_int16 u16 | V_uint16 u16 | V_int32 u32 | V_uint32 u32
  | V_int64 u64 | V_uint64 u64 | V_float u32 | V_double u64 | V_string "byte list" | V_data "byte list"

fun push_value :: "sql_value \<Rightarrow> sql_prepare \<Rightarrow> sql_prepare option" where
  "push_value (V_int8 v) = sp_pushInt8 v"
| "push_value (V_uint8 v) = sp_pushUint8 v"
| "push_value (V_int16 v) = sp_pushInt16 v"
| "push_value (V_uint16 v) = sp_pushUint16 v"
| "push_value (V_int32 v) = sp_pushInt32 v"
| "push_value (V_uint32 v) = sp_pushUint32 v"
| "push_value (V_int64 v) = sp_pushInt64 v"
| "push_value (V_uint64 v) = sp_pushUint64 v"
| "push_value (V_float v) = sp_pushFloat v"
| "push_value (V_double v) = sp_pushDouble v"
| "push_value (V_string v) = sp_pushString v"
| "push_value (V_data v) = sp_pushData v"

fun push_all :: "sql_value list \<Rightarrow> sql_prepare \<Rightarrow> sql_prepare option" where
  "push_all [] P = Some P"
| "push_all (v # vs) P = Option.bind (push_value v P) (push_all vs)"

text \<open>What the server should get for a value.\<close>

fun sent_value :: "sql_value \<Rightarrow> sent_param" where
  "sent_value (V_int8 v) = (MYSQL_TYPE_TINY, False, Some [v])"
| "sent_value (V_uint8 v) = (MYSQL_TYPE_TINY, True, Some [v])"
| "sent_value (V_int16 v) = (MYSQL_TYPE_SHORT, False, Some (mem16 v))"
| "sent_value (V_uint16 v) = (MYSQL_TYPE_SHORT, True, Some (mem16 v))"
| "sent_value (V_int32 v) = (MYSQL_TYPE_LONG, False, Some (mem32 v))"
| "sent_value (V_uint32 v) = (MYSQL_TYPE_LONG, True, Some (mem32 v))"
| "sent_value (V_int64 v) = (MYSQL_TYPE_LONGLONG, False, Some (mem64 v))"
| "sent_value (V_uint64 v) = (MYSQL_TYPE_LONGLONG, True, Some (mem64 v))"
| "sent_value (V_float v) = (MYSQL_TYPE_FLOAT, float_positive v, Some (mem32 v))"
| "sent_value (V_double v) = (MYSQL_TYPE_DOUBLE, double_positive v, Some (mem64 v))"
| "sent_value (V_string v) = (MYSQL_TYPE_STRING, False, Some v)"
| "sent_value (V_data v) = (MYSQL_TYPE_BLOB, False, Some v)"

fun is_text :: "sql_value \<Rightarrow> bool" where
  "is_text (V_string v) = True"
| "is_text (V_data v) = True"
| "is_text v = False"

definition value_bytes :: "sql_value \<Rightarrow> byte list" where
  "value_bytes v = the (snd (snd (sent_value v)))"

text \<open>Whether a value fits its binding, and what it makes of it.\<close>

definition fits :: "sql_value \<Rightarrow> param_bind \<Rightarrow> bool" where
  "fits v b \<longleftrightarrow> (case buffer b of None \<Rightarrow> True | Some old \<Rightarrow> is_text v \<longrightarrow> length (value_bytes v) \<le> length old)"

definition bound_to :: "sql_value \<Rightarrow> param_bind \<Rightarrow> param_bind" where
  "bound_to v b =
    (let (t, u, bytes) = sent_value v
     in b\<lparr>buffer_type := t, is_unsigned := u, buffer_length := length (value_bytes v),
          buffer := Some (case buffer b of None \<Rightarrow> value_bytes v
            | Some old \<Rightarrow> if is_text v then poke old 0 (value_bytes v) else value_bytes v)\<rparr>)"

text \<open>What every push does with its binding.\<close>

fun put_value :: "sql_value \<Rightarrow> param_bind \<Rightarrow> param_bind option" where
  "put_value (V_string v) = fill_buffer MYSQL_TYPE_STRING v"
| "put_value (V_data v) = fill_buffer MYSQL_TYPE_BLOB v"
| "put_value v = (case sent_value v of (t, u, bytes) \<Rightarrow> \<lambda>b. Some (SetParameterValue t (the bytes) u b))"

lemma push_value_put: "push_value v = with_bind (put_value v)"
  by (cases v)
    (simp_all add: sp_pushInt8_def sp_pushUint8_def sp_pushInt16_def sp_pushUint16_def sp_pushInt32_def
      sp_pushUint32_def sp_pushInt64_def sp_pushUint64_def sp_pushFloat_def sp_pushDouble_def
      sp_pushString_def sp_pushData_def sp_write_def)

lemma put_value_bound: "put_value v b = (if fits v b then Some (bound_to v b) else None)"
  by (cases v; cases b)
    (auto simp: fits_def bound_to_def value_bytes_def SetParameterValue_def fill_buffer_def Let_def split: option.splits)

lemma push_value_bind: "push_value v P = with_bind (\<lambda>b. if fits v b then Some (bound_to v b) else None) P"
  by (simp add: push_value_put with_bind_def put_value_bound)

lemma sent_bound: "fits v b \<Longrightarrow> sent_param (bound_to v b) = sent_value v"
  by (cases v) (auto simp: fits_def sent_param_def bound_to_def value_bytes_def split: option.splits)

lemma push_all_eq:
  assumes "sp_widx P \<le> length (sp_bind P)"
  shows "push_all vs P =
    (if length vs \<le> length (sp_bind P) - sp_widx P \<and> list_all2 fits vs (take (length vs) (drop (sp_widx P) (sp_bind P)))
     then Some (P\<lparr>sp_bind := take (sp_widx P) (sp_bind P) @ map2 bound_to vs (drop (sp_widx P) (sp_bind P)) @
            drop (sp_widx P + length vs) (sp_bind P), sp_widx := sp_widx P + length vs\<rparr>)
     else None)"
  using assms
proof (induction vs arbitrary: P)
  case (Cons v vs)
  show ?case
  proof (cases "sp_widx P < length (sp_bind P)")
    case False
    then show ?thesis using Cons.prems by (simp add: push_value_bind with_bind_def)
  next
    case True
    let ?b = "sp_bind P ! sp_widx P"
    have d: "drop (sp_widx P) (sp_bind P) = ?b # drop (Suc (sp_widx P)) (sp_bind P)"
      using True by (simp add: Cons_nth_drop_Suc)
    show ?thesis
    proof (cases "fits v ?b")
      case False
      then show ?thesis using True d by (simp add: push_value_bind with_bind_def)
    next
      case fit: True
      let ?P = "P\<lparr>sp_bind := (sp_bind P)[sp_widx P := bound_to v ?b], sp_widx := sp_widx P + 1\<rparr>"
      have "push_all (v # vs) P = push_all vs ?P" using True fit by (simp add: push_value_bind with_bind_def)
      also have "\<dots> = (if length vs \<le> length (sp_bind P) - Suc (sp_widx P) \<and>
          list_all2 fits vs (take (length vs) (drop (Suc (sp_widx P)) (sp_bind P)))
        then Some (P\<lparr>sp_bind := (take (sp_widx P) (sp_bind P) @ [bound_to v ?b]) @
            map2 bound_to vs (drop (Suc (sp_widx P)) (sp_bind P)) @
            drop (Suc (sp_widx P + length vs)) (sp_bind P), sp_widx := Suc (sp_widx P + length vs)\<rparr>)
        else None)"
        using Cons.IH [of ?P] True by (simp add: take_Suc_conv_app_nth drop_update_cancel)
      finally show ?thesis using True fit d by (simp add: Suc_le_eq) linarith
    qed
  qed
qed simp

lemma fits_fresh: "buffer b = None \<Longrightarrow> fits v b"
  by (simp add: fits_def)

lemma new_statement:
  "sp_widx (sql_prepare_new sql) = 0" "length (sp_bind (sql_prepare_new sql)) = charCount sql 63"
  "i < charCount sql 63 \<Longrightarrow> buffer (sp_bind (sql_prepare_new sql) ! i) = None"
  "i < charCount sql 63 \<Longrightarrow> sent_param (sp_bind (sql_prepare_new sql) ! i) = (MYSQL_TYPE_DECIMAL, False, None)"
  by (simp_all add: sql_prepare_new_def Let_def sent_param_def)

lemma push_all_new:
  "push_all vs (sql_prepare_new sql) =
    (if length vs \<le> charCount sql 63 then
       Some ((sql_prepare_new sql)\<lparr>sp_bind := map2 bound_to vs (sp_bind (sql_prepare_new sql)) @
         drop (length vs) (sp_bind (sql_prepare_new sql)), sp_widx := length vs\<rparr>)
     else None)"
proof -
  have "list_all2 fits vs (take (length vs) (sp_bind (sql_prepare_new sql)))" if "length vs \<le> charCount sql 63"
    using that by (simp add: list_all2_conv_all_nth new_statement fits_fresh)
  then show ?thesis by (simp add: push_all_eq new_statement)
qed

text \<open>On a new statement every value up to the number of question marks becomes the parameter of its
  place, with its type and its bytes; one more is written past the array.\<close>

theorem params_bound:
  "(length vs \<le> charCount sql 63 \<longrightarrow>
     (\<exists>P. push_all vs (sql_prepare_new sql) = Some P \<and>
       map sent_param (sp_bind P) =
         map sent_value vs @ replicate (charCount sql 63 - length vs) (MYSQL_TYPE_DECIMAL, False, None))) \<and>
   (charCount sql 63 < length vs \<longrightarrow> push_all vs (sql_prepare_new sql) = None)"
proof -
  let ?bs = "sp_bind (sql_prepare_new sql)"
  have "map sent_param (map2 bound_to vs ?bs @ drop (length vs) ?bs) =
      map sent_value vs @ replicate (charCount sql 63 - length vs) (MYSQL_TYPE_DECIMAL, False, None)"
    if "length vs \<le> charCount sql 63"
    using that by (intro nth_equalityI) (auto simp: nth_append new_statement sent_bound fits_fresh)
  then show ?thesis by (auto simp: push_all_new)
qed

definition insert_sql :: "byte list" where
  "insert_sql = map (of_nat \<circ> of_char) ''replace into role values(?,?)''"

theorem params_bound_witness:
  "\<exists>P. push_all [V_int64 258, V_string [65, 66]] (sql_prepare_new insert_sql) = Some P \<and>
    map sent_param (sp_bind P) =
      [(MYSQL_TYPE_LONGLONG, False, Some [2, 1, 0, 0, 0, 0, 0, 0]), (MYSQL_TYPE_STRING, False, Some [65, 66])]"
proof -
  have n: "charCount insert_sql 63 = 2" by code_simp
  have m: "mem64 258 = [2, 1, 0, 0, 0, 0, 0, 0]" by code_simp
  show ?thesis
    using params_bound [of "[V_int64 258, V_string [65, 66]]" insert_sql] by (simp add: n m)
qed

text \<open>C28. A statement that is used again must not get a longer text in any place than the first time: the
  bytes would be copied past the end of the old buffer. Otherwise the new values are sent.\<close>

theorem statement_reuse:
  assumes "push_all vs (sql_prepare_new sql) = Some P" "length vs = charCount sql 63" "length ws \<le> length vs"
  shows "if \<exists>i < length ws. is_text (ws ! i) \<and> length (value_bytes (vs ! i)) < length (value_bytes (ws ! i))
    then push_all ws (sp_clear P) = None
    else \<exists>Q. push_all ws (sp_clear P) = Some Q \<and> take (length ws) (map sent_param (sp_bind Q)) = map sent_value ws"
proof -
  have P: "sp_bind P = map2 bound_to vs (sp_bind (sql_prepare_new sql))"
    using assms(1,2) by (auto simp: push_all_new new_statement split: if_splits)
  have len: "length (sp_bind P) = length vs" using assms(2) by (simp add: P new_statement)
  have buf: "buffer (sp_bind P ! i) = Some (value_bytes (vs ! i))" if "i < length vs" for i
    using that assms(2) by (simp add: P new_statement bound_to_def Let_def split: prod.split)
  have fit: "fits (ws ! i) (sp_bind P ! i) \<longleftrightarrow> \<not> (is_text (ws ! i) \<and> length (value_bytes (vs ! i)) < length (value_bytes (ws ! i)))"
    if "i < length ws" for i using that assms(3) by (auto simp: fits_def buf)
  have eq: "push_all ws (sp_clear P) =
      (if list_all2 fits ws (take (length ws) (sp_bind P))
       then Some (P\<lparr>sp_bind := map2 bound_to ws (sp_bind P) @ drop (length ws) (sp_bind P), sp_widx := length ws\<rparr>)
       else None)"
    using push_all_eq [of "sp_clear P" ws] assms(3) len by (simp add: sp_clear_def)
  show ?thesis
  proof (cases "\<exists>i < length ws. is_text (ws ! i) \<and> length (value_bytes (vs ! i)) < length (value_bytes (ws ! i))")
    case True
    then have "\<not> list_all2 fits ws (take (length ws) (sp_bind P))"
      using fit assms(3) len by (auto simp: list_all2_conv_all_nth)
    then show ?thesis using True by (simp add: eq)
  next
    case False
    then have all: "list_all2 fits ws (take (length ws) (sp_bind P))"
      using fit assms(3) len by (auto simp: list_all2_conv_all_nth)
    moreover have "take (length ws) (map sent_param (map2 bound_to ws (sp_bind P) @ drop (length ws) (sp_bind P))) =
        map sent_value ws"
      using assms(3) len False fit by (intro nth_equalityI) (auto simp: sent_bound nth_append)
    ultimately show ?thesis using False by (simp add: eq)
  qed
qed

theorem statement_reuse_witness:
  "\<exists>P. push_all [V_int64 1, V_string [65]] (sql_prepare_new insert_sql) = Some P \<and>
    push_all [V_int64 2, V_string [65, 66]] (sp_clear P) = None \<and>
    (\<exists>Q. push_all [V_int64 2, V_string [66]] (sp_clear P) = Some Q)"
proof -
  have n: "charCount insert_sql 63 = 2" by code_simp
  obtain P where P: "push_all [V_int64 1, V_string [65]] (sql_prepare_new insert_sql) = Some P"
    using push_all_new [of "[V_int64 1, V_string [65]]" insert_sql] by (simp add: n)
  have "push_all [V_int64 2, V_string [65, 66]] (sp_clear P) = None"
  proof -
    have "\<exists>i < length [V_int64 2, V_string [65, 66]]. is_text ([V_int64 2, V_string [65, 66]] ! i) \<and>
        length (value_bytes ([V_int64 1, V_string [65]] ! i)) < length (value_bytes ([V_int64 2, V_string [65, 66]] ! i))"
      by (rule exI [of _ 1]) (simp add: value_bytes_def)
    moreover have "length [V_int64 1, V_string [65]] = charCount insert_sql 63"
        "length [V_int64 2, V_string [65, 66]] \<le> length [V_int64 1, V_string [65]]" by (simp_all add: n)
    moreover have "(if c then A else B) \<Longrightarrow> c \<Longrightarrow> A" for c A B by simp
    ultimately show ?thesis using statement_reuse [OF P] by blast
  qed
  moreover have "\<exists>Q. push_all [V_int64 2, V_string [66]] (sp_clear P) = Some Q"
    using statement_reuse [OF P, of "[V_int64 2, V_string [66]]"]
    by (auto simp: n value_bytes_def less_Suc_eq split: if_splits)
  ultimately show ?thesis using P by blast
qed


section \<open>Reading a result\<close>

text \<open>A cell whose value fits its buffer, and the value.\<close>

definition cell_ok :: "sql_field \<times> sql_cell \<Rightarrow> bool" where
  "cell_ok fc = (case fc of (f, c) \<Rightarrow> cell_null c \<or>
    cell_length c \<le> length (case resultBuffer f of None \<Rightarrow> [] | Some n \<Rightarrow> take n (cell_buffer c)))"

definition cell_value :: "sql_cell \<Rightarrow> byte list" where
  "cell_value c = (if cell_null c then [] else take (cell_length c) (cell_buffer c))"

lemma cell_made:
  assumes "cell_ok (f, c)"
  shows "field_make (if \<not> cell_null c then (case resultBuffer f of None \<Rightarrow> [] | Some n \<Rightarrow> take n (cell_buffer c)) else [])
    (if \<not> cell_null c then cell_length c else 0) = Some (cell_value c)"
  using assms by (auto simp: cell_ok_def field_make_def cell_value_def min_def split: option.splits)

lemma store_cells_spec:
  "\<forall>fc \<in> set fcs. cell_ok fc \<Longrightarrow> row * nf + col + length fcs \<le> length flds \<Longrightarrow> length flds \<le> 2 ^ 32 \<Longrightarrow>
    store_cells nf row col fcs flds =
      Some (take (row * nf + col) flds @ map (\<lambda>fc. Some (cell_value (snd fc))) fcs @
        drop (row * nf + col + length fcs) flds)"
proof (induction fcs arbitrary: col flds)
  case (Cons fc fcs)
  obtain f c where fc: "fc = (f, c)" by (cases fc)
  let ?i = "row * nf + col"
  have i: "?i mod 2 ^ 32 = ?i" "?i < length flds" using Cons.prems by simp_all
  have ok: "cell_ok (f, c)" using Cons.prems(1) fc by simp
  have "store_cells nf row col (fc # fcs) flds = store_cells nf row (col + 1) fcs (flds[?i := Some (cell_value c)])"
    using i by (simp add: fc Let_def cell_made [OF ok, simplified] del: store_cells.simps(1))
  also have "\<dots> = Some (take (?i + 1) (flds[?i := Some (cell_value c)]) @
      map (\<lambda>fc. Some (cell_value (snd fc))) fcs @ drop (?i + 1 + length fcs) (flds[?i := Some (cell_value c)]))"
    using Cons.IH [of "col + 1" "flds[?i := Some (cell_value c)]"] Cons.prems by (simp add: add.assoc)
  finally show ?case using i(2) by (simp add: fc take_Suc_conv_app_nth drop_update_cancel)
qed simp

lemma store_rows_spec:
  assumes "length flds \<le> 2 ^ 32"
  shows "\<forall>cells \<in> set rows. length cells = length fs \<and> (\<forall>fc \<in> set (zip fs cells). cell_ok fc) \<Longrightarrow>
    (row + length rows) * length fs \<le> length flds \<Longrightarrow> length flds \<le> 2 ^ 32 \<Longrightarrow>
    store_rows fs row (map (\<lambda>cells. (0, cells)) rows) flds =
      Some (take (row * length fs) flds @ concat (map (map (\<lambda>c. Some (cell_value c))) rows) @
        drop ((row + length rows) * length fs) flds)"
proof (induction rows arbitrary: row flds)
  case (Cons cells rows)
  let ?n = "length fs"
  let ?vs = "map (\<lambda>c. Some (cell_value c)) cells"
  have len: "length cells = ?n" using Cons.prems(1) by simp
  then have vs: "map (\<lambda>fc. Some (cell_value (snd fc))) (zip fs cells) = ?vs"
    by (intro nth_equalityI) simp_all
  have fit: "row * ?n + ?n \<le> length flds" "(Suc row + length rows) * ?n \<le> length flds"
    using Cons.prems(2) by (simp_all add: algebra_simps)
  have "store_cells ?n row 0 (zip fs cells) flds = Some (take (row * ?n) flds @ ?vs @ drop (row * ?n + ?n) flds)"
    using store_cells_spec [of "zip fs cells" row ?n 0 flds] Cons.prems(1,3) fit(1) len vs by simp
  then have "store_rows fs row (map (\<lambda>cells. (0, cells)) (cells # rows)) flds =
      store_rows fs (Suc row) (map (\<lambda>cells. (0, cells)) rows) (take (row * ?n) flds @ ?vs @ drop (row * ?n + ?n) flds)"
    by (simp add: row_fetched_def)
  moreover have "\<dots> = Some (take (Suc row * ?n) (take (row * ?n) flds @ ?vs @ drop (row * ?n + ?n) flds) @
      concat (map (map (\<lambda>c. Some (cell_value c))) rows) @
      drop ((Suc row + length rows) * ?n) (take (row * ?n) flds @ ?vs @ drop (row * ?n + ?n) flds))"
    using Cons.IH [of "Suc row" "take (row * ?n) flds @ ?vs @ drop (row * ?n + ?n) flds"] Cons.prems fit len by simp
  moreover have "\<not> length flds \<le> row * ?n" if "fs \<noteq> []" using fit(1) that by (cases fs) simp_all
  ultimately show ?case using fit len by (auto simp: min_def algebra_simps)
qed simp

text \<open>The loops of a caller: a row is \<open>nf\<close> strings, and rows are read while there are any.\<close>

fun read_row :: "nat \<Rightarrow> result_set \<Rightarrow> (byte list list \<times> result_set) option" where
  "read_row 0 R = Some ([], R)"
| "read_row (Suc n) R =
    Option.bind (rs_getString R) (\<lambda>(v, R). map_option (\<lambda>(vs, R). (v # vs, R)) (read_row n R))"

fun read_rows :: "nat \<Rightarrow> nat \<Rightarrow> result_set \<Rightarrow> byte list list list option" where
  "read_rows 0 nf R = (if fst (rs_fetch R) then None else Some [])"
| "read_rows (Suc n) nf R =
    (case rs_fetch R of
       (False, R) \<Rightarrow> Some []
     | (True, R) \<Rightarrow> Option.bind (read_row nf R) (\<lambda>(vs, R). map_option (\<lambda>rows. vs # rows) (read_rows n nf R)))"


lemma getField_at:
  assumes "rs_currRowIdx R = int k" "rs_rowCount R = int N" "rs_fieldCount R = int nf" "k < N" "j < nf"
    "N * nf \<le> length (rs_fields R)"
  shows "getField (int j) R = Some (rs_fields R ! (k * nf + j))"
proof -
  have "k * nf + j < Suc k * nf" using assms(5) by simp
  also have "\<dots> \<le> N * nf" using assms(4) by (intro mult_le_mono1) simp
  finally have "k * nf + j < length (rs_fields R)" using assms(6) by linarith
  moreover have "int k * int nf + int j = int (k * nf + j)" by simp
  ultimately show ?thesis using assms unfolding getField_def Let_def by (simp only: nat_int) simp
qed

lemma read_row_spec:
  assumes "rs_currRowIdx R = int k" "rs_rowCount R = int N" "rs_fieldCount R = int nf" "k < N"
    "N * nf \<le> length (rs_fields R)" "\<And>j. j < nf \<Longrightarrow> rs_fields R ! (k * nf + j) = Some (f j)"
  shows "rs_currColIdx R = int j \<Longrightarrow> j + n \<le> nf \<Longrightarrow>
    read_row n R = Some (map f [j..<j + n], R\<lparr>rs_currColIdx := int (j + n)\<rparr>)"
  using assms
proof (induction n arbitrary: R j)
  case (Suc n)
  let ?R = "R\<lparr>rs_currColIdx := int (Suc j)\<rparr>"
  have "getField (int j) R = Some (Some (f j))"
    using getField_at [of R k N nf j] Suc.prems by simp
  then have "rs_getString R = Some (f j, ?R)"
    using Suc.prems(1) by (simp add: rs_getString_def next_field_def)
  moreover have "read_row n ?R = Some (map f [Suc j..<Suc j + n], ?R\<lparr>rs_currColIdx := int (Suc j + n)\<rparr>)"
    by (rule Suc.IH) (use Suc.prems in simp_all)
  ultimately show ?case by (simp add: upt_conv_Cons del: upt_Suc)
qed simp

lemma read_rows_spec:
  assumes "rs_rowCount R = int N" "rs_fieldCount R = int nf" "N * nf \<le> length (rs_fields R)"
    "\<And>k j. k < N \<Longrightarrow> j < nf \<Longrightarrow> rs_fields R ! (k * nf + j) = Some (f k j)"
  shows "rs_currRowIdx R + 1 = int k \<Longrightarrow> k + n = N \<Longrightarrow>
    read_rows n nf R = Some (map (\<lambda>k. map (f k) [0..<nf]) [k..<N])"
  using assms
proof (induction n arbitrary: R k)
  case 0
  then show ?case by (simp add: rs_fetch_def)
next
  case (Suc n)
  let ?R = "R\<lparr>rs_currRowIdx := int k, rs_currColIdx := 0\<rparr>"
  have "rs_fetch R = (True, ?R)" using Suc.prems(1-3) by (simp add: rs_fetch_def)
  moreover have "read_row nf ?R = Some (map (f k) [0..<nf], ?R\<lparr>rs_currColIdx := int nf\<rparr>)"
    using read_row_spec [of ?R k N nf "f k" 0 nf] Suc.prems by simp
  moreover have "read_rows n nf (?R\<lparr>rs_currColIdx := int nf\<rparr>) = Some (map (\<lambda>k. map (f k) [0..<nf]) [Suc k..<N])"
    by (rule Suc.IH) (use Suc.prems in simp_all)
  ultimately show ?case using Suc.prems(2) by (simp add: upt_conv_Cons del: upt_Suc)
qed

lemma nth_concat_rows:
  "\<forall>r \<in> set rows. length r = n \<Longrightarrow> k < length rows \<Longrightarrow> j < n \<Longrightarrow> concat rows ! (k * n + j) = rows ! k ! j"
proof (induction rows arbitrary: k)
  case (Cons r rows)
  then show ?case by (cases k) (auto simp: nth_append algebra_simps)
qed simp

text \<open>A reply of the library: every row is fetched, has a cell for each column, and each value fits the
  buffer that was bound for it.\<close>

definition well_fetched :: "sql_reply \<Rightarrow> sql_field list \<Rightarrow> sql_cell list list \<Rightarrow> bool" where
  "well_fetched r fs rows \<longleftrightarrow> bind_result_ok r \<and> fetches r = map (\<lambda>cells. (0, cells)) rows \<and>
    num_rows r = of_nat (length rows) \<and> length rows < 2 ^ 31 \<and> length fs < 2 ^ 31 \<and> length rows * length fs < 2 ^ 32 \<and>
    (\<forall>cells \<in> set rows. length cells = length fs \<and> (\<forall>fc \<in> set (zip fs cells). cell_ok fc))"

lemma setResult_fetched:
  assumes "well_fetched r fs rows"
  shows "setResult r fs result_set_new = Some (result_set_new\<lparr>rs_rowCount := int (length rows),
    rs_fieldCount := int (length fs), rs_fields := concat (map (map (\<lambda>c. Some (cell_value c))) rows)\<rparr>)"
proof -
  note w = assms [unfolded well_fetched_def]
  let ?n = "length rows * length fs"
  have nf: "sint (of_nat (length fs) :: u32) = int (length fs)"
    using w by (simp add: signed_of_nat signed_take_bit_int_eq_self)
  have rows: "sint (num_rows r) = int (length rows)"
    using w by (simp add: signed_of_nat signed_take_bit_int_eq_self)
  have zero: "num_rows r = 0 \<longleftrightarrow> rows = []"
  proof -
    have "unat (num_rows r) = length rows" using w by (simp add: unsigned_of_nat take_bit_nat_eq_self)
    then show ?thesis using unat_eq_zero [of "num_rows r"] by auto
  qed
  have n: "unat (ucast (num_rows r) * of_nat (length fs) :: u32) = ?n"
  proof -
    have "ucast (num_rows r) = (of_nat (length rows) :: u32)" using w
      by (simp add: unsigned_of_nat take_bit_nat_eq_self)
    then show ?thesis using w by (simp add: unsigned_of_nat take_bit_nat_eq_self flip: of_nat_mult)
  qed
  have "store_rows fs 0 (fetches r) (replicate ?n None) = Some (concat (map (map (\<lambda>c. Some (cell_value c))) rows))"
    using store_rows_spec [of "replicate ?n None" rows fs 0] w by simp
  then show ?thesis using w nf rows zero n
    by (cases "rows = []") (simp_all add: setResult_def Let_def result_set_new_def)
qed

lemma fetched_lengths:
  "well_fetched r fs rows \<Longrightarrow> \<forall>x \<in> set (map (map (\<lambda>c. Some (cell_value c))) rows). length x = length fs"
  by (auto simp: well_fetched_def)

lemma fetched_length:
  assumes "well_fetched r fs rows"
  shows "length (concat (map (map (\<lambda>c. Some (cell_value c))) rows)) = length rows * length fs"
  using fetched_lengths [OF assms] by (induction rows) auto

lemma fetched_field:
  assumes "well_fetched r fs rows" "k < length rows" "j < length fs"
  shows "concat (map (map (\<lambda>c. Some (cell_value c))) rows) ! (k * length fs + j) = Some (cell_value (rows ! k ! j))"
  using nth_concat_rows [OF fetched_lengths [OF assms(1)]] assms fetched_lengths [OF assms(1)] by simp


definition sample_reply :: sql_reply where
  "sample_reply = \<lparr>bind_ok = True, execute_ok = True,
    metadata = Some [\<lparr>fd_type = MYSQL_TYPE_LONG, fd_unsigned = False, fd_length = 11, fd_max_length = 0\<rparr>],
    store_ok = True, num_rows = 2, bind_result_ok = True,
    fetches = [(0, [\<lparr>cell_null = False, cell_buffer = [7, 0, 0, 0], cell_length = 4\<rparr>]),
               (0, [\<lparr>cell_null = True, cell_buffer = [], cell_length = 0\<rparr>])], affected_rows = 2\<rparr>"

definition sample_rows :: "sql_cell list list" where
  "sample_rows = [[\<lparr>cell_null = False, cell_buffer = [7, 0, 0, 0], cell_length = 4\<rparr>],
    [\<lparr>cell_null = True, cell_buffer = [], cell_length = 0\<rparr>]]"

lemma sample_fetched:
  "well_fetched sample_reply [\<lparr>fd_type = MYSQL_TYPE_LONG, fd_unsigned = False, fd_length = 11, fd_max_length = 0\<rparr>] sample_rows"
  by (simp add: well_fetched_def sample_reply_def sample_rows_def cell_ok_def resultBuffer_def)


text \<open>A number is copied from the value of its cell, whatever its length: where the cell is null, or of a
  narrower type, bytes behind its buffer are read. \<open>emptyField\<close>, which a caller would ask first, answers
  that the field is there.\<close>

theorem numbers_over_read:
  assumes "well_fetched r fs rows" "setResult r fs result_set_new = Some R" "k < length rows" "j < length fs"
    and "cell_null (rows ! k ! j)"
  shows "rs_getInt32 (R\<lparr>rs_currRowIdx := int k, rs_currColIdx := int j\<rparr>) = None \<and>
    rs_getInt8 (R\<lparr>rs_currRowIdx := int k, rs_currColIdx := int j\<rparr>) = None \<and>
    emptyField (int j) (R\<lparr>rs_currRowIdx := int k, rs_currColIdx := int j\<rparr>) = Some True"
proof -
  let ?R = "R\<lparr>rs_currRowIdx := int k, rs_currColIdx := int j\<rparr>"
  have R: "R = result_set_new\<lparr>rs_rowCount := int (length rows), rs_fieldCount := int (length fs),
      rs_fields := concat (map (map (\<lambda>c. Some (cell_value c))) rows)\<rparr>"
    using setResult_fetched [OF assms(1)] assms(2) by simp
  have "getField (int j) ?R = Some (rs_fields ?R ! (k * length fs + j))"
    by (rule getField_at [where N = "length rows"]) (use R assms(3,4) fetched_length [OF assms(1)] in simp_all)
  also have "\<dots> = Some (Some [])"
    using fetched_field [OF assms(1,3,4)] assms(5) R by (simp add: cell_value_def)
  finally show ?thesis
    by (simp add: rs_getInt32_def rs_getInt8_def get_number_def next_field_def getValue_def emptyField_def)
qed

theorem numbers_over_read_witness:
  "\<exists>R. setResult sample_reply (the (metadata sample_reply)) result_set_new = Some R \<and>
    rs_getInt32 (R\<lparr>rs_currRowIdx := 1, rs_currColIdx := 0\<rparr>) = None"
proof -
  let ?fs = "[\<lparr>fd_type = MYSQL_TYPE_LONG, fd_unsigned = False, fd_length = 11, fd_max_length = 0\<rparr>] :: sql_field list"
  obtain R where R: "setResult sample_reply ?fs result_set_new = Some R"
    using setResult_fetched [OF sample_fetched] by blast
  have "rs_getInt32 (R\<lparr>rs_currRowIdx := int 1, rs_currColIdx := int 0\<rparr>) = None"
    using numbers_over_read [OF sample_fetched R, of 1 0] by (simp add: sample_rows_def)
  then show ?thesis using R by (simp add: sample_reply_def)
qed


section \<open>Plain queries\<close>

text \<open>src/dal/db/MysqlResult.cpp and DB_Interface_mysql.cpp, over the functions of the client library on
  results.\<close>

record 'r mysql_api =
  fetch_row :: "'r \<Rightarrow> byte list option list option \<times> 'r"
  fetch_lengths :: "'r \<Rightarrow> nat list option"
  res_num_rows :: "'r \<Rightarrow> u64"
  res_num_fields :: "'r \<Rightarrow> u32"

record 'r mysql_result =
  pResult :: "'r option"
  mr_pos :: nat
  mr_lengths :: "nat list option"
  aRow :: "byte list option list option"

definition mysql_result_new :: "'r mysql_result" where
  "mysql_result_new = \<lparr>pResult = None, mr_pos = 0, mr_lengths = None, aRow = None\<rparr>"

definition mr_setResult :: "'r mysql_api \<Rightarrow> 'r option \<Rightarrow> 'r mysql_result \<Rightarrow> 'r mysql_result" where
  "mr_setResult A result R =
    R\<lparr>pResult := result, mr_lengths := (case result of None \<Rightarrow> None | Some r \<Rightarrow> fetch_lengths A r)\<rparr>"

definition mr_isEmpty :: "'r mysql_result \<Rightarrow> bool" where
  "mr_isEmpty R \<longleftrightarrow> pResult R = None"

text \<open>The library does not accept a null result.\<close>

definition mr_fetch :: "'r mysql_api \<Rightarrow> 'r mysql_result \<Rightarrow> (bool \<times> 'r mysql_result) option" where
  "mr_fetch A R =
    map_option (\<lambda>r. case fetch_row A r of (row, r) \<Rightarrow>
        (row \<noteq> None, R\<lparr>mr_pos := 0, pResult := Some r, aRow := row\<rparr>)) (pResult R)"

definition mr_getRowCount :: "'r mysql_api \<Rightarrow> 'r mysql_result \<Rightarrow> u32 option" where
  "mr_getRowCount A R = map_option (\<lambda>r. ucast (res_num_rows A r)) (pResult R)"

definition mr_getFieldsCount :: "'r mysql_api \<Rightarrow> 'r mysql_result \<Rightarrow> u32 option" where
  "mr_getFieldsCount A R = map_option (res_num_fields A) (pResult R)"

definition mr_getData :: "'r mysql_result \<Rightarrow> (byte list option \<times> 'r mysql_result) option" where
  "mr_getData R =
    (case aRow R of
       None \<Rightarrow> None
     | Some row \<Rightarrow> if mr_pos R < length row then Some (row ! mr_pos R, R\<lparr>mr_pos := mr_pos R + 1\<rparr>) else None)"

definition mr_getData_len :: "'r mysql_result \<Rightarrow> (nat \<times> byte list option \<times> 'r mysql_result) option" where
  "mr_getData_len R =
    (case mr_lengths R of
       None \<Rightarrow> None
     | Some ls \<Rightarrow> if mr_pos R < length ls then map_option (\<lambda>(d, R'). (ls ! mr_pos R, d, R')) (mr_getData R) else None)"

text \<open>\<open>query\<close>: the answer to the bytes sent, with the result to store, if there is one.\<close>

definition mysql_execute ::
    "'r mysql_api \<Rightarrow> (byte list \<Rightarrow> int \<times> 'r option) \<Rightarrow> byte list \<Rightarrow> i32 \<Rightarrow> 'r mysql_result \<Rightarrow> int \<times> 'r mysql_result" where
  "mysql_execute A query cmd len R =
    (let queryLen = (if sint len \<le> 0 then length (takeWhile (\<lambda>b. b \<noteq> 0) cmd) else nat (sint len));
         (nResult, stored) = query (take queryLen cmd)
     in if nResult \<noteq> 0 then (- 1, R) else (0, mr_setResult A stored R))"

definition mysql_connect :: "bool \<Rightarrow> bool \<Rightarrow> bool \<Rightarrow> bool" where
  "mysql_connect charset_set reconnect_set connected \<longleftrightarrow> charset_set \<and> reconnect_set \<and> connected"

lemma mr_fetch_lengths: "mr_fetch A R = Some (b, R') \<Longrightarrow> mr_lengths R' = mr_lengths R"
  by (cases "pResult R") (auto simp: mr_fetch_def split: prod.splits)

text \<open>The lengths of the values are asked for when the result arrives, before a row is fetched, when the
  library has none and answers null; so every access that wants a length follows a null pointer.\<close>

theorem lengths_too_early:
  assumes "query (takeWhile (\<lambda>b. b \<noteq> 0) cmd) = (0, Some r)" "fetch_lengths A r = None"
    and "mysql_execute A query cmd 0 R = (0, R1)" "mr_fetch A R1 = Some (True, R2)"
  shows "mr_getData_len R2 = None"
proof -
  have "take (length (takeWhile (\<lambda>b. b \<noteq> 0) cmd)) cmd = takeWhile (\<lambda>b. b \<noteq> 0) cmd"
    by (metis append_eq_conv_conj takeWhile_dropWhile_id)
  then have "R1 = mr_setResult A (Some r) R" using assms(1,3) by (simp add: mysql_execute_def Let_def)
  then have "mr_lengths R1 = None" using assms(2) by (simp add: mr_setResult_def)
  moreover have "mr_lengths R2 = mr_lengths R1" by (rule mr_fetch_lengths [OF assms(4)])
  ultimately show ?thesis by (simp add: mr_getData_len_def)
qed

text \<open>A library whose results are lists of rows with the row fetched last.\<close>

definition rows_api :: "(byte list option list list \<times> byte list option list option) mysql_api" where
  "rows_api = \<lparr>fetch_row = (\<lambda>(rows, c). case rows of [] \<Rightarrow> (None, ([], None)) | r # rs \<Rightarrow> (Some r, (rs, Some r))),
    fetch_lengths = (\<lambda>(rows, c). map_option (map (\<lambda>v. case v of None \<Rightarrow> 0 | Some b \<Rightarrow> length b)) c),
    res_num_rows = (\<lambda>(rows, c). of_nat (length rows)), res_num_fields = (\<lambda>_. 1)\<rparr>"

theorem lengths_too_early_witness:
  "\<exists>R1 R2. mysql_execute rows_api (\<lambda>_. (0, Some ([[Some [65]]], None))) [83, 0] 0 mysql_result_new = (0, R1) \<and>
    mr_fetch rows_api R1 = Some (True, R2) \<and> mr_getData_len R2 = None"
proof -
  let ?r = "([[Some [65]]], None) :: byte list option list list \<times> byte list option list option"
  let ?R1 = "mr_setResult rows_api (Some ?r) mysql_result_new"
  have e: "mysql_execute rows_api (\<lambda>_. (0, Some ?r)) [83, 0] 0 mysql_result_new = (0, ?R1)"
    by (simp add: mysql_execute_def)
  obtain R2 where R2: "mr_fetch rows_api ?R1 = Some (True, R2)"
    by (simp add: mr_fetch_def mr_setResult_def rows_api_def)
  have "mr_getData_len R2 = None"
    by (rule lengths_too_early [where r = ?r, OF _ _ e R2]) (simp_all add: rows_api_def)
  then show ?thesis using e R2 by blast
qed

end
