(* ===== verification/Redis_Access.thy ===== *)
theory Redis_Access
  imports Byte_Order Json
begin

text \<open>
  The redis access of src/dal/redis: commands (RedisCommand.cpp), replies (RedisResult), the connection
  (DB_Interface_redis.cpp) and the data access object over them (RedisDAO.hpp). The hiredis library and
  the server behind it are an argument, a context being its own type; reading through a null reply or a
  null context, past the elements of a reply or past its bytes is undefined (\<open>None\<close>).
\<close>

section \<open>Commands\<close>

definition to_bytes :: "string \<Rightarrow> byte list" where
  "to_bytes s = map (\<lambda>c. of_nat (of_char c)) s"

record redis_command =
  rc_param :: "byte list list"
  rc_len :: "nat list"

definition rc_append :: "byte list \<Rightarrow> redis_command \<Rightarrow> redis_command" where
  "rc_append p C = C\<lparr>rc_param := rc_param C @ [p], rc_len := rc_len C @ [length p]\<rparr>"

definition rc_new :: "byte list \<Rightarrow> redis_command" where
  "rc_new cmd = rc_append (takeWhile (\<lambda>b. b \<noteq> 0) cmd) \<lparr>rc_param = [], rc_len = []\<rparr>"

definition rc_pushInt8 :: "byte \<Rightarrow> redis_command \<Rightarrow> redis_command" where "rc_pushInt8 v = rc_append [v]"
definition rc_pushUint8 :: "byte \<Rightarrow> redis_command \<Rightarrow> redis_command" where "rc_pushUint8 v = rc_append [v]"
definition rc_pushInt16 :: "u16 \<Rightarrow> redis_command \<Rightarrow> redis_command" where "rc_pushInt16 v = rc_append (mem16 v)"
definition rc_pushUint16 :: "u16 \<Rightarrow> redis_command \<Rightarrow> redis_command" where "rc_pushUint16 v = rc_append (mem16 v)"
definition rc_pushInt32 :: "u32 \<Rightarrow> redis_command \<Rightarrow> redis_command" where "rc_pushInt32 v = rc_append (mem32 v)"
definition rc_pushUint32 :: "u32 \<Rightarrow> redis_command \<Rightarrow> redis_command" where "rc_pushUint32 v = rc_append (mem32 v)"
definition rc_pushInt64 :: "u64 \<Rightarrow> redis_command \<Rightarrow> redis_command" where "rc_pushInt64 v = rc_append (mem64 v)"
definition rc_pushUint64 :: "u64 \<Rightarrow> redis_command \<Rightarrow> redis_command" where "rc_pushUint64 v = rc_append (mem64 v)"
definition rc_pushFloat :: "u32 \<Rightarrow> redis_command \<Rightarrow> redis_command" where "rc_pushFloat v = rc_append (mem32 v)"
definition rc_pushDouble :: "u64 \<Rightarrow> redis_command \<Rightarrow> redis_command" where "rc_pushDouble v = rc_append (mem64 v)"
definition rc_pushString :: "byte list \<Rightarrow> redis_command \<Rightarrow> redis_command" where "rc_pushString v = rc_append v"
definition rc_pushData :: "byte list \<Rightarrow> redis_command \<Rightarrow> redis_command" where "rc_pushData v = rc_append v"

definition rc_length :: "redis_command \<Rightarrow> nat" where
  "rc_length C = length (rc_len C)"

text \<open>The arguments as \<open>argv\<close> and \<open>argvlen\<close> give them to the library.\<close>

definition rc_argv :: "redis_command \<Rightarrow> byte list list" where
  "rc_argv C = map2 take (rc_len C) (rc_param C)"

text \<open>\<open>tostr\<close> ends the first parameter with a zero, which stays.\<close>

definition rc_tostr :: "redis_command \<Rightarrow> byte list \<times> redis_command" where
  "rc_tostr C =
    (let C = C\<lparr>rc_param := (rc_param C)[0 := rc_param C ! 0 @ [0]]\<rparr>
     in (takeWhile (\<lambda>b. b \<noteq> 0) (rc_param C ! 0), C))"

section \<open>Replies\<close>

datatype redis_reply = Reply (rr_type: int) (rr_str: "byte list option") (rr_elements: "redis_reply list")

abbreviation REDIS_REPLY_STRING :: int where "REDIS_REPLY_STRING \<equiv> 1"
abbreviation REDIS_REPLY_ARRAY :: int where "REDIS_REPLY_ARRAY \<equiv> 2"
abbreviation REDIS_REPLY_INTEGER :: int where "REDIS_REPLY_INTEGER \<equiv> 3"
abbreviation REDIS_REPLY_NIL :: int where "REDIS_REPLY_NIL \<equiv> 4"
abbreviation REDIS_REPLY_STATUS :: int where "REDIS_REPLY_STATUS \<equiv> 5"

record redis_result =
  rs_reply :: "redis_reply option"
  rs_pos :: nat

definition redis_result_new :: redis_result where
  "redis_result_new = \<lparr>rs_reply = None, rs_pos = 0\<rparr>"

definition rr_setResult :: "redis_reply option \<Rightarrow> redis_result \<Rightarrow> redis_result" where
  "rr_setResult r R = R\<lparr>rs_reply := r\<rparr>"

definition rr_isEmpty :: "redis_result \<Rightarrow> bool" where
  "rr_isEmpty R = (case rs_reply R of None \<Rightarrow> True | Some r \<Rightarrow> rr_str r = None \<and> rr_elements r = [])"

definition rr_getRowCount :: "redis_result \<Rightarrow> nat option" where
  "rr_getRowCount R =
    map_option (\<lambda>r. if rr_str r \<noteq> None then 1 else length (rr_elements r)) (rs_reply R)"

definition rr_getFieldsCount :: "redis_result \<Rightarrow> nat option" where
  "rr_getFieldsCount R = rr_getRowCount R"

definition rr_fetch :: "redis_result \<Rightarrow> bool option" where
  "rr_fetch R = map_option (\<lambda>n. \<not> rs_pos R \<ge> n) (rr_getRowCount R)"

text \<open>The bytes the code looks at: those of the reply, or of its current element, which may have none.\<close>

definition current_str :: "redis_result \<Rightarrow> byte list option option" where
  "current_str R =
    (case rs_reply R of
       None \<Rightarrow> None
     | Some r \<Rightarrow>
         if rr_str r \<noteq> None then Some (rr_str r)
         else if rs_pos R < length (rr_elements r) then Some (rr_str (rr_elements r ! rs_pos R))
         else None)"

definition rr_getData :: "redis_result \<Rightarrow> (byte list option \<times> redis_result) option" where
  "rr_getData R = map_option (\<lambda>s. (s, R\<lparr>rs_pos := rs_pos R + 1\<rparr>)) (current_str R)"

text \<open>The view of a null pointer with a length of zero is empty.\<close>

definition rr_getStream :: "redis_result \<Rightarrow> (byte list \<times> redis_result) option" where
  "rr_getStream R = map_option (\<lambda>(p, R). (case p of None \<Rightarrow> [] | Some s \<Rightarrow> s, R)) (rr_getData R)"

text \<open>\<open>>>\<close> into a number copies its size from the bytes.\<close>

definition rr_read :: "nat \<Rightarrow> 'a::len word \<Rightarrow> redis_result \<Rightarrow> ('a word \<times> redis_result) option" where
  "rr_read n t R =
    (case rr_getFieldsCount R of
       None \<Rightarrow> None
     | Some k \<Rightarrow>
         if rs_pos R \<ge> k then Some (t, R)
         else case current_str R of
                Some (Some p) \<Rightarrow>
                  if n \<le> length p then Some (load (take n p), R\<lparr>rs_pos := rs_pos R + 1\<rparr>) else None
              | _ \<Rightarrow> None)"

text \<open>\<open>>>\<close> into a string takes the first word of the bytes up to a zero; without one the string stays.\<close>

definition byte_space :: "byte \<Rightarrow> bool" where
  "byte_space b \<longleftrightarrow> b = 32 \<or> 9 \<le> b \<and> b \<le> 13"

definition first_word :: "byte list \<Rightarrow> byte list" where
  "first_word p = takeWhile (\<lambda>b. \<not> byte_space b) (dropWhile byte_space (takeWhile (\<lambda>b. b \<noteq> 0) p))"

definition rr_read_string :: "byte list \<Rightarrow> redis_result \<Rightarrow> (byte list \<times> redis_result) option" where
  "rr_read_string t R =
    (case rr_getFieldsCount R of
       None \<Rightarrow> None
     | Some k \<Rightarrow>
         if rs_pos R \<ge> k then Some (t, R)
         else case current_str R of
                Some (Some p) \<Rightarrow>
                  Some (if first_word p = [] then t else first_word p, R\<lparr>rs_pos := rs_pos R + 1\<rparr>)
              | _ \<Rightarrow> None)"

definition rr_getObject :: "(byte list \<Rightarrow> 'o) \<Rightarrow> redis_result \<Rightarrow> 'o option" where
  "rr_getObject fromString R =
    (case rs_reply R of
       None \<Rightarrow> None
     | Some r \<Rightarrow>
         if rr_type r = REDIS_REPLY_NIL then None
         else if rr_type r \<noteq> REDIS_REPLY_STRING then None
         else map_option fromString (rr_str r))"

definition rr_getObjects :: "(byte list \<Rightarrow> 'o) \<Rightarrow> redis_result \<Rightarrow> 'o list" where
  "rr_getObjects fromString R =
    (case rs_reply R of
       None \<Rightarrow> []
     | Some r \<Rightarrow>
         if rr_type r \<noteq> REDIS_REPLY_ARRAY then []
         else concat (map (\<lambda>e. if rr_type e \<noteq> REDIS_REPLY_STRING then []
                               else case rr_str e of None \<Rightarrow> [] | Some s \<Rightarrow> [fromString s]) (rr_elements r)))"

definition rr_replyType :: "redis_result \<Rightarrow> int" where
  "rr_replyType R = (case rs_reply R of None \<Rightarrow> - 1 | Some r \<Rightarrow> rr_type r)"

section \<open>The connection\<close>

text \<open>The library: the error of a context, a command with its arguments, and one given as a format.\<close>

record 'c hiredis =
  ctx_err :: "'c \<Rightarrow> int"
  commandArgv :: "byte list list \<Rightarrow> 'c \<Rightarrow> redis_reply option \<times> 'c"
  command :: "byte list \<Rightarrow> 'c \<Rightarrow> redis_reply option \<times> 'c"

text \<open>\<open>c\<close> is the context \<open>redisConnect\<close> gives; the state of the connection is \<open>m_context\<close>.\<close>

definition redis_connect :: "'c hiredis \<Rightarrow> 'c \<Rightarrow> 'c option \<Rightarrow> bool \<times> 'c option" where
  "redis_connect H c ctx = (if ctx_err H c \<noteq> 0 then (False, ctx) else (True, Some c))"

definition redis_detach :: "'c option \<Rightarrow> bool \<times> 'c option" where
  "redis_detach ctx = (True, None)"

definition redis_getErrno :: "'c hiredis \<Rightarrow> 'c option \<Rightarrow> int" where
  "redis_getErrno H ctx = (case ctx of None \<Rightarrow> 0 | Some c \<Rightarrow> ctx_err H c)"

definition redis_query :: "'c hiredis \<Rightarrow> byte list \<Rightarrow> 'c option \<Rightarrow> redis_result \<Rightarrow> (int \<times> 'c option \<times> redis_result) option" where
  "redis_query H cmd ctx R =
    (case ctx of
       None \<Rightarrow> None
     | Some c \<Rightarrow>
         let (reply, c) = command H cmd c
         in if ctx_err H c \<noteq> 0 then Some (- 1, Some c, R) else Some (0, Some c, rr_setResult reply R))"

definition PONG :: "byte list" where "PONG = to_bytes ''PONG''"

definition redis_ping :: "'c hiredis \<Rightarrow> 'c option \<Rightarrow> bool \<times> 'c option" where
  "redis_ping H ctx =
    (case ctx of
       None \<Rightarrow> (False, None)
     | Some c \<Rightarrow>
         let (reply, c) = command H (to_bytes ''ping'') c
         in case reply of
              None \<Rightarrow> (False, Some c)
            | Some r \<Rightarrow>
                (rr_type r = REDIS_REPLY_STATUS \<and> map_option (takeWhile (\<lambda>b. b \<noteq> 0)) (rr_str r) = Some PONG, Some c))"

definition redis_execute ::
    "'c hiredis \<Rightarrow> redis_command \<Rightarrow> 'c option \<Rightarrow> redis_result \<Rightarrow> (int \<times> redis_command \<times> 'c option \<times> redis_result) option" where
  "redis_execute H C ctx R =
    (case ctx of
       None \<Rightarrow> None
     | Some c \<Rightarrow>
         let ((reply, c), C) =
           (if rc_length C > 1 then (commandArgv H (rc_argv C) c, C)
            else case rc_tostr C of (fmt, C) \<Rightarrow> (command H fmt c, C))
         in if ctx_err H c \<noteq> 0 then Some (- 1, C, Some c, R) else Some (0, C, Some c, rr_setResult reply R))"

section \<open>The data access object\<close>

text \<open>\<open>m_db\<close> may be null; otherwise its context may be.\<close>

type_synonym 'c redis_db = "'c option option"

definition makeKey :: "byte list \<Rightarrow> byte list \<Rightarrow> byte list" where
  "makeKey prefix key = prefix @ [58] @ key"

definition dao_exec :: "'c hiredis \<Rightarrow> redis_command \<Rightarrow> 'c redis_db \<Rightarrow> (bool \<times> 'c redis_db \<times> redis_result) option" where
  "dao_exec H C db =
    (case db of
       None \<Rightarrow> Some (False, None, redis_result_new)
     | Some ctx \<Rightarrow>
         map_option (\<lambda>(ret, _, ctx, R). (\<not> ret < 0, Some ctx, R)) (redis_execute H C ctx redis_result_new))"

definition dao_find_one ::
    "'c hiredis \<Rightarrow> (byte list \<Rightarrow> 'o) \<Rightarrow> byte list \<Rightarrow> byte list \<Rightarrow> 'c redis_db \<Rightarrow> ('o option \<times> 'c redis_db) option" where
  "dao_find_one H fromString prefix key db =
    (let cmd = rc_pushString (makeKey prefix key) (rc_new (to_bytes ''GET''))
     in map_option (\<lambda>(ok, db, R). (if \<not> ok then None else rr_getObject fromString R, db)) (dao_exec H cmd db))"

definition dao_update ::
    "'c hiredis \<Rightarrow> ('o \<Rightarrow> byte list) \<Rightarrow> byte list \<Rightarrow> byte list \<Rightarrow> 'o \<Rightarrow> 'c redis_db \<Rightarrow> (bool \<times> 'c redis_db) option" where
  "dao_update H toString prefix key obj db =
    (let cmd = rc_pushData (toString obj) (rc_pushString (makeKey prefix key) (rc_new (to_bytes ''SET'')))
     in map_option (\<lambda>(ok, db, R). (ok \<and> rr_replyType R = REDIS_REPLY_STATUS, db)) (dao_exec H cmd db))"

definition dao_remove :: "'c hiredis \<Rightarrow> byte list \<Rightarrow> byte list \<Rightarrow> 'c redis_db \<Rightarrow> (bool \<times> 'c redis_db) option" where
  "dao_remove H prefix key db =
    (let cmd = rc_pushString (makeKey prefix key) (rc_new (to_bytes ''DEL''))
     in map_option (\<lambda>(ok, db, R). (ok \<and> rr_replyType R = REDIS_REPLY_INTEGER, db)) (dao_exec H cmd db))"

text \<open>The overloads for numbers use their decimal text as the key.\<close>

definition id_key :: "i64 \<Rightarrow> byte list" where
  "id_key i = to_bytes (int_to_string (sint i))"

text \<open>The connection that objects without one of their own use, from src/dal/Dal.cpp: it is null when
  connecting failed. The object takes the connection when it is made.\<close>

definition initDB :: "('d \<Rightarrow> bool \<times> 'd) \<Rightarrow> 'd \<Rightarrow> 'd option" where
  "initDB connect obj = (case connect obj of (ret, obj) \<Rightarrow> if ret then Some obj else None)"

definition cache_init :: "'c hiredis \<Rightarrow> 'c \<Rightarrow> bool \<times> 'c redis_db" where
  "cache_init H c = (let redis = initDB (redis_connect H c) None in (redis \<noteq> None, redis))"

definition dao_new :: "'c redis_db \<Rightarrow> 'c redis_db \<Rightarrow> 'c redis_db" where
  "dao_new db redis = (if db \<noteq> None then db else redis)"

lemma dao_new_cache:
  "dao_new None (snd (cache_init H c)) = (if ctx_err H c = 0 then Some (Some c) else None)"
  by (simp add: dao_new_def cache_init_def initDB_def redis_connect_def)

section \<open>Objects in the server\<close>

datatype 'o dao_op = Update "byte list" 'o | Remove "byte list" | Find "byte list"

datatype 'o dao_out = Done bool | Found "'o option"

fun dao_step ::
    "'c hiredis \<Rightarrow> ('o \<Rightarrow> byte list) \<Rightarrow> (byte list \<Rightarrow> 'o) \<Rightarrow> byte list \<Rightarrow> 'o dao_op \<Rightarrow> 'c redis_db \<Rightarrow> ('o dao_out \<times> 'c redis_db) option" where
  "dao_step H enc dec prefix (Update k x) db = map_option (\<lambda>(ok, db). (Done ok, db)) (dao_update H enc prefix k x db)"
| "dao_step H enc dec prefix (Remove k) db = map_option (\<lambda>(ok, db). (Done ok, db)) (dao_remove H prefix k db)"
| "dao_step H enc dec prefix (Find k) db = map_option (\<lambda>(r, db). (Found r, db)) (dao_find_one H dec prefix k db)"

fun dao_run ::
    "'c hiredis \<Rightarrow> ('o \<Rightarrow> byte list) \<Rightarrow> (byte list \<Rightarrow> 'o) \<Rightarrow> byte list \<Rightarrow> 'o dao_op list \<Rightarrow> 'c redis_db \<Rightarrow> ('o dao_out list \<times> 'c redis_db) option" where
  "dao_run H enc dec prefix [] db = Some ([], db)"
| "dao_run H enc dec prefix (p # ps) db =
    Option.bind (dao_step H enc dec prefix p db) (\<lambda>(r, db).
      map_option (\<lambda>(rs, db). (r # rs, db)) (dao_run H enc dec prefix ps db))"

text \<open>The abstract object: a map.\<close>

fun map_step :: "'o dao_op \<Rightarrow> (byte list \<rightharpoonup> 'o) \<Rightarrow> 'o dao_out \<times> (byte list \<rightharpoonup> 'o)" where
  "map_step (Update k x) m = (Done True, m(k \<mapsto> x))"
| "map_step (Remove k) m = (Done True, m(k := None))"
| "map_step (Find k) m = (Found (m k), m)"

fun map_run :: "'o dao_op list \<Rightarrow> (byte list \<rightharpoonup> 'o) \<Rightarrow> 'o dao_out list \<times> (byte list \<rightharpoonup> 'o)" where
  "map_run [] m = ([], m)"
| "map_run (p # ps) m = (case map_step p m of (r, m) \<Rightarrow> case map_run ps m of (rs, m) \<Rightarrow> (r # rs, m))"

text \<open>What redis and hiredis document of the three commands, for a server nobody else writes to, where
  \<open>view\<close> is the string the server holds for each key: a context has an error after the command, or
  the server has done it. A context with an error keeps it.\<close>

definition redis_serves :: "'c hiredis \<Rightarrow> ('c \<Rightarrow> byte list \<rightharpoonup> byte list) \<Rightarrow> bool" where
  "redis_serves H view \<longleftrightarrow>
    (\<forall>args c. ctx_err H c \<noteq> 0 \<longrightarrow> ctx_err H (snd (commandArgv H args c)) \<noteq> 0) \<and>
    (\<forall>k v c. let (reply, c') = commandArgv H [to_bytes ''SET'', k, v] c
      in ctx_err H c' = 0 \<longrightarrow> map_option rr_type reply = Some REDIS_REPLY_STATUS \<and> view c' = (view c)(k \<mapsto> v)) \<and>
    (\<forall>k c. let (reply, c') = commandArgv H [to_bytes ''DEL'', k] c
      in ctx_err H c' = 0 \<longrightarrow> map_option rr_type reply = Some REDIS_REPLY_INTEGER \<and> view c' = (view c)(k := None)) \<and>
    (\<forall>k c. let (reply, c') = commandArgv H [to_bytes ''GET'', k] c
      in ctx_err H c' = 0 \<longrightarrow> view c' = view c \<and>
        reply = Some (case view c k of None \<Rightarrow> Reply REDIS_REPLY_NIL None [] | Some v \<Rightarrow> Reply REDIS_REPLY_STRING (Some v) []))"

lemma command_text: "takeWhile (\<lambda>b. b \<noteq> 0) (to_bytes ''GET'') = to_bytes ''GET''"
  "takeWhile (\<lambda>b. b \<noteq> 0) (to_bytes ''SET'') = to_bytes ''SET''"
  "takeWhile (\<lambda>b. b \<noteq> 0) (to_bytes ''DEL'') = to_bytes ''DEL''"
  by (simp_all add: to_bytes_def)

text \<open>The arguments each operation sends.\<close>

fun op_args :: "('o \<Rightarrow> byte list) \<Rightarrow> byte list \<Rightarrow> 'o dao_op \<Rightarrow> byte list list" where
  "op_args enc prefix (Update k x) = [to_bytes ''SET'', makeKey prefix k, enc x]"
| "op_args enc prefix (Remove k) = [to_bytes ''DEL'', makeKey prefix k]"
| "op_args enc prefix (Find k) = [to_bytes ''GET'', makeKey prefix k]"

fun op_out :: "(byte list \<Rightarrow> 'o) \<Rightarrow> 'o dao_op \<Rightarrow> redis_reply option \<Rightarrow> 'o dao_out" where
  "op_out dec (Update k x) r = Done (map_option rr_type r = Some REDIS_REPLY_STATUS)"
| "op_out dec (Remove k) r = Done (map_option rr_type r = Some REDIS_REPLY_INTEGER)"
| "op_out dec (Find k) r = Found (rr_getObject dec (rr_setResult r redis_result_new))"

fun op_failed :: "'o dao_op \<Rightarrow> 'o dao_out" where
  "op_failed (Find k) = Found None"
| "op_failed p = Done False"

lemma dao_step_connected:
  "dao_step H enc dec prefix p (Some (Some c)) =
    (let (reply, c') = commandArgv H (op_args enc prefix p) c
     in Some (if ctx_err H c' = 0 then op_out dec p reply else op_failed p, Some (Some c')))"
proof -
  have t: "rr_replyType (rr_setResult r redis_result_new) = k \<longleftrightarrow> map_option rr_type r = Some k" if "k \<noteq> - 1" for r k
    using that by (auto simp: rr_replyType_def rr_setResult_def redis_result_new_def split: option.splits)
  show ?thesis
    by (cases p)
      (auto simp: dao_update_def dao_remove_def dao_find_one_def dao_exec_def redis_execute_def Let_def rc_length_def
        rc_argv_def rc_new_def rc_pushString_def rc_pushData_def rc_append_def command_text t split: prod.splits)
qed


definition holds :: "('c \<Rightarrow> byte list \<rightharpoonup> byte list) \<Rightarrow> ('o \<Rightarrow> byte list) \<Rightarrow> byte list \<Rightarrow> 'c \<Rightarrow> (byte list \<rightharpoonup> 'o) \<Rightarrow> bool" where
  "holds view enc prefix c m \<longleftrightarrow> (\<forall>k. view c (makeKey prefix k) = map_option enc (m k))"

lemma makeKey_inj [simp]: "makeKey p k = makeKey p k' \<longleftrightarrow> k = k'"
  by (simp add: makeKey_def)

lemma serves_set:
  assumes "redis_serves H view" "commandArgv H [to_bytes ''SET'', k, v] c = (reply, c')" "ctx_err H c' = 0"
  shows "map_option rr_type reply = Some REDIS_REPLY_STATUS \<and> view c' = (view c)(k \<mapsto> v)"
proof -
  have "let (reply, c') = commandArgv H [to_bytes ''SET'', k, v] c
    in ctx_err H c' = 0 \<longrightarrow> map_option rr_type reply = Some REDIS_REPLY_STATUS \<and> view c' = (view c)(k \<mapsto> v)"
    using assms(1) unfolding redis_serves_def by blast
  then show ?thesis using assms(2,3) by (simp only: Let_def prod.case)
qed

lemma serves_del:
  assumes "redis_serves H view" "commandArgv H [to_bytes ''DEL'', k] c = (reply, c')" "ctx_err H c' = 0"
  shows "map_option rr_type reply = Some REDIS_REPLY_INTEGER \<and> view c' = (view c)(k := None)"
proof -
  have "let (reply, c') = commandArgv H [to_bytes ''DEL'', k] c
    in ctx_err H c' = 0 \<longrightarrow> map_option rr_type reply = Some REDIS_REPLY_INTEGER \<and> view c' = (view c)(k := None)"
    using assms(1) unfolding redis_serves_def by blast
  then show ?thesis using assms(2,3) by (simp only: Let_def prod.case)
qed

lemma serves_get:
  assumes "redis_serves H view" "commandArgv H [to_bytes ''GET'', k] c = (reply, c')" "ctx_err H c' = 0"
  shows "view c' = view c \<and> reply = Some (case view c k of None \<Rightarrow> Reply REDIS_REPLY_NIL None []
    | Some v \<Rightarrow> Reply REDIS_REPLY_STRING (Some v) [])"
proof -
  have "let (reply, c') = commandArgv H [to_bytes ''GET'', k] c
    in ctx_err H c' = 0 \<longrightarrow> view c' = view c \<and>
      reply = Some (case view c k of None \<Rightarrow> Reply REDIS_REPLY_NIL None [] | Some v \<Rightarrow> Reply REDIS_REPLY_STRING (Some v) [])"
    using assms(1) unfolding redis_serves_def by blast
  then show ?thesis using assms(2,3) by (simp only: Let_def prod.case)
qed

lemma serves_error:
  "redis_serves H view \<Longrightarrow> ctx_err H c \<noteq> 0 \<Longrightarrow> ctx_err H (snd (commandArgv H args c)) \<noteq> 0"
  unfolding redis_serves_def by blast

lemma dao_step_refines:
  assumes "redis_serves H view" "\<And>x. dec (enc x) = x" "holds view enc prefix c m"
    and "dao_step H enc dec prefix p (Some (Some c)) = Some (r, db)" "db = Some (Some c')" "ctx_err H c' = 0"
  shows "r = fst (map_step p m) \<and> holds view enc prefix c' (snd (map_step p m)) \<and>
    (\<forall>key. (\<forall>k. key \<noteq> makeKey prefix k) \<longrightarrow> view c' key = view c key)"
proof -
  obtain reply where cmd: "commandArgv H (op_args enc prefix p) c = (reply, c')" and r: "r = op_out dec p reply"
    using assms(4-6) by (auto simp: dao_step_connected split: prod.splits if_splits)
  show ?thesis
  proof (cases p)
    case (Update k x)
    then have "map_option rr_type reply = Some REDIS_REPLY_STATUS \<and> view c' = (view c)(makeKey prefix k \<mapsto> enc x)"
      using serves_set [OF assms(1) _ assms(6)] cmd by simp
    then show ?thesis using Update r assms(3) by (auto simp: holds_def)
  next
    case (Remove k)
    then have "map_option rr_type reply = Some REDIS_REPLY_INTEGER \<and> view c' = (view c)(makeKey prefix k := None)"
      using serves_del [OF assms(1) _ assms(6)] cmd by simp
    then show ?thesis using Remove r assms(3) by (auto simp: holds_def)
  next
    case (Find k)
    then have "view c' = view c \<and> reply = Some (case view c (makeKey prefix k) of
        None \<Rightarrow> Reply REDIS_REPLY_NIL None [] | Some v \<Rightarrow> Reply REDIS_REPLY_STRING (Some v) [])"
      using serves_get [OF assms(1) _ assms(6)] cmd by simp
    then show ?thesis using Find r assms(2,3)
      by (cases "m k") (auto simp: holds_def rr_getObject_def rr_setResult_def redis_result_new_def)
  qed
qed

lemma dao_step_stays: "\<exists>r c'. dao_step H enc dec prefix p (Some (Some c)) = Some (r, Some (Some c'))"
  by (auto simp: dao_step_connected split: prod.splits)

lemma dao_step_error:
  assumes "redis_serves H view" "ctx_err H c \<noteq> 0"
  shows "\<exists>c'. dao_step H enc dec prefix p (Some (Some c)) = Some (op_failed p, Some (Some c')) \<and> ctx_err H c' \<noteq> 0"
  using serves_error [OF assms, of "op_args enc prefix p"] by (auto simp: dao_step_connected split: prod.splits)

lemma dao_run_error:
  "redis_serves H view \<Longrightarrow> ctx_err H c \<noteq> 0 \<Longrightarrow>
    \<exists>c'. dao_run H enc dec prefix ps (Some (Some c)) = Some (map op_failed ps, Some (Some c')) \<and> ctx_err H c' \<noteq> 0"
proof (induction ps arbitrary: c)
  case (Cons p ps)
  obtain c1 where c1: "dao_step H enc dec prefix p (Some (Some c)) = Some (op_failed p, Some (Some c1))" "ctx_err H c1 \<noteq> 0"
    using dao_step_error [OF Cons.prems] by blast
  then show ?case using Cons.IH [OF Cons.prems(1) c1(2)] by auto
qed simp


text \<open>A server that is a map, and a connection that breaks when a number of commands has been sent.\<close>

definition map_server :: "nat \<Rightarrow> (nat \<times> (byte list \<rightharpoonup> byte list)) hiredis" where
  "map_server n = \<lparr>ctx_err = (\<lambda>(i, m). if i < n then 0 else 3),
    commandArgv = (\<lambda>args (i, m).
      if i + 1 \<ge> n then (None, (i + 1, m))
      else if args ! 0 = to_bytes ''SET'' then (Some (Reply REDIS_REPLY_STATUS (Some (to_bytes ''OK'')) []), (i + 1, m(args ! 1 \<mapsto> args ! 2)))
      else if args ! 0 = to_bytes ''DEL'' then (Some (Reply REDIS_REPLY_INTEGER None []), (i + 1, m(args ! 1 := None)))
      else (Some (case m (args ! 1) of None \<Rightarrow> Reply REDIS_REPLY_NIL None [] | Some v \<Rightarrow> Reply REDIS_REPLY_STRING (Some v) []), (i + 1, m))),
    command = (\<lambda>_ (i, m). (None, (n, m)))\<rparr>"

lemma map_server_serves: "redis_serves (map_server n) snd"
  by (auto simp: redis_serves_def map_server_def to_bytes_def split: if_splits)


text \<open>Once a context has an error nothing that is asked through it succeeds again: a read finds nothing
  and a write is refused, and no code of the class makes a new context.\<close>

theorem broken_link_stays_broken:
  assumes "redis_serves H view" "ctx_err H c \<noteq> 0"
  shows "\<exists>db. dao_run H enc dec prefix ps (Some (Some c)) = Some (map op_failed ps, db)"
  using dao_run_error [OF assms] by blast


lemma to_bytes_inj: "to_bytes s = to_bytes t \<longleftrightarrow> s = t"
proof -
  have "c = d" if "(of_nat (of_char c) :: byte) = of_nat (of_char d)" for c d
  proof -
    have "of_char c mod 2 ^ 8 = (of_char d mod 2 ^ 8 :: nat)"
      using arg_cong [OF that, of unat] by (simp add: unsigned_of_nat take_bit_eq_mod)
    then show ?thesis by (simp add: of_char_mod_256)
  qed
  then have "inj (\<lambda>c. of_nat (of_char c) :: byte)" by (auto intro: injI)
  then show ?thesis by (simp add: to_bytes_def inj_map_eq_map)
qed

lemma split_last_eq:
  assumes "p @ c # x = q @ c # y" "c \<notin> set x" "c \<notin> set y"
  shows "p = q \<and> x = y"
proof -
  have "takeWhile (\<lambda>b. b \<noteq> c) (rev (p @ c # x)) = rev x" "takeWhile (\<lambda>b. b \<noteq> c) (rev (q @ c # y)) = rev y"
    using assms(2,3) by (simp_all add: takeWhile_append)
  then have "x = y" using assms(1) by simp
  then show ?thesis using assms(1) by simp
qed


lemma int_text_inj: "int_to_string i = int_to_string j \<longleftrightarrow> i = j"
proof
  assume eq: "int_to_string i = int_to_string j"
  have digits: "dec_digits m = dec_digits n \<Longrightarrow> m = n" for m n
    by (metis dec_value_digits of_nat_eq_iff)
  have sign: "CHR ''-'' \<notin> set (dec_digits n)" for n
    using dec_digits_digits(1) [of n] by (auto simp: list_all_iff is_digit_def)
  have "i < 0 \<longleftrightarrow> j < 0"
    using eq sign [of "nat i"] sign [of "nat j"] by (auto simp: int_to_string_def split: if_splits)
      (metis list.set_intros(1))+
  then show "i = j" using eq by (auto simp: int_to_string_def dest!: digits split: if_splits)
qed simp

lemma no_colon: "58 \<notin> set (id_key i)"
proof -
  have "CHR '':'' \<notin> set (dec_digits n)" for n
    using dec_digits_digits(1) [of n] by (auto simp: list_all_iff is_digit_def)
  then have "CHR '':'' \<notin> set (int_to_string (sint i))" by (simp add: int_to_string_def)
  moreover have "c = CHR '':''" if "(of_nat (of_char c) :: byte) = 58" for c
    using that to_bytes_inj [of "[c]" "'':''"] by (simp add: to_bytes_def)
  ultimately show ?thesis unfolding id_key_def to_bytes_def by fastforce
qed

text \<open>Objects with different prefixes or different numbers never share a key.\<close>

theorem number_keys_distinct:
  "makeKey p (id_key i) = makeKey q (id_key j) \<longleftrightarrow> p = q \<and> i = j"
  using split_last_eq [of p 58 "id_key i" q "id_key j"] no_colon
  by (auto simp: makeKey_def id_key_def to_bytes_inj int_text_inj intro: signed_word_eqI)

text \<open>With texts as keys they may.\<close>

lemma text_keys_clash: "makeKey (to_bytes ''a:b'') (to_bytes ''c'') = makeKey (to_bytes ''a'') (to_bytes ''b:c'')"
  by (simp add: makeKey_def to_bytes_def)

section \<open>Reading a list\<close>

text \<open>The loop of a caller: \<open>fetch\<close> and \<open>getData\<close> until there is nothing more.\<close>

fun read_list :: "nat \<Rightarrow> redis_result \<Rightarrow> byte list option list option" where
  "read_list 0 R = None"
| "read_list (Suc n) R =
    (case rr_fetch R of
       None \<Rightarrow> None
     | Some False \<Rightarrow> Some []
     | Some True \<Rightarrow> Option.bind (rr_getData R) (\<lambda>(s, R). map_option (\<lambda>ss. s # ss) (read_list n R)))"

lemma read_list_from:
  assumes "rr_str r = None"
  shows "rs_reply R = Some r \<Longrightarrow> rs_pos R \<le> length (rr_elements r) \<Longrightarrow> length (rr_elements r) - rs_pos R < n \<Longrightarrow>
    read_list n R = Some (map rr_str (drop (rs_pos R) (rr_elements r)))"
proof (induction n arbitrary: R)
  case (Suc n)
  show ?case
  proof (cases "rs_pos R < length (rr_elements r)")
    case True
    then have "rr_fetch R = Some True" "current_str R = Some (rr_str (rr_elements r ! rs_pos R))"
      using Suc.prems assms by (simp_all add: rr_fetch_def rr_getRowCount_def current_str_def)
    moreover have "read_list n (R\<lparr>rs_pos := rs_pos R + 1\<rparr>) = Some (map rr_str (drop (rs_pos R + 1) (rr_elements r)))"
      using Suc.IH [of "R\<lparr>rs_pos := rs_pos R + 1\<rparr>"] Suc.prems True by simp
    ultimately show ?thesis using True by (simp add: rr_getData_def Cons_nth_drop_Suc [symmetric])
  next
    case False
    then show ?thesis using Suc.prems assms by (simp add: rr_fetch_def rr_getRowCount_def)
  qed
qed simp

text \<open>A list is read element by element; a single string, which counts as one row, once.\<close>

theorem list_read:
  assumes "length (rr_elements r) < n" "1 < n"
  shows "read_list n (rr_setResult (Some r) redis_result_new) =
    Some (case rr_str r of None \<Rightarrow> map rr_str (rr_elements r) | Some s \<Rightarrow> [Some s])"
proof (cases "rr_str r")
  case None
  then show ?thesis
    using read_list_from [OF None, of "rr_setResult (Some r) redis_result_new" n] assms(1)
    by (simp add: rr_setResult_def redis_result_new_def)
next
  case (Some s)
  obtain k where "n = Suc (Suc k)" using assms(2) by (cases n rule: nat.exhaust; cases "n - 1") auto
  then show ?thesis using Some
    by (simp add: rr_setResult_def redis_result_new_def rr_fetch_def rr_getRowCount_def rr_getData_def current_str_def)
qed

theorem list_read_witness:
  "read_list 3 (rr_setResult (Some (Reply REDIS_REPLY_ARRAY None
      [Reply REDIS_REPLY_STRING (Some [65]) [], Reply REDIS_REPLY_NIL None []])) redis_result_new) = Some [Some [65], None]"
  using list_read [of "Reply REDIS_REPLY_ARRAY None [Reply REDIS_REPLY_STRING (Some [65]) [], Reply REDIS_REPLY_NIL None []]" 3]
  by simp

theorem broken_link_stays_broken_witness:
  "\<exists>db. dao_run (map_server 1) mem32 load32 [] [Update [49] 7, Find [49]] (Some (Some (1, Map.empty))) =
    Some ([Done False, Found None], db)"
  using broken_link_stays_broken [OF map_server_serves, of 1 "(1, Map.empty)" mem32 load32 "[]" "[Update [49] 7, Find [49]]"]
  by (simp add: map_server_def)

end
