(* ===== verification/Db_Pool.thy ===== *)
theory Db_Pool
  imports Sql_Access Redis_Access Actors
begin

text \<open>
  Database tasks and the threads that run them, src/dal/db/DBThreadPool.cpp: a task runs a statement or
  a command on the connection of its thread and keeps the error for its callback; a thread is an actor
  with a connection; the pool gives a task to the thread its hash code selects.
\<close>

section \<open>Tasks\<close>

text \<open>\<open>task_calls\<close>: the calls of the callback, with the error number, whether there is an error text, and
  the result.\<close>

record 'r db_task =
  task_ret :: int
  task_errno :: int
  task_result :: 'r
  task_backfunc :: bool
  task_calls :: "(int \<times> bool \<times> 'r) list"

definition task_new :: "'r \<Rightarrow> bool \<Rightarrow> 'r db_task" where
  "task_new result backfunc =
    \<lparr>task_ret = 0, task_errno = 0, task_result = result, task_backfunc = backfunc, task_calls = []\<rparr>"

definition task_complete :: "'r db_task \<Rightarrow> 'r db_task" where
  "task_complete T =
    (if task_backfunc T then
       T\<lparr>task_calls := task_calls T @ [(task_errno T, task_ret T < 0, task_result T)], task_backfunc := False\<rparr>
     else T)"

text \<open>\<open>errno\<close> is what \<open>getErrno\<close> answers after a failure; the first three arguments are those of
  \<open>sp_prepare\<close>.\<close>

definition sql_task_run ::
    "bool \<Rightarrow> bool \<Rightarrow> nat \<Rightarrow> (sent_param list \<Rightarrow> sql_reply) \<Rightarrow> int \<Rightarrow> sql_prepare \<Rightarrow>
      result_set option db_task \<Rightarrow> (sql_prepare \<times> result_set option db_task) option" where
  "sql_task_run made accepted param_count query errno P T =
    (case sp_prepare made accepted param_count P of
       None \<Rightarrow> None
     | Some (ret, P) \<Rightarrow>
         map_option (\<lambda>(ret, R).
             let T = T\<lparr>task_ret := ret, task_result := R\<rparr>
             in (P, if ret < 0 then T\<lparr>task_errno := errno\<rparr> else T))
           (if ret \<ge> 0 then sp_execute query P (task_result T) else Some (ret, task_result T)))"

definition redis_task_run ::
    "'c hiredis \<Rightarrow> redis_command \<Rightarrow> 'c option \<Rightarrow> redis_result db_task \<Rightarrow> ('c option \<times> redis_result db_task) option" where
  "redis_task_run H C ctx T =
    map_option (\<lambda>(ret, C, ctx, R).
        let T = T\<lparr>task_ret := ret, task_result := R\<rparr>
        in (ctx, if ret < 0 then T\<lparr>task_errno := redis_getErrno H ctx\<rparr> else T))
      (redis_execute H C ctx (task_result T))"

section \<open>Threads\<close>

text \<open>The connection of a redis thread when it has started: the object is there whether connecting
  succeeded or not, without a context if not.\<close>

definition db_onStart :: "'c hiredis \<Rightarrow> 'c \<Rightarrow> 'c redis_db" where
  "db_onStart H c = Some (snd (redis_connect H c None))"

definition db_onStop :: "'c redis_db \<Rightarrow> 'c redis_db" where
  "db_onStop db = None"

text \<open>The closure of \<open>executeTask\<close>: the task gets the connection of the thread that runs it.\<close>

definition db_run_task ::
    "'c hiredis \<Rightarrow> redis_command \<Rightarrow> 'c redis_db \<Rightarrow> redis_result db_task \<Rightarrow> ('c redis_db \<times> redis_result db_task) option" where
  "db_run_task H C db T =
    (case db of None \<Rightarrow> None | Some ctx \<Rightarrow> map_option (\<lambda>(ctx, T). (Some ctx, T)) (redis_task_run H C ctx T))"

section \<open>The pool\<close>

record ('p, 'm) db_pool =
  db_threads :: "('p, 'm) actor list"

text \<open>The argument says for each thread whether it could be created.\<close>

definition pool_create :: "bool list \<Rightarrow> ('p, 'm) db_pool \<Rightarrow> ('p, 'm) db_pool" where
  "pool_create created B =
    fold (\<lambda>ok B. case actor_start ok (actor_new 0) of
        Some (True, a) \<Rightarrow> B\<lparr>db_threads := db_threads B @ [a]\<rparr>
      | _ \<Rightarrow> B) created B"

text \<open>The remainder of the language has the sign of the hash code; a negative index is out of range.\<close>

definition thread_index :: "i32 \<Rightarrow> nat \<Rightarrow> int" where
  "thread_index hashCode n =
    (if sint hashCode < 0 then - ((- sint hashCode) mod int n) else sint hashCode mod int n)"

definition pool_executeTask :: "'p \<Rightarrow> 'm \<Rightarrow> i32 \<Rightarrow> ('p, 'm) db_pool \<Rightarrow> ('p, 'm) db_pool option" where
  "pool_executeTask p task hashCode B =
    (if db_threads B = [] then Some B
     else let i = thread_index hashCode (length (db_threads B))
          in if i < 0 then None
             else Some (B\<lparr>db_threads := (db_threads B)[nat i := snd (actor_execute p task (db_threads B ! nat i))]\<rparr>))"

fun pool_post :: "'p \<Rightarrow> (i32 \<times> 'm) list \<Rightarrow> ('p, 'm) db_pool \<Rightarrow> ('p, 'm) db_pool option" where
  "pool_post p [] B = Some B"
| "pool_post p ((h, m) # ms) B = Option.bind (pool_executeTask p m h B) (pool_post p ms)"


section \<open>What the pool does with tasks\<close>

definition pool_running :: "('p, 'm) db_pool \<Rightarrow> bool" where
  "pool_running B \<longleftrightarrow> db_threads B \<noteq> [] \<and> list_all is_run (db_threads B)"

lemma thread_index_nonneg:
  assumes "0 \<le> sint h" "0 < n"
  shows "\<exists>i. thread_index h n = int i \<and> i < n"
  using assms by (intro exI [of _ "nat (sint h mod int n)"]) (simp add: thread_index_def nat_less_iff)

lemma pool_execute_running:
  assumes "pool_running B" "0 \<le> sint h"
  shows "\<exists>B' i. pool_executeTask p m h B = Some B' \<and> pool_running B' \<and>
    length (db_threads B') = length (db_threads B) \<and>
    thread_index h (length (db_threads B)) = int i \<and> i < length (db_threads B) \<and>
    (\<forall>k < length (db_threads B). enqueued (db_threads B' ! k) =
      (if k = i then enqueued (db_threads B ! k) @ [(p, m)] else enqueued (db_threads B ! k)))"
proof -
  obtain i where i: "thread_index h (length (db_threads B)) = int i" "i < length (db_threads B)"
    using thread_index_nonneg [OF assms(2)] assms(1) by (auto simp: pool_running_def)
  then have run: "is_run (db_threads B ! i)" using assms(1) by (simp add: pool_running_def list_all_length)
  obtain a where a: "actor_execute p m (db_threads B ! i) = (True, a)" "is_run a"
      "enqueued a = enqueued (db_threads B ! i) @ [(p, m)]"
    using actor_execute_running [OF run, of p m] by blast
  let ?B = "B\<lparr>db_threads := (db_threads B)[i := a]\<rparr>"
  have "pool_executeTask p m h B = Some ?B"
    using i a(1) assms(1) by (simp add: pool_executeTask_def pool_running_def)
  moreover have "pool_running ?B"
    using assms(1) a(2) i(2) by (auto simp: pool_running_def list_all_length nth_list_update)
  moreover have "\<forall>k < length (db_threads B). enqueued (db_threads ?B ! k) =
      (if k = i then enqueued (db_threads B ! k) @ [(p, m)] else enqueued (db_threads B ! k))"
    using a(3) by (simp add: nth_list_update)
  ultimately show ?thesis using i by (intro exI [of _ ?B] exI [of _ i]) simp
qed

text \<open>Tasks with hash codes that are not negative are all accepted, each by the thread its code selects
  and in the order they were posted, so that tasks of one code run one after another.\<close>

theorem pool_keeps_order:
  assumes "pool_running B" "\<forall>e \<in> set ms. 0 \<le> sint (fst e)"
  shows "\<exists>B'. pool_post p ms B = Some B' \<and> length (db_threads B') = length (db_threads B) \<and>
    (\<forall>k < length (db_threads B). of_producer p (enqueued (db_threads B' ! k)) =
      of_producer p (enqueued (db_threads B ! k)) @
        map snd (filter (\<lambda>e. thread_index (fst e) (length (db_threads B)) = int k) ms))"
  using assms
proof (induction ms arbitrary: B)
  case (Cons e ms)
  obtain h m where e: "e = (h, m)" by (cases e)
  obtain B1 i where B1: "pool_executeTask p m h B = Some B1" "pool_running B1"
      "length (db_threads B1) = length (db_threads B)"
      "thread_index h (length (db_threads B)) = int i"
      "\<forall>k < length (db_threads B). enqueued (db_threads B1 ! k) =
        (if k = i then enqueued (db_threads B ! k) @ [(p, m)] else enqueued (db_threads B ! k))"
    using pool_execute_running [OF Cons.prems(1), of h p m] Cons.prems(2) e by auto
  then obtain B' where "pool_post p ms B1 = Some B'" "length (db_threads B') = length (db_threads B)"
      "\<forall>k < length (db_threads B). of_producer p (enqueued (db_threads B' ! k)) =
        of_producer p (enqueued (db_threads B1 ! k)) @
          map snd (filter (\<lambda>e. thread_index (fst e) (length (db_threads B)) = int k) ms)"
    using Cons.IH [OF B1(2)] Cons.prems(2) by auto
  then show ?case using B1 by (auto simp: e)
qed simp

theorem pool_keeps_order_witness:
  "\<exists>B'. pool_post () [(3, ''a''), (4, ''b''), (5, ''c'')] (pool_create [True, False, True] \<lparr>db_threads = []\<rparr>) = Some B' \<and>
    of_producer () (enqueued (db_threads B' ! 1)) = [''a'', ''c'']"
proof -
  let ?B = "pool_create [True, False, True] \<lparr>db_threads = []\<rparr> :: (unit, string) db_pool"
  have B: "pool_running ?B" "length (db_threads ?B) = 2" "enqueued (db_threads ?B ! 1) = []"
    by (simp_all add: pool_create_def actor_start_def actor_new_def pool_running_def)
  have h: "thread_index 3 2 = 1" "thread_index 4 2 = 0" "thread_index 5 2 = 1" by (simp_all add: thread_index_def)
  have "\<exists>B'. pool_post () [(3, ''a''), (4, ''b''), (5, ''c'')] ?B = Some B' \<and> length (db_threads B') = length (db_threads ?B) \<and>
    (\<forall>k < length (db_threads ?B). of_producer () (enqueued (db_threads B' ! k)) = of_producer () (enqueued (db_threads ?B ! k)) @
        map snd (filter (\<lambda>e. thread_index (fst e) (length (db_threads ?B)) = int k) [(3, ''a''), (4, ''b''), (5, ''c'')]))"
    by (rule pool_keeps_order [OF B(1)]) simp
  then show ?thesis unfolding B(2) using B(3) h by (auto dest: spec [of _ "1 :: nat"])
qed

text \<open>A negative hash code that the number of threads does not divide selects an element before the first.\<close>

theorem negative_hash_crashes:
  assumes "db_threads B \<noteq> []" "sint hashCode < 0" "\<not> int (length (db_threads B)) dvd sint hashCode"
  shows "pool_executeTask p task hashCode B = None"
proof -
  let ?n = "int (length (db_threads B))"
  have "(- sint hashCode) mod ?n \<noteq> 0" using assms(3) by (simp add: mod_eq_0_iff_dvd)
  moreover have "0 \<le> (- sint hashCode) mod ?n" by (rule pos_mod_sign) (use assms(1) in simp)
  ultimately have "0 < (- sint hashCode) mod ?n" by linarith
  then show ?thesis using assms(1,2) by (simp add: pool_executeTask_def Let_def thread_index_def)
qed

theorem negative_hash_crashes_witness:
  "pool_executeTask () ''a'' (- 1) (pool_create [True, True] \<lparr>db_threads = []\<rparr>) = None"
  by (rule negative_hash_crashes) (simp_all add: pool_create_def actor_start_def actor_new_def)

text \<open>A redis thread that could not connect runs its first task all the same, through a null context.\<close>

theorem unconnected_thread_crashes:
  assumes "ctx_err H c \<noteq> 0"
  shows "db_run_task H C (db_onStart H c) T = None"
  using assms by (simp add: db_run_task_def db_onStart_def redis_connect_def redis_task_run_def redis_execute_def)

theorem unconnected_thread_crashes_witness:
  "db_run_task (map_server 0) (rc_new (to_bytes ''PING'')) (db_onStart (map_server 0) (0, Map.empty)) (task_new redis_result_new True) = None"
  by (rule unconnected_thread_crashes) (simp add: map_server_def)

text \<open>A task reports to its callback once: the error number and a text if it failed, else the result that
  the server sent, and without an error number.\<close>

theorem sql_task_reports:
  assumes "sql_task_run made accepted n query errno P (task_new R True) = Some (P', T)"
  shows "\<exists>R'. task_calls (task_complete (task_complete T)) = [(if task_ret T < 0 then errno else 0, task_ret T < 0, R')] \<and>
    (if made \<and> accepted then sp_execute query P' R = Some (task_ret T, R') else task_ret T = - 1 \<and> R' = R)"
  using assms
  by (auto simp: sql_task_run_def sp_prepare_def task_new_def task_complete_def Let_def split: if_splits prod.splits)

theorem sql_task_reports_witness:
  "\<exists>T P'. sql_task_run False True 0 (\<lambda>_. sample_reply) 2013 (sql_prepare_new insert_sql) (task_new None True) = Some (P', T) \<and>
    task_calls (task_complete (task_complete T)) = [(2013, True, None)]"
proof -
  obtain T P' where T: "sql_task_run False True 0 (\<lambda>_. sample_reply) 2013 (sql_prepare_new insert_sql) (task_new None True) = Some (P', T)"
    by (simp add: sql_task_run_def sp_prepare_def Let_def)
  show ?thesis using sql_task_reports [OF T] T by auto
qed

end
