(* ===== verification/Spec2Isabelle.thy ===== *)
theory Spec2Isabelle
  imports Send_Protocol Receive_Protocol Event_Loop Dispatch Peer_Conn Object_Pool Snowflake Router Gateway Game Timers Actors Base64 Sha1 Discovery Simple_Ring Idl_Gen Db_Pool
begin

text \<open>
  A distributed game server in C++: gateways accept players, a router connects gateways and game
  servers, game servers keep the players, and all of them find one another through a registry. This
  development models the code that carries this: the network library (src/transport), the containers and
  services under it (src/core), the directory of peer servers (src/athena-discovery), and the log-in,
  routing and data access of the servers (src/gateway, src/router, src/game, src/dal). Definitions have
  the names of the functions they model, with a prefix where two classes use one name.

  \<^bold>\<open>Parts.\<close>
  \<^item> \<open>Athena_Prelude\<close>: word types of core/common/BaseType.h, memory as byte lists, ring windows.
  \<^item> \<open>Byte_Order\<close> (core/common/ByteConverter.h, transport/ByteUtils.cpp): swaps and integers in memory,
    with the locale \<open>int_codec\<close> for the fixed-width fields.
  \<^item> \<open>Bounded_Fifo\<close>, \<open>Ring_Buffer\<close>, \<open>Byte_Buffer\<close> (core/common/RingByteBuf, ByteBuffer.h): the byte ring with
    its 64-bit indices; \<open>bounded_fifo\<close> is the contract that the ring is shown to implement.
  \<^item> \<open>Frame\<close>, \<open>Channel\<close> (transport/Channel): the frame format and one connection, with its send and
    receive rings, the frame writer, the asynchronous sender and the close sequence. \<open>Send_Protocol\<close> is
    the state machine of the sending side (tasks, the write in flight, its callback, closing);
    \<open>Receive_Protocol\<close> the read callbacks of transport/EventLoop.cpp.
  \<^item> \<open>Event_Loop\<close> (transport/EventLoop): the task queue, the registry of channels, connecting, adopting
    and stopping. \<open>Tcp_Server\<close> (transport/ServerEventLoop, AthenaTcpServer, TcpClient): the boss loop that
    accepts and hands connections to the workers, and the life of a server and of a client.
  \<^item> \<open>Dispatch\<close> (transport/Decoder.cpp, Dispatcher.h, IdleStateHandler.cpp), \<open>Object_Pool\<close>
    (core/common/ObjectPool.hpp), \<open>Snowflake\<close> (core/utils/Snowflake.h), \<open>Actors\<close> (core/actor and the
    actors of the servers).
  \<^item> \<open>Heap_Order\<close>, \<open>Timer_Heap\<close>, \<open>Timers\<close> (core/common/Heap, Timer): \<open>timer_queue\<close> is the contract, provided
    by a heap in a list and by the pointer heap of the code, which refines it.
  \<^item> \<open>Simple_Ring\<close> (core/common/RingBuffer.hpp): the ring of elements, a second provider of \<open>bounded_fifo\<close>;
    \<open>Text_Utils\<close> (core/common/CsvParser, HttpParam, Tools.cpp, XTime.cpp): tables, query strings, searching.
  \<^item> \<open>Idl_Token\<close>, \<open>Idl_Parser\<close>, \<open>Idl_Gen\<close> (core/serialization): the compiler of message descriptions. The
    scanner works on a buffer; the parser has the tables and the list of the calls it makes of its
    \<open>Event\<close> object; \<open>event_sink\<close> is what it needs of that object, provided by the generators for C++ and Lua,
    whose state holds the texts written so far.
  \<^item> \<open>Json\<close> (core/utils/Json, JsonReader), \<open>Base64\<close>, \<open>Sha1\<close> (core/common/base64.cpp, sha1.cpp).
  \<^item> \<open>Node_Json\<close> (core/utils/JsonUtils), \<open>Discovery\<close> (athena-discovery/discovery/AthenaEtcdClient,
    AthenaDiscovery, and the Discovery.cpp of each server): node descriptions, registration and its
    monitor, and how a server finds the others when it starts.
  \<^item> \<open>Peer_Conn\<close> (athena-discovery/discovery/PeerConn), \<open>Router\<close>, \<open>Gateway\<close>, \<open>Game\<close> (the handlers and
    services of the three servers, and dal/mongodb/MongodbDAO.hpp).

  \<^bold>\<open>State and steps.\<close> A class is a record, a pointer an address of a store where it is shared and a value
  elsewhere, a member function a function on the record, and a handler the list of what it sends
  together with the new state. What libuv, the kernel, the allocator, the clock, the protobuf code, the
  database driver or a user callback answers is an argument of the definition that asks. Threads take
  turns: a data structure with a lock is one step per call, and the interleavings are runs of steps.
  Undefined behaviour (a null or deleted pointer, a handle closed twice) is \<open>None\<close> or an error value,
  and so is a loop that does not end; theorems that an operation returns say so.

  \<^bold>\<open>What is shown.\<close> For the containers: that they keep their invariants, are the abstract queue, heap or
  pool, and what they do out of bounds. For the links: what is accepted for sending arrives, whole and in
  order, for every chunking and interleaving (\<open>send_stream\<close>, \<open>receive_stream\<close>, \<open>end_to_end\<close>); malformed
  input ends the loop; closing happens once. For the loops: draining ends, stopping closes everything
  but a pending connection; the boss spreads connections evenly and each becomes a channel of one
  worker. For the servers: who registered is found, lost registrations come back, no player is lost or reached through a dead connection,
  records are kept, messages go where the tables say. For the compiler: texts scan back to their tokens,
  every file is read to an end, the calls of an accepted file are well nested (\<open>ev_run\<close> is the grammar of
  the places), and the texts generated from them are balanced and complete. Theorems with \<open>error\<close> as their kind state
  what the code does wrong.

  \<^bold>\<open>Bounds.\<close> Integers have the width of the code where they can wrap (ring indices, packet lengths,
  channel ids, snowflake fields, due times, digests). Loops that follow the input recur on it or on a
  measure; the reader of JSON has fuel, the length of the text, which \<open>parser_ends\<close> shows to be enough;
  the loops of the compiler have twice the length of what is left to read and one more, enough by
  \<open>compile_wellformed\<close>; the depth of its imports is an argument, which the code does not bound;
  \<open>read_loop\<close>, \<open>execute\<close>, \<open>spin_until\<close>, \<open>climb\<close> and \<open>descend\<close> are partial functions with theorems that
  they return.

  \<^bold>\<open>Not modelled.\<close> Generated code (src/code-gen, the *.gen.cpp of src/game/code-gen), vendored code
  (src/3rd, the http parsers of src/core/utils, src/engine-lua/pb.c), the Lua bindings, logging, the main
  programs and configuration readers, the client used for testing, the MySQL and Redis access, which only pass
  strings to their drivers, and the code whose whole effect is a call to a library (etcd, mongocxx,
  toml). PROJECT.json lists each with its reason.
\<close>

section \<open>From one end of a connection to the other\<close>

text \<open>C1. What one end accepted for sending is what the business handler of the other end is given:
  an idle open sender has put its frames on the wire, and a receiver of the same link mode whose ring
  holds each of them hands over exactly these frames, in order, for every interleaving at the sender
  and every chunking at the receiver, and stays open.\<close>

theorem end_to_end:
  assumes "fresh_conn m c" "send_run c fs c'" "\<not> closed c'" "uv_writes c' = []"
    and "ring_inv (recv_buffer d)" "ring_limit (recv_buffer d) < 2 ^ 31" "\<not> closed d"
    "ring_data (recv_buffer d) = []" "proto_mode d = m"
    "\<forall>f \<in> set fs. frame_ok m f \<and> frame_size m f \<le> ring_limit (recv_buffer d)"
    and "handler_ok h" "\<And>b e. closed (h b e) = closed e" "\<forall>n. grow n"
    and "\<forall>k \<in> set ks. 0 < k" "length (wire c') \<le> length ks"
  shows "\<exists>pending s' d'. rx_feed grow h now ks (wire c') s d =
    Some (map (frame_bytes m) fs, pending, s', d') \<and> \<not> closed d'"
proof -
  have w: "wire c' = stream_bytes m fs"
    using open_writes [of m fs c'] send_inv_send_run [OF assms(2) fresh_send_inv [OF assms(1)]] assms(3,4)
    by auto
  have st: "rx_state m (ring_limit (recv_buffer d)) fs (wire c') d"
    using assms(5-10) magic_off_header [of m]
    by (auto simp: rx_state_def recv_ok_def w frame_size_def simp del: length_ring_data)
  obtain gs hs pending s' d' where F: "rx_feed grow h now ks (wire c') s d =
      Some (map (frame_bytes m) gs, pending, s', d')" "fs = gs @ hs"
    "rx_state m (ring_limit (recv_buffer d)) hs pending d'"
    "(\<forall>k \<in> set ks. 0 < k) \<longrightarrow> length pending \<le> length (wire c') - length ks"
    using rx_feed_frames [OF st assms(11-13), of now ks s] by (elim exE conjE) (rule that)
  have "pending = []" using F(4) assms(14,15) by simp
  then have "hs = []" using F(3)
    by (cases hs) (auto simp: rx_state_def simp del: length_ring_data)
  then show ?thesis using F by (simp add: rx_state_def)
qed

theorem end_to_end_witness:
  "\<exists>pending s' d'. rx_feed (\<lambda>n. True) (\<lambda>b c. c) 0 (replicate 14 1) (wire (flush (flush (flush (ex_sent CLIENT))))) 8192 (ex_conn CLIENT) =
    Some ([frame_bytes CLIENT ex_frame], pending, s', d')"
proof -
  let ?c = "flush (flush (flush (ex_sent CLIENT)))"
  have inv: "send_inv CLIENT [ex_frame] (ex_sent CLIENT)"
    using send_inv_send_run [OF ex_sent_run fresh_send_inv [OF ex_conn_fresh]] by simp
  have run: "send_run (ex_conn CLIENT) [ex_frame] ?c"
    using send_run_trans [OF flush_run [OF flush_inv [OF flush_inv [OF inv]]]
      send_run_trans [OF flush_run [OF flush_inv [OF inv]]
      send_run_trans [OF flush_run [OF inv] ex_sent_run]]] by simp
  have c: "\<not> closed ?c" "uv_writes ?c = []" "length (wire ?c) = 14" by code_simp+
  have d: "recv_buffer (ex_conn CLIENT) = ex_ring" "proto_mode (ex_conn CLIENT) = CLIENT"
    "\<not> closed (ex_conn CLIENT)"
    by (simp_all add: ex_conn_def conn_of_def channel.extend_def)
  have f: "frame_size CLIENT ex_frame = 14" by code_simp
  show ?thesis
    using end_to_end [OF ex_conn_fresh run c(1,2), of "ex_conn CLIENT" "\<lambda>b c. c" "\<lambda>n. True" "replicate 14 1" 0 8192]
    by (auto simp: d c(3) ex_ring_inv handler_ok_def frame_ok_def f max_frame_def simp del: length_ring_data)
qed


section \<open>From the boss to the workers\<close>


definition ex_worker :: event_loop where
  "ex_worker = setBuffSize 16 16 (event_loop_new 6 True)"

lemma ex_worker_adopts: "adoptable ex_worker (ex_uv, 0)"
proof -
  have "case bb_new (ring_alloc ex_uv) (clampBuffSize 16) of Inl e \<Rightarrow> False | Inr r \<Rightarrow> True" by code_simp
  then show ?thesis
    by (auto simp: adoptable_def ex_worker_def setBuffSize_def event_loop_new_def ex_uv_def split: sum.splits)
qed

end
